(* ===== verification/Prelude.thy ===== *)
theory Prelude
  imports Main "HOL-Library.AList" "HOL-Library.Sublist"
begin

text \<open>
  Shared vocabulary of the development: the Python string operations the sources use, insertion
  ordered dictionaries, error-propagating loops, and the generic lemmas on them.

  A Python \<open>str\<close> is a \<^typ>\<open>string\<close>: one \<^typ>\<open>char\<close> per code point, so the model covers the
  code points U+0000 to U+00FF; character classes (\<open>str.isspace\<close>, \<open>str.isalnum\<close>) are written
  out exactly for that range. A Python \<open>dict\<close> whose order is observable is an association list
  updated with \<^const>\<open>AList.update\<close> (an existing key keeps its position, a new key goes last)
  and \<^const>\<open>AList.delete\<close>. A raised exception is \<^const>\<open>Inl\<close>, a normal return \<^const>\<open>Inr\<close>.
\<close>

named_theorems py_str "facts on the Python string operations"
named_theorems inv_intros "preservation of component invariants, as introduction rules"

section \<open>Characters and strings\<close>

abbreviation NL :: char where "NL \<equiv> CHR 0x0A"
abbreviation CR :: char where "CR \<equiv> CHR 0x0D"

definition is_space :: "char \<Rightarrow> bool" where
  "is_space c = (let n = (of_char c :: nat) in
     9 \<le> n \<and> n \<le> 13 \<or> 28 \<le> n \<and> n \<le> 32 \<or> n = 133 \<or> n = 160)"

definition is_digit :: "char \<Rightarrow> bool" where
  \<comment> \<open>the class \<open>\d\<close> of \<open>re\<close>\<close>
  "is_digit c = (let n = (of_char c :: nat) in 48 \<le> n \<and> n \<le> 57)"

definition is_alnum :: "char \<Rightarrow> bool" where
  "is_alnum c = (let n = (of_char c :: nat) in
     48 \<le> n \<and> n \<le> 57 \<or> 65 \<le> n \<and> n \<le> 90 \<or> 97 \<le> n \<and> n \<le> 122 \<or> n = 170 \<or> 178 \<le> n \<and> n \<le> 179 \<or>
     n = 181 \<or> 185 \<le> n \<and> n \<le> 186 \<or> 188 \<le> n \<and> n \<le> 190 \<or> 192 \<le> n \<and> n \<le> 214 \<or>
     216 \<le> n \<and> n \<le> 246 \<or> 248 \<le> n)"

definition lstrip :: "string \<Rightarrow> string" where
  "lstrip s = dropWhile is_space s"

definition rstrip :: "string \<Rightarrow> string" where
  "rstrip s = rev (dropWhile is_space (rev s))"

definition strip :: "string \<Rightarrow> string" where
  "strip s = rstrip (lstrip s)"

definition lower_char :: "char \<Rightarrow> char" where
  "lower_char c = (let n = (of_char c :: nat) in if 65 \<le> n \<and> n \<le> 90 then char_of (n + 32) else c)"

definition lower :: "string \<Rightarrow> string" where
  "lower s = map lower_char s"

definition startswith :: "string \<Rightarrow> string \<Rightarrow> bool" where
  "startswith s p = (take (length p) s = p)"

definition removeprefix :: "string \<Rightarrow> string \<Rightarrow> string" where
  "removeprefix s p = (if startswith s p then drop (length p) s else s)"

fun split_on :: "char \<Rightarrow> string \<Rightarrow> string list" where
  "split_on c [] = [[]]"
| "split_on c (x # xs) =
     (if x = c then [] # split_on c xs
      else (case split_on c xs of [] \<Rightarrow> [[x]] | l # ls \<Rightarrow> (x # l) # ls))"

fun join :: "string \<Rightarrow> string list \<Rightarrow> string" where
  "join sep [] = []"
| "join sep [x] = x"
| "join sep (x # y # zs) = x @ sep @ join sep (y # zs)"

text \<open>\<open>s.replace(old, new)\<close> for a non-empty \<open>old\<close>, left to right without overlaps.\<close>

function replace_all :: "string \<Rightarrow> string \<Rightarrow> string \<Rightarrow> string" where
  "replace_all old new [] = []"
| "replace_all old new (x # xs) =
     (if old \<noteq> [] \<and> startswith (x # xs) old
      then new @ replace_all old new (drop (length old) (x # xs))
      else x # replace_all old new xs)"
  by pat_completeness auto
termination
  by (relation "measure (\<lambda>(old, new, s). length s)") auto

text \<open>\<open>s.find(sub)\<close> and \<open>s.rfind(sub)\<close>, with \<^const>\<open>None\<close> for \<open>-1\<close>.\<close>

fun find_sub :: "string \<Rightarrow> string \<Rightarrow> nat option" where
  "find_sub sub [] = (if sub = [] then Some 0 else None)"
| "find_sub sub (x # xs) =
     (if startswith (x # xs) sub then Some 0 else map_option Suc (find_sub sub xs))"

fun rfind_sub :: "string \<Rightarrow> string \<Rightarrow> nat option" where
  "rfind_sub sub [] = (if sub = [] then Some 0 else None)"
| "rfind_sub sub (x # xs) =
     (case rfind_sub sub xs of
        Some i \<Rightarrow> Some (Suc i)
      | None \<Rightarrow> if startswith (x # xs) sub then Some 0 else None)"

definition contains_sub :: "string \<Rightarrow> string \<Rightarrow> bool" where
  "contains_sub s sub = (find_sub sub s \<noteq> None)"

subsection \<open>Facts on stripping and prefixes\<close>

lemma startswith_append [simp, py_str]: "startswith (p @ s) p"
  by (simp add: startswith_def)

lemma startswith_Nil [simp, py_str]: "startswith s []"
  by (simp add: startswith_def)

lemma startswith_Cons [simp, py_str]:
  "startswith (x # xs) (p # ps) = (x = p \<and> startswith xs ps)"
  by (auto simp: startswith_def)

lemma startswith_empty [simp, py_str]: "startswith [] (p # ps) = False"
  by (simp add: startswith_def)

lemma startswith_iff: "startswith s p \<longleftrightarrow> (\<exists>t. s = p @ t)"
  unfolding startswith_def by (metis append_eq_conv_conj append_take_drop_id)

lemma removeprefix_append [simp, py_str]: "removeprefix (p @ s) p = s"
  by (simp add: removeprefix_def)

lemma lstrip_id: "s = [] \<or> \<not> is_space (hd s) \<Longrightarrow> lstrip s = s"
  by (cases s) (auto simp: lstrip_def)

lemma rstrip_id: "s = [] \<or> \<not> is_space (last s) \<Longrightarrow> rstrip s = s"
  by (cases s rule: rev_cases) (auto simp: rstrip_def)

lemma strip_id: "s = [] \<or> \<not> is_space (hd s) \<and> \<not> is_space (last s) \<Longrightarrow> strip s = s"
  by (auto simp: strip_def lstrip_id rstrip_id)

lemma lstrip_idem [simp]: "lstrip (lstrip s) = lstrip s"
  by (simp add: lstrip_def dropWhile_idem)

lemma rstrip_idem [simp]: "rstrip (rstrip s) = rstrip s"
  by (simp add: rstrip_def dropWhile_idem)

lemma rstrip_prefix: "\<exists>t. s = rstrip s @ t \<and> list_all is_space t"
proof -
  have "s = rstrip s @ rev (takeWhile is_space (rev s))"
    unfolding rstrip_def by (metis rev_append rev_rev_ident takeWhile_dropWhile_id)
  moreover have "list_all is_space (rev (takeWhile is_space (rev s)))"
    by (auto simp: list_all_iff dest: set_takeWhileD)
  ultimately show ?thesis by blast
qed

subsection \<open>Splitting and joining\<close>

lemma split_on_nonempty [simp]: "split_on c s \<noteq> []"
  by (induction s) (auto split: list.splits)

lemma join_Cons: "ls \<noteq> [] \<Longrightarrow> join sep (l # ls) = l @ sep @ join sep ls"
  by (cases ls) auto

lemma join_split_on [simp]: "join [c] (split_on c s) = s"
proof (induction s)
  case Nil
  then show ?case by simp
next
  case (Cons x xs)
  obtain l ls where l: "split_on c xs = l # ls"
    by (meson neq_Nil_conv split_on_nonempty)
  show ?case
  proof (cases "x = c")
    case True
    with Cons show ?thesis by (simp add: join_Cons)
  next
    case False
    with Cons l show ?thesis by (cases ls) auto
  qed
qed

lemma split_on_free: "c \<notin> set s \<Longrightarrow> split_on c s = [s]"
  by (induction s) auto

lemma split_on_append: "c \<notin> set l \<Longrightarrow> split_on c (l @ c # s) = l # split_on c s"
  by (induction l) auto

lemma split_on_join:
  "ls \<noteq> [] \<Longrightarrow> list_all (\<lambda>l. c \<notin> set l) ls \<Longrightarrow> split_on c (join [c] ls) = ls"
proof (induction ls)
  case (Cons l ls)
  then show ?case
    by (cases ls) (auto simp: split_on_free split_on_append)
qed simp

lemma split_on_lines_free: "l \<in> set (split_on c s) \<Longrightarrow> c \<notin> set l"
  by (induction s arbitrary: l) (auto split: if_splits list.splits)

lemma split_on_subset: "l \<in> set (split_on c s) \<Longrightarrow> set l \<subseteq> set s"
  by (induction s arbitrary: l) (fastforce split: if_splits list.splits)+

lemma set_join: "set (join sep ls) \<subseteq> set sep \<union> \<Union> (set ` set ls)"
  by (induction sep ls rule: join.induct) auto

subsection \<open>Replacing\<close>

declare replace_all.simps(2) [simp del]

lemma replace_all_fresh: "old = x # p \<Longrightarrow> x \<notin> set s \<Longrightarrow> replace_all old new s = s"
  by (induction s) (auto simp: replace_all.simps)

lemma replace_all_char: "replace_all [c] new s = concat (map (\<lambda>x. if x = c then new else [x]) s)"
  by (induction s) (auto simp: replace_all.simps)

section \<open>Loops that may raise\<close>

fun fold_err :: "('s \<Rightarrow> 'a \<Rightarrow> 'e + 's) \<Rightarrow> 's \<Rightarrow> 'a list \<Rightarrow> 'e + 's" where
  "fold_err f s [] = Inr s"
| "fold_err f s (x # xs) = (case f s x of Inl e \<Rightarrow> Inl e | Inr s' \<Rightarrow> fold_err f s' xs)"

lemma fold_err_append:
  "fold_err f s (xs @ ys) = (case fold_err f s xs of Inl e \<Rightarrow> Inl e | Inr s' \<Rightarrow> fold_err f s' ys)"
  by (induction xs arbitrary: s) (auto split: sum.splits)

lemma fold_err_invariant:
  assumes "fold_err f s xs = Inr t" and "P s"
    and "\<And>s x s'. x \<in> set xs \<Longrightarrow> P s \<Longrightarrow> f s x = Inr s' \<Longrightarrow> P s'"
  shows "P t"
  using assms
proof (induction xs arbitrary: s)
  case (Cons x xs)
  from Cons.prems(1) obtain s' where s': "f s x = Inr s'" "fold_err f s' xs = Inr t"
    by (auto split: sum.splits)
  have "P s'" using Cons.prems(2,3) s'(1) by (meson list.set_intros(1))
  then show ?case
    by (rule Cons.IH [OF s'(2)]) (meson Cons.prems(3) list.set_intros(2))
qed simp

text \<open>Sequencing of two computations that may raise, and a comprehension whose body may raise.\<close>

definition bind_err :: "'e + 'a \<Rightarrow> ('a \<Rightarrow> 'e + 'b) \<Rightarrow> 'e + 'b" where
  "bind_err x f = (case x of Inl e \<Rightarrow> Inl e | Inr a \<Rightarrow> f a)"

lemma bind_err_simps [simp]: "bind_err (Inl e) f = Inl e" "bind_err (Inr a) f = f a"
  by (simp_all add: bind_err_def)

lemma bind_err_Inr: "bind_err x f = Inr b \<longleftrightarrow> (\<exists>a. x = Inr a \<and> f a = Inr b)"
  by (cases x) auto

lemma bind_err_assoc: "bind_err (bind_err x f) g = bind_err x (\<lambda>a. bind_err (f a) g)"
  by (cases x) auto

lemma bind_err_cong [fundef_cong]:
  "x = y \<Longrightarrow> (\<And>a. y = Inr a \<Longrightarrow> f a = g a) \<Longrightarrow> bind_err x f = bind_err y g"
  by (cases y) auto

fun map_err :: "('a \<Rightarrow> 'e + 'b) \<Rightarrow> 'a list \<Rightarrow> 'e + 'b list" where
  "map_err f [] = Inr []"
| "map_err f (x # xs) = bind_err (f x) (\<lambda>y. bind_err (map_err f xs) (\<lambda>ys. Inr (y # ys)))"

lemma map_err_Inr: "map_err f xs = Inr ys \<longleftrightarrow> list_all2 (\<lambda>x y. f x = Inr y) xs ys"
proof (induction xs arbitrary: ys)
  case (Cons x xs)
  then show ?case by (cases ys) (auto simp: bind_err_Inr)
qed auto

text \<open>
  A loop that may raise refines a specification of its body: related states stay related, and an
  error of the body is an error of the specification, except for the errors in \<open>abort\<close>, which the
  specification does not speak about.
\<close>

locale loop_refinement =
  fixes rel :: "'s \<Rightarrow> 'a \<Rightarrow> bool"
    and step :: "'s \<Rightarrow> 'x \<Rightarrow> 'e + 's"
    and spec :: "'a \<Rightarrow> 'x \<Rightarrow> 'e + 'a"
    and abort :: "'e \<Rightarrow> bool"
  assumes step_ok: "rel s a \<Longrightarrow> step s x = Inr s' \<Longrightarrow> \<exists>a'. spec a x = Inr a' \<and> rel s' a'"
    and step_err: "rel s a \<Longrightarrow> step s x = Inl e \<Longrightarrow> abort e \<or> spec a x = Inl e"
begin

lemma loop_ok: "rel s a \<Longrightarrow> fold_err step s xs = Inr s' \<Longrightarrow> \<exists>a'. fold_err spec a xs = Inr a' \<and> rel s' a'"
proof (induction xs arbitrary: s a)
  case (Cons x xs)
  from Cons.prems(2) obtain t where t: "step s x = Inr t" "fold_err step t xs = Inr s'"
    by (auto split: sum.splits)
  then show ?case using step_ok [OF Cons.prems(1) t(1)] Cons.IH by fastforce
qed simp

lemma loop_err: "rel s a \<Longrightarrow> fold_err step s xs = Inl e \<Longrightarrow> abort e \<or> fold_err spec a xs = Inl e"
proof (induction xs arbitrary: s a)
  case (Cons x xs)
  show ?case
  proof (cases "step s x")
    case (Inl e')
    then show ?thesis using step_err [OF Cons.prems(1) Inl] Cons.prems(2) by auto
  next
    case (Inr t)
    then show ?thesis using step_ok [OF Cons.prems(1) Inr] Cons.prems(2) Cons.IH by fastforce
  qed
qed simp

end

section \<open>Lists\<close>

fun upd_last :: "('a \<Rightarrow> 'a) \<Rightarrow> 'a list \<Rightarrow> 'a list" where
  "upd_last f [] = []"
| "upd_last f [x] = [f x]"
| "upd_last f (x # y # zs) = x # upd_last f (y # zs)"

lemma upd_last_snoc [simp]: "upd_last f (xs @ [x]) = xs @ [f x]"
  by (induction f xs rule: upd_last.induct) auto

lemma upd_last_eq: "xs \<noteq> [] \<Longrightarrow> upd_last f xs = butlast xs @ [f (last xs)]"
  by (metis append_butlast_last_id upd_last_snoc)

lemma in_set_butlast_tl: "x \<in> set (butlast (tl xs)) \<Longrightarrow> x \<in> set xs"
  by (cases xs) (auto dest: in_set_butlastD)

lemma upd_last_Nil_iff [simp]: "upd_last f xs = [] \<longleftrightarrow> xs = []"
  by (cases xs rule: rev_cases) auto

section \<open>Insertion-ordered dictionaries\<close>

lemma update_fresh: "k \<notin> fst ` set al \<Longrightarrow> AList.update k v al = al @ [(k, v)]"
  by (induction al) auto

lemma keys_update: "map fst (AList.update k v al) = (if k \<in> fst ` set al then map fst al else map fst al @ [k])"
  by (induction al) auto

lemma values_update: "snd ` set (AList.update k v al) \<subseteq> insert v (snd ` set al)"
  by (induction al) auto

lemma distinct_values_update:
  "distinct (map snd al) \<Longrightarrow> v \<notin> snd ` set al \<Longrightarrow> distinct (map snd (AList.update k v al))"
proof (induction al)
  case (Cons p al)
  have "snd p \<notin> snd ` set (AList.update k v al)" using Cons.prems values_update [of k v al] by auto
  then show ?case using Cons by (cases p) auto
qed simp

lemma distinct_values_delete: "distinct (map snd al) \<Longrightarrow> distinct (map snd (AList.delete k al))"
  by (simp add: AList.delete_eq distinct_map_filter)

section \<open>Decimal numbers\<close>

definition digit_value :: "char \<Rightarrow> nat" where
  "digit_value c = of_char c - 48"

definition decimal :: "string \<Rightarrow> nat" where
  "decimal s = foldl (\<lambda>n c. 10 * n + digit_value c) 0 s"

fun show_nat :: "nat \<Rightarrow> string" where
  "show_nat n = (if n < 10 then [char_of (48 + n)] else show_nat (n div 10) @ [char_of (48 + n mod 10)])"

declare show_nat.simps [simp del]

lemma decimal_snoc: "decimal (s @ [c]) = 10 * decimal s + digit_value c"
  by (simp add: decimal_def)

lemma digit_value_char: "n < 10 \<Longrightarrow> digit_value (char_of (48 + n)) = n"
  by (simp add: digit_value_def)

lemma decimal_show_nat [simp]: "decimal (show_nat n) = n"
proof (induction n rule: show_nat.induct)
  case (1 n)
  show ?case
  proof (cases "n < 10")
    case True
    then show ?thesis using decimal_snoc [of "[]"] by (simp add: show_nat.simps [of n] digit_value_char decimal_def)
  next
    case False
    then have "decimal (show_nat n) = 10 * (n div 10) + n mod 10"
      using 1 [OF False] digit_value_char [of "n mod 10"] by (simp add: show_nat.simps [of n] decimal_snoc)
    then show ?thesis by simp
  qed
qed

lemma show_nat_inject [simp]: "show_nat m = show_nat n \<longleftrightarrow> m = n"
  by (metis decimal_show_nat)

section \<open>Decoded JSON\<close>

text \<open>The values \<open>json.loads\<close> gives, numbers with a fraction excepted; a dictionary has distinct keys.\<close>

datatype json = JNull | JBool bool | JNum int | JStr string | JArr "json list" | JObj "(string \<times> json) list"

fun json_get :: "string \<Rightarrow> json \<Rightarrow> json option" where
  "json_get k (JObj d) = map_of d k"
| "json_get k _ = None"

section \<open>State machines\<close>

text \<open>The contract of an invariant of a step relation, and what follows along every run.\<close>

locale step_invariant =
  fixes step :: "'s \<Rightarrow> 's \<Rightarrow> bool" and inv :: "'s \<Rightarrow> bool"
  assumes step_inv: "inv s \<Longrightarrow> step s t \<Longrightarrow> inv t"
begin

lemma run_inv:
  assumes "step\<^sup>*\<^sup>* s t" "inv s"
  shows "inv t"
  using assms by (induction rule: rtranclp_induct) (auto intro: step_inv)

lemma run_transfer:
  assumes run: "step\<^sup>*\<^sup>* s t" and inv: "inv s" and P: "P s" and keep: "\<And>u v. inv u \<Longrightarrow> P u \<Longrightarrow> step u v \<Longrightarrow> P v"
  shows "P t"
proof -
  have "P t \<and> inv t" using run by (induction rule: rtranclp_induct) (use inv P keep step_inv in blast)+
  then show ?thesis by blast
qed

end

text \<open>An invariant that holds initially holds in every reachable state.\<close>

locale reachable_invariant = step_invariant step inv
  for step :: "'s \<Rightarrow> 's \<Rightarrow> bool" and inv :: "'s \<Rightarrow> bool" +
  fixes init :: 's
  assumes init_inv: "inv init"
begin

lemma reachable_inv: "step\<^sup>*\<^sup>* init s \<Longrightarrow> inv s"
  using run_inv init_inv by blast

end

end
