(* ===== verification/PatchParse.thy ===== *)
theory PatchParse
  imports Prelude
begin

text \<open>
  The patch tool's envelope parser (\<^verbatim>\<open>src/app/agent/tools/builtin/filesystem/patch.py\<close>): the
  dataclasses \<open>Chunk\<close> and \<open>FilePatch\<close>, \<open>_clean_patch_text\<close>, \<open>_parse_patch\<close>,
  \<open>_reject_no_op_update\<close>, \<open>_lines_to_text\<close> and \<open>_strip_line_number_prefixes\<close>. Every
  \<open>raise ValueError\<close> of the file is a constructor of \<open>patch_error\<close>; the constructors carry the
  data the messages are built from instead of the message text.

  The lemmas show that what the parser returns is well formed (\<open>wf_patch\<close>), that it rejects
  every update section that would change nothing, and that it inverts a printer of envelopes.
\<close>

section \<open>Data\<close>

datatype patch_kind = Add | Update | Delete

record chunk =
  c_old :: "string list"
  c_new :: "string list"
  c_raw_old :: "string list"
  c_raw_new :: "string list"
  c_scope_anchor :: "string option"
  c_scope_is_literal :: bool
  c_context_pairs :: "(nat \<times> nat) list"

record file_patch =
  fp_kind :: patch_kind
  fp_path :: string
  fp_move_to :: "string option"
  fp_contents :: "string list"
  fp_chunks :: "chunk list"

datatype patch_error =
    EnvelopeMarkers
  | ContentBeforeHeader
  | MoveOutsideUpdate
  | EmptyScopeAnchor
  | StarLineInAdd string
  | DeleteWithContent
  | NoHunkBeforeChanges
  | NoFileOperations
  | NoOpUpdate string bool
  | AnchorNotFound string string
  | AnchorAmbiguous string "nat list"
  | ContextMiss string "string list"
  | ContextAmbiguous string "nat list" "string list"

definition empty_chunk :: chunk where
  "empty_chunk = \<lparr>c_old = [], c_new = [], c_raw_old = [], c_raw_new = [],
     c_scope_anchor = None, c_scope_is_literal = False, c_context_pairs = []\<rparr>"

definition new_patch :: "patch_kind \<Rightarrow> string \<Rightarrow> file_patch" where
  "new_patch k p = \<lparr>fp_kind = k, fp_path = p, fp_move_to = None, fp_contents = [], fp_chunks = []\<rparr>"

section \<open>Cleaning the text\<close>

definition begin_marker :: string where "begin_marker = ''*** Begin Patch''"
definition end_marker :: string where "end_marker = ''*** End Patch''"

definition fence :: string where "fence = [CHR 0x60, CHR 0x60, CHR 0x60]"

definition drop_fences :: "string \<Rightarrow> string" where
  "drop_fences text =
     (let lines = split_on NL text;
          lines = (if startswith (hd lines) fence then tl lines else lines);
          lines = (if lines \<noteq> [] \<and> startswith (strip (last lines)) fence then butlast lines else lines)
      in strip (join [NL] lines))"

definition clean_patch_text :: "string \<Rightarrow> string" where
  "clean_patch_text patch_text =
     (let text = strip patch_text;
          text = (if startswith text fence then drop_fences text else text)
      in case (find_sub begin_marker text, rfind_sub end_marker text) of
           (Some begin_idx, Some end_idx) \<Rightarrow>
             if begin_idx \<le> end_idx
             then drop begin_idx (take (end_idx + length end_marker) text)
             else text
         | _ \<Rightarrow> text)"

section \<open>The line loop\<close>

text \<open>
  \<open>current\<close> is always the last element of \<open>patches\<close> (each header appends the patch it creates),
  so the loop state is the list and the open chunk; \<open>current is None\<close> is the empty list.
\<close>

record parse_state =
  ps_patches :: "file_patch list"
  ps_chunk :: "chunk option"

definition finish_chunk :: "parse_state \<Rightarrow> parse_state" where
  "finish_chunk st =
     (case ps_chunk st of
        None \<Rightarrow> st
      | Some c \<Rightarrow> st\<lparr>ps_patches := upd_last (\<lambda>p. p\<lparr>fp_chunks := fp_chunks p @ [c]\<rparr>) (ps_patches st),
                   ps_chunk := None\<rparr>)"

definition start_section :: "patch_kind \<Rightarrow> string \<Rightarrow> parse_state \<Rightarrow> parse_state" where
  "start_section k path st =
     (let st' = finish_chunk st
      in st'\<lparr>ps_patches := ps_patches st' @ [new_patch k path]\<rparr>)"

definition add_context :: "string \<Rightarrow> string \<Rightarrow> chunk \<Rightarrow> chunk" where
  "add_context text raw c =
     c\<lparr>c_old := c_old c @ [text], c_new := c_new c @ [text],
       c_context_pairs := c_context_pairs c @ [(length (c_old c), length (c_new c))],
       c_raw_old := c_raw_old c @ [raw], c_raw_new := c_raw_new c @ [raw]\<rparr>"

definition chunk_line :: "string \<Rightarrow> chunk \<Rightarrow> chunk" where
  "chunk_line line c =
     (if startswith line ''+'' then
        c\<lparr>c_new := c_new c @ [drop 1 line], c_raw_new := c_raw_new c @ [drop 1 line]\<rparr>
      else if startswith line ''-'' then
        c\<lparr>c_old := c_old c @ [drop 1 line], c_raw_old := c_raw_old c @ [drop 1 line]\<rparr>
      else if startswith line '' '' then add_context (drop 1 line) line c
      else if line = [] then add_context [] [] c
      else add_context line line c)"

definition parse_line :: "parse_state \<Rightarrow> string \<Rightarrow> patch_error + parse_state" where
  "parse_line st line =
     (if startswith line ''*** Add File: '' then
        Inr (start_section Add (strip (removeprefix line ''*** Add File: '')) st)
      else if startswith line ''*** Update File: '' then
        Inr (start_section Update (strip (removeprefix line ''*** Update File: '')) st)
      else if startswith line ''*** Delete File: '' then
        Inr (start_section Delete (strip (removeprefix line ''*** Delete File: '')) st)
      else if ps_patches st = [] then Inl ContentBeforeHeader
      else
        let current = last (ps_patches st) in
        if startswith line ''*** Move to: '' then
          if fp_kind current \<noteq> Update then Inl MoveOutsideUpdate
          else Inr (st\<lparr>ps_patches := upd_last
                 (\<lambda>p. p\<lparr>fp_move_to := Some (strip (removeprefix line ''*** Move to: ''))\<rparr>) (ps_patches st)\<rparr>)
        else if startswith line ''@@ in:'' then
          let st' = finish_chunk st; anchor = strip (removeprefix line ''@@ in:'') in
          if anchor = [] then Inl EmptyScopeAnchor
          else Inr (st'\<lparr>ps_chunk := Some (empty_chunk\<lparr>c_scope_anchor := Some anchor, c_scope_is_literal := True\<rparr>)\<rparr>)
        else if startswith line ''@@'' then
          let st' = finish_chunk st;
              anchor = drop 2 line;
              anchor = (if startswith anchor '' '' then drop 1 anchor else anchor) in
          Inr (st'\<lparr>ps_chunk := Some (empty_chunk\<lparr>c_scope_anchor :=
                  (if strip anchor = [] then None else Some (strip anchor))\<rparr>)\<rparr>)
        else if fp_kind current = Add then
          if startswith line ''+'' then
            Inr (st\<lparr>ps_patches := upd_last (\<lambda>p. p\<lparr>fp_contents := fp_contents p @ [drop 1 line]\<rparr>) (ps_patches st)\<rparr>)
          else if startswith line ''*'' then Inl (StarLineInAdd line)
          else Inr (st\<lparr>ps_patches := upd_last (\<lambda>p. p\<lparr>fp_contents := fp_contents p @ [line]\<rparr>) (ps_patches st)\<rparr>)
        else if fp_kind current = Delete then Inl DeleteWithContent
        else (case ps_chunk st of
                None \<Rightarrow> Inl NoHunkBeforeChanges
              | Some c \<Rightarrow> Inr (st\<lparr>ps_chunk := Some (chunk_line line c)\<rparr>)))"

section \<open>The parser\<close>

definition reject_no_op_update :: "file_patch \<Rightarrow> patch_error option" where
  "reject_no_op_update patch =
     (if fp_kind patch \<noteq> Update then None
      else if fp_move_to patch \<noteq> None then None
      else if list_ex (\<lambda>c. c_old c \<noteq> c_new c) (fp_chunks patch) then None
      else Some (NoOpUpdate (fp_path patch) (fp_chunks patch \<noteq> [])))"

fun first_error :: "('a \<Rightarrow> 'e option) \<Rightarrow> 'a list \<Rightarrow> 'e option" where
  "first_error f [] = None"
| "first_error f (x # xs) = (case f x of Some e \<Rightarrow> Some e | None \<Rightarrow> first_error f xs)"

definition envelope_lines :: "string \<Rightarrow> string list" where
  "envelope_lines patch_text =
     (let cleaned = clean_patch_text patch_text;
          lines = split_on NL (replace_all [CR] [NL] (replace_all [CR, NL] [NL] cleaned))
      in if lines \<noteq> [] \<and> last lines = [] then butlast lines else lines)"

definition parse_patch :: "string \<Rightarrow> patch_error + file_patch list" where
  "parse_patch patch_text =
     (let lines = envelope_lines patch_text in
      if lines = [] \<or> strip (hd lines) \<noteq> begin_marker \<or> strip (last lines) \<noteq> end_marker
      then Inl EnvelopeMarkers
      else case fold_err parse_line \<lparr>ps_patches = [], ps_chunk = None\<rparr> (butlast (tl lines)) of
             Inl e \<Rightarrow> Inl e
           | Inr st \<Rightarrow>
               let patches = ps_patches (finish_chunk st) in
               if patches = [] then Inl NoFileOperations
               else case first_error reject_no_op_update patches of
                      Some e \<Rightarrow> Inl e
                    | None \<Rightarrow> Inr patches)"

definition lines_to_text :: "string list \<Rightarrow> string" where
  "lines_to_text lines = (if lines = [] then [] else join [NL] lines @ [NL])"

text \<open>
  \<open>_LINE_NUMBER_PREFIX_RE\<close> is \<^verbatim>\<open>^\s*\d+:\s?\<close>: \<open>\s*\<close> and \<open>\d+\<close> match disjoint classes and \<open>:\<close> is in
  neither, so the greedy match never backtracks; \<^const>\<open>None\<close> is no match, \<open>Some rest\<close> the line
  after the match.
\<close>

definition match_line_number_prefix :: "string \<Rightarrow> string option" where
  "match_line_number_prefix line =
     (let t = dropWhile is_space line; u = dropWhile is_digit t in
      if takeWhile is_digit t = [] then None
      else case u of
             [] \<Rightarrow> None
           | c # rest \<Rightarrow>
               if c \<noteq> CHR '':'' then None
               else Some (case rest of [] \<Rightarrow> [] | d # rest' \<Rightarrow> if is_space d then rest' else rest))"

definition strip_line_number_prefixes :: "string list \<Rightarrow> string list option" where
  "strip_line_number_prefixes lines =
     (if lines = [] then None
      else if list_ex (\<lambda>l. match_line_number_prefix l = None) lines then None
      else Some (map (\<lambda>l. the (match_line_number_prefix l)) lines))"

section \<open>Well-formedness of parsed patches\<close>

definition clean_line :: "string \<Rightarrow> bool" where
  "clean_line l \<longleftrightarrow> NL \<notin> set l \<and> CR \<notin> set l"

definition wf_pairs :: "string list \<Rightarrow> string list \<Rightarrow> (nat \<times> nat) list \<Rightarrow> bool" where
  "wf_pairs old new ps \<longleftrightarrow>
     list_all (\<lambda>(i, j). i < length old \<and> j < length new \<and> old ! i = new ! j) ps \<and>
     sorted_wrt (\<lambda>p q. fst p < fst q \<and> snd p < snd q) ps"

definition wf_chunk :: "chunk \<Rightarrow> bool" where
  "wf_chunk c \<longleftrightarrow>
     wf_pairs (c_old c) (c_new c) (c_context_pairs c) \<and>
     length (c_raw_old c) = length (c_old c) \<and> length (c_raw_new c) = length (c_new c) \<and>
     list_all clean_line (c_old c) \<and> list_all clean_line (c_new c) \<and>
     list_all clean_line (c_raw_old c) \<and> list_all clean_line (c_raw_new c)"

definition empty_hunk :: "chunk \<Rightarrow> bool" where
  "empty_hunk c \<longleftrightarrow> c_old c = [] \<and> c_new c = []"

definition wf_patch :: "file_patch \<Rightarrow> bool" where
  "wf_patch p \<longleftrightarrow>
     list_all wf_chunk (fp_chunks p) \<and> list_all clean_line (fp_contents p) \<and>
     strip (fp_path p) = fp_path p \<and>
     (fp_kind p \<noteq> Update \<longrightarrow> fp_move_to p = None \<and> list_all empty_hunk (fp_chunks p)) \<and>
     (fp_kind p \<noteq> Add \<longrightarrow> fp_contents p = [])"

text \<open>An update section does something: it moves the file, or some hunk changes lines.\<close>

definition effective_patch :: "file_patch \<Rightarrow> bool" where
  "effective_patch p \<longleftrightarrow>
     fp_kind p \<noteq> Update \<or> fp_move_to p \<noteq> None \<or> list_ex (\<lambda>c. c_old c \<noteq> c_new c) (fp_chunks p)"

definition parse_inv :: "parse_state \<Rightarrow> bool" where
  "parse_inv st \<longleftrightarrow>
     list_all wf_patch (ps_patches st) \<and>
     (\<forall>c. ps_chunk st = Some c \<longrightarrow> wf_chunk c \<and> ps_patches st \<noteq> [] \<and>
        (fp_kind (last (ps_patches st)) \<noteq> Update \<longrightarrow> empty_hunk c))"

lemma strip_ends: "strip s \<noteq> [] \<Longrightarrow> \<not> is_space (hd (strip s)) \<and> \<not> is_space (last (strip s))"
proof -
  assume ne: "strip s \<noteq> []"
  obtain t where t: "lstrip s = strip s @ t"
    using rstrip_prefix [of "lstrip s"] by (auto simp: strip_def)
  with ne have "lstrip s \<noteq> []" and hd_eq: "hd (strip s) = hd (lstrip s)"
    by (metis append_is_Nil_conv, metis hd_append2)
  then have "\<not> is_space (hd (strip s))"
    unfolding lstrip_def by (metis hd_dropWhile)
  moreover have "\<not> is_space (last (strip s))"
  proof -
    have "dropWhile is_space (rev (lstrip s)) \<noteq> []"
      using ne by (simp add: strip_def rstrip_def)
    then have "\<not> is_space (hd (dropWhile is_space (rev (lstrip s))))" by (rule hd_dropWhile)
    then show ?thesis by (simp add: strip_def rstrip_def last_rev)
  qed
  ultimately show ?thesis by simp
qed

lemma strip_idem [simp]: "strip (strip s) = strip s"
  by (rule strip_id) (use strip_ends in blast)

lemma clean_line_drop: "clean_line l \<Longrightarrow> clean_line (drop n l)"
  by (auto simp: clean_line_def dest: in_set_dropD)

lemma wf_pairs_snoc_new: "wf_pairs old new ps \<Longrightarrow> wf_pairs old (new @ [x]) ps"
  by (auto simp: wf_pairs_def list_all_iff nth_append split: prod.splits)

lemma wf_pairs_snoc_old: "wf_pairs old new ps \<Longrightarrow> wf_pairs (old @ [x]) new ps"
  by (auto simp: wf_pairs_def list_all_iff nth_append split: prod.splits)

lemma wf_pairs_snoc_both:
  "wf_pairs old new ps \<Longrightarrow> wf_pairs (old @ [x]) (new @ [x]) (ps @ [(length old, length new)])"
  by (auto simp: wf_pairs_def list_all_iff nth_append sorted_wrt_append split: prod.splits)

lemmas wf_pairs_snoc = wf_pairs_snoc_new wf_pairs_snoc_old wf_pairs_snoc_both

lemma wf_chunk_empty [simp]: "wf_chunk empty_chunk"
  by (simp add: wf_chunk_def empty_chunk_def wf_pairs_def)

lemma wf_chunk_anchor [simp]:
  "wf_chunk (c\<lparr>c_scope_anchor := a\<rparr>) = wf_chunk c"
  "wf_chunk (c\<lparr>c_scope_is_literal := b\<rparr>) = wf_chunk c"
  "empty_hunk (c\<lparr>c_scope_anchor := a\<rparr>) = empty_hunk c"
  "empty_hunk (c\<lparr>c_scope_is_literal := b\<rparr>) = empty_hunk c"
  by (simp_all add: wf_chunk_def empty_hunk_def)

lemma empty_hunk_empty [simp]: "empty_hunk empty_chunk"
  by (simp add: empty_hunk_def empty_chunk_def)

lemma add_context_wf:
  "wf_chunk c \<Longrightarrow> clean_line text \<Longrightarrow> clean_line raw \<Longrightarrow> wf_chunk (add_context text raw c)"
  by (simp add: wf_chunk_def add_context_def wf_pairs_snoc)

lemma chunk_line_wf: "wf_chunk c \<Longrightarrow> clean_line line \<Longrightarrow> wf_chunk (chunk_line line c)"
  unfolding chunk_line_def
  by (auto simp: add_context_wf clean_line_drop)
     (simp_all add: wf_chunk_def wf_pairs_snoc clean_line_drop)

lemma finish_chunk_inv: "parse_inv st \<Longrightarrow> parse_inv (finish_chunk st)"
proof (cases "ps_chunk st")
  case None
  then show "parse_inv st \<Longrightarrow> ?thesis" by (simp add: finish_chunk_def)
next
  case (Some c)
  assume inv: "parse_inv st"
  then obtain ps p where ps: "ps_patches st = ps @ [p]"
    using Some by (cases "ps_patches st" rule: rev_cases) (auto simp: parse_inv_def)
  with inv Some show ?thesis
    by (auto simp: parse_inv_def finish_chunk_def wf_patch_def)
qed

lemma finish_chunk_closed [simp]: "ps_chunk (finish_chunk st) = None"
  by (simp add: finish_chunk_def split: option.split)

lemma finish_chunk_patches_Nil [simp]: "ps_patches (finish_chunk st) = [] \<longleftrightarrow> ps_patches st = []"
  by (simp add: finish_chunk_def split: option.split)

lemma finish_chunk_last_kind:
  "ps_patches st \<noteq> [] \<Longrightarrow> fp_kind (last (ps_patches (finish_chunk st))) = fp_kind (last (ps_patches st))"
  by (simp add: finish_chunk_def upd_last_eq split: option.split)

lemma start_section_inv: "parse_inv st \<Longrightarrow> strip path = path \<Longrightarrow> parse_inv (start_section k path st)"
  using finish_chunk_inv [of st]
  by (simp add: start_section_def parse_inv_def Let_def wf_patch_def new_patch_def)

lemma open_chunk_inv:
  "parse_inv st \<Longrightarrow> ps_patches st \<noteq> [] \<Longrightarrow> wf_chunk c \<Longrightarrow> empty_hunk c \<Longrightarrow>
   parse_inv ((finish_chunk st)\<lparr>ps_chunk := Some c\<rparr>)"
  using finish_chunk_inv [of st] by (simp add: parse_inv_def)

lemma upd_last_inv:
  assumes "parse_inv st" and "ps_patches st \<noteq> []"
    and "\<And>p. wf_patch p \<Longrightarrow> p = last (ps_patches st) \<Longrightarrow> wf_patch (f p) \<and> fp_kind (f p) = fp_kind p"
  shows "parse_inv (st\<lparr>ps_patches := upd_last f (ps_patches st)\<rparr>)"
proof -
  obtain ps p where ps: "ps_patches st = ps @ [p]"
    using assms(2) by (cases "ps_patches st" rule: rev_cases) auto
  with assms(1) have "wf_patch p" by (simp add: parse_inv_def)
  with assms(3) ps have "wf_patch (f p)" "fp_kind (f p) = fp_kind p" by auto
  with assms(1) ps show ?thesis by (auto simp: parse_inv_def)
qed

lemma parse_line_inv:
  assumes inv: "parse_inv st" and clean: "clean_line line" and step: "parse_line st line = Inr st'"
  shows "parse_inv st'"
proof -
  have chunk: "parse_inv (st\<lparr>ps_chunk := Some (chunk_line line c)\<rparr>)"
    if "ps_chunk st = Some c" "fp_kind (last (ps_patches st)) \<noteq> Add"
      "fp_kind (last (ps_patches st)) \<noteq> Delete" for c
    using that inv clean
    by (cases "fp_kind (last (ps_patches st))") (auto simp: parse_inv_def chunk_line_wf)
  show ?thesis
    using step inv clean
    by (auto simp: parse_line_def Let_def clean_line_drop wf_patch_def
             intro!: start_section_inv open_chunk_inv upd_last_inv chunk
             split: if_splits option.splits) 
qed

lemma envelope_lines_clean: "l \<in> set (envelope_lines t) \<Longrightarrow> clean_line l"
proof -
  assume l: "l \<in> set (envelope_lines t)"
  let ?u = "replace_all [CR] [NL] (replace_all [CR, NL] [NL] (clean_patch_text t))"
  from l have in_split: "l \<in> set (split_on NL ?u)"
    by (auto simp: envelope_lines_def Let_def split: if_splits dest: in_set_butlastD)
  then have "NL \<notin> set l" by (rule split_on_lines_free)
  moreover have "CR \<notin> set ?u" by (auto simp: replace_all_char)
  then have "CR \<notin> set l" using in_split split_on_subset by blast
  ultimately show ?thesis by (simp add: clean_line_def)
qed

lemma first_error_None: "first_error f xs = None \<longleftrightarrow> list_all (\<lambda>x. f x = None) xs"
  by (induction xs) (auto split: option.splits)

lemma reject_no_op_update_iff: "reject_no_op_update p = None \<longleftrightarrow> effective_patch p"
  by (simp add: reject_no_op_update_def effective_patch_def)

text \<open>
  Whatever text the model sends, if the parser accepts it then the result is a non-empty list
  of well-formed file patches: context pairs index equal lines of the old and new side in
  increasing order, raw and stripped sides have equal length, lines hold no line break, only update
  sections carry hunks or a move target, only add sections carry contents; and every update section
  has an effect (it moves the file or some hunk's old and new sides differ).
\<close>

theorem parse_patch_wf:
  assumes "parse_patch text = Inr patches"
  shows "patches \<noteq> [] \<and> list_all wf_patch patches \<and> list_all effective_patch patches"
proof -
  let ?ls = "butlast (tl (envelope_lines text))"
  let ?init = "\<lparr>ps_patches = [], ps_chunk = None\<rparr>"
  from assms obtain st where st: "fold_err parse_line ?init ?ls = Inr st"
    and patches: "patches = ps_patches (finish_chunk st)" "patches \<noteq> []"
    and ok: "first_error reject_no_op_update patches = None"
    by (auto simp: parse_patch_def Let_def split: if_splits sum.splits option.splits)
  have "parse_inv st"
    using st by (rule fold_err_invariant)
       (auto simp: parse_inv_def [of ?init] intro: parse_line_inv envelope_lines_clean
             dest: in_set_butlast_tl)
  then have "list_all wf_patch patches"
    using finish_chunk_inv patches(1) by (auto simp: parse_inv_def)
  with patches(2) ok show ?thesis
    by (simp add: first_error_None reject_no_op_update_iff)
qed

definition sample_envelope :: string where
  "sample_envelope = join [NL]
     [''*** Begin Patch'', ''*** Update File: f'', ''@@ def g'', '' a'', ''-b'', ''+c'', ''*** End Patch'']"

lemma parse_sample:
  "parse_patch sample_envelope = Inr [\<lparr>fp_kind = Update, fp_path = ''f'', fp_move_to = None, fp_contents = [],
     fp_chunks = [\<lparr>c_old = [''a'', ''b''], c_new = [''a'', ''c''], c_raw_old = ['' a'', ''b''], c_raw_new = ['' a'', ''c''],
       c_scope_anchor = Some ''def g'', c_scope_is_literal = False, c_context_pairs = [(0, 0)]\<rparr>]\<rparr>]"
  by code_simp

theorem parse_patch_wf_witness:
  "\<exists>ps. parse_patch sample_envelope = Inr ps \<and>
        ps \<noteq> [] \<and> list_all wf_patch ps \<and> list_all effective_patch ps"
  using parse_patch_wf [OF parse_sample] parse_sample by blast

section \<open>Printing envelopes\<close>

text \<open>
  The envelope grammar of the tool's description as a printer: a section per file operation, a
  hunk per \<open>@@\<close> line. \<open>section_patch\<close> says, independently of the parser, which \<open>file_patch\<close> a
  section denotes.
\<close>

datatype hunk_line = Plus string | Minus string | Context string
datatype hunk_anchor = NoAnchor | Header string | Literal string
datatype hunk = Hunk hunk_anchor "hunk_line list"
datatype patch_section =
    AddSection string "string list"
  | UpdateSection string "string option" "hunk list"
  | DeleteSection string

fun render_hline :: "hunk_line \<Rightarrow> string" where
  "render_hline (Plus s) = CHR ''+'' # s"
| "render_hline (Minus s) = CHR ''-'' # s"
| "render_hline (Context s) = CHR '' '' # s"

fun render_anchor :: "hunk_anchor \<Rightarrow> string" where
  "render_anchor NoAnchor = ''@@''"
| "render_anchor (Header h) = ''@@ '' @ h"
| "render_anchor (Literal a) = ''@@ in: '' @ a"

fun render_hunk :: "hunk \<Rightarrow> string list" where
  "render_hunk (Hunk a ls) = render_anchor a # map render_hline ls"

fun render_section :: "patch_section \<Rightarrow> string list" where
  "render_section (AddSection p cs) = (''*** Add File: '' @ p) # map ((#) (CHR ''+'')) cs"
| "render_section (UpdateSection p mv hs) =
     (''*** Update File: '' @ p) #
     (case mv of None \<Rightarrow> [] | Some q \<Rightarrow> [''*** Move to: '' @ q]) @ concat (map render_hunk hs)"
| "render_section (DeleteSection p) = [''*** Delete File: '' @ p]"

definition render_patch :: "patch_section list \<Rightarrow> string" where
  "render_patch secs = join [NL] (begin_marker # concat (map render_section secs) @ [end_marker])"

fun old_side :: "hunk_line list \<Rightarrow> string list" where
  "old_side [] = []"
| "old_side (Plus s # ls) = old_side ls"
| "old_side (Minus s # ls) = s # old_side ls"
| "old_side (Context s # ls) = s # old_side ls"

fun new_side :: "hunk_line list \<Rightarrow> string list" where
  "new_side [] = []"
| "new_side (Plus s # ls) = s # new_side ls"
| "new_side (Minus s # ls) = new_side ls"
| "new_side (Context s # ls) = s # new_side ls"

fun raw_old_side :: "hunk_line list \<Rightarrow> string list" where
  "raw_old_side [] = []"
| "raw_old_side (Plus s # ls) = raw_old_side ls"
| "raw_old_side (Minus s # ls) = s # raw_old_side ls"
| "raw_old_side (Context s # ls) = (CHR '' '' # s) # raw_old_side ls"

fun raw_new_side :: "hunk_line list \<Rightarrow> string list" where
  "raw_new_side [] = []"
| "raw_new_side (Plus s # ls) = s # raw_new_side ls"
| "raw_new_side (Minus s # ls) = raw_new_side ls"
| "raw_new_side (Context s # ls) = (CHR '' '' # s) # raw_new_side ls"

fun pairs_from :: "nat \<Rightarrow> nat \<Rightarrow> hunk_line list \<Rightarrow> (nat \<times> nat) list" where
  "pairs_from i j [] = []"
| "pairs_from i j (Plus s # ls) = pairs_from i (Suc j) ls"
| "pairs_from i j (Minus s # ls) = pairs_from (Suc i) j ls"
| "pairs_from i j (Context s # ls) = (i, j) # pairs_from (Suc i) (Suc j) ls"

fun hunk_chunk :: "hunk \<Rightarrow> chunk" where
  "hunk_chunk (Hunk a ls) =
     \<lparr>c_old = old_side ls, c_new = new_side ls, c_raw_old = raw_old_side ls, c_raw_new = raw_new_side ls,
      c_scope_anchor = (case a of NoAnchor \<Rightarrow> None | Header h \<Rightarrow> Some h | Literal l \<Rightarrow> Some l),
      c_scope_is_literal = (case a of Literal _ \<Rightarrow> True | _ \<Rightarrow> False),
      c_context_pairs = pairs_from 0 0 ls\<rparr>"

fun section_patch :: "patch_section \<Rightarrow> file_patch" where
  "section_patch (AddSection p cs) = (new_patch Add p)\<lparr>fp_contents := cs\<rparr>"
| "section_patch (UpdateSection p mv hs) = (new_patch Update p)\<lparr>fp_move_to := mv, fp_chunks := map hunk_chunk hs\<rparr>"
| "section_patch (DeleteSection p) = new_patch Delete p"

text \<open>What can be printed: single-line texts, paths and anchors without surrounding blanks.\<close>

definition printable_word :: "string \<Rightarrow> bool" where
  "printable_word w \<longleftrightarrow> clean_line w \<and> strip w = w"

fun printable_hline :: "hunk_line \<Rightarrow> bool" where
  "printable_hline (Plus s) = clean_line s"
| "printable_hline (Minus s) = clean_line s"
| "printable_hline (Context s) = clean_line s"

fun printable_anchor :: "hunk_anchor \<Rightarrow> bool" where
  "printable_anchor NoAnchor = True"
| "printable_anchor (Header h) = (printable_word h \<and> h \<noteq> [] \<and> \<not> startswith h ''in:'')"
| "printable_anchor (Literal a) = (printable_word a \<and> a \<noteq> [])"

fun printable_hunk :: "hunk \<Rightarrow> bool" where
  "printable_hunk (Hunk a ls) = (printable_anchor a \<and> list_all printable_hline ls)"

fun printable_section :: "patch_section \<Rightarrow> bool" where
  "printable_section (AddSection p cs) = (printable_word p \<and> list_all clean_line cs)"
| "printable_section (UpdateSection p mv hs) =
     (printable_word p \<and> (case mv of None \<Rightarrow> True | Some q \<Rightarrow> printable_word q) \<and>
      list_all printable_hunk hs)"
| "printable_section (DeleteSection p) = printable_word p"

subsection \<open>The parser inverts the printer\<close>

lemma fold_chunk_lines:
  "fold chunk_line (map render_hline ls) c =
     c\<lparr>c_old := c_old c @ old_side ls, c_new := c_new c @ new_side ls,
       c_raw_old := c_raw_old c @ raw_old_side ls, c_raw_new := c_raw_new c @ raw_new_side ls,
       c_context_pairs := c_context_pairs c @ pairs_from (length (c_old c)) (length (c_new c)) ls\<rparr>"
proof (induction ls arbitrary: c)
  case (Cons l ls)
  then show ?case by (cases l) (simp_all add: chunk_line_def add_context_def)
qed simp

lemma parse_hlines:
  assumes "ps_patches st \<noteq> []" and "fp_kind (last (ps_patches st)) = Update" and "ps_chunk st = Some c"
  shows "fold_err parse_line st (map render_hline ls) =
           Inr (st\<lparr>ps_chunk := Some (fold chunk_line (map render_hline ls) c)\<rparr>)"
  using assms
proof (induction ls arbitrary: st c)
  case (Cons l ls)
  have "parse_line st (render_hline l) = Inr (st\<lparr>ps_chunk := Some (chunk_line (render_hline l) c)\<rparr>)"
    using Cons.prems by (cases l) (simp_all add: parse_line_def Let_def)
  with Cons show ?case by simp
qed simp

lemma strip_space_Cons: "strip (CHR '' '' # s) = strip s"
  by (simp add: strip_def lstrip_def is_space_def)

lemma parse_anchor:
  assumes "ps_patches st \<noteq> []" and "printable_anchor a"
  shows "parse_line st (render_anchor a) =
           Inr ((finish_chunk st)\<lparr>ps_chunk := Some (hunk_chunk (Hunk a []))\<rparr>)"
proof (cases a)
  case NoAnchor
  with assms show ?thesis
    by (simp add: parse_line_def Let_def empty_chunk_def strip_def lstrip_def rstrip_def)
next
  case (Header h)
  with assms show ?thesis
    by (simp add: parse_line_def Let_def empty_chunk_def printable_word_def)
next
  case (Literal l)
  with assms show ?thesis
    by (simp add: parse_line_def Let_def empty_chunk_def printable_word_def removeprefix_def strip_space_Cons)
qed

lemma parse_hunk:
  assumes "ps_patches st \<noteq> []" and "fp_kind (last (ps_patches st)) = Update" and "printable_hunk h"
  shows "fold_err parse_line st (render_hunk h) =
           Inr ((finish_chunk st)\<lparr>ps_chunk := Some (hunk_chunk h)\<rparr>)"
proof -
  obtain a ls where h: "h = Hunk a ls" by (cases h)
  let ?st = "(finish_chunk st)\<lparr>ps_chunk := Some (hunk_chunk (Hunk a []))\<rparr>"
  have "fold_err parse_line ?st (map render_hline ls) =
          Inr (?st\<lparr>ps_chunk := Some (fold chunk_line (map render_hline ls) (hunk_chunk (Hunk a [])))\<rparr>)"
    by (rule parse_hlines) (use assms finish_chunk_last_kind in auto)
  with assms h show ?thesis by (simp add: parse_anchor fold_chunk_lines)
qed

lemma parse_hunks:
  assumes "ps_patches st \<noteq> []" and "fp_kind (last (ps_patches st)) = Update"
    and "list_all printable_hunk hs"
  shows "\<exists>st'. fold_err parse_line st (concat (map render_hunk hs)) = Inr st' \<and>
           ps_patches (finish_chunk st') =
             upd_last (\<lambda>p. p\<lparr>fp_chunks := fp_chunks p @ map hunk_chunk hs\<rparr>) (ps_patches (finish_chunk st))"
  using assms
proof (induction hs arbitrary: st)
  case Nil
  then show ?case by (simp add: upd_last_eq)
next
  case (Cons h hs)
  let ?st = "(finish_chunk st)\<lparr>ps_chunk := Some (hunk_chunk h)\<rparr>"
  have "fold_err parse_line st (render_hunk h) = Inr ?st"
    using Cons.prems by (simp add: parse_hunk)
  moreover obtain st' where "fold_err parse_line ?st (concat (map render_hunk hs)) = Inr st'"
    and "ps_patches (finish_chunk st') =
           upd_last (\<lambda>p. p\<lparr>fp_chunks := fp_chunks p @ map hunk_chunk hs\<rparr>) (ps_patches (finish_chunk ?st))"
    using Cons.IH [of ?st] Cons.prems finish_chunk_last_kind by auto
  ultimately show ?case
    using Cons.prems(1) by (simp add: fold_err_append) (simp add: finish_chunk_def [of ?st] upd_last_eq)
qed

lemma parse_contents:
  assumes "ps_patches st \<noteq> []" and "fp_kind (last (ps_patches st)) = Add"
  shows "fold_err parse_line st (map ((#) (CHR ''+'')) cs) =
           Inr (st\<lparr>ps_patches := upd_last (\<lambda>p. p\<lparr>fp_contents := fp_contents p @ cs\<rparr>) (ps_patches st)\<rparr>)"
  using assms
proof (induction cs arbitrary: st)
  case Nil
  then show ?case by (simp add: upd_last_eq)
next
  case (Cons c cs)
  then show ?case by (simp add: parse_line_def Let_def upd_last_eq)
qed

lemma finish_chunk_None: "ps_chunk st = None \<Longrightarrow> finish_chunk st = st"
  by (simp add: finish_chunk_def)

lemma start_section_simps [simp]:
  "ps_chunk (start_section k p st) = None"
  "ps_patches (start_section k p st) = ps_patches (finish_chunk st) @ [new_patch k p]"
  by (simp_all add: start_section_def Let_def)

lemma new_patch_simps [simp]:
  "fp_kind (new_patch k p) = k" "fp_contents (new_patch k p) = []" "fp_chunks (new_patch k p) = []"
  by (simp_all add: new_patch_def)

lemma parse_section:
  assumes "printable_section sec"
  shows "\<exists>st'. fold_err parse_line st (render_section sec) = Inr st' \<and>
           ps_patches (finish_chunk st') = ps_patches (finish_chunk st) @ [section_patch sec]"
proof (cases sec)
  case (AddSection p cs)
  let ?st = "start_section Add p st"
  have "fold_err parse_line st (render_section sec) = fold_err parse_line ?st (map ((#) (CHR ''+'')) cs)"
    using AddSection assms by (simp add: parse_line_def printable_word_def removeprefix_def)
  with AddSection show ?thesis
    by (simp add: parse_contents finish_chunk_None)
next
  case (DeleteSection p)
  with assms show ?thesis
    by (simp add: parse_line_def printable_word_def removeprefix_def finish_chunk_None)
next
  case (UpdateSection p mv hs)
  let ?st = "(start_section Update p st)\<lparr>ps_patches := ps_patches (finish_chunk st) @ [(new_patch Update p)\<lparr>fp_move_to := mv\<rparr>]\<rparr>"
  have head: "fold_err parse_line st (render_section sec) =
                fold_err parse_line ?st (concat (map render_hunk hs))"
    using UpdateSection assms
    by (cases mv) (simp_all add: parse_line_def printable_word_def removeprefix_def Let_def
                                 start_section_def new_patch_def)
  have "list_all printable_hunk hs" using UpdateSection assms by simp
  then obtain st' where "fold_err parse_line ?st (concat (map render_hunk hs)) = Inr st'"
    and "ps_patches (finish_chunk st') =
           upd_last (\<lambda>p. p\<lparr>fp_chunks := fp_chunks p @ map hunk_chunk hs\<rparr>) (ps_patches (finish_chunk ?st))"
    using parse_hunks [of ?st hs] by auto
  with UpdateSection head show ?thesis
    by (simp add: finish_chunk_None [of ?st])
qed

lemma parse_sections:
  assumes "list_all printable_section secs"
  shows "\<exists>st'. fold_err parse_line st (concat (map render_section secs)) = Inr st' \<and>
           ps_patches (finish_chunk st') = ps_patches (finish_chunk st) @ map section_patch secs"
  using assms
proof (induction secs arbitrary: st)
  case (Cons sec secs)
  then obtain st1 where st1: "fold_err parse_line st (render_section sec) = Inr st1"
    "ps_patches (finish_chunk st1) = ps_patches (finish_chunk st) @ [section_patch sec]"
    using parse_section by fastforce
  with Cons.IH [of st1] Cons.prems show ?case by (auto simp: fold_err_append)
qed simp

lemma rfind_short: "length s < length sub \<Longrightarrow> rfind_sub sub s = None"
  by (induction s) (auto simp: startswith_def)

lemma rfind_end: "sub \<noteq> [] \<Longrightarrow> rfind_sub sub (s @ sub) = Some (length s)"
proof (induction s)
  case Nil
  then obtain x xs where "sub = x # xs" by (cases sub) auto
  then show ?case by (simp add: rfind_short startswith_def)
qed simp

lemma find_begin: "find_sub sub (sub @ s) = Some 0"
proof (cases sub)
  case Nil
  then show ?thesis by (cases s) auto
next
  case (Cons x xs)
  then show ?thesis using startswith_append [of sub s] by simp
qed

lemma join_snoc: "ls \<noteq> [] \<Longrightarrow> join sep (ls @ [l]) = join sep ls @ sep @ l"
  by (induction sep ls rule: join.induct) auto

lemma clean_rendered:
  assumes "text = begin_marker @ mid @ end_marker"
  shows "clean_patch_text text = text"
proof -
  have "strip text = text"
    using assms by (intro strip_id) (simp add: begin_marker_def end_marker_def is_space_def)
  moreover have "\<not> startswith text fence"
    using assms by (simp add: begin_marker_def fence_def)
  moreover have "rfind_sub end_marker text = Some (length (begin_marker @ mid))"
    using assms rfind_end [of end_marker "begin_marker @ mid"] by (simp add: end_marker_def)
  moreover have "find_sub begin_marker text = Some 0"
    using assms find_begin by simp
  ultimately show ?thesis
    using assms by (simp add: clean_patch_text_def Let_def)
qed

lemma render_section_clean: "printable_section sec \<Longrightarrow> list_all clean_line (render_section sec)"
proof -
  have hline: "printable_hline l \<Longrightarrow> clean_line (render_hline l)" for l
    by (cases l) (auto simp: clean_line_def)
  have anchor: "printable_anchor a \<Longrightarrow> clean_line (render_anchor a)" for a
    by (cases a) (auto simp: clean_line_def printable_word_def)
  have hunk: "printable_hunk h \<Longrightarrow> list_all clean_line (render_hunk h)" for h
    using hline anchor by (cases h) (auto simp: list_all_iff)
  show "printable_section sec \<Longrightarrow> ?thesis"
    by (cases sec)
       (auto simp: list_all_iff clean_line_def [of "_ # _"] printable_word_def
             dest!: hunk split: option.splits, auto simp: clean_line_def)
qed

lemma render_patch_lines:
  assumes "list_all printable_section secs"
  shows "envelope_lines (render_patch secs) = begin_marker # concat (map render_section secs) @ [end_marker]"
proof -
  let ?ls = "begin_marker # concat (map render_section secs) @ [end_marker]"
  have clean: "list_all clean_line ?ls"
    using assms render_section_clean
    by (auto simp: list_all_iff begin_marker_def end_marker_def clean_line_def)
  obtain mid where mid: "render_patch secs = begin_marker @ mid @ end_marker"
    by (simp add: render_patch_def join_Cons join_snoc [of "_ # _", simplified] join_Cons)
       (metis append.assoc append_Cons append_Nil join.simps(2) join_Cons join_snoc)
  then have cleaned: "clean_patch_text (render_patch secs) = render_patch secs"
    by (rule clean_rendered)
  have "CR \<notin> set (render_patch secs)"
    using clean set_join [of "[NL]" ?ls] by (auto simp: render_patch_def list_all_iff clean_line_def)
  then have "envelope_lines (render_patch secs) =
      (let lines = split_on NL (render_patch secs) in if lines \<noteq> [] \<and> last lines = [] then butlast lines else lines)"
    by (simp add: envelope_lines_def Let_def cleaned replace_all_fresh)
  moreover have "split_on NL (render_patch secs) = ?ls"
    unfolding render_patch_def using clean
    by (intro split_on_join) (auto simp: list_all_iff clean_line_def)
  ultimately show ?thesis by (simp add: end_marker_def)
qed

text \<open>
  C23. The parser inverts the envelope printer: any non-empty list of printable sections (single-line
  texts, trimmed paths and anchors) in which every update section has an effect is parsed back to
  exactly the file patches the sections denote, with their hunks, anchors, context pairs and moves.
\<close>

theorem parse_render:
  assumes "secs \<noteq> []" and "list_all printable_section secs"
    and "list_all (\<lambda>s. effective_patch (section_patch s)) secs"
  shows "parse_patch (render_patch secs) = Inr (map section_patch secs)"
proof -
  let ?init = "\<lparr>ps_patches = [], ps_chunk = None\<rparr>"
  obtain st where "fold_err parse_line ?init (concat (map render_section secs)) = Inr st"
    and "ps_patches (finish_chunk st) = map section_patch secs"
    using parse_sections [OF assms(2), of ?init] by (auto simp: finish_chunk_None)
  moreover have "first_error reject_no_op_update (map section_patch secs) = None"
    using assms(3) by (simp add: first_error_None reject_no_op_update_iff list_all_iff)
  moreover have "strip begin_marker = begin_marker \<and> strip end_marker = end_marker"
    by (simp add: strip_id begin_marker_def end_marker_def is_space_def)
  ultimately show ?thesis
    using assms(1) by (simp add: parse_patch_def render_patch_lines [OF assms(2)])
qed

theorem parse_render_witness:
  "parse_patch (render_patch [AddSection ''a.txt'' [''hi''], DeleteSection ''old'',
      UpdateSection ''b'' (Some ''c'') [Hunk (Header ''def f'') [Context ''x'', Minus ''y'', Plus ''z'']]]) =
   Inr (map section_patch [AddSection ''a.txt'' [''hi''], DeleteSection ''old'',
      UpdateSection ''b'' (Some ''c'') [Hunk (Header ''def f'') [Context ''x'', Minus ''y'', Plus ''z'']]])"
  by (rule parse_render)
     (simp_all add: printable_word_def clean_line_def strip_id is_space_def effective_patch_def)

end
