(* ===== verification/PatchMatch.thy ===== *)
theory PatchMatch
  imports PatchParse
begin

text \<open>
  Locating and applying the hunks of an update section
  (\<^verbatim>\<open>src/app/agent/tools/builtin/filesystem/patch.py\<close>): \<open>_find_line_matches\<close>,
  \<open>_find_indentation_tolerant_matches\<close>, \<open>_adjust_new_lines_indentation\<close>, the two anchor searches
  and \<open>_apply_chunks_with_meta\<close>.

  The lemmas show that an accepted section splits the file into kept and replaced segments in
  order, with exactly the line numbers reported in the diff metadata, that context lines keep the
  file's own bytes, that ambiguous hunks are refused, and how line endings are treated.
\<close>

section \<open>Matching\<close>

definition find_line_matches :: "string list \<Rightarrow> string list \<Rightarrow> bool \<Rightarrow> nat list" where
  "find_line_matches content_lines old_lines trimmed =
     (if old_lines = [] then []
      else let target = (if trimmed then map rstrip old_lines else old_lines) in
        filter (\<lambda>i. let window = take (length old_lines) (drop i content_lines) in
                    (if trimmed then map rstrip window else window) = target)
          [0 ..< length content_lines + 1 - length old_lines])"

definition indent_of :: "string \<Rightarrow> int" where
  "indent_of l = int (length l) - int (length (lstrip l))"

definition indent_deltas :: "(string \<times> string) list \<Rightarrow> int list" where
  "indent_deltas ps = remdups (map (\<lambda>(candidate, expected). indent_of candidate - indent_of expected)
     (filter (\<lambda>(candidate, expected). strip candidate \<noteq> [] \<and> strip expected \<noteq> []) ps))"

definition find_indentation_tolerant_matches :: "string list \<Rightarrow> string list \<Rightarrow> nat list" where
  "find_indentation_tolerant_matches content_lines old_lines =
     (if old_lines = [] \<or> length old_lines > length content_lines then []
      else let stripped_target = map strip old_lines in
        if \<not> list_ex (\<lambda>l. l \<noteq> []) stripped_target then []
        else filter (\<lambda>i. let window = take (length old_lines) (drop i content_lines) in
                map strip window = stripped_target \<and>
                length (indent_deltas (zip window old_lines)) = 1)
              [0 ..< length content_lines + 1 - length old_lines])"

fun adjust_new_lines_indentation :: "(string \<times> string) list \<Rightarrow> string list \<Rightarrow> string list" where
  "adjust_new_lines_indentation [] new_lines = new_lines"
| "adjust_new_lines_indentation ((c_line, o_line) # rest) new_lines =
     (if strip c_line \<noteq> [] \<and> strip o_line \<noteq> [] then
        let delta = indent_of c_line - indent_of o_line in
        if delta > 0 then
          map (\<lambda>line. if strip line \<noteq> [] then replicate (nat delta) (CHR '' '') @ line else line) new_lines
        else if delta < 0 then
          map (\<lambda>line. if startswith line (replicate (nat (- delta)) (CHR '' ''))
                      then drop (nat (- delta)) line else line) new_lines
        else new_lines
      else adjust_new_lines_indentation rest new_lines)"

section \<open>Scope anchors\<close>

definition or_else :: "'a list \<Rightarrow> 'a list \<Rightarrow> 'a list" where
  "or_else xs ys = (if xs \<noteq> [] then xs else ys)"

definition in_scope :: "nat \<Rightarrow> nat list \<Rightarrow> nat list" where
  "in_scope scope_start matches = filter (\<lambda>start. start \<ge> scope_start) matches"

definition unique_start :: "string \<Rightarrow> string \<Rightarrow> nat list \<Rightarrow> patch_error + nat" where
  "unique_start path anchor starts =
     (case starts of
        [] \<Rightarrow> Inl (AnchorNotFound path anchor)
      | [s] \<Rightarrow> Inr s
      | _ \<Rightarrow> Inl (AnchorAmbiguous path starts))"

definition header_prefix_match :: "string \<Rightarrow> string \<Rightarrow> bool" where
  "header_prefix_match needle line =
     (let l = strip line in
      startswith l needle \<and>
      (length l = length needle \<or> \<not> is_alnum (l ! length needle) \<and> l ! length needle \<noteq> CHR ''_''))"

definition enumerate_from :: "nat \<Rightarrow> (string \<Rightarrow> bool) \<Rightarrow> string list \<Rightarrow> nat list" where
  "enumerate_from scope_start P content_lines =
     filter (\<lambda>idx. idx \<ge> scope_start \<and> P (content_lines ! idx)) [0 ..< length content_lines]"

definition find_header_anchor :: "string list \<Rightarrow> string \<Rightarrow> string \<Rightarrow> nat \<Rightarrow> patch_error + nat" where
  "find_header_anchor content_lines anchor path scope_start =
     (let starts = in_scope scope_start (find_line_matches content_lines [anchor] False);
          starts = or_else starts (enumerate_from scope_start (\<lambda>line. rstrip line = rstrip anchor) content_lines);
          starts = or_else starts (enumerate_from scope_start (header_prefix_match (strip anchor)) content_lines)
      in unique_start path anchor starts)"

definition find_scope_anchor :: "string list \<Rightarrow> string \<Rightarrow> string \<Rightarrow> nat \<Rightarrow> patch_error + nat" where
  "find_scope_anchor content_lines anchor path scope_start =
     (let starts = in_scope scope_start (find_line_matches content_lines [anchor] False);
          starts = or_else starts (in_scope scope_start (find_line_matches content_lines [anchor] True))
      in unique_start path anchor starts)"

section \<open>Applying chunks\<close>

record apply_state =
  as_lines :: "string list"
  as_delta :: int
  as_cursor :: nat
  as_hunks :: "(int \<times> int) list"

definition scope_start_of :: "string \<Rightarrow> apply_state \<Rightarrow> chunk \<Rightarrow> patch_error + nat" where
  "scope_start_of path st c =
     (case c_scope_anchor c of
        None \<Rightarrow> Inr (as_cursor st)
      | Some anchor \<Rightarrow>
          (case (if c_scope_is_literal c
                 then find_scope_anchor (as_lines st) anchor path (as_cursor st)
                 else find_header_anchor (as_lines st) anchor path (as_cursor st)) of
             Inl e \<Rightarrow> Inl e
           | Inr anchor_start \<Rightarrow> Inr (anchor_start + 1)))"

text \<open>Exact matches in scope, or else matches up to trailing whitespace.\<close>

definition line_starts :: "string list \<Rightarrow> nat \<Rightarrow> string list \<Rightarrow> nat list" where
  "line_starts lines scope_start old_lines =
     or_else (in_scope scope_start (find_line_matches lines old_lines False))
             (in_scope scope_start (find_line_matches lines old_lines True))"

definition locator_starts :: "string list \<Rightarrow> nat \<Rightarrow> chunk \<Rightarrow> nat list" where
  "locator_starts lines scope_start c =
     (let starts = line_starts lines scope_start (c_old c) in
      if starts = [] \<and> c_raw_old c \<noteq> c_old c then line_starts lines scope_start (c_raw_old c) else starts)"

text \<open>
  The five stages of the search for a changing hunk: the candidate starts with the old and new
  lines in force for them.
\<close>

definition locate :: "string list \<Rightarrow> nat \<Rightarrow> chunk \<Rightarrow> nat list \<times> string list \<times> string list" where
  "locate lines scope_start c =
     (let old_lines = c_old c; new_lines = c_new c;
          starts = line_starts lines scope_start old_lines in
      if starts \<noteq> [] then (starts, old_lines, new_lines)
      else
        let raw_starts = (if c_raw_old c \<noteq> c_old c then line_starts lines scope_start (c_raw_old c) else []) in
        if raw_starts \<noteq> [] then (raw_starts, c_raw_old c, c_raw_new c)
        else
          let bare = strip_line_number_prefixes old_lines;
              bare_starts = (case bare of None \<Rightarrow> [] | Some b \<Rightarrow> line_starts lines scope_start b) in
          if bare_starts \<noteq> [] then
            (bare_starts, the bare,
             (case strip_line_number_prefixes new_lines of
                None \<Rightarrow> new_lines | Some n \<Rightarrow> if n = [] then new_lines else n))
          else
            let indent_starts = in_scope scope_start (find_indentation_tolerant_matches lines old_lines) in
            if length indent_starts = 1 then
              let window = take (length old_lines) (drop (hd indent_starts) lines) in
              (indent_starts, window, adjust_new_lines_indentation (zip window (c_old c)) new_lines)
            else ([], old_lines, new_lines))"

text \<open>Context lines take the file's own text, even where the match was only approximate.\<close>

fun keep_context :: "(nat \<times> nat) list \<Rightarrow> string list \<Rightarrow> string list \<Rightarrow> string list" where
  "keep_context [] window new_lines = new_lines"
| "keep_context ((i, j) # ps) window new_lines =
     keep_context ps window
       (if i < length window \<and> j < length new_lines then new_lines[j := window ! i] else new_lines)"

definition splice :: "apply_state \<Rightarrow> nat \<Rightarrow> nat \<Rightarrow> string list \<Rightarrow> apply_state" where
  "splice st start old_len actual_new =
     (let new_start = int start + 1; old_start = new_start - as_delta st in
      st\<lparr>as_hunks := as_hunks st @ [(old_start, new_start)],
         as_delta := as_delta st + int (length actual_new) - int old_len,
         as_lines := take start (as_lines st) @ actual_new @ drop (start + old_len) (as_lines st),
         as_cursor := start + length actual_new\<rparr>)"

definition apply_chunk :: "string \<Rightarrow> apply_state \<Rightarrow> chunk \<Rightarrow> patch_error + apply_state" where
  "apply_chunk path st c =
     (case scope_start_of path st c of
        Inl e \<Rightarrow> Inl e
      | Inr scope_start \<Rightarrow>
          if c_old c = c_new c then
            if c_old c = [] then Inr (st\<lparr>as_cursor := scope_start\<rparr>)
            else (case locator_starts (as_lines st) scope_start c of
                    [] \<Rightarrow> Inl (ContextMiss path (c_old c))
                  | [s] \<Rightarrow> Inr (st\<lparr>as_cursor := s + length (c_old c)\<rparr>)
                  | ss \<Rightarrow> Inl (ContextAmbiguous path ss (c_old c)))
          else if c_old c = [] then Inr (splice st scope_start 0 (c_new c))
          else (case locate (as_lines st) scope_start c of
                  ([], _, _) \<Rightarrow> Inl (ContextMiss path (c_old c))
                | ([start], old_lines, new_lines) \<Rightarrow>
                    let matched_window = take (length old_lines) (drop start (as_lines st)) in
                    Inr (splice st start (length old_lines)
                          (keep_context (c_context_pairs c) matched_window new_lines))
                | (ss, _, _) \<Rightarrow> Inl (ContextAmbiguous path ss (c_old c))))"

definition normalize_newlines :: "string \<Rightarrow> string" where
  "normalize_newlines content = replace_all [CR] [NL] (replace_all [CR, NL] [NL] content)"

definition has_trailing_newline :: "string \<Rightarrow> bool" where
  "has_trailing_newline normalized \<longleftrightarrow> normalized = [] \<or> last normalized = NL"

definition content_lines_of :: "string \<Rightarrow> string list" where
  "content_lines_of content =
     (let normalized = normalize_newlines content; lines = split_on NL normalized in
      if has_trailing_newline normalized \<and> lines \<noteq> [] \<and> last lines = [] then butlast lines else lines)"

definition restore_text :: "string \<Rightarrow> string list \<Rightarrow> string" where
  "restore_text content lines =
     (let next_content = join [NL] lines;
          next_content = (if has_trailing_newline (normalize_newlines content) \<and> lines \<noteq> []
                          then next_content @ [NL] else next_content)
      in if contains_sub content [CR, NL] then replace_all [NL] [CR, NL] next_content else next_content)"

definition apply_chunks_with_meta :: "string \<Rightarrow> chunk list \<Rightarrow> string \<Rightarrow> patch_error + (string \<times> (int \<times> int) list)" where
  "apply_chunks_with_meta content chunks path =
     (case fold_err (apply_chunk path)
             \<lparr>as_lines = content_lines_of content, as_delta = 0, as_cursor = 0, as_hunks = []\<rparr> chunks of
        Inl e \<Rightarrow> Inl e
      | Inr st \<Rightarrow> Inr (restore_text content (as_lines st), as_hunks st))"

section \<open>What the searches return\<close>

abbreviation window_at :: "string list \<Rightarrow> nat \<Rightarrow> nat \<Rightarrow> string list" where
  "window_at lines i n \<equiv> take n (drop i lines)"

lemma find_line_matches_exact:
  "i \<in> set (find_line_matches L old False) \<longleftrightarrow>
     old \<noteq> [] \<and> i + length old \<le> length L \<and> window_at L i (length old) = old"
  by (auto simp: find_line_matches_def Let_def)

lemma find_line_matches_trimmed:
  "i \<in> set (find_line_matches L old True) \<longleftrightarrow>
     old \<noteq> [] \<and> i + length old \<le> length L \<and> map rstrip (window_at L i (length old)) = map rstrip old"
  by (auto simp: find_line_matches_def Let_def)

lemma find_indentation_bound:
  "i \<in> set (find_indentation_tolerant_matches L old) \<Longrightarrow>
     i + length old \<le> length L \<and> map strip (window_at L i (length old)) = map strip old"
  by (auto simp: find_indentation_tolerant_matches_def Let_def split: if_splits)

lemma in_scope_iff [simp]: "i \<in> set (in_scope k xs) \<longleftrightarrow> i \<in> set xs \<and> k \<le> i"
  by (auto simp: in_scope_def)

lemma line_starts_sound:
  assumes "i \<in> set (line_starts L k old)"
  shows "k \<le> i \<and> i + length old \<le> length L \<and> map rstrip (window_at L i (length old)) = map rstrip old"
  using assms
  by (auto simp: line_starts_def or_else_def find_line_matches_exact find_line_matches_trimmed split: if_splits)

text \<open>An exact match in scope is never overlooked in favour of an approximate one.\<close>

lemma line_starts_exact:
  assumes "k \<le> i" "old \<noteq> []" "i + length old \<le> length L" "window_at L i (length old) = old"
  shows "line_starts L k old = in_scope k (find_line_matches L old False) \<and>
         i \<in> set (line_starts L k old)"
proof -
  have "i \<in> set (in_scope k (find_line_matches L old False))"
    using assms by (simp add: find_line_matches_exact)
  moreover from this have "in_scope k (find_line_matches L old False) \<noteq> []" by (metis empty_iff empty_set)
  ultimately show ?thesis by (simp add: line_starts_def or_else_def)
qed

lemma unique_start_mem: "unique_start path a starts = Inr s \<Longrightarrow> starts = [s]"
  by (auto simp: unique_start_def split: list.splits)

lemma enumerate_from_iff:
  "i \<in> set (enumerate_from k P L) \<longleftrightarrow> k \<le> i \<and> i < length L \<and> P (L ! i)"
  by (auto simp: enumerate_from_def)

lemma scope_start_bounds:
  assumes "scope_start_of path st c = Inr k" and "as_cursor st \<le> length (as_lines st)"
  shows "as_cursor st \<le> k \<and> k \<le> length (as_lines st)"
proof (cases "c_scope_anchor c")
  case None
  with assms show ?thesis by (simp add: scope_start_of_def)
next
  case (Some anchor)
  define starts where "starts = (if c_scope_is_literal c
      then or_else (in_scope (as_cursor st) (find_line_matches (as_lines st) [anchor] False))
                   (in_scope (as_cursor st) (find_line_matches (as_lines st) [anchor] True))
      else or_else (or_else (in_scope (as_cursor st) (find_line_matches (as_lines st) [anchor] False))
             (enumerate_from (as_cursor st) (\<lambda>line. rstrip line = rstrip anchor) (as_lines st)))
             (enumerate_from (as_cursor st) (header_prefix_match (strip anchor)) (as_lines st)))"
  have "\<exists>s. k = s + 1 \<and> starts = [s]"
    using assms(1) Some unfolding starts_def
    by (auto simp: scope_start_of_def find_scope_anchor_def find_header_anchor_def Let_def
             split: if_splits sum.splits dest!: unique_start_mem)
  moreover have "s \<in> set starts \<Longrightarrow> as_cursor st \<le> s \<and> s < length (as_lines st)" for s
    by (auto simp: starts_def or_else_def find_line_matches_exact find_line_matches_trimmed
                   enumerate_from_iff split: if_splits)
  ultimately show ?thesis by fastforce
qed

lemma locator_starts_sound:
  assumes "s \<in> set (locator_starts L k c)" and "length (c_raw_old c) = length (c_old c)"
  shows "k \<le> s \<and> s + length (c_old c) \<le> length L"
  using assms line_starts_sound [of s L k "c_old c"] line_starts_sound [of s L k "c_raw_old c"]
  by (auto simp: locator_starts_def Let_def split: if_splits)

text \<open>How the lines of a window may differ from the hunk that selected it.\<close>

definition window_matches :: "chunk \<Rightarrow> string list \<Rightarrow> bool" where
  "window_matches c w \<longleftrightarrow>
     map rstrip w = map rstrip (c_old c) \<or> map rstrip w = map rstrip (c_raw_old c) \<or>
     (\<exists>b. strip_line_number_prefixes (c_old c) = Some b \<and> map rstrip w = map rstrip b) \<or>
     map strip w = map strip (c_old c)"

lemma locate_cases:
  assumes "locate L k c = ([s], old, new)"
  obtains (direct) "line_starts L k (c_old c) = [s]" "old = c_old c"
    | (raw) "line_starts L k (c_raw_old c) = [s]" "old = c_raw_old c"
    | (bare) b where "strip_line_number_prefixes (c_old c) = Some b" "line_starts L k b = [s]" "old = b"
    | (shift) "in_scope k (find_indentation_tolerant_matches L (c_old c)) = [s]"
        "old = window_at L s (length (c_old c))"
proof -
  let ?d = "line_starts L k (c_old c)"
  let ?r = "if c_raw_old c \<noteq> c_old c then line_starts L k (c_raw_old c) else []"
  let ?b = "case strip_line_number_prefixes (c_old c) of None \<Rightarrow> [] | Some b \<Rightarrow> line_starts L k b"
  let ?i = "in_scope k (find_indentation_tolerant_matches L (c_old c))"
  consider "?d \<noteq> []" | "?d = []" "?r \<noteq> []" | "?d = []" "?r = []" "?b \<noteq> []"
    | "?d = []" "?r = []" "?b = []" by argo
  then show ?thesis
  proof cases
    case 1
    with assms have "?d = [s] \<and> c_old c = old" by (auto simp: locate_def Let_def)
    then show ?thesis by (intro direct) auto
  next
    case 2
    then show ?thesis using assms by (intro raw) (simp_all add: locate_def Let_def split: if_splits)
  next
    case 3
    then obtain b where b: "strip_line_number_prefixes (c_old c) = Some b" by (cases "strip_line_number_prefixes (c_old c)") auto
    with 3 show ?thesis using assms by (intro bare [of b]) (auto simp only: locate_def Let_def option.case option.sel split: if_splits)
  next
    case 4
    with assms have "length ?i = 1 \<and> ?i = [s] \<and> old = window_at L (hd ?i) (length (c_old c))"
      by (simp only: locate_def Let_def split: if_splits) auto
    then show ?thesis by (intro shift) auto
  qed
qed

lemma locate_sound:
  assumes "locate L k c = ([s], old, new)"
  shows "k \<le> s \<and> s + length old \<le> length L \<and> window_matches c (window_at L s (length old))"
  using assms
proof (cases rule: locate_cases)
  case direct
  then show ?thesis using line_starts_sound [of s L k "c_old c"] by (auto simp: window_matches_def)
next
  case raw
  then show ?thesis using line_starts_sound [of s L k "c_raw_old c"] by (auto simp: window_matches_def)
next
  case (bare b)
  then show ?thesis using line_starts_sound [of s L k b] by (auto simp: window_matches_def)
next
  case shift
  then have "s \<in> set (in_scope k (find_indentation_tolerant_matches L (c_old c)))" by simp
  then have "k \<le> s" and b: "s + length (c_old c) \<le> length L"
      "map strip (window_at L s (length (c_old c))) = map strip (c_old c)"
    using find_indentation_bound by auto
  moreover have "length old = length (c_old c)" using shift(2) b(1) by simp
  ultimately show ?thesis by (simp add: window_matches_def)
qed

lemma locate_exact:
  assumes "locate L k c = ([s], old, new)" and "window_at L s (length old) = c_old c" and "c_old c \<noteq> []"
  shows "old = c_old c \<and> new = c_new c"
proof -
  have ks: "k \<le> s" "s + length old \<le> length L" using locate_sound [OF assms(1)] by auto
  then have "length (window_at L s (length old)) = length old" by simp
  then have len: "length old = length (c_old c)" using assms(2) by simp
  have "s \<in> set (line_starts L k (c_old c))"
    by (rule line_starts_exact [THEN conjunct2]) (use ks assms(2,3) len in auto)
  then have "line_starts L k (c_old c) \<noteq> []" by auto
  with assms(1) show ?thesis by (simp add: locate_def Let_def)
qed

section \<open>Context lines\<close>

lemma length_keep_context [simp]: "length (keep_context ps w n) = length n"
  by (induction ps w n rule: keep_context.induct) auto

lemma keep_context_other: "j \<notin> snd ` set ps \<Longrightarrow> keep_context ps w n ! j = n ! j"
  by (induction ps w n rule: keep_context.induct) auto

lemma keep_context_nth:
  assumes "distinct (map snd ps)" and "(i, j) \<in> set ps" and "i < length w" and "j < length n"
  shows "keep_context ps w n ! j = w ! i"
  using assms
proof (induction ps arbitrary: n)
  case (Cons p ps)
  obtain i' j' where p: "p = (i', j')" by (cases p)
  show ?case
  proof (cases "(i, j) = (i', j')")
    case True
    with Cons.prems p have "j \<notin> snd ` set ps" by auto
    with True Cons.prems p show ?thesis by (simp add: keep_context_other)
  next
    case False
    with Cons.prems p have "(i, j) \<in> set ps" by auto
    with Cons.IH Cons.prems p show ?thesis by simp
  qed
qed simp

lemma keep_context_same:
  "list_all (\<lambda>(i, j). i < length w \<and> j < length n \<and> w ! i = n ! j) ps \<Longrightarrow> keep_context ps w n = n"
  by (induction ps w n rule: keep_context.induct) auto

lemma wf_pairs_distinct: "wf_pairs old new ps \<Longrightarrow> distinct (map snd ps)"
  unfolding wf_pairs_def by (induction ps) (auto simp: image_iff)

section \<open>Segments: the shape of an accepted edit\<close>

text \<open>
  A segment is a run of kept lines, the window of old lines after it and the lines that replace
  the window. A list of segments and a tail describe the text before and after, and the line
  numbers (from 1) at which each replaced window starts on either side.
\<close>

type_synonym segment = "string list \<times> string list \<times> string list"

fun before_text :: "segment list \<Rightarrow> string list \<Rightarrow> string list" where
  "before_text [] tail = tail"
| "before_text ((k, w, n) # segs) tail = k @ w @ before_text segs tail"

fun after_text :: "segment list \<Rightarrow> string list \<Rightarrow> string list" where
  "after_text [] tail = tail"
| "after_text ((k, w, n) # segs) tail = k @ n @ after_text segs tail"

fun seg_positions :: "int \<Rightarrow> int \<Rightarrow> segment list \<Rightarrow> (int \<times> int) list" where
  "seg_positions i j [] = []"
| "seg_positions i j ((k, w, n) # segs) =
     (i + int (length k), j + int (length k)) #
     seg_positions (i + int (length k) + int (length w)) (j + int (length k) + int (length n)) segs"

definition seg_for :: "chunk \<Rightarrow> segment \<Rightarrow> bool" where
  "seg_for c seg = (case seg of (k, w, n) \<Rightarrow>
     window_matches c w \<and> (w = c_old c \<longrightarrow> n = c_new c) \<and>
     (\<forall>(i, j) \<in> set (c_context_pairs c). i < length w \<and> j < length n \<longrightarrow> n ! j = w ! i))"

definition changing :: "chunk \<Rightarrow> bool" where
  "changing c \<longleftrightarrow> c_old c \<noteq> c_new c"

text \<open>The loop invariant: the edits done so far end at or before the cursor.\<close>

definition edits_done :: "string list \<Rightarrow> chunk list \<Rightarrow> apply_state \<Rightarrow> segment list \<Rightarrow> string list \<Rightarrow> bool" where
  "edits_done original dn st segs tail \<longleftrightarrow>
     original = before_text segs tail \<and> as_lines st = after_text segs tail \<and>
     as_hunks st = seg_positions 1 1 segs \<and>
     as_delta st = int (length (after_text segs tail)) - int (length (before_text segs tail)) \<and>
     length (after_text segs []) \<le> as_cursor st \<and> as_cursor st \<le> length (as_lines st) \<and>
     list_all2 seg_for (filter changing dn) segs"

lemma before_text_snoc: "before_text (segs @ [(k, w, n)]) tail = before_text segs (k @ w @ tail)"
  by (induction segs tail rule: before_text.induct) auto

lemma after_text_snoc: "after_text (segs @ [(k, w, n)]) tail = after_text segs (k @ n @ tail)"
  by (induction segs tail rule: after_text.induct) auto

lemma before_text_tail: "before_text segs tail = before_text segs [] @ tail"
  by (induction segs tail rule: before_text.induct) auto

lemma after_text_tail: "after_text segs tail = after_text segs [] @ tail"
  by (induction segs tail rule: after_text.induct) auto

lemma seg_positions_snoc:
  "seg_positions i j (segs @ [(k, w, n)]) = seg_positions i j segs @
     [(i + int (length (before_text segs [])) + int (length k), j + int (length (after_text segs [])) + int (length k))]"
proof (induction i j segs rule: seg_positions.induct)
  case (2 i j k' w' n' segs)
  then show ?case
    by (simp add: algebra_simps)
qed simp

lemma splice_edits_done:
  assumes inv: "edits_done original dn st segs tail"
    and start: "as_cursor st \<le> start" "start + old_len \<le> length (as_lines st)"
    and seg: "\<And>k. seg_for c (k, window_at (as_lines st) start old_len, new)" and ch: "changing c"
  shows "\<exists>segs' tail'. edits_done original (dn @ [c]) (splice st start old_len new) segs' tail'"
proof -
  define a where "a = length (after_text segs [])"
  define k where "k = take (start - a) tail"
  define w where "w = take old_len (drop (start - a) tail)"
  define t where "t = drop (start - a + old_len) tail"
  have lines: "as_lines st = after_text segs [] @ tail"
    using inv by (simp add: edits_done_def after_text_tail [of segs tail])
  have a_le: "a \<le> start" using inv start(1) by (simp add: edits_done_def a_def)
  have tail: "tail = k @ w @ t"
    unfolding k_def w_def t_def by (metis append.assoc append_take_drop_id take_add)
  have win: "window_at (as_lines st) start old_len = w"
    using a_le by (simp add: lines w_def a_def)
  have segk: "seg_for c (k, w, new)" using seg [of k] by (simp only: win)
  have len_k: "length k = start - a" and len_w: "length w = old_len"
    using start(2) a_le by (auto simp: k_def w_def lines a_def)
  have new_lines: "as_lines (splice st start old_len new) = after_text (segs @ [(k, w, new)]) t"
    using a_le by (simp add: splice_def Let_def lines after_text_snoc k_def t_def a_def)
      (simp add: after_text_tail [of segs "_ @ _"] algebra_simps)
  have "edits_done original (dn @ [c]) (splice st start old_len new) (segs @ [(k, w, new)]) t"
    unfolding edits_done_def
  proof (intro conjI)
    show "original = before_text (segs @ [(k, w, new)]) t"
      using inv tail by (simp add: edits_done_def before_text_snoc)
    show "as_hunks (splice st start old_len new) = seg_positions 1 1 (segs @ [(k, w, new)])"
      using inv a_le len_k
      by (simp add: edits_done_def splice_def Let_def seg_positions_snoc a_def
                    before_text_tail [of segs tail] after_text_tail [of segs tail])
    show "as_delta (splice st start old_len new) =
        int (length (after_text (segs @ [(k, w, new)]) t)) - int (length (before_text (segs @ [(k, w, new)]) t))"
      using inv len_w tail
      by (simp add: edits_done_def splice_def Let_def before_text_snoc after_text_snoc
                    before_text_tail [of segs "_ @ _"] after_text_tail [of segs "_ @ _"])
    show "list_all2 seg_for (filter changing (dn @ [c])) (segs @ [(k, w, new)])"
      using inv ch segk by (auto simp: edits_done_def intro!: list_all2_appendI)
    show "as_lines (splice st start old_len new) = after_text (segs @ [(k, w, new)]) t"
      by (rule new_lines)
    show "length (after_text (segs @ [(k, w, new)]) []) \<le> as_cursor (splice st start old_len new)"
      using a_le len_k by (simp add: splice_def Let_def after_text_snoc a_def after_text_tail [of segs "_ @ _"])
    show "as_cursor (splice st start old_len new) \<le> length (as_lines (splice st start old_len new))"
      using start(2) by (simp add: splice_def Let_def)
  qed
  then show ?thesis by blast
qed

lemma locate_seg_for:
  assumes "locate L k' c = ([s], old, new)" and wf: "wf_chunk c" and ne: "c_old c \<noteq> []"
  defines "w \<equiv> window_at L s (length old)"
  shows "seg_for c (k, w, keep_context (c_context_pairs c) w new)"
proof -
  have pairs: "wf_pairs (c_old c) (c_new c) (c_context_pairs c)" using wf by (simp add: wf_chunk_def)
  have "window_matches c w" using locate_sound [OF assms(1)] by (simp add: w_def)
  moreover have "keep_context (c_context_pairs c) w new = c_new c" if "w = c_old c"
  proof -
    have "new = c_new c" using locate_exact [OF assms(1)] that ne by (simp add: w_def)
    with that pairs show ?thesis by (auto simp: wf_pairs_def intro!: keep_context_same)
  qed
  moreover have "keep_context (c_context_pairs c) w new ! j = w ! i"
    if "(i, j) \<in> set (c_context_pairs c)" "i < length w" "j < length new" for i j
    using keep_context_nth [OF wf_pairs_distinct [OF pairs]] that by blast
  ultimately show ?thesis unfolding seg_for_def by auto
qed

lemma insert_seg_for: "c_old c = [] \<Longrightarrow> wf_chunk c \<Longrightarrow> seg_for c (k, [], c_new c)"
  by (auto simp: seg_for_def window_matches_def wf_chunk_def wf_pairs_def list_all_iff)

lemma apply_chunk_edits_done:
  assumes inv: "edits_done original dn st segs tail" and wf: "wf_chunk c"
    and step: "apply_chunk path st c = Inr st'"
  shows "\<exists>segs' tail'. edits_done original (dn @ [c]) st' segs' tail'"
proof -
  obtain k where k: "scope_start_of path st c = Inr k"
    using step by (auto simp: apply_chunk_def split: sum.splits)
  have kb: "as_cursor st \<le> k" "k \<le> length (as_lines st)"
    using scope_start_bounds [OF k] inv by (auto simp: edits_done_def)
  have move: "edits_done original (dn @ [c]) (st\<lparr>as_cursor := m\<rparr>) segs tail"
    if "\<not> changing c" "as_cursor st \<le> m" "m \<le> length (as_lines st)" for m
    using inv that by (auto simp: edits_done_def)
  show ?thesis
  proof (cases "changing c")
    case False
    then have eq: "c_old c = c_new c" by (simp add: changing_def)
    show ?thesis
    proof (cases "c_old c = []")
      case True
      with step k eq kb move [OF False] show ?thesis by (auto simp: apply_chunk_def)
    next
      case ne: False
      then obtain s where s: "locator_starts (as_lines st) k c = [s]" "st' = st\<lparr>as_cursor := s + length (c_old c)\<rparr>"
        using step k eq by (auto simp: apply_chunk_def split: list.splits)
      then have "k \<le> s" "s + length (c_old c) \<le> length (as_lines st)"
        using locator_starts_sound [of s "as_lines st" k c] wf by (auto simp: wf_chunk_def)
      then have "edits_done original (dn @ [c]) (st\<lparr>as_cursor := s + length (c_old c)\<rparr>) segs tail"
        using kb by (intro move [OF False]) auto
      with s(2) show ?thesis by blast
    qed
  next
    case ch: True
    show ?thesis
    proof (cases "c_old c = []")
      case True
      with step k ch have "st' = splice st k 0 (c_new c)"
        by (auto simp: apply_chunk_def changing_def)
      with splice_edits_done [OF inv kb(1), of 0 c "c_new c"] insert_seg_for [OF True wf] ch kb(2)
      show ?thesis by simp
    next
      case ne: False
      then obtain s old new where loc: "locate (as_lines st) k c = ([s], old, new)"
        and st': "st' = splice st s (length old)
           (keep_context (c_context_pairs c) (window_at (as_lines st) s (length old)) new)"
        using step k ch by (auto simp: apply_chunk_def changing_def Let_def split: list.splits prod.splits)
      from locate_sound [OF loc] have "as_cursor st \<le> s" "s + length old \<le> length (as_lines st)"
        using kb by auto
      with splice_edits_done [OF inv] locate_seg_for [OF loc wf ne] ch st' show ?thesis by blast
    qed
  qed
qed

lemma apply_chunks_edits_done:
  assumes "fold_err (apply_chunk path) st chunks = Inr st'" and "list_all wf_chunk chunks"
    and "edits_done original dn st segs tail"
  shows "\<exists>segs' tail'. edits_done original (dn @ chunks) st' segs' tail'"
  using assms
proof (induction chunks arbitrary: st dn segs tail)
  case (Cons c chunks)
  then obtain st1 where st1: "apply_chunk path st c = Inr st1" "fold_err (apply_chunk path) st1 chunks = Inr st'"
    by (auto split: sum.splits)
  obtain segs1 tail1 where "edits_done original (dn @ [c]) st1 segs1 tail1"
    using apply_chunk_edits_done [OF Cons.prems(3) _ st1(1)] Cons.prems(2) by auto
  with Cons.IH [OF st1(2)] Cons.prems(2) show ?case by fastforce
qed auto

text \<open>
  C22. An accepted update section is an ordered, non-overlapping edit: the file's lines split into
  kept runs, replaced windows and a tail; the new file is the same runs and tail with each window
  replaced; the reported diff metadata are exactly the 1-based line numbers of the windows in the
  old and in the new file; and the windows correspond one to one, in order, to the hunks that
  change something, each window matching its hunk (exactly, up to trailing blanks, in raw form,
  without line-number prefixes, or up to indentation), an exact window being replaced by exactly
  the hunk's new lines and every context line keeping the file's own text.
\<close>

theorem apply_chunks_segments:
  assumes "list_all wf_chunk chunks" and "apply_chunks_with_meta content chunks path = Inr (new_text, hunks)"
  shows "\<exists>segs tail. content_lines_of content = before_text segs tail \<and>
           new_text = restore_text content (after_text segs tail) \<and>
           hunks = seg_positions 1 1 segs \<and> list_all2 seg_for (filter changing chunks) segs"
proof -
  let ?init = "\<lparr>as_lines = content_lines_of content, as_delta = 0, as_cursor = 0, as_hunks = []\<rparr>"
  obtain st where st: "fold_err (apply_chunk path) ?init chunks = Inr st"
    "new_text = restore_text content (as_lines st)" "hunks = as_hunks st"
    using assms(2) by (auto simp: apply_chunks_with_meta_def split: sum.splits)
  have "edits_done (content_lines_of content) [] ?init [] (content_lines_of content)"
    by (simp add: edits_done_def)
  from apply_chunks_edits_done [OF st(1) assms(1) this] obtain segs tail
    where e: "edits_done (content_lines_of content) chunks st segs tail" by auto
  show ?thesis
    by (intro exI [of _ segs] exI [of _ tail]) (use e st(2,3) in \<open>simp add: edits_done_def\<close>)
qed

definition sample_chunk :: chunk where
  "sample_chunk = empty_chunk\<lparr>c_old := [''b'', ''c''], c_new := [''b'', ''d''], c_raw_old := ['' b'', ''c''],
     c_raw_new := ['' b'', ''d''], c_context_pairs := [(0, 0)]\<rparr>"

theorem apply_chunks_segments_witness:
  "\<exists>segs tail. content_lines_of (''a'' @ [NL] @ ''b  '' @ [NL] @ ''c'' @ [NL]) = before_text segs tail \<and>
     ''a'' @ [NL] @ ''b  '' @ [NL] @ ''d'' @ [NL] =
       restore_text (''a'' @ [NL] @ ''b  '' @ [NL] @ ''c'' @ [NL]) (after_text segs tail) \<and>
     [(2, 2)] = seg_positions 1 1 segs \<and> list_all2 seg_for (filter changing [sample_chunk]) segs"
proof (rule apply_chunks_segments)
  show "list_all wf_chunk [sample_chunk]"
    by (simp add: sample_chunk_def empty_chunk_def wf_chunk_def wf_pairs_def clean_line_def)
  show "apply_chunks_with_meta (''a'' @ [NL] @ ''b  '' @ [NL] @ ''c'' @ [NL]) [sample_chunk] ''f'' =
          Inr (''a'' @ [NL] @ ''b  '' @ [NL] @ ''d'' @ [NL], [(2, 2)])"
    by code_simp
qed

section \<open>Exact hunks\<close>

lemma in_scope_upt: "in_scope k (filter P [0 ..< n]) = filter P [k ..< n]"
proof (cases "k \<le> n")
  case True
  then have "[0 ..< n] = [0 ..< k] @ [k ..< n]" using upt_add_eq_append [of 0 k "n - k"] by simp
  then show ?thesis by (auto simp: in_scope_def intro!: filter_cong)
next
  case False
  then show ?thesis by (auto simp: in_scope_def filter_empty_conv)
qed

text \<open>
  A changing hunk without an anchor whose old lines occur verbatim at or after the cursor is
  decided by those occurrences alone: with exactly one, the window is replaced by the hunk's new
  lines; with several, the section is refused as ambiguous, naming all of them. Trimmed, raw,
  numbered or re-indented candidates are not considered in either case.
\<close>

theorem apply_chunk_exact:
  fixes st :: apply_state and c :: chunk
  defines "starts \<equiv> filter (\<lambda>i. window_at (as_lines st) i (length (c_old c)) = c_old c)
                      [as_cursor st ..< length (as_lines st) + 1 - length (c_old c)]"
  assumes wf: "wf_chunk c" and plain: "c_scope_anchor c = None" "c_old c \<noteq> c_new c" "c_old c \<noteq> []"
    and found: "starts \<noteq> []"
  shows "apply_chunk path st c =
           (if length starts = 1 then Inr (splice st (hd starts) (length (c_old c)) (c_new c))
            else Inl (ContextAmbiguous path starts (c_old c)))"
proof -
  have "in_scope (as_cursor st) (find_line_matches (as_lines st) (c_old c) False) = starts"
    using plain(3) by (simp add: find_line_matches_def Let_def in_scope_upt starts_def)
  with found have "line_starts (as_lines st) (as_cursor st) (c_old c) = starts"
    by (simp add: line_starts_def or_else_def)
  with found have loc: "locate (as_lines st) (as_cursor st) c = (starts, c_old c, c_new c)"
    by (simp add: locate_def)
  have scope: "scope_start_of path st c = Inr (as_cursor st)" using plain(1) by (simp add: scope_start_of_def)
  show ?thesis
  proof (cases starts)
    case (Cons s ss)
    have win: "window_at (as_lines st) s (length (c_old c)) = c_old c"
    proof -
      have "s \<in> set starts" using Cons by simp
      then show ?thesis by (simp add: starts_def)
    qed
    have "keep_context (c_context_pairs c) (c_old c) (c_new c) = c_new c"
      using wf by (auto simp: wf_chunk_def wf_pairs_def intro: keep_context_same)
    with Cons scope loc plain win show ?thesis
      by (cases ss) (simp_all add: apply_chunk_def)
  qed (use found in simp)
qed

theorem apply_chunk_exact_witness:
  "apply_chunk ''f'' \<lparr>as_lines = [''a'', ''b'', ''a''], as_delta = 0, as_cursor = 1, as_hunks = []\<rparr>
      (empty_chunk\<lparr>c_old := [''a''], c_new := [''z''], c_raw_old := [''a''], c_raw_new := [''z'']\<rparr>) =
     Inr \<lparr>as_lines = [''a'', ''b'', ''z''], as_delta = 0, as_cursor = 3, as_hunks = [(3, 3)]\<rparr> \<and>
   apply_chunk ''f'' \<lparr>as_lines = [''a'', ''b'', ''a''], as_delta = 0, as_cursor = 0, as_hunks = []\<rparr>
      (empty_chunk\<lparr>c_old := [''a''], c_new := [''z''], c_raw_old := [''a''], c_raw_new := [''z'']\<rparr>) =
     Inl (ContextAmbiguous ''f'' [0, 2] [''a''])"
proof -
  let ?c = "empty_chunk\<lparr>c_old := [''a''], c_new := [''z''], c_raw_old := [''a''], c_raw_new := [''z'']\<rparr>"
  let ?st = "\<lambda>k. \<lparr>as_lines = [''a'', ''b'', ''a''], as_delta = 0, as_cursor = k, as_hunks = []\<rparr>"
  have wf: "wf_chunk ?c"
    by (simp add: wf_chunk_def empty_chunk_def wf_pairs_def clean_line_def)
  have plain: "c_scope_anchor ?c = None" "c_old ?c \<noteq> c_new ?c" "c_old ?c \<noteq> []"
    by (simp_all add: empty_chunk_def)
  show ?thesis
    using apply_chunk_exact [OF wf plain, of "?st 1" "''f''"] apply_chunk_exact [OF wf plain, of "?st 0" "''f''"]
    by (simp add: splice_def upt_rec numeral_eq_Suc)
qed

section \<open>Line endings\<close>

abbreviation to_crlf :: "string \<Rightarrow> string" where
  "to_crlf s \<equiv> replace_all [NL] [CR, NL] s"

lemma to_crlf_Cons: "to_crlf (x # xs) = (if x = NL then [CR, NL] else [x]) @ to_crlf xs"
  by (simp add: replace_all_char)

lemma normalize_clean: "CR \<notin> set t \<Longrightarrow> normalize_newlines t = t"
  by (simp add: normalize_newlines_def replace_all_fresh)

lemma unfold_crlf: "CR \<notin> set t \<Longrightarrow> replace_all [CR, NL] [NL] (to_crlf t) = t"
  by (induction t) (auto simp: to_crlf_Cons replace_all.simps)

lemma normalize_crlf: "CR \<notin> set t \<Longrightarrow> normalize_newlines (to_crlf t) = t"
  by (simp add: normalize_newlines_def unfold_crlf replace_all_fresh)

lemma contains_crlf: "NL \<in> set t \<Longrightarrow> contains_sub (to_crlf t) [CR, NL]"
  unfolding contains_sub_def by (induction t) (auto simp: to_crlf_Cons)

lemma contains_crlf_fresh: "CR \<notin> set t \<Longrightarrow> \<not> contains_sub t [CR, NL]"
  unfolding contains_sub_def by (induction t) auto

text \<open>
  Windows line endings are transparent: patching a file that uses CRLF throughout gives the CRLF
  form of what patching its LF form gives, with the same diff metadata and the same errors.
\<close>

theorem apply_chunks_crlf:
  assumes "CR \<notin> set t" and "NL \<in> set t"
  shows "apply_chunks_with_meta (to_crlf t) chunks path =
           map_sum id (apfst to_crlf) (apply_chunks_with_meta t chunks path)"
  using assms
  by (simp add: apply_chunks_with_meta_def content_lines_of_def restore_text_def normalize_clean
                normalize_crlf contains_crlf contains_crlf_fresh Let_def split: sum.split)

theorem apply_chunks_crlf_witness:
  "apply_chunks_with_meta (to_crlf (''a'' @ [NL] @ ''b'' @ [NL])) [] ''f'' =
     map_sum id (apfst to_crlf) (apply_chunks_with_meta (''a'' @ [NL] @ ''b'' @ [NL]) [] ''f'')"
  by (rule apply_chunks_crlf) simp_all

text \<open>
  Files that mix line endings do not keep their untouched bytes: one CRLF anywhere makes the tool
  rewrite every line end, so the line end of the unchanged line \<open>b\<close> below turns from LF to CRLF.
\<close>

theorem mixed_line_endings_rewritten:
  "apply_chunks_with_meta (''a'' @ [CR, NL] @ ''b'' @ [NL] @ ''c'' @ [NL])
     [empty_chunk\<lparr>c_old := [''a''], c_new := [''x''], c_raw_old := [''a''], c_raw_new := [''x'']\<rparr>] ''f'' =
   Inr (''x'' @ [CR, NL] @ ''b'' @ [CR, NL] @ ''c'' @ [CR, NL], [(1, 1)])"
  by code_simp

end
