(* ===== verification/Glob.thy ===== *)
theory Glob
  imports Prelude
begin

text \<open>
  Python's \<open>fnmatch.fnmatch\<close> on a POSIX system (where \<open>normcase\<close> is the identity): the pattern
  language of \<open>fnmatch.translate\<close> with \<open>*\<close>, \<open>?\<close>, \<open>[seq]\<close> and \<open>[!seq]\<close>, including the
  treatment of unclosed brackets, literal hyphens and empty ranges, and the anchored match of the
  resulting regular expression. The permission rules and the path denylist are built on it.
\<close>

datatype glob_token =
    Star
  | AnyChar
  | Lit char
  | CharClass bool "char list" "(char \<times> char) list"
  | NeverMatch

section \<open>Bracket expressions\<close>

text \<open>
  The length of the text between \<open>[\<close> and its closing \<open>]\<close>, if there is one: a \<open>]\<close> directly after
  \<open>[\<close> or \<open>[!\<close> does not close.
\<close>

definition class_length :: "string \<Rightarrow> nat option" where
  "class_length r =
     (let skip = (if startswith r ''!'' then 1 else 0);
          skip = (if startswith (drop skip r) '']'' then skip + 1 else skip)
      in map_option (\<lambda>i. skip + i) (find_sub '']'' (drop skip r)))"

text \<open>
  Cutting at the hyphens that form ranges: none within the first \<open>skip\<close> characters, none within two
  characters after the previous cut. An empty rest gives its hyphen back to the last piece.
\<close>

function hyphen_chunks :: "nat \<Rightarrow> string \<Rightarrow> string list" where
  "hyphen_chunks skip s =
     (case find_sub ''-'' (drop skip s) of
        None \<Rightarrow> [s]
      | Some i \<Rightarrow>
          let k = skip + i; rest = drop (k + 1) s in
          if rest = [] then [take k s @ ''-''] else take k s # hyphen_chunks 2 rest)"
  by pat_completeness auto
termination
proof (relation "measure (\<lambda>(skip, s). length s)", goal_cases)
  case (2 skip s i x xa)
  then show ?case by (cases "s = []") auto
qed simp

text \<open>Empty ranges are cut out from the right.\<close>

fun drop_empty_ranges :: "string list \<Rightarrow> string list" where
  "drop_empty_ranges [] = []"
| "drop_empty_ranges [c] = [c]"
| "drop_empty_ranges (c # cs) =
     (case drop_empty_ranges cs of
        [] \<Rightarrow> [c]
      | d # ds \<Rightarrow>
          if (of_char (last c) :: nat) > of_char (hd d) then (butlast c @ tl d) # ds else c # d # ds)"

fun range_bounds :: "string list \<Rightarrow> (char \<times> char) list" where
  "range_bounds (c # d # ds) = (last c, hd d) # range_bounds (d # ds)"
| "range_bounds _ = []"

definition class_token :: "string \<Rightarrow> glob_token" where
  "class_token stuff =
     (let chunks = (if CHR ''-'' \<notin> set stuff then [stuff]
                    else drop_empty_ranges (hyphen_chunks (if startswith stuff ''!'' then 2 else 1) stuff));
          all = concat chunks in
      if all = [] then NeverMatch
      else if startswith all ''!'' then
        (if all = ''!'' \<and> length chunks = 1 then AnyChar
         else CharClass True (tl all) (range_bounds (tl (hd chunks) # tl chunks)))
      else CharClass False all (range_bounds chunks))"

section \<open>Patterns and matching\<close>

function glob_tokens :: "string \<Rightarrow> glob_token list" where
  "glob_tokens [] = []"
| "glob_tokens (c # rest) =
     (if c = CHR ''*'' then Star # glob_tokens rest
      else if c = CHR ''?'' then AnyChar # glob_tokens rest
      else if c = CHR ''['' then
        (case class_length rest of
           None \<Rightarrow> Lit c # glob_tokens rest
         | Some j \<Rightarrow> class_token (take j rest) # glob_tokens (drop (j + 1) rest))
      else Lit c # glob_tokens rest)"
  by pat_completeness auto
termination
  by (relation "measure length") auto

fun token_matches :: "glob_token \<Rightarrow> char \<Rightarrow> bool" where
  "token_matches Star c = True"
| "token_matches AnyChar c = True"
| "token_matches (Lit d) c = (c = d)"
| "token_matches (CharClass neg cs rs) c =
     (neg \<noteq> (c \<in> set cs \<or>
        list_ex (\<lambda>(lo, hi). (of_char lo :: nat) \<le> of_char c \<and> (of_char c :: nat) \<le> of_char hi) rs))"
| "token_matches NeverMatch c = False"

fun glob_match :: "glob_token list \<Rightarrow> string \<Rightarrow> bool" where
  "glob_match [] s = (s = [])"
| "glob_match (Star # ts) [] = glob_match ts []"
| "glob_match (Star # ts) (c # s) = (glob_match ts (c # s) \<or> glob_match (Star # ts) s)"
| "glob_match (t # ts) [] = False"
| "glob_match (t # ts) (c # s) = (token_matches t c \<and> glob_match ts s)"

definition fnmatch :: "string \<Rightarrow> string \<Rightarrow> bool" where
  "fnmatch name pat = glob_match (glob_tokens pat) name"

declare glob_tokens.simps(2) [simp del]

section \<open>Facts\<close>

definition plain_char :: "char \<Rightarrow> bool" where
  "plain_char c \<longleftrightarrow> c \<noteq> CHR ''*'' \<and> c \<noteq> CHR ''?'' \<and> c \<noteq> CHR ''[''"

lemma glob_tokens_plain: "plain_char c \<Longrightarrow> glob_tokens (c # rest) = Lit c # glob_tokens rest"
  by (simp add: glob_tokens.simps plain_char_def)

lemma glob_tokens_star [simp]: "glob_tokens (CHR ''*'' # rest) = Star # glob_tokens rest"
  by (simp add: glob_tokens.simps)

lemma glob_match_star: "glob_match (Star # ts) s \<longleftrightarrow> (\<exists>u v. s = u @ v \<and> glob_match ts v)"
proof (induction s)
  case (Cons c s)
  then show ?case by (auto simp: Cons_eq_append_conv)
qed simp

lemma fnmatch_star [simp]: "fnmatch s ''*''"
  by (auto simp: fnmatch_def glob_match_star)

lemma fnmatch_plain: "list_all plain_char p \<Longrightarrow> fnmatch s p \<longleftrightarrow> s = p"
  unfolding fnmatch_def
proof (induction p arbitrary: s)
  case (Cons c p)
  then show ?case by (cases s) (auto simp: glob_tokens_plain)
qed simp

text \<open>A text without brackets matches itself when it is read as a pattern.\<close>

lemma fnmatch_self: "CHR ''['' \<notin> set p \<Longrightarrow> fnmatch p p"
  unfolding fnmatch_def
proof (induction p)
  case (Cons c p)
  then have IH: "glob_match (glob_tokens p) p" by auto
  consider "c = CHR ''*''" | "c = CHR ''?''" | "plain_char c"
    using Cons.prems by (auto simp: plain_char_def)
  then show ?case
  proof cases
    case 1
    with IH show ?thesis by (auto simp: glob_match_star) (metis append_Cons append_Nil)
  next
    case 2
    with IH show ?thesis by (simp add: glob_tokens.simps)
  next
    case 3
    with IH show ?thesis by (simp add: glob_tokens_plain)
  qed
qed simp

end
