(* ===== verification/DeniedPaths.thy ===== *)
theory DeniedPaths
  imports Glob
begin

text \<open>
  The path denylist of \<open>app/agent/denied_paths.py\<close> and the path helpers of \<open>app/core/paths.py\<close>:
  \<open>pathlib\<close>'s pure POSIX paths, \<open>DeniedPathsConfig\<close> with its memoised carve-outs, the checks
  \<open>validate_path\<close> and \<open>is_denied_path\<close>, and the scan of shell command lines \<open>check_command\<close> with
  the tokenizer of \<open>shlex.split\<close>. The operating system (\<open>resolve\<close>, \<open>is_symlink\<close>, \<open>mkdir\<close>) is a
  parameter: a record of functions, each of which may fail with an \<open>OSError\<close>.
\<close>

section \<open>Pure paths\<close>

text \<open>\<open>root\<close> is empty, one slash, or exactly two slashes; \<open>parts\<close> has no empty and no \<open>.\<close> part.\<close>

record purepath =
  root :: string
  parts :: "string list"

definition path_of :: "string \<Rightarrow> purepath" where
  "path_of s =
     (let slashes = length (takeWhile (\<lambda>c. c = CHR ''/'') s) in
      \<lparr>root = (if slashes = 0 then [] else if slashes = 2 then ''//'' else ''/''),
       parts = filter (\<lambda>p. p \<noteq> [] \<and> p \<noteq> ''.'') (split_on (CHR ''/'') s)\<rparr>)"

definition path_str :: "purepath \<Rightarrow> string" where
  "path_str p = (if root p = [] \<and> parts p = [] then ''.'' else root p @ join ''/'' (parts p))"

definition is_absolute :: "purepath \<Rightarrow> bool" where
  "is_absolute p \<longleftrightarrow> root p \<noteq> []"

definition join_path :: "purepath \<Rightarrow> purepath \<Rightarrow> purepath" where
  "join_path p q = (if is_absolute q then q else p\<lparr>parts := parts p @ parts q\<rparr>)"

definition path_is_under :: "purepath \<Rightarrow> purepath \<Rightarrow> bool" where
  "path_is_under path parent \<longleftrightarrow> root path = root parent \<and> prefix (parts parent) (parts path)"

definition relative_to :: "purepath \<Rightarrow> purepath \<Rightarrow> purepath option" where
  "relative_to p base =
     (if path_is_under p base
      then Some \<lparr>root = [], parts = drop (length (parts base)) (parts p)\<rparr> else None)"

section \<open>Operating system and settings\<close>

datatype path_error =
    PermissionError string
  | OSError
  | ValueError string

text \<open>\<open>PermissionError\<close> is a subclass of \<open>OSError\<close>.\<close>

fun is_oserror :: "path_error \<Rightarrow> bool" where
  "is_oserror (PermissionError _) = True"
| "is_oserror OSError = True"
| "is_oserror (ValueError _) = False"

record os =
  resolve :: "purepath \<Rightarrow> path_error + purepath"
  is_symlink :: "purepath \<Rightarrow> path_error + bool"
  mkdir :: "purepath \<Rightarrow> path_error + unit"

record settings =
  DATA_DIR :: string
  STATE_DIR :: string
  CACHE_DIR :: string
  WORKSPACE_DIR :: string

definition sessions_root :: "settings \<Rightarrow> purepath" where
  "sessions_root st = join_path (path_of (DATA_DIR st)) (path_of ''sessions'')"

text \<open>A missing and an empty session id are both falsy; both are the empty string here.\<close>

definition session_artifacts_dir :: "settings \<Rightarrow> string \<Rightarrow> purepath" where
  "session_artifacts_dir st session_id =
     (if session_id \<noteq> [] then join_path (sessions_root st) (path_of session_id)
      else sessions_root st)"

definition workspace_dir :: "settings \<Rightarrow> string \<Rightarrow> purepath" where
  "workspace_dir st session_id = join_path (path_of (WORKSPACE_DIR st)) (path_of session_id)"

definition session_workspace_dir :: "os \<Rightarrow> settings \<Rightarrow> string \<Rightarrow> string \<Rightarrow> path_error + purepath" where
  "session_workspace_dir env st session_id workspace =
     (if workspace \<noteq> [] then resolve env (path_of workspace) else Inr (workspace_dir st session_id))"

definition session_uploads_dir :: "os \<Rightarrow> settings \<Rightarrow> string \<Rightarrow> string \<Rightarrow> path_error + purepath" where
  "session_uploads_dir env st session_id workspace =
     bind_err (session_workspace_dir env st session_id workspace)
       (\<lambda>d. Inr (join_path d (path_of ''uploads'')))"

section \<open>The configuration\<close>

type_synonym shielded = "(purepath \<times> purepath list) list"

record config =
  workspace_root :: purepath
  session_id :: string
  denied_roots :: "purepath list"
  denied_patterns :: "string list"
  shielded_roots_cache :: "shielded option"
  max_execution_seconds :: int
  max_output_bytes :: int
  allow_network :: bool

text \<open>\<open>given or default\<close>: a missing value and zero are both falsy.\<close>

definition or_default :: "int option \<Rightarrow> int \<Rightarrow> int" where
  "or_default given d = (case given of None \<Rightarrow> d | Some n \<Rightarrow> if n = 0 then d else n)"

definition default_denied_roots :: "os \<Rightarrow> settings \<Rightarrow> path_error + purepath list" where
  "default_denied_roots env st =
     map_err (resolve env) [path_of (DATA_DIR st), path_of (STATE_DIR st), path_of (CACHE_DIR st)]"

text \<open>
  \<open>load_config\<close> stands for the patterns of \<open>denied_paths.yaml\<close>; a \<open>ValueError\<close> or an \<open>OSError\<close>
  while reading them is logged and gives no patterns.
\<close>

definition load_patterns :: "path_error + string list \<Rightarrow> string list option \<Rightarrow> string list" where
  "load_patterns loaded given =
     (case given of
        Some ps \<Rightarrow> ps
      | None \<Rightarrow> (case loaded of
                   Inr ps \<Rightarrow> ps
                 | Inl _ \<Rightarrow> []))"

definition make_config ::
  "os \<Rightarrow> settings \<Rightarrow> path_error + string list \<Rightarrow> string \<Rightarrow> string \<Rightarrow> purepath list option \<Rightarrow>
   string list option \<Rightarrow> int option \<Rightarrow> int option \<Rightarrow> bool option \<Rightarrow> path_error + config" where
  "make_config env st loaded workspace sid roots pats secs bytes net =
     (if workspace = [] then
        Inl (ValueError (''DeniedPathsConfig requires an explicit workspace path; '' @
                         ''no implicit default is provided.''))
      else bind_err (resolve env (path_of workspace)) (\<lambda>ws.
           bind_err (mkdir env ws) (\<lambda>_.
           bind_err (case roots of None \<Rightarrow> default_denied_roots env st | Some rs \<Rightarrow> Inr rs) (\<lambda>rs.
           bind_err (map_err (resolve env) rs) (\<lambda>rs.
             Inr \<lparr>workspace_root = ws, session_id = sid, denied_roots = rs,
                  denied_patterns = load_patterns loaded pats, shielded_roots_cache = None,
                  max_execution_seconds = or_default secs 120,
                  max_output_bytes = or_default bytes 131072,
                  allow_network = (case net of None \<Rightarrow> True | Some b \<Rightarrow> b)\<rparr>)))))"

definition metadata_path :: "settings \<Rightarrow> config \<Rightarrow> string \<Rightarrow> purepath" where
  "metadata_path st cfg name = join_path (session_artifacts_dir st (session_id cfg)) (path_of name)"

definition allowed_internal_roots :: "os \<Rightarrow> settings \<Rightarrow> string \<Rightarrow> path_error + purepath list" where
  "allowed_internal_roots env st sid =
     bind_err (resolve env (path_of (STATE_DIR st))) (\<lambda>state_root.
       let allowed = [join_path state_root (path_of ''logs''), join_path state_root (path_of ''otel''),
                      join_path state_root (path_of ''telemetry'')] in
       if sid \<noteq> [] then
         bind_err (resolve env (session_artifacts_dir st sid)) (\<lambda>a. Inr (allowed @ [a]))
       else Inr allowed)"

definition shield_pairs :: "purepath list \<Rightarrow> purepath list \<Rightarrow> shielded" where
  "shield_pairs roots allowed = map (\<lambda>d. (d, filter (\<lambda>r. path_is_under r d) allowed)) roots"

definition shielded_denied_roots :: "os \<Rightarrow> settings \<Rightarrow> config \<Rightarrow> path_error + (shielded \<times> config)" where
  "shielded_denied_roots env st cfg =
     (case shielded_roots_cache cfg of
        Some c \<Rightarrow> Inr (c, cfg)
      | None \<Rightarrow>
          bind_err (allowed_internal_roots env st (session_id cfg)) (\<lambda>internal.
            let c = shield_pairs (denied_roots cfg) (workspace_root cfg # internal)
            in Inr (c, cfg\<lparr>shielded_roots_cache := Some c\<rparr>)))"

section \<open>Checks\<close>

datatype denial = DeniedRoot purepath | DeniedPattern string

fun root_hit :: "shielded \<Rightarrow> purepath \<Rightarrow> purepath option" where
  "root_hit [] p = None"
| "root_hit ((denied, shields) # rest) p =
     (if list_ex (path_is_under p) shields then root_hit rest p
      else if path_is_under p denied then Some denied
      else root_hit rest p)"

fun pattern_hit :: "string list \<Rightarrow> string \<Rightarrow> string option" where
  "pattern_hit [] s = None"
| "pattern_hit (pat # pats) s = (if fnmatch s pat then Some pat else pattern_hit pats s)"

definition denial_of :: "shielded \<Rightarrow> string list \<Rightarrow> purepath \<Rightarrow> denial option" where
  "denial_of shielded pats p =
     (case root_hit shielded p of
        Some d \<Rightarrow> Some (DeniedRoot d)
      | None \<Rightarrow> map_option DeniedPattern (pattern_hit pats (path_str p)))"

definition is_denied :: "os \<Rightarrow> settings \<Rightarrow> config \<Rightarrow> purepath \<Rightarrow> path_error + (denial option \<times> config)" where
  "is_denied env st cfg p =
     bind_err (shielded_denied_roots env st cfg)
       (\<lambda>(shielded, cfg). Inr (denial_of shielded (denied_patterns cfg) p, cfg))"

definition denial_str :: "denial \<Rightarrow> string" where
  "denial_str d = (case d of DeniedRoot r \<Rightarrow> path_str r | DeniedPattern s \<Rightarrow> s)"

definition candidate_path :: "config \<Rightarrow> string \<Rightarrow> purepath" where
  "candidate_path cfg s =
     (let p = path_of s in if is_absolute p then p else join_path (workspace_root cfg) p)"

definition validate_path :: "os \<Rightarrow> settings \<Rightarrow> config \<Rightarrow> string \<Rightarrow> path_error + (purepath \<times> config)" where
  "validate_path env st cfg path =
     (if startswith path ''~'' then Inl (PermissionError (''Tilde paths are not allowed: '' @ path))
      else bind_err (resolve env (candidate_path cfg path)) (\<lambda>resolved.
           bind_err (is_denied env st cfg resolved) (\<lambda>(denied, cfg).
             case denied of
               Some d \<Rightarrow> Inl (PermissionError (''Path '' @ [CHR 0x27] @ path_str resolved @ [CHR 0x27] @
                               '' is inside a denied root: '' @ denial_str d))
             | None \<Rightarrow> Inr (resolved, cfg))))"

definition is_denied_path :: "os \<Rightarrow> settings \<Rightarrow> config \<Rightarrow> purepath \<Rightarrow> path_error + (bool \<times> config)" where
  "is_denied_path env st cfg p =
     bind_err (is_denied env st cfg p) (\<lambda>(denied, cfg).
       if denied \<noteq> None then Inr (True, cfg)
       else case is_symlink env p of
              Inl e \<Rightarrow> if is_oserror e then Inr (True, cfg) else Inl e
            | Inr False \<Rightarrow> Inr (False, cfg)
            | Inr True \<Rightarrow>
                (case bind_err (resolve env p) (is_denied env st cfg) of
                   Inl e \<Rightarrow> if is_oserror e then Inr (True, cfg) else Inl e
                 | Inr (denied, cfg) \<Rightarrow> Inr (denied \<noteq> None, cfg)))"

definition display_path :: "config \<Rightarrow> purepath \<Rightarrow> string" where
  "display_path cfg p =
     (case relative_to p (workspace_root cfg) of Some r \<Rightarrow> path_str r | None \<Rightarrow> path_str p)"

section \<open>Shell command lines\<close>

text \<open>
  \<open>shlex.split(s, posix=True)\<close>: the states of \<open>read_token\<close> with \<open>whitespace_split\<close> and no comment
  characters. \<open>Escape (Some q)\<close> is an escape inside the quotes \<open>q\<close>, \<open>Escape None\<close> one outside.
  \<open>None\<close> is a \<open>ValueError\<close> (no closing quotation, no escaped character).
\<close>

datatype shlex_state = Between | Word | Quote char | Escape "char option"

definition shlex_space :: "char \<Rightarrow> bool" where
  "shlex_space c \<longleftrightarrow> c \<in> set [CHR '' '', CHR 0x09, CR, NL]"

definition shlex_quote :: "char \<Rightarrow> bool" where
  "shlex_quote c \<longleftrightarrow> c = CHR 0x27 \<or> c = CHR 0x22"

fun shlex_tokens :: "shlex_state \<Rightarrow> bool \<Rightarrow> string \<Rightarrow> string \<Rightarrow> string list option" where
  "shlex_tokens Between quoted tok [] = Some []"
| "shlex_tokens Word quoted tok [] = Some (if tok = [] \<and> \<not> quoted then [] else [tok])"
| "shlex_tokens (Quote q) quoted tok [] = None"
| "shlex_tokens (Escape e) quoted tok [] = None"
| "shlex_tokens Between quoted tok (c # s) =
     (if shlex_space c then shlex_tokens Between quoted tok s
      else if c = CHR 0x5C then shlex_tokens (Escape None) quoted tok s
      else if shlex_quote c then shlex_tokens (Quote c) quoted tok s
      else shlex_tokens Word quoted [c] s)"
| "shlex_tokens Word quoted tok (c # s) =
     (if shlex_space c then
        (if tok \<noteq> [] \<or> quoted then map_option (Cons tok) (shlex_tokens Between False [] s)
         else shlex_tokens Between quoted tok s)
      else if shlex_quote c then shlex_tokens (Quote c) quoted tok s
      else if c = CHR 0x5C then shlex_tokens (Escape None) quoted tok s
      else shlex_tokens Word quoted (tok @ [c]) s)"
| "shlex_tokens (Quote q) quoted tok (c # s) =
     (if c = q then shlex_tokens Word True tok s
      else if c = CHR 0x5C \<and> q = CHR 0x22 then shlex_tokens (Escape (Some q)) True tok s
      else shlex_tokens (Quote q) True (tok @ [c]) s)"
| "shlex_tokens (Escape e) quoted tok (c # s) =
     (case e of
        None \<Rightarrow> shlex_tokens Word quoted (tok @ [c]) s
      | Some q \<Rightarrow>
          shlex_tokens (Quote q) quoted
            (if c \<noteq> CHR 0x5C \<and> c \<noteq> q then tok @ [CHR 0x5C, c] else tok @ [c]) s)"

definition shlex_split :: "string \<Rightarrow> string list option" where
  "shlex_split s = shlex_tokens Between False [] s"

definition strip_quotes :: "string \<Rightarrow> string" where
  "strip_quotes s = rev (dropWhile shlex_quote (rev (dropWhile shlex_quote s)))"

text \<open>
  The token reaches the suffix test only without a slash and without a leading dot, so that its
  suffix is longer than one character exactly when its last dot is not its last character.
\<close>

definition looks_path_like :: "string \<Rightarrow> bool" where
  "looks_path_like tok =
     (if tok = [] \<or> startswith tok ''-'' then False
      else if startswith tok ''~'' \<or> startswith tok ''.'' then True
      else if CHR ''/'' \<in> set tok \<or> CHR 0x5C \<in> set tok then True
      else case rfind_sub ''.'' tok of None \<Rightarrow> False | Some i \<Rightarrow> i + 1 < length tok)"

fun scan_tokens :: "os \<Rightarrow> settings \<Rightarrow> config \<Rightarrow> string list \<Rightarrow> path_error + (denial option \<times> config)" where
  "scan_tokens env st cfg [] = Inr (None, cfg)"
| "scan_tokens env st cfg (raw # toks) =
     (let tok = strip_quotes raw in
      if \<not> looks_path_like tok then scan_tokens env st cfg toks
      else case resolve env (candidate_path cfg tok) of
             Inl e \<Rightarrow> if is_oserror e then scan_tokens env st cfg toks else Inl e
           | Inr resolved \<Rightarrow>
               bind_err (is_denied env st cfg resolved) (\<lambda>(hit, cfg).
                 if hit \<noteq> None then Inr (hit, cfg) else scan_tokens env st cfg toks))"

definition check_command :: "os \<Rightarrow> settings \<Rightarrow> config \<Rightarrow> string \<Rightarrow> path_error + (denial option \<times> config)" where
  "check_command env st cfg command_line =
     (case shlex_split command_line of
        None \<Rightarrow> Inr (None, cfg)
      | Some toks \<Rightarrow> scan_tokens env st cfg toks)"

section \<open>What the checks decide\<close>

lemma path_is_under_refl [simp]: "path_is_under p p"
  by (simp add: path_is_under_def)

lemma path_is_under_trans [trans]: "path_is_under p q \<Longrightarrow> path_is_under q r \<Longrightarrow> path_is_under p r"
  unfolding path_is_under_def by (metis prefix_order.trans)

lemma path_is_under_join: "\<not> is_absolute q \<Longrightarrow> path_is_under (join_path p q) p"
  by (simp add: path_is_under_def join_path_def)

lemma root_hit_None:
  "root_hit sh p = None \<longleftrightarrow>
     (\<forall>(d, shields) \<in> set sh. path_is_under p d \<longrightarrow> (\<exists>a \<in> set shields. path_is_under p a))"
  by (induction sh p rule: root_hit.induct) (auto simp: list_ex_iff)

lemma pattern_hit_None: "pattern_hit pats s = None \<longleftrightarrow> (\<forall>pat \<in> set pats. \<not> fnmatch s pat)"
  by (induction pats) auto

lemma denial_of_None:
  "denial_of (shield_pairs roots allowed) pats p = None \<longleftrightarrow>
     (\<forall>d \<in> set roots. path_is_under p d \<longrightarrow>
        (\<exists>a \<in> set allowed. path_is_under a d \<and> path_is_under p a)) \<and>
     (\<forall>pat \<in> set pats. \<not> fnmatch (path_str p) pat)"
proof -
  have "root_hit (shield_pairs roots allowed) p = None \<longleftrightarrow>
    (\<forall>d \<in> set roots. path_is_under p d \<longrightarrow> (\<exists>a \<in> set allowed. path_is_under a d \<and> path_is_under p a))"
    by (auto simp: root_hit_None shield_pairs_def)
  then show ?thesis
    by (auto simp: denial_of_def pattern_hit_None [symmetric] split: option.splits)
qed

text \<open>The memo, once filled, holds what a fresh computation would give.\<close>

definition carve_outs :: "os \<Rightarrow> settings \<Rightarrow> config \<Rightarrow> path_error + purepath list" where
  "carve_outs env st cfg =
     bind_err (allowed_internal_roots env st (session_id cfg)) (\<lambda>r. Inr (workspace_root cfg # r))"

definition cache_ok :: "os \<Rightarrow> settings \<Rightarrow> config \<Rightarrow> bool" where
  "cache_ok env st cfg =
     (case shielded_roots_cache cfg of
        None \<Rightarrow> True
      | Some c \<Rightarrow> bind_err (carve_outs env st cfg) (\<lambda>a. Inr (shield_pairs (denied_roots cfg) a)) = Inr c)"

definition denies :: "os \<Rightarrow> settings \<Rightarrow> config \<Rightarrow> purepath \<Rightarrow> path_error + denial option" where
  "denies env st cfg p =
     bind_err (carve_outs env st cfg)
       (\<lambda>a. Inr (denial_of (shield_pairs (denied_roots cfg) a) (denied_patterns cfg) p))"

definition same_rules :: "config \<Rightarrow> config \<Rightarrow> bool" where
  "same_rules a b \<longleftrightarrow> a\<lparr>shielded_roots_cache := None\<rparr> = b\<lparr>shielded_roots_cache := None\<rparr>"

lemma same_rules_refl [simp]: "same_rules a a"
  by (simp add: same_rules_def)

lemma same_rules_trans: "same_rules a b \<Longrightarrow> same_rules b c \<Longrightarrow> same_rules a c"
  by (simp add: same_rules_def)

lemma same_rules_fields:
  assumes "same_rules a b"
  shows "workspace_root a = workspace_root b" "session_id a = session_id b"
    "denied_roots a = denied_roots b" "denied_patterns a = denied_patterns b"
proof -
  have eq: "a\<lparr>shielded_roots_cache := None\<rparr> = b\<lparr>shielded_roots_cache := None\<rparr>"
    using assms by (simp add: same_rules_def)
  show "workspace_root a = workspace_root b" using arg_cong [OF eq, of workspace_root] by simp
  show "session_id a = session_id b" using arg_cong [OF eq, of session_id] by simp
  show "denied_roots a = denied_roots b" using arg_cong [OF eq, of denied_roots] by simp
  show "denied_patterns a = denied_patterns b" using arg_cong [OF eq, of denied_patterns] by simp
qed

lemma same_rules_denies: "same_rules a b \<Longrightarrow> denies env st a = denies env st b"
  using same_rules_fields [of a b] by (simp add: denies_def carve_outs_def fun_eq_iff)

lemma same_rules_candidate: "same_rules a b \<Longrightarrow> candidate_path a = candidate_path b"
  using same_rules_fields [of a b] by (simp add: candidate_path_def Let_def fun_eq_iff)

lemma is_denied_memo:
  assumes "cache_ok env st cfg"
  shows "is_denied env st cfg p = bind_err (denies env st cfg p) (\<lambda>d. Inr (d, cfg)) \<or>
    (\<exists>c. is_denied env st cfg p =
       bind_err (denies env st cfg p) (\<lambda>d. Inr (d, cfg\<lparr>shielded_roots_cache := Some c\<rparr>)) \<and>
       cache_ok env st (cfg\<lparr>shielded_roots_cache := Some c\<rparr>))"
proof (cases "shielded_roots_cache cfg")
  case (Some c)
  with assms have "bind_err (carve_outs env st cfg) (\<lambda>a. Inr (shield_pairs (denied_roots cfg) a)) = Inr c"
    by (simp add: cache_ok_def)
  with Some show ?thesis
    by (auto simp: is_denied_def shielded_denied_roots_def denies_def bind_err_Inr)
next
  case None
  then show ?thesis
    by (cases "allowed_internal_roots env st (session_id cfg)")
      (auto simp: is_denied_def shielded_denied_roots_def denies_def carve_outs_def cache_ok_def Let_def)
qed

lemma is_denied_value:
  assumes "cache_ok env st cfg"
  shows "is_denied env st cfg p = Inl e \<longleftrightarrow> denies env st cfg p = Inl e"
    and "is_denied env st cfg p = Inr (d, cfg') \<Longrightarrow>
      denies env st cfg p = Inr d \<and> cache_ok env st cfg' \<and> same_rules cfg cfg'"
    and "denies env st cfg p = Inr d \<Longrightarrow> \<exists>cfg'. is_denied env st cfg p = Inr (d, cfg')"
  using is_denied_memo [OF assms, of p] assms
  by (auto simp: bind_err_def same_rules_def split: sum.splits)

section \<open>Properties\<close>

definition permitted :: "config \<Rightarrow> purepath list \<Rightarrow> purepath \<Rightarrow> bool" where
  "permitted cfg allowed r \<longleftrightarrow>
     (\<forall>d \<in> set (denied_roots cfg). path_is_under r d \<longrightarrow>
        (\<exists>a \<in> set allowed. path_is_under a d \<and> path_is_under r a)) \<and>
     (\<forall>pat \<in> set (denied_patterns cfg). \<not> fnmatch (path_str r) pat)"

lemma denies_None:
  "denies env st cfg r = Inr None \<longleftrightarrow> (\<exists>allowed. carve_outs env st cfg = Inr allowed \<and> permitted cfg allowed r)"
  by (auto simp: denies_def bind_err_Inr denial_of_None permitted_def)

lemma validate_path_Inr:
  assumes "cache_ok env st cfg" and "validate_path env st cfg s = Inr (r, cfg')"
  shows "\<not> startswith s ''~'' \<and> resolve env (candidate_path cfg s) = Inr r \<and>
    denies env st cfg r = Inr None \<and> cache_ok env st cfg' \<and> same_rules cfg cfg'"
  using assms(2) is_denied_value(2) [OF assms(1)]
  by (auto simp: validate_path_def bind_err_Inr split: if_splits option.splits prod.splits)

lemma validate_path_intro:
  assumes "cache_ok env st cfg" "\<not> startswith s ''~''" "resolve env (candidate_path cfg s) = Inr r"
    and "denies env st cfg r = Inr None"
  shows "\<exists>cfg'. validate_path env st cfg s = Inr (r, cfg')"
  using is_denied_value(3) [OF assms(1,4)] assms(2,3) by (auto simp: validate_path_def)

text \<open>
  C24. \<open>validate_path\<close> returns exactly the paths it should: the result is the resolved path, the
  given text had no tilde, and for every denied root above the result some carve-out (the workspace
  or one of the self-diagnostic roots) that lies inside that same denied root contains the result,
  while no user pattern matches it. Whether the memo of the carve-outs is filled does not matter.
\<close>

theorem validate_path_iff:
  assumes "cache_ok env st cfg"
  shows "(\<exists>cfg'. validate_path env st cfg s = Inr (r, cfg')) \<longleftrightarrow>
    \<not> startswith s ''~'' \<and> resolve env (candidate_path cfg s) = Inr r \<and>
    (\<exists>allowed. carve_outs env st cfg = Inr allowed \<and> permitted cfg allowed r)"
  using validate_path_Inr [OF assms] validate_path_intro [OF assms] denies_None by metis

text \<open>A machine without links, used in the examples.\<close>

definition plain_os :: os where
  "plain_os = \<lparr>resolve = Inr, is_symlink = (\<lambda>_. Inr False), mkdir = (\<lambda>_. Inr ())\<rparr>"

definition home_settings :: settings where
  "home_settings = \<lparr>DATA_DIR = ''/home/u/share'', STATE_DIR = ''/home/u/state'',
     CACHE_DIR = ''/home/u/cache'', WORKSPACE_DIR = ''/home/u/work''\<rparr>"

definition home_config :: config where
  "home_config = \<lparr>workspace_root = path_of ''/work'', session_id = ''s1'',
     denied_roots = map path_of [''/home/u/share'', ''/home/u/state'', ''/home/u/cache''],
     denied_patterns = [''**/.env''], shielded_roots_cache = None,
     max_execution_seconds = 120, max_output_bytes = 131072, allow_network = True\<rparr>"

theorem validate_path_iff_witness:
  "cache_ok plain_os home_settings home_config \<and>
   (\<exists>cfg'. validate_path plain_os home_settings home_config ''/home/u/state/logs/a.log'' =
      Inr (path_of ''/home/u/state/logs/a.log'', cfg'))"
proof
  show c: "cache_ok plain_os home_settings home_config"
    by (simp add: cache_ok_def home_config_def)
  have "carve_outs plain_os home_settings home_config = Inr (map path_of [''/work'',
      ''/home/u/state/logs'', ''/home/u/state/otel'', ''/home/u/state/telemetry'', ''/home/u/share/sessions/s1''])"
    by code_simp
  moreover have "\<not> startswith ''/home/u/state/logs/a.log'' ''~'' \<and>
      resolve plain_os (candidate_path home_config ''/home/u/state/logs/a.log'') =
      Inr (path_of ''/home/u/state/logs/a.log'')" by code_simp
  moreover have "permitted home_config (map path_of [''/work'',
      ''/home/u/state/logs'', ''/home/u/state/otel'', ''/home/u/state/telemetry'', ''/home/u/share/sessions/s1''])
      (path_of ''/home/u/state/logs/a.log'')" by code_simp
  ultimately show "\<exists>cfg'. validate_path plain_os home_settings home_config ''/home/u/state/logs/a.log'' =
      Inr (path_of ''/home/u/state/logs/a.log'', cfg')"
    using validate_path_iff [OF c, of "''/home/u/state/logs/a.log''"] by metis
qed

subsection \<open>Isolation under the default roots\<close>

definition unrelated :: "purepath \<Rightarrow> purepath \<Rightarrow> bool" where
  "unrelated p q \<longleftrightarrow> \<not> path_is_under p q \<and> \<not> path_is_under q p"

lemma unrelated_disjoint: "unrelated p q \<Longrightarrow> path_is_under r p \<Longrightarrow> \<not> path_is_under r q"
  unfolding unrelated_def path_is_under_def by (metis prefix_same_cases)

lemma unrelated_sym: "unrelated p q \<Longrightarrow> unrelated q p"
  by (simp add: unrelated_def)

lemma path_is_under_child:
  "path_is_under (join_path p (path_of ''logs'')) p" "path_is_under (join_path p (path_of ''otel'')) p"
  "path_is_under (join_path p (path_of ''telemetry'')) p"
  by (rule path_is_under_join, code_simp)+

definition diagnostic_roots :: "purepath \<Rightarrow> purepath list" where
  "diagnostic_roots state = map (\<lambda>d. join_path state (path_of d)) [''logs'', ''otel'', ''telemetry'']"

lemma make_config_default:
  assumes "make_config env st loaded ws sid None pats secs bytes net = Inr cfg"
    and "resolve env (path_of (DATA_DIR st)) = Inr data" "resolve env data = Inr data"
    and "resolve env (path_of (STATE_DIR st)) = Inr state" "resolve env state = Inr state"
    and "resolve env (path_of (CACHE_DIR st)) = Inr cache" "resolve env cache = Inr cache"
  shows "denied_roots cfg = [data, state, cache] \<and> session_id cfg = sid \<and>
    resolve env (path_of ws) = Inr (workspace_root cfg) \<and> cache_ok env st cfg"
  using assms by (auto simp: make_config_def default_denied_roots_def cache_ok_def bind_err_Inr split: if_splits)

text \<open>
  C25. Isolation. With the default denied roots, whose three directories and the workspace are
  pairwise unrelated, a path that \<open>validate_path\<close> accepts is never in the cache directory
  (credentials); in the data directory it is inside this session's own artifact directory, so
  neither the database nor another session's artifacts are reachable; in the state directory it is
  among the logs, the OTEL rollups or the telemetry.
\<close>

theorem session_isolation:
  assumes cfg: "make_config env st loaded ws sid None pats secs bytes net = Inr cfg"
    and data: "resolve env (path_of (DATA_DIR st)) = Inr data" "resolve env data = Inr data"
    and state: "resolve env (path_of (STATE_DIR st)) = Inr state" "resolve env state = Inr state"
    and cache: "resolve env (path_of (CACHE_DIR st)) = Inr cache" "resolve env cache = Inr cache"
    and art: "resolve env (session_artifacts_dir st sid) = Inr artifacts" "path_is_under artifacts data"
    and apart: "unrelated data state" "unrelated data cache" "unrelated state cache"
      "unrelated (workspace_root cfg) data" "unrelated (workspace_root cfg) state"
      "unrelated (workspace_root cfg) cache"
    and ok: "validate_path env st cfg s = Inr (r, cfg')"
  shows "\<not> path_is_under r cache \<and>
    (path_is_under r data \<longrightarrow> sid \<noteq> [] \<and> path_is_under r artifacts) \<and>
    (path_is_under r state \<longrightarrow> (\<exists>d \<in> set (diagnostic_roots state). path_is_under r d))"
proof -
  note conf = make_config_default [OF cfg data state cache]
  have "denies env st cfg r = Inr None"
    using validate_path_Inr [of env st cfg s r cfg'] conf ok by blast
  then obtain allowed where allowed: "carve_outs env st cfg = Inr allowed" "permitted cfg allowed r"
    by (auto simp: denies_None)
  have kinds: "a = workspace_root cfg \<or> a \<in> set (diagnostic_roots state) \<or> sid \<noteq> [] \<and> a = artifacts"
    if "a \<in> set allowed" for a
    using that allowed(1) conf state(1) art(1)
    by (auto simp: carve_outs_def allowed_internal_roots_def diagnostic_roots_def Let_def split: if_splits)
  have diag: "path_is_under d state" if "d \<in> set (diagnostic_roots state)" for d
    using that path_is_under_child by (auto simp: diagnostic_roots_def)
  have via: "\<exists>a \<in> set (diagnostic_roots state). path_is_under r a \<and> d = state \<or>
      sid \<noteq> [] \<and> path_is_under r artifacts \<and> d = data"
    if d: "d \<in> {data, state, cache}" "path_is_under r d" for d
  proof -
    obtain a where a: "a \<in> set allowed" "path_is_under a d" "path_is_under r a"
      using allowed(2) d conf by (auto simp: permitted_def)
    have "a \<noteq> workspace_root cfg"
      using a(2) d(1) apart by (auto simp: unrelated_def)
    moreover have "d = state" if "a \<in> set (diagnostic_roots state)"
      using unrelated_disjoint [OF _ diag [OF that]] d(1) a(2) apart unrelated_sym by blast
    moreover have "d = data" if "a = artifacts"
      using unrelated_disjoint [OF _ art(2)] d(1) a(2) apart that by blast
    ultimately show ?thesis using kinds [OF a(1)] a(3) by (auto simp: diagnostic_roots_def)
  qed
  have distinct: "data \<noteq> state" "data \<noteq> cache" "state \<noteq> cache"
    using apart by (auto simp: unrelated_def)
  then show ?thesis using via by fastforce
qed

text \<open>The command-line tool runs as session \<open>s1\<close> in \<open>/work\<close> and reads its own artifacts.\<close>

theorem session_isolation_witness:
  "\<not> path_is_under (path_of ''/home/u/share/sessions/s1/notes.md'') (path_of ''/home/u/cache'') \<and>
   path_is_under (path_of ''/home/u/share/sessions/s1/notes.md'') (path_of ''/home/u/share/sessions/s1'')"
proof -
  let ?cfg = "home_config\<lparr>denied_patterns := []\<rparr>"
  let ?cfg' = "?cfg\<lparr>shielded_roots_cache := Some (shield_pairs (denied_roots home_config) (map path_of [''/work'',
    ''/home/u/state/logs'', ''/home/u/state/otel'', ''/home/u/state/telemetry'', ''/home/u/share/sessions/s1'']))\<rparr>"
  let ?r = "path_of ''/home/u/share/sessions/s1/notes.md''"
  have hyps: "make_config plain_os home_settings (Inr []) ''/work'' ''s1'' None None None None None = Inr ?cfg"
    "resolve plain_os (path_of (DATA_DIR home_settings)) = Inr (path_of ''/home/u/share'')"
    "resolve plain_os (path_of ''/home/u/share'') = Inr (path_of ''/home/u/share'')"
    "resolve plain_os (path_of (STATE_DIR home_settings)) = Inr (path_of ''/home/u/state'')"
    "resolve plain_os (path_of ''/home/u/state'') = Inr (path_of ''/home/u/state'')"
    "resolve plain_os (path_of (CACHE_DIR home_settings)) = Inr (path_of ''/home/u/cache'')"
    "resolve plain_os (path_of ''/home/u/cache'') = Inr (path_of ''/home/u/cache'')"
    "resolve plain_os (session_artifacts_dir home_settings ''s1'') = Inr (path_of ''/home/u/share/sessions/s1'')"
    "path_is_under (path_of ''/home/u/share/sessions/s1'') (path_of ''/home/u/share'')"
    "unrelated (path_of ''/home/u/share'') (path_of ''/home/u/state'')"
    "unrelated (path_of ''/home/u/share'') (path_of ''/home/u/cache'')"
    "unrelated (path_of ''/home/u/state'') (path_of ''/home/u/cache'')"
    "unrelated (workspace_root ?cfg) (path_of ''/home/u/share'')"
    "unrelated (workspace_root ?cfg) (path_of ''/home/u/state'')"
    "unrelated (workspace_root ?cfg) (path_of ''/home/u/cache'')"
    "validate_path plain_os home_settings ?cfg ''/home/u/share/sessions/s1/notes.md'' = Inr (?r, ?cfg')"
    by code_simp+
  have "path_is_under ?r (path_of ''/home/u/share'')" by code_simp
  with session_isolation [OF hyps] show ?thesis by blast
qed

subsection \<open>Displayed paths\<close>

definition wf_path :: "purepath \<Rightarrow> bool" where
  "wf_path p \<longleftrightarrow> root p \<in> {[], ''/'', ''//''} \<and>
     list_all (\<lambda>s. s \<noteq> [] \<and> s \<noteq> ''.'' \<and> CHR ''/'' \<notin> set s) (parts p)"

lemma path_of_wf: "wf_path (path_of s)"
  by (auto simp: wf_path_def path_of_def Let_def list_all_iff dest: split_on_lines_free)

lemma path_of_relative:
  assumes "list_all (\<lambda>s. s \<noteq> [] \<and> s \<noteq> ''.'' \<and> CHR ''/'' \<notin> set s) ps" "ps \<noteq> []"
  shows "path_of (join ''/'' ps) = \<lparr>root = [], parts = ps\<rparr>"
proof -
  obtain p qs where ps: "ps = p # qs" using assms(2) by (cases ps) auto
  have "split_on (CHR ''/'') (join ''/'' ps) = ps"
    using assms by (intro split_on_join) (auto simp: list_all_iff)
  moreover have "takeWhile (\<lambda>c. c = CHR ''/'') (join ''/'' ps) = []"
    using assms ps by (cases p; cases qs) auto
  moreover have "filter (\<lambda>p. p \<noteq> [] \<and> p \<noteq> ''.'') ps = ps"
    using assms(1) by (auto simp: list_all_iff filter_id_conv)
  ultimately show ?thesis by (simp add: path_of_def)
qed

text \<open>
  A path shown to the agent can be handed back: for an accepted path \<open>r\<close> strictly below the
  workspace (resolved, so that resolving again changes nothing), \<open>display_path\<close> gives a relative
  text whose validation returns \<open>r\<close> again, unless that text starts with a tilde.
\<close>

theorem display_path_round_trip:
  assumes "cache_ok env st cfg" and "validate_path env st cfg s = Inr (r, cfg')"
    and "wf_path r" "resolve env r = Inr r"
    and "path_is_under r (workspace_root cfg)" "r \<noteq> workspace_root cfg"
    and "\<not> startswith (display_path cfg r) ''~''"
  shows "\<not> is_absolute (path_of (display_path cfg r)) \<and>
    (\<exists>cfg''. validate_path env st cfg (display_path cfg r) = Inr (r, cfg''))"
proof -
  define rest where "rest = drop (length (parts (workspace_root cfg))) (parts r)"
  have r: "root r = root (workspace_root cfg)" "parts r = parts (workspace_root cfg) @ rest"
    using assms(5) by (auto simp: path_is_under_def rest_def elim: prefixE)
  have rest: "rest \<noteq> []" using assms(6) r by (metis append_Nil2 old.unit.exhaust purepath.surjective)
  have shown: "display_path cfg r = join ''/'' rest"
    using assms(5) rest by (simp add: display_path_def relative_to_def path_str_def rest_def)
  have p: "path_of (display_path cfg r) = \<lparr>root = [], parts = rest\<rparr>"
    unfolding shown using assms(3) r(2) rest by (intro path_of_relative) (auto simp: wf_path_def)
  have "candidate_path cfg (display_path cfg r) = r"
    using r by (simp add: candidate_path_def p is_absolute_def join_path_def)
  then have "\<exists>cfg''. validate_path env st cfg (display_path cfg r) = Inr (r, cfg'')"
    using validate_path_Inr [OF assms(1,2)] assms(1,4,7) by (intro validate_path_intro) auto
  then show ?thesis by (simp add: p is_absolute_def)
qed

theorem display_path_round_trip_witness:
  "\<exists>cfg''. validate_path plain_os home_settings home_config
     (display_path home_config (path_of ''/work/src/a.py'')) = Inr (path_of ''/work/src/a.py'', cfg'')"
proof -
  let ?cfg' = "home_config\<lparr>shielded_roots_cache := Some (shield_pairs (denied_roots home_config) (map path_of [''/work'',
    ''/home/u/state/logs'', ''/home/u/state/otel'', ''/home/u/state/telemetry'', ''/home/u/share/sessions/s1'']))\<rparr>"
  have "cache_ok plain_os home_settings home_config"
    "validate_path plain_os home_settings home_config ''src/a.py'' = Inr (path_of ''/work/src/a.py'', ?cfg')"
    "wf_path (path_of ''/work/src/a.py'')"
    "resolve plain_os (path_of ''/work/src/a.py'') = Inr (path_of ''/work/src/a.py'')"
    "path_is_under (path_of ''/work/src/a.py'') (workspace_root home_config)"
    "path_of ''/work/src/a.py'' \<noteq> workspace_root home_config"
    "\<not> startswith (display_path home_config (path_of ''/work/src/a.py'')) ''~''"
    by code_simp+
  from display_path_round_trip [OF this] show ?thesis by blast
qed

subsection \<open>Command lines\<close>

definition plain_word :: "string \<Rightarrow> bool" where
  "plain_word w \<longleftrightarrow> w \<noteq> [] \<and> list_all (\<lambda>c. \<not> shlex_space c \<and> \<not> shlex_quote c \<and> c \<noteq> CHR 0x5C) w"

lemma shlex_word_chars:
  "list_all (\<lambda>c. \<not> shlex_space c \<and> \<not> shlex_quote c \<and> c \<noteq> CHR 0x5C) w \<Longrightarrow>
     shlex_tokens Word quoted tok (w @ s) = shlex_tokens Word quoted (tok @ w) s"
  by (induction w arbitrary: tok) auto

lemma shlex_word: "plain_word w \<Longrightarrow> shlex_tokens Between quoted tok (w @ s) = shlex_tokens Word quoted w s"
  by (cases w) (auto simp: plain_word_def shlex_word_chars)

lemma shlex_plain_words: "list_all plain_word ws \<Longrightarrow> shlex_split (join '' '' ws) = Some ws"
  unfolding shlex_split_def
proof (induction ws)
  case (Cons w ws)
  have sp: "shlex_space (CHR '' '')" by (simp add: shlex_space_def)
  from Cons show ?case
    using shlex_word [of w False "[]" "[]"] shlex_word [of w False "[]" "'' '' @ join '' '' ws"] sp
    by (cases ws) (auto simp: plain_word_def)
qed simp

lemma plain_word_strip: "plain_word w \<Longrightarrow> strip_quotes w = w"
proof -
  assume w: "plain_word w"
  then have nq: "\<not> shlex_quote c" if "c \<in> set w" for c
    using that by (auto simp: plain_word_def list_all_iff)
  have "dropWhile shlex_quote w = w" using nq by (cases w) auto
  moreover have "dropWhile shlex_quote (rev w) = rev w" using nq by (cases w rule: rev_cases) auto
  ultimately show ?thesis by (simp add: strip_quotes_def)
qed

definition reaches_denied :: "os \<Rightarrow> config \<Rightarrow> purepath list \<Rightarrow> string \<Rightarrow> bool" where
  "reaches_denied env cfg allowed tok \<longleftrightarrow>
     looks_path_like tok \<and>
     (case resolve env (candidate_path cfg tok) of Inl _ \<Rightarrow> False | Inr r \<Rightarrow> \<not> permitted cfg allowed r)"

lemma same_rules_permitted: "same_rules a b \<Longrightarrow> permitted a = permitted b"
  using same_rules_fields [of a b] by (simp add: permitted_def fun_eq_iff)

lemma scan_tokens_decides:
  assumes "cache_ok env st cfg" and "carve_outs env st cfg = Inr allowed"
    and "\<And>p e. resolve env p = Inl e \<Longrightarrow> is_oserror e"
  shows "\<exists>hit cfg'. scan_tokens env st cfg toks = Inr (hit, cfg') \<and>
    (hit \<noteq> None \<longleftrightarrow> (\<exists>t \<in> set toks. reaches_denied env cfg allowed (strip_quotes t)))"
  using assms(1,2)
proof (induction toks arbitrary: cfg)
  case (Cons t toks)
  let ?tok = "strip_quotes t"
  note IH = Cons.IH [OF Cons.prems]
  show ?case
  proof (cases "looks_path_like ?tok \<and> (\<exists>r. resolve env (candidate_path cfg ?tok) = Inr r)")
    case False
    then have "scan_tokens env st cfg (t # toks) = scan_tokens env st cfg toks"
      "\<not> reaches_denied env cfg allowed ?tok"
      using assms(3) by (auto simp: reaches_denied_def Let_def split: sum.splits)
    with IH show ?thesis by auto
  next
    case True
    then obtain r where r: "looks_path_like ?tok" "resolve env (candidate_path cfg ?tok) = Inr r" by blast
    obtain d where d: "denies env st cfg r = Inr d" using Cons.prems(2) by (auto simp: denies_def)
    obtain cfg' where cfg': "is_denied env st cfg r = Inr (d, cfg')"
      using is_denied_value(3) [OF Cons.prems(1) d] by blast
    note keep = is_denied_value(2) [OF Cons.prems(1) cfg']
    have hit: "d \<noteq> None \<longleftrightarrow> reaches_denied env cfg allowed ?tok"
      using r d denies_None [of env st cfg r] Cons.prems(2) by (auto simp: reaches_denied_def)
    have same: "carve_outs env st cfg' = Inr allowed"
      "reaches_denied env cfg' allowed = reaches_denied env cfg allowed"
      using Cons.prems(2) keep same_rules_fields [of cfg cfg'] same_rules_candidate [of cfg cfg']
        same_rules_permitted [of cfg cfg']
      by (simp_all add: carve_outs_def reaches_denied_def fun_eq_iff split: sum.split)
    show ?thesis
      using Cons.IH [of cfg'] keep same hit r cfg' by (cases d) (auto simp: Let_def)
  qed
qed simp

text \<open>
  C26. \<open>check_command\<close> on a command line of plain words (no quotes, no backslashes) reports a hit
  exactly when one of the words looks like a path and resolves to a path that is not permitted.
\<close>

theorem check_command_decides:
  assumes "cache_ok env st cfg" and "carve_outs env st cfg = Inr allowed"
    and "\<And>p e. resolve env p = Inl e \<Longrightarrow> is_oserror e"
    and "list_all plain_word ws"
  shows "\<exists>hit cfg'. check_command env st cfg (join '' '' ws) = Inr (hit, cfg') \<and>
    (hit \<noteq> None \<longleftrightarrow> (\<exists>w \<in> set ws. reaches_denied env cfg allowed w))"
proof -
  have "strip_quotes w = w" if "w \<in> set ws" for w
    using that assms(4) plain_word_strip by (auto simp: list_all_iff)
  then show ?thesis
    using scan_tokens_decides [OF assms(1-3), where toks = ws] assms(4)
    by (simp add: check_command_def shlex_plain_words)
qed

theorem check_command_decides_witness:
  "\<exists>hit cfg'. check_command plain_os home_settings home_config
     (join '' '' [''cat'', ''/home/u/cache/token.json'']) = Inr (hit, cfg') \<and> hit \<noteq> None"
proof -
  let ?allowed = "map path_of [''/work'',
    ''/home/u/state/logs'', ''/home/u/state/otel'', ''/home/u/state/telemetry'', ''/home/u/share/sessions/s1'']"
  have "cache_ok plain_os home_settings home_config" "carve_outs plain_os home_settings home_config = Inr ?allowed"
    "list_all plain_word [''cat'', ''/home/u/cache/token.json'']"
    "\<exists>w \<in> set [''cat'', ''/home/u/cache/token.json'']. reaches_denied plain_os home_config ?allowed w"
    by code_simp+
  moreover have "resolve plain_os p = Inl e \<Longrightarrow> is_oserror e" for p e by (simp add: plain_os_def)
  ultimately show ?thesis
    using check_command_decides [of plain_os home_settings home_config ?allowed "[''cat'', ''/home/u/cache/token.json'']"]
    by blast
qed

text \<open>
  A tilde token counts as a path but is read literally: for a workspace \<open>/work\<close> and the denied
  root \<open>/home/u/cache\<close>, the command \<open>cat ~/cache/token.json\<close>, which a shell of the user \<open>u\<close> runs
  on \<open>/home/u/cache/token.json\<close>, is not reported (the token is resolved to
  \<open>/work/~/cache/token.json\<close>), while the spelled-out path is.
\<close>

theorem check_command_tilde:
  "looks_path_like ''~/cache/token.json'' \<and>
   candidate_path home_config ''~/cache/token.json'' = path_of ''/work/~/cache/token.json'' \<and>
   map_sum id fst (check_command plain_os home_settings home_config ''cat ~/cache/token.json'') = Inr None \<and>
   map_sum id fst (check_command plain_os home_settings home_config ''cat /home/u/cache/token.json'') =
     Inr (Some (DeniedRoot (path_of ''/home/u/cache'')))"
  by (intro conjI; code_simp)

end
