(* ===== verification/PatchCommit.thy ===== *)
theory PatchCommit
  imports PatchMatch DeniedPaths
begin

text \<open>
  The transactional half of \<open>app/agent/tools/builtin/filesystem/patch.py\<close>: planning an envelope on
  a virtual file table (\<open>load\<close> and the loop of \<open>_apply_patch\<close>), staging, the recheck of the
  snapshots, deleting, installing, and the rollback.

  The disk is explicit: regular files and directories by path, and the temporary files of
  \<open>tempfile.mkstemp\<close>, which live under fresh names (their own table here) in a directory. Every
  system call that the commit makes ticks a clock, and a fault plan \<open>flt\<close> says at which ticks the
  call fails with an \<open>OSError\<close>. Reading what has been staged, computed or decided needs no call.
  \<open>digest\<close> is \<open>hashlib.blake2b\<close>. Bytes are either the UTF-8 encoding of a text or bytes that do
  not decode.
\<close>

section \<open>Disk\<close>

datatype bytes = Utf8 string | Raw "nat list"

record virtual_file =
  vf_content :: bytes
  vf_mode :: nat

record file_snapshot =
  sn_content :: bytes
  sn_mode :: nat
  sn_digest :: "nat list"

datatype commit_error =
    Syntax patch_error
  | BadPath path_error
  | IsADirectory purepath
  | FileExists purepath
  | FileNotFound purepath
  | DestinationExists purepath
  | SamePathMove string
  | UnicodeDecode
  | PatchConflict purepath
  | OsFailure

record disk =
  files :: "(purepath \<times> virtual_file) list"
  dirs :: "purepath list"
  temps :: "(nat \<times> purepath \<times> virtual_file) list"
  next_temp :: nat
  clock :: nat

type_synonym fault_plan = "nat \<Rightarrow> bool"

definition DEFAULT_FILE_MODE :: nat where "DEFAULT_FILE_MODE = 420" \<comment> \<open>\<open>0o644\<close>\<close>

definition parent_of :: "purepath \<Rightarrow> purepath" where
  "parent_of p = p\<lparr>parts := butlast (parts p)\<rparr>"

definition path_exists :: "'z disk_scheme \<Rightarrow> purepath \<Rightarrow> bool" where
  "path_exists d p \<longleftrightarrow> map_of (files d) p \<noteq> None \<or> p \<in> set (dirs d)"

text \<open>One system call: it fails when the plan says so, otherwise it does its work.\<close>

definition sys :: "fault_plan \<Rightarrow> ('z disk_scheme \<Rightarrow> (commit_error + 'a) \<times> 'z disk_scheme) \<Rightarrow>
    'z disk_scheme \<Rightarrow> (commit_error + 'a) \<times> 'z disk_scheme" where
  "sys flt act d =
     (let d' = d\<lparr>clock := clock d + 1\<rparr> in if flt (clock d) then (Inl OsFailure, d') else act d')"

definition seq :: "('s \<Rightarrow> (commit_error + 'a) \<times> 's) \<Rightarrow> ('a \<Rightarrow> 's \<Rightarrow> (commit_error + 'b) \<times> 's) \<Rightarrow>
    's \<Rightarrow> (commit_error + 'b) \<times> 's" where
  "seq act cont s = (case act s of (Inl e, s') \<Rightarrow> (Inl e, s') | (Inr a, s') \<Rightarrow> cont a s')"

fun each :: "('x \<Rightarrow> 's \<Rightarrow> (commit_error + unit) \<times> 's) \<Rightarrow> 'x list \<Rightarrow> 's \<Rightarrow> (commit_error + unit) \<times> 's" where
  "each act [] s = (Inr (), s)"
| "each act (x # xs) s = seq (act x) (\<lambda>_. each act xs) s"

definition unlink_file :: "fault_plan \<Rightarrow> bool \<Rightarrow> purepath \<Rightarrow> 'z disk_scheme \<Rightarrow> (commit_error + unit) \<times> 'z disk_scheme" where
  "unlink_file flt missing_ok p =
     sys flt (\<lambda>d. if map_of (files d) p \<noteq> None then (Inr (), d\<lparr>files := AList.delete p (files d)\<rparr>)
                  else if missing_ok \<and> p \<notin> set (dirs d) then (Inr (), d) else (Inl OsFailure, d))"

definition unlink_temp :: "fault_plan \<Rightarrow> nat \<Rightarrow> 'z disk_scheme \<Rightarrow> (commit_error + unit) \<times> 'z disk_scheme" where
  "unlink_temp flt t = sys flt (\<lambda>d. (Inr (), d\<lparr>temps := AList.delete t (temps d)\<rparr>))"

definition fs_mkdir :: "fault_plan \<Rightarrow> purepath \<Rightarrow> 'z disk_scheme \<Rightarrow> (commit_error + unit) \<times> 'z disk_scheme" where
  "fs_mkdir flt p =
     sys flt (\<lambda>d. if path_exists d p \<or> parent_of p \<notin> set (dirs d) then (Inl OsFailure, d)
                  else (Inr (), d\<lparr>dirs := p # dirs d\<rparr>))"

definition fs_rmdir :: "fault_plan \<Rightarrow> purepath \<Rightarrow> 'z disk_scheme \<Rightarrow> (commit_error + unit) \<times> 'z disk_scheme" where
  "fs_rmdir flt p =
     sys flt (\<lambda>d. if p \<in> set (dirs d) \<and> parts p \<noteq> [] \<and>
                     \<not> list_ex (\<lambda>(q, f). parent_of q = p) (files d) \<and>
                     \<not> list_ex (\<lambda>q. parts q \<noteq> [] \<and> parent_of q = p) (dirs d) \<and>
                     \<not> list_ex (\<lambda>(t, q, f). q = p) (temps d)
                  then (Inr (), d\<lparr>dirs := removeAll p (dirs d)\<rparr>) else (Inl OsFailure, d))"

text \<open>\<open>p.parent\<close>, its parent, and so on up to the root.\<close>

definition ancestors :: "purepath \<Rightarrow> purepath list" where
  "ancestors p = map (\<lambda>n. p\<lparr>parts := take n (parts p)\<rparr>) (rev [0 ..< length (parts p)])"

definition missing_parents :: "'z disk_scheme \<Rightarrow> purepath \<Rightarrow> purepath list" where
  "missing_parents d p = takeWhile (\<lambda>q. \<not> path_exists d q) (ancestors p)"

text \<open>
  \<open>path.parent.mkdir(parents=True, exist_ok=True)\<close>: an existing directory is accepted whatever
  \<open>os.mkdir\<close> says, and the missing ones are made from the outermost to the innermost.
\<close>

definition make_parents :: "fault_plan \<Rightarrow> purepath \<Rightarrow> 'z disk_scheme \<Rightarrow> (commit_error + unit) \<times> 'z disk_scheme" where
  "make_parents flt p d =
     (if parent_of p \<in> set (dirs d) then (Inr (), d)
      else if path_exists d (parent_of p) then (Inl OsFailure, d)
      else each (fs_mkdir flt) (rev (missing_parents d p)) d)"

definition mkstemp :: "fault_plan \<Rightarrow> purepath \<Rightarrow> 'z disk_scheme \<Rightarrow> (commit_error + nat) \<times> 'z disk_scheme" where
  "mkstemp flt dir =
     sys flt (\<lambda>d. if dir \<in> set (dirs d)
       then (Inr (next_temp d),
             d\<lparr>temps := (next_temp d, dir, \<lparr>vf_content = Utf8 [], vf_mode = 384\<rparr>) # temps d,
               next_temp := next_temp d + 1\<rparr>)
       else (Inl OsFailure, d))"

definition write_temp :: "fault_plan \<Rightarrow> nat \<Rightarrow> purepath \<Rightarrow> virtual_file \<Rightarrow> 'z disk_scheme \<Rightarrow> (commit_error + unit) \<times> 'z disk_scheme" where
  "write_temp flt t dir f = sys flt (\<lambda>d. (Inr (), d\<lparr>temps := AList.update t (dir, f) (temps d)\<rparr>))"

definition fs_replace :: "fault_plan \<Rightarrow> nat \<Rightarrow> purepath \<Rightarrow> 'z disk_scheme \<Rightarrow> (commit_error + unit) \<times> 'z disk_scheme" where
  "fs_replace flt t p =
     sys flt (\<lambda>d. case map_of (temps d) t of
         None \<Rightarrow> (Inl OsFailure, d)
       | Some (dir, f) \<Rightarrow>
           if p \<in> set (dirs d) \<or> parent_of p \<notin> set (dirs d) then (Inl OsFailure, d)
           else (Inr (), d\<lparr>files := AList.update p f (files d), temps := AList.delete t (temps d)\<rparr>))"

text \<open>\<open>except BaseException: cleanup; raise\<close>: an error of the cleanup takes over.\<close>

definition on_error :: "('s \<Rightarrow> (commit_error + 'a) \<times> 's) \<Rightarrow> ('s \<Rightarrow> (commit_error + unit) \<times> 's) \<Rightarrow>
    's \<Rightarrow> (commit_error + 'a) \<times> 's" where
  "on_error act cleanup s =
     (case act s of
        (Inr a, s') \<Rightarrow> (Inr a, s')
      | (Inl e, s') \<Rightarrow> (case cleanup s' of (Inl e', s'') \<Rightarrow> (Inl e', s'') | (Inr _, s'') \<Rightarrow> (Inl e, s'')))"

definition stage_file :: "fault_plan \<Rightarrow> purepath \<Rightarrow> virtual_file \<Rightarrow> 'z disk_scheme \<Rightarrow> (commit_error + nat) \<times> 'z disk_scheme" where
  "stage_file flt p f =
     seq (make_parents flt p) (\<lambda>_.
     seq (mkstemp flt (parent_of p)) (\<lambda>t.
     seq (on_error (write_temp flt t (parent_of p) f) (unlink_temp flt t)) (\<lambda>_ d. (Inr t, d))))"

definition atomic_write :: "fault_plan \<Rightarrow> purepath \<Rightarrow> virtual_file \<Rightarrow> 'z disk_scheme \<Rightarrow> (commit_error + unit) \<times> 'z disk_scheme" where
  "atomic_write flt p f =
     seq (stage_file flt p f) (\<lambda>t. on_error (fs_replace flt t p) (unlink_temp flt t))"

section \<open>Planning\<close>

record plan =
  original :: "(purepath \<times> file_snapshot option) list"
  virtual :: "(purepath \<times> virtual_file option) list"
  touched :: "purepath list"
  metadata :: "(string \<times> (int \<times> int) list) list"
  guard :: config

definition snapshot :: "fault_plan \<Rightarrow> (bytes \<Rightarrow> nat list) \<Rightarrow> purepath \<Rightarrow> 'z disk_scheme \<Rightarrow>
    (commit_error + file_snapshot option) \<times> 'z disk_scheme" where
  "snapshot flt digest p =
     sys flt (\<lambda>d. if \<not> path_exists d p then (Inr None, d)
       else case map_of (files d) p of
              None \<Rightarrow> (Inl (IsADirectory p), d)
            | Some f \<Rightarrow> (Inr (Some \<lparr>sn_content = vf_content f, sn_mode = vf_mode f,
                                   sn_digest = digest (vf_content f)\<rparr>), d))"

definition restore_of :: "file_snapshot \<Rightarrow> virtual_file" where
  "restore_of s = \<lparr>vf_content = sn_content s, vf_mode = sn_mode s\<rparr>"

definition load :: "fault_plan \<Rightarrow> (bytes \<Rightarrow> nat list) \<Rightarrow> purepath \<Rightarrow> plan \<times> disk \<Rightarrow>
    commit_error + (virtual_file option \<times> plan \<times> disk)" where
  "load flt digest p = (\<lambda>(pl, d).
     case map_of (virtual pl) p of
       Some v \<Rightarrow> Inr (v, pl, d)
     | None \<Rightarrow>
         (case snapshot flt digest p d of
            (Inl e, _) \<Rightarrow> Inl e
          | (Inr sn, d') \<Rightarrow>
              let v = map_option restore_of sn in
              Inr (v, pl\<lparr>original := AList.update p sn (original pl),
                         virtual := AList.update p v (virtual pl),
                         touched := touched pl @ [p]\<rparr>, d')))"

definition set_virtual :: "purepath \<Rightarrow> virtual_file option \<Rightarrow> plan \<Rightarrow> plan" where
  "set_virtual p v pl = pl\<lparr>virtual := AList.update p v (virtual pl)\<rparr>"

definition note_hunks :: "string \<Rightarrow> (int \<times> int) list \<Rightarrow> plan \<Rightarrow> plan" where
  "note_hunks path hunks pl = pl\<lparr>metadata := metadata pl @ [(path, hunks)]\<rparr>"

definition validated :: "os \<Rightarrow> settings \<Rightarrow> string \<Rightarrow> plan \<Rightarrow> commit_error + (purepath \<times> plan)" where
  "validated env st s pl =
     (case validate_path env st (guard pl) s of
        Inl e \<Rightarrow> Inl (BadPath e)
      | Inr (p, cfg) \<Rightarrow> Inr (p, pl\<lparr>guard := cfg\<rparr>))"

text \<open>\<open>if patch.move_to\<close>: an empty move target is falsy.\<close>

definition validated_target :: "os \<Rightarrow> settings \<Rightarrow> string option \<Rightarrow> plan \<Rightarrow> commit_error + (purepath option \<times> plan)" where
  "validated_target env st move_to pl =
     (case move_to of
        None \<Rightarrow> Inr (None, pl)
      | Some s \<Rightarrow>
          if s = [] then Inr (None, pl)
          else bind_err (validated env st s pl) (\<lambda>(p, pl). Inr (Some p, pl)))"

fun decode :: "bytes \<Rightarrow> commit_error + string" where
  "decode (Utf8 s) = Inr s"
| "decode (Raw _) = Inl UnicodeDecode"

definition patched :: "file_patch \<Rightarrow> virtual_file \<Rightarrow> commit_error + (virtual_file \<times> (int \<times> int) list)" where
  "patched patch f =
     bind_err (decode (vf_content f)) (\<lambda>text.
       case apply_chunks_with_meta text (fp_chunks patch) (fp_path patch) of
         Inl e \<Rightarrow> Inl (Syntax e)
       | Inr (new_content, hunks) \<Rightarrow> Inr (\<lparr>vf_content = Utf8 new_content, vf_mode = vf_mode f\<rparr>, hunks))"

definition plan_update :: "fault_plan \<Rightarrow> (bytes \<Rightarrow> nat list) \<Rightarrow> file_patch \<Rightarrow> purepath \<Rightarrow> purepath option \<Rightarrow>
    virtual_file \<Rightarrow> plan \<times> disk \<Rightarrow> commit_error + (plan \<times> disk)" where
  "plan_update flt digest patch resolved target f = (\<lambda>(pl, d).
     bind_err (patched patch f) (\<lambda>(updated, hunks).
       case target of
         None \<Rightarrow> Inr (note_hunks (fp_path patch) hunks (set_virtual resolved (Some updated) pl), d)
       | Some t \<Rightarrow>
           if t = resolved then
             (if vf_content updated = vf_content f then Inl (SamePathMove (fp_path patch))
              else Inr (note_hunks (fp_path patch) hunks (set_virtual resolved (Some updated) pl), d))
           else bind_err (load flt digest t (pl, d)) (\<lambda>(destination, pl, d).
             if destination \<noteq> None then Inl (DestinationExists t)
             else let pl = set_virtual t (Some updated) (set_virtual resolved None pl);
                      pl = (if t \<in> set (touched pl) then pl else pl\<lparr>touched := touched pl @ [t]\<rparr>)
                  in Inr (note_hunks (fp_path patch) hunks pl, d))))"

definition plan_step :: "fault_plan \<Rightarrow> (bytes \<Rightarrow> nat list) \<Rightarrow> os \<Rightarrow> settings \<Rightarrow> plan \<times> disk \<Rightarrow> file_patch \<Rightarrow>
    commit_error + (plan \<times> disk)" where
  "plan_step flt digest env st = (\<lambda>(pl, d) patch.
     bind_err (validated env st (fp_path patch) pl) (\<lambda>(resolved, pl).
     bind_err (validated_target env st (fp_move_to patch) pl) (\<lambda>(target, pl).
     bind_err (load flt digest resolved (pl, d)) (\<lambda>(current, pl, d).
       case fp_kind patch of
         Add \<Rightarrow>
           (if current \<noteq> None then Inl (FileExists resolved)
            else Inr (note_hunks (fp_path patch) [(1, 1)]
                   (set_virtual resolved (Some \<lparr>vf_content = Utf8 (lines_to_text (fp_contents patch)),
                                               vf_mode = DEFAULT_FILE_MODE\<rparr>) pl), d))
       | Delete \<Rightarrow>
           (if current = None then Inl (FileNotFound resolved)
            else Inr (set_virtual resolved None pl, d))
       | Update \<Rightarrow>
           (case current of
              None \<Rightarrow> Inl (FileNotFound resolved)
            | Some f \<Rightarrow> plan_update flt digest patch resolved target f (pl, d))))))"

definition empty_plan :: "config \<Rightarrow> plan" where
  "empty_plan cfg = \<lparr>original = [], virtual = [], touched = [], metadata = [], guard = cfg\<rparr>"

definition make_plan :: "fault_plan \<Rightarrow> (bytes \<Rightarrow> nat list) \<Rightarrow> os \<Rightarrow> settings \<Rightarrow> config \<Rightarrow> string \<Rightarrow> disk \<Rightarrow>
    commit_error + (plan \<times> disk)" where
  "make_plan flt digest env st cfg patch_text d =
     (case parse_patch patch_text of
        Inl e \<Rightarrow> Inl (Syntax e)
      | Inr patches \<Rightarrow> fold_err (plan_step flt digest env st) (empty_plan cfg, d) patches)"

section \<open>Committing\<close>

definition virtual_at :: "plan \<Rightarrow> purepath \<Rightarrow> virtual_file option" where
  "virtual_at pl p = (case map_of (virtual pl) p of Some v \<Rightarrow> v | None \<Rightarrow> None)"

definition original_at :: "plan \<Rightarrow> purepath \<Rightarrow> file_snapshot option" where
  "original_at pl p = (case map_of (original pl) p of Some v \<Rightarrow> v | None \<Rightarrow> None)"

definition is_changed :: "plan \<Rightarrow> purepath \<Rightarrow> bool" where
  "is_changed pl p =
     (case (original_at pl p, virtual_at pl p) of
        (Some before, Some after) \<Rightarrow> sn_content before \<noteq> vf_content after \<or> sn_mode before \<noteq> vf_mode after
      | (None, None) \<Rightarrow> False
      | _ \<Rightarrow> True)"

definition final_paths :: "plan \<Rightarrow> purepath list" where
  "final_paths pl = filter (\<lambda>p. virtual_at pl p \<noteq> None) (touched pl)"

definition deleted_paths :: "plan \<Rightarrow> purepath list" where
  "deleted_paths pl = filter (\<lambda>p. virtual_at pl p = None) (touched pl)"

definition changed_paths :: "plan \<Rightarrow> purepath list" where
  "changed_paths pl = filter (is_changed pl) (touched pl)"

text \<open>The local variables of the transaction, beside the disk.\<close>

record tx = disk +
  staged :: "(purepath \<times> nat) list"
  created_dirs :: "purepath list"
  applied :: "purepath list"

definition ensure_parent :: "fault_plan \<Rightarrow> purepath \<Rightarrow> tx \<Rightarrow> (commit_error + unit) \<times> tx" where
  "ensure_parent flt p s =
     (let missing = missing_parents s p in
      seq (make_parents flt p) (\<lambda>_ s. (Inr (), s\<lparr>created_dirs := created_dirs s @ missing\<rparr>)) s)"

definition stage_one :: "fault_plan \<Rightarrow> plan \<Rightarrow> purepath \<Rightarrow> tx \<Rightarrow> (commit_error + unit) \<times> tx" where
  "stage_one flt pl p =
     (case virtual_at pl p of
        None \<Rightarrow> (\<lambda>s. (Inr (), s))
      | Some f \<Rightarrow>
          if \<not> is_changed pl p then (\<lambda>s. (Inr (), s))
          else seq (ensure_parent flt p) (\<lambda>_.
               seq (stage_file flt p f) (\<lambda>t s. (Inr (), s\<lparr>staged := AList.update p t (staged s)\<rparr>))))"

definition assert_snapshot :: "fault_plan \<Rightarrow> (bytes \<Rightarrow> nat list) \<Rightarrow> purepath \<times> file_snapshot option \<Rightarrow>
    tx \<Rightarrow> (commit_error + unit) \<times> tx" where
  "assert_snapshot flt digest = (\<lambda>(p, expected).
     sys flt (\<lambda>s. case expected of
         None \<Rightarrow> if path_exists s p then (Inl (PatchConflict p), s) else (Inr (), s)
       | Some sn \<Rightarrow>
           (case map_of (files s) p of
              None \<Rightarrow> (Inl (PatchConflict p), s)
            | Some f \<Rightarrow>
                if digest (vf_content f) \<noteq> sn_digest sn \<or> vf_mode f \<noteq> sn_mode sn
                then (Inl (PatchConflict p), s) else (Inr (), s))))"

definition delete_one :: "fault_plan \<Rightarrow> plan \<Rightarrow> purepath \<Rightarrow> tx \<Rightarrow> (commit_error + unit) \<times> tx" where
  "delete_one flt pl p s =
     (if is_changed pl p \<and> path_exists s p
      then seq (unlink_file flt False p) (\<lambda>_ s. (Inr (), s\<lparr>applied := applied s @ [p]\<rparr>)) s
      else (Inr (), s))"

definition install_one :: "fault_plan \<Rightarrow> purepath \<times> nat \<Rightarrow> tx \<Rightarrow> (commit_error + unit) \<times> tx" where
  "install_one flt = (\<lambda>(p, t). seq (fs_replace flt t p) (\<lambda>_ s. (Inr (), s\<lparr>applied := applied s @ [p]\<rparr>)))"

definition commit_body :: "fault_plan \<Rightarrow> (bytes \<Rightarrow> nat list) \<Rightarrow> plan \<Rightarrow> tx \<Rightarrow> (commit_error + unit) \<times> tx" where
  "commit_body flt digest pl =
     seq (each (stage_one flt pl) (final_paths pl)) (\<lambda>_.
     seq (each (assert_snapshot flt digest) (original pl)) (\<lambda>_.
     seq (each (delete_one flt pl) (deleted_paths pl)) (\<lambda>_ s.
       each (install_one flt) (staged s) s)))"

text \<open>A step of the rollback whose \<open>OSError\<close> is logged and dropped.\<close>

definition attempt :: "('s \<Rightarrow> (commit_error + unit) \<times> 's) \<Rightarrow> 's \<Rightarrow> 's" where
  "attempt act s = snd (act s)"

definition undo_one :: "fault_plan \<Rightarrow> plan \<Rightarrow> purepath \<Rightarrow> tx \<Rightarrow> (commit_error + unit) \<times> tx" where
  "undo_one flt pl p =
     (case original_at pl p of
        None \<Rightarrow> unlink_file flt True p
      | Some sn \<Rightarrow> atomic_write flt p (restore_of sn))"

definition cleanup_paths :: "fault_plan \<Rightarrow> nat list \<Rightarrow> tx \<Rightarrow> tx" where
  "cleanup_paths flt ts s = fold (\<lambda>t. attempt (unlink_temp flt t)) ts s"

definition cleanup_empty_dirs :: "fault_plan \<Rightarrow> purepath list \<Rightarrow> tx \<Rightarrow> tx" where
  "cleanup_empty_dirs flt ps s =
     fold (\<lambda>p. attempt (fs_rmdir flt p)) (sort_key (\<lambda>p. - int (length (parts p))) ps) s"

definition rollback :: "fault_plan \<Rightarrow> plan \<Rightarrow> tx \<Rightarrow> tx" where
  "rollback flt pl s =
     (let s = cleanup_paths flt (map snd (staged s)) s;
          s = fold (\<lambda>p. attempt (undo_one flt pl p)) (rev (applied s)) s
      in cleanup_empty_dirs flt (created_dirs s) s)"

definition begin_tx :: "disk \<Rightarrow> tx" where
  "begin_tx d = disk.extend d \<lparr>staged = [], created_dirs = [], applied = []\<rparr>"

definition commit :: "fault_plan \<Rightarrow> (bytes \<Rightarrow> nat list) \<Rightarrow> plan \<Rightarrow> disk \<Rightarrow> (commit_error + unit) \<times> disk" where
  "commit flt digest pl d =
     (case commit_body flt digest pl (begin_tx d) of
        (Inr _, s) \<Rightarrow> (Inr (), disk.truncate s)
      | (Inl e, s) \<Rightarrow> (Inl e, disk.truncate (rollback flt pl s)))"

text \<open>
  \<open>_apply_patch\<close>. \<open>meanwhile\<close> is what other processes do to the disk between the planning and the
  commit. The result is the diff metadata and the paths shown in the summary.
\<close>

definition apply_patch :: "fault_plan \<Rightarrow> (bytes \<Rightarrow> nat list) \<Rightarrow> os \<Rightarrow> settings \<Rightarrow> config \<Rightarrow> (disk \<Rightarrow> disk) \<Rightarrow>
    string \<Rightarrow> disk \<Rightarrow> (commit_error + ((string \<times> (int \<times> int) list) list \<times> string list)) \<times> disk" where
  "apply_patch flt digest env st cfg meanwhile patch_text d =
     (case make_plan flt digest env st cfg patch_text d of
        Inl e \<Rightarrow> (Inl e, d)
      | Inr (pl, d') \<Rightarrow>
          (case commit flt digest pl (meanwhile d') of
             (Inl e, d'') \<Rightarrow> (Inl e, d'')
           | (Inr _, d'') \<Rightarrow> (Inr (metadata pl, map (display_path (guard pl)) (changed_paths pl)), d'')))"

section \<open>What the system calls change\<close>

abbreviation fmap :: "'z disk_scheme \<Rightarrow> purepath \<Rightarrow> virtual_file option" where
  "fmap d \<equiv> map_of (files d)"

abbreviation tmap :: "'z disk_scheme \<Rightarrow> nat \<Rightarrow> (purepath \<times> virtual_file) option" where
  "tmap d \<equiv> map_of (temps d)"

lemma seq_snd:
  assumes "\<And>e s'. act s = (Inl e, s') \<Longrightarrow> Q s'"
    and "\<And>a s'. act s = (Inr a, s') \<Longrightarrow> Q (snd (cont a s'))"
  shows "Q (snd (seq act cont s))"
  using assms by (cases "act s"; cases "fst (act s)") (auto simp: seq_def)

lemma seq_Inr:
  "seq act cont s = (Inr b, s'') \<longleftrightarrow> (\<exists>a s'. act s = (Inr a, s') \<and> cont a s' = (Inr b, s''))"
  by (cases "act s"; cases "fst (act s)") (auto simp: seq_def)

lemma each_snd:
  assumes "I s" and "\<And>x s. x \<in> set xs \<Longrightarrow> I s \<Longrightarrow> I (snd (act x s))"
  shows "I (snd (each act xs s))"
  using assms
proof (induction xs arbitrary: s)
  case (Cons x xs)
  show ?case
    unfolding each.simps
  proof (rule seq_snd)
    fix e s' assume "act x s = (Inl e, s')"
    then show "I s'" using Cons.prems(2) [of x s] Cons.prems(1) by simp
  next
    fix a s' assume "act x s = (Inr a, s')"
    then have "I s'" using Cons.prems(2) [of x s] Cons.prems(1) by simp
    then show "I (snd (each act xs s'))" by (rule Cons.IH) (simp add: Cons.prems(2))
  qed
qed simp

definition grows_dirs :: "'z disk_scheme \<Rightarrow> purepath list \<Rightarrow> bool" where
  "grows_dirs s ds \<longleftrightarrow> set (dirs s) \<subseteq> set ds \<and>
     (\<forall>q. fmap s q \<noteq> None \<longrightarrow> q \<notin> set (dirs s) \<longrightarrow> q \<notin> set ds)"

lemma grows_dirs_refl [simp]: "grows_dirs s (dirs s)"
  by (simp add: grows_dirs_def)

lemma grows_dirs_trans:
  "grows_dirs s ds \<Longrightarrow> grows_dirs (s\<lparr>dirs := ds, clock := c\<rparr>) ds' \<Longrightarrow> grows_dirs s ds'"
  by (auto simp: grows_dirs_def)

lemma fs_mkdir_grows:
  assumes "fs_mkdir flt p s = (r, s')"
  shows "\<exists>ds c. s' = s\<lparr>dirs := ds, clock := c\<rparr> \<and> grows_dirs s ds \<and> (r = Inr () \<longrightarrow> p \<in> set ds)"
proof (cases "flt (clock s) \<or> path_exists s p \<or> parent_of p \<notin> set (dirs s)")
  case True
  then have "s' = s\<lparr>dirs := dirs s, clock := clock s + 1\<rparr> \<and> r \<noteq> Inr ()"
    using assms by (auto simp: fs_mkdir_def sys_def path_exists_def Let_def split: if_splits)
  then show ?thesis using grows_dirs_refl by blast
next
  case False
  then have "s' = s\<lparr>dirs := p # dirs s, clock := clock s + 1\<rparr>" "grows_dirs s (p # dirs s)"
    using assms by (auto simp: fs_mkdir_def sys_def path_exists_def grows_dirs_def Let_def)
  then show ?thesis by (intro exI) auto
qed

lemma each_mkdir_grows:
  "each (fs_mkdir flt) ps s = (r, s') \<Longrightarrow>
     \<exists>ds c. s' = s\<lparr>dirs := ds, clock := c\<rparr> \<and> grows_dirs s ds \<and> (r = Inr () \<longrightarrow> set ps \<subseteq> set ds)"
proof (induction ps arbitrary: s)
  case Nil
  then show ?case by (auto intro!: exI [of _ "dirs s"] exI [of _ "clock s"])
next
  case (Cons p ps)
  obtain r1 s1 where 1: "fs_mkdir flt p s = (r1, s1)" by (cases "fs_mkdir flt p s")
  obtain ds c where dc: "s1 = s\<lparr>dirs := ds, clock := c\<rparr>" "grows_dirs s ds" "r1 = Inr () \<longrightarrow> p \<in> set ds"
    using fs_mkdir_grows [OF 1] by blast
  show ?case
  proof (cases r1)
    case (Inl e)
    then show ?thesis using Cons.prems 1 dc by (auto simp: seq_def)
  next
    case (Inr u)
    then have "each (fs_mkdir flt) ps s1 = (r, s')" using Cons.prems 1 by (simp add: seq_def)
    from Cons.IH [OF this] obtain ds' c' where
      "s' = s1\<lparr>dirs := ds', clock := c'\<rparr>" "grows_dirs s1 ds'" "r = Inr () \<longrightarrow> set ps \<subseteq> set ds'" by blast
    then show ?thesis
      using dc Inr grows_dirs_trans [of s ds c ds']
      by (auto simp: grows_dirs_def intro!: exI [of _ ds'] exI [of _ c'])
  qed
qed

lemma make_parents_grows:
  assumes "make_parents flt p s = (r, s')"
  shows "\<exists>ds c. s' = s\<lparr>dirs := ds, clock := c\<rparr> \<and> grows_dirs s ds"
proof (cases "path_exists s (parent_of p)")
  case True
  then show ?thesis using assms
    by (auto simp: make_parents_def split: if_splits intro!: exI [of _ "dirs s"] exI [of _ "clock s"])
next
  case False
  then have "each (fs_mkdir flt) (rev (missing_parents s p)) s = (r, s')"
    using assms by (auto simp: make_parents_def path_exists_def)
  from each_mkdir_grows [OF this] show ?thesis by blast
qed

lemma make_parents_present: "parent_of p \<in> set (dirs s) \<Longrightarrow> make_parents flt p s = (Inr (), s)"
  by (simp add: make_parents_def)

text \<open>
  A staged file is a fresh temporary file with the wanted content beside its destination; a failed
  staging leaves no temporary file behind, provided the clean-up right after a failed write works.
\<close>

definition isolated :: "fault_plan \<Rightarrow> bool" where
  "isolated flt \<longleftrightarrow> (\<forall>i. flt i \<longrightarrow> \<not> flt (i + 1))"

lemma stage_file_effect:
  assumes "stage_file flt p f s = (r, s')" and "isolated flt" and "tmap s (next_temp s) = None"
  shows "s' = s\<lparr>dirs := dirs s', clock := clock s', temps := temps s', next_temp := next_temp s'\<rparr> \<and>
    grows_dirs s (dirs s') \<and> next_temp s \<le> next_temp s' \<and>
    (case r of Inl e \<Rightarrow> tmap s' = tmap s
     | Inr t \<Rightarrow> t = next_temp s \<and> next_temp s' = Suc t \<and>
         tmap s' = (tmap s)(t \<mapsto> (parent_of p, f)) \<and> parent_of p \<in> set (dirs s'))"
proof -
  obtain r1 s1 where 1: "make_parents flt p s = (r1, s1)" by (cases "make_parents flt p s")
  obtain ds c where dc: "s1 = s\<lparr>dirs := ds, clock := c\<rparr>" "grows_dirs s ds"
    using make_parents_grows [OF 1] by blast
  show ?thesis
  proof (cases r1)
    case (Inl e)
    then show ?thesis using assms(1) 1 dc by (auto simp: stage_file_def seq_def)
  next
    case (Inr u)
    have "next_temp s \<notin> fst ` set (temps s)" using assms(3) by (simp add: map_of_eq_None_iff)
    then show ?thesis
      using assms(1,2,3) 1 dc Inr
      by (auto simp: stage_file_def seq_def mkstemp_def write_temp_def unlink_temp_def on_error_def sys_def
          isolated_def Let_def delete_conv' update_conv' fun_eq_iff split: if_splits)
  qed
qed

lemma ensure_parent_effect:
  assumes "ensure_parent flt p s = (r, s')"
  shows "s' = s\<lparr>dirs := dirs s', clock := clock s', created_dirs := created_dirs s'\<rparr> \<and> grows_dirs s (dirs s') \<and>
    set (created_dirs s') \<subseteq> set (created_dirs s) \<union> set (missing_parents s p)"
proof -
  obtain r1 s1 where 1: "make_parents flt p s = (r1, s1)" by (cases "make_parents flt p s")
  obtain ds c where "s1 = s\<lparr>dirs := ds, clock := c\<rparr>" "grows_dirs s ds"
    using make_parents_grows [OF 1] by blast
  then show ?thesis
    using assms 1 by (cases r1) (auto simp: ensure_parent_def seq_def Let_def)
qed

section \<open>The invariant of a transaction\<close>

definition wf_disk :: "'z disk_scheme \<Rightarrow> bool" where
  "wf_disk d \<longleftrightarrow>
     (\<forall>p. fmap d p \<noteq> None \<longrightarrow> p \<notin> set (dirs d) \<and> parent_of p \<in> set (dirs d)) \<and>
     (\<forall>t. tmap d t \<noteq> None \<longrightarrow> t < next_temp d)"

definition wf_plan :: "(bytes \<Rightarrow> nat list) \<Rightarrow> plan \<Rightarrow> bool" where
  "wf_plan digest pl \<longleftrightarrow>
     distinct (touched pl) \<and> map fst (original pl) = touched pl \<and> fst ` set (virtual pl) = set (touched pl) \<and>
     (\<forall>(p, sn) \<in> set (original pl). case sn of None \<Rightarrow> True | Some n \<Rightarrow> sn_digest n = digest (sn_content n))"

text \<open>\<open>d0\<close> is the disk at the start of the commit.\<close>

definition tx_inv :: "disk \<Rightarrow> plan \<Rightarrow> tx \<Rightarrow> bool" where
  "tx_inv d0 pl s \<longleftrightarrow>
     (\<forall>p. fmap s p = (if p \<in> set (applied s) then virtual_at pl p else fmap d0 p)) \<and>
     (\<forall>t. t \<notin> snd ` set (staged s) \<longrightarrow> tmap s t = tmap d0 t) \<and>
     (\<forall>(p, t) \<in> set (staged s). next_temp d0 \<le> t \<and> t < next_temp s \<and> virtual_at pl p \<noteq> None \<and>
        tmap s t = (if p \<in> set (applied s) then None else Some (parent_of p, the (virtual_at pl p)))) \<and>
     distinct (map snd (staged s)) \<and> distinct (map fst (staged s)) \<and>
     next_temp d0 \<le> next_temp s \<and> set (dirs d0) \<subseteq> set (dirs s) \<and>
     (\<forall>p. fmap d0 p \<noteq> None \<longrightarrow> p \<notin> set (dirs s)) \<and>
     distinct (applied s) \<and> (\<forall>p \<in> set (applied s). is_changed pl p) \<and>
     (\<forall>p \<in> set (applied s). virtual_at pl p \<noteq> None \<longrightarrow> p \<in> fst ` set (staged s)) \<and>
     (\<forall>q \<in> set (created_dirs s). q \<notin> set (dirs d0))"

lemma tx_inv_fields:
  assumes "tx_inv d0 pl s"
  shows "\<And>p. fmap s p = (if p \<in> set (applied s) then virtual_at pl p else fmap d0 p)"
    and "\<And>t. t \<notin> snd ` set (staged s) \<Longrightarrow> tmap s t = tmap d0 t"
    and "\<And>p t. (p, t) \<in> set (staged s) \<Longrightarrow> next_temp d0 \<le> t \<and> t < next_temp s \<and> virtual_at pl p \<noteq> None"
    and "\<And>p t. (p, t) \<in> set (staged s) \<Longrightarrow>
      tmap s t = (if p \<in> set (applied s) then None else Some (parent_of p, the (virtual_at pl p)))"
    and "distinct (map snd (staged s))" "distinct (map fst (staged s))" "next_temp d0 \<le> next_temp s"
    and "set (dirs d0) \<subseteq> set (dirs s)" and "\<And>p. fmap d0 p \<noteq> None \<Longrightarrow> p \<notin> set (dirs s)"
    and "distinct (applied s)" and "\<And>p. p \<in> set (applied s) \<Longrightarrow> is_changed pl p"
    and "\<And>p. p \<in> set (applied s) \<Longrightarrow> virtual_at pl p \<noteq> None \<Longrightarrow> p \<in> fst ` set (staged s)"
    and "\<And>q. q \<in> set (created_dirs s) \<Longrightarrow> q \<notin> set (dirs d0)"
  using assms unfolding tx_inv_def by auto

lemma tx_invI:
  assumes "\<And>p. fmap s p = (if p \<in> set (applied s) then virtual_at pl p else fmap d0 p)"
    and "\<And>t. t \<notin> snd ` set (staged s) \<Longrightarrow> tmap s t = tmap d0 t"
    and "\<And>p t. (p, t) \<in> set (staged s) \<Longrightarrow> next_temp d0 \<le> t \<and> t < next_temp s \<and> virtual_at pl p \<noteq> None"
    and "\<And>p t. (p, t) \<in> set (staged s) \<Longrightarrow>
      tmap s t = (if p \<in> set (applied s) then None else Some (parent_of p, the (virtual_at pl p)))"
    and "distinct (map snd (staged s))" "distinct (map fst (staged s))" "next_temp d0 \<le> next_temp s"
    and "set (dirs d0) \<subseteq> set (dirs s)" and "\<And>p. fmap d0 p \<noteq> None \<Longrightarrow> p \<notin> set (dirs s)"
    and "distinct (applied s)" and "\<And>p. p \<in> set (applied s) \<Longrightarrow> is_changed pl p"
    and "\<And>p. p \<in> set (applied s) \<Longrightarrow> virtual_at pl p \<noteq> None \<Longrightarrow> p \<in> fst ` set (staged s)"
    and "\<And>q. q \<in> set (created_dirs s) \<Longrightarrow> q \<notin> set (dirs d0)"
  shows "tx_inv d0 pl s"
  using assms(3,4) unfolding tx_inv_def
  by (intro conjI allI impI ballI assms(1,2,5-13) case_prodI2) (auto split: prod.splits)

lemma tx_inv_begin: "wf_disk d \<Longrightarrow> tx_inv d pl (begin_tx d)"
  by (auto simp: tx_inv_def begin_tx_def disk.defs wf_disk_def)

lemma tx_inv_clock [inv_intros]: "tx_inv d0 pl s \<Longrightarrow> tx_inv d0 pl (s\<lparr>clock := c\<rparr>)"
  by (simp add: tx_inv_def)

lemma tx_inv_dirs [inv_intros]:
  "tx_inv d0 pl s \<Longrightarrow> applied s = [] \<Longrightarrow> grows_dirs s ds \<Longrightarrow>
     (\<And>q. q \<in> set cr \<Longrightarrow> q \<in> set (created_dirs s) \<or> q \<notin> set (dirs s)) \<Longrightarrow>
     tx_inv d0 pl (s\<lparr>dirs := ds, clock := c, created_dirs := cr\<rparr>)"
  by (auto simp: tx_inv_def grows_dirs_def) blast

lemma tx_inv_fresh: "wf_disk d0 \<Longrightarrow> tx_inv d0 pl s \<Longrightarrow> tmap s (next_temp s) = None"
  using tx_inv_fields(2,3,7) [of d0 pl s] unfolding wf_disk_def
  by (metis (no_types, lifting) imageE less_irrefl not_less prod.collapse)

lemma tx_inv_temp [inv_intros]:
  assumes "tx_inv d0 pl s" "applied s = []" "grows_dirs s ds" "next_temp s \<le> n" "map_of ts = tmap s"
  shows "tx_inv d0 pl (s\<lparr>dirs := ds, clock := c, temps := ts, next_temp := n\<rparr>)"
  using assms by (fastforce simp: tx_inv_def grows_dirs_def)

lemma tx_inv_stage [inv_intros]:
  assumes inv: "tx_inv d0 pl s" and "applied s = []" "grows_dirs s ds" "wf_disk d0"
    and ts: "map_of ts = (tmap s)(next_temp s \<mapsto> (parent_of p, f))"
    and v: "virtual_at pl p = Some f" and p: "p \<notin> fst ` set (staged s)"
  shows "tx_inv d0 pl (s\<lparr>dirs := ds, clock := c, temps := ts, next_temp := Suc (next_temp s),
           staged := AList.update p (next_temp s) (staged s)\<rparr>)"
proof -
  have upd: "AList.update p (next_temp s) (staged s) = staged s @ [(p, next_temp s)]"
    using p by (rule update_fresh)
  have new: "next_temp s \<notin> snd ` set (staged s)" "\<And>a. (a, next_temp s) \<notin> set (staged s)"
    using tx_inv_fields(3) [OF inv] by fastforce+
  show ?thesis
    using assms(2-) tx_inv_fields [OF inv] new
    unfolding tx_inv_def upd grows_dirs_def by (auto simp: less_Suc_eq)
qed

lemma stage_one_inv:
  assumes inv: "tx_inv d0 pl s" and "applied s = []" and "p \<notin> fst ` set (staged s)"
    and "isolated flt" "wf_disk d0"
  shows "tx_inv d0 pl (snd (stage_one flt pl p s)) \<and> applied (snd (stage_one flt pl p s)) = [] \<and>
    fst ` set (staged (snd (stage_one flt pl p s))) \<subseteq> insert p (fst ` set (staged s))"
proof (cases "virtual_at pl p = None \<or> \<not> is_changed pl p")
  case True
  then show ?thesis using assms by (auto simp: stage_one_def split: option.splits)
next
  case False
  then obtain f where f: "virtual_at pl p = Some f" by auto
  have eq: "stage_one flt pl p = seq (ensure_parent flt p) (\<lambda>_.
      seq (stage_file flt p f) (\<lambda>t s. (Inr (), s\<lparr>staged := AList.update p t (staged s)\<rparr>)))"
    using False f by (simp add: stage_one_def)
  let ?Q = "\<lambda>s'. tx_inv d0 pl s' \<and> applied s' = [] \<and> fst ` set (staged s') \<subseteq> insert p (fst ` set (staged s))"
  have mid: "tx_inv d0 pl s1 \<and> applied s1 = [] \<and> staged s1 = staged s" if ep: "ensure_parent flt p s = (r, s1)" for r s1
  proof -
    obtain ds c cr where s1: "s1 = s\<lparr>dirs := ds, clock := c, created_dirs := cr\<rparr>" "grows_dirs s ds"
        "set cr \<subseteq> set (created_dirs s) \<union> set (missing_parents s p)"
      using ensure_parent_effect [OF ep] by blast
    have "q \<in> set (created_dirs s) \<or> q \<notin> set (dirs s)" if "q \<in> set cr" for q
      using that s1(3) by (auto simp: missing_parents_def path_exists_def dest: set_takeWhileD)
    then show ?thesis using tx_inv_dirs [OF inv assms(2) s1(2)] assms(2) s1(1) by simp
  qed
  have fin: "?Q (snd (seq (stage_file flt p f) (\<lambda>t s. (Inr (), s\<lparr>staged := AList.update p t (staged s)\<rparr>)) s1))"
    if s1: "tx_inv d0 pl s1" "applied s1 = []" "staged s1 = staged s" for s1
  proof -
    obtain r s2 where 2: "stage_file flt p f s1 = (r, s2)" by (cases "stage_file flt p f s1")
    obtain ds c ts n where e: "s2 = s1\<lparr>dirs := ds, clock := c, temps := ts, next_temp := n\<rparr>" "grows_dirs s1 ds"
        "next_temp s1 \<le> n" "case r of Inl e \<Rightarrow> map_of ts = tmap s1
         | Inr t \<Rightarrow> t = next_temp s1 \<and> n = Suc t \<and> map_of ts = (tmap s1)(t \<mapsto> (parent_of p, f))"
      using stage_file_effect [OF 2 assms(4) tx_inv_fresh [OF assms(5) s1(1)]]
      by (cases r) auto
    show ?thesis
    proof (cases r)
      case (Inl x)
      then show ?thesis using 2 e s1 tx_inv_temp [OF s1(1,2) e(2,3)] by (auto simp: seq_def)
    next
      case (Inr t)
      then show ?thesis
        using 2 e s1 tx_inv_stage [OF s1(1,2) e(2) assms(5) _ f, of ts c] assms(3)
        by (auto simp: seq_def update_fresh)
    qed
  qed
  show ?thesis
    unfolding eq
  proof (rule seq_snd)
    fix e s' assume "ensure_parent flt p s = (Inl e, s')"
    from mid [OF this] show "?Q s'" by auto
  next
    fix a s' assume "ensure_parent flt p s = (Inr a, s')"
    from mid [OF this] show "?Q (snd (seq (stage_file flt p f) (\<lambda>t s. (Inr (), s\<lparr>staged := AList.update p t (staged s)\<rparr>)) s'))"
      using fin by blast
  qed
qed

lemma stage_all_inv:
  assumes "tx_inv d0 pl s" "applied s = []" "distinct ps" "fst ` set (staged s) \<inter> set ps = {}"
    and "isolated flt" "wf_disk d0"
  shows "tx_inv d0 pl (snd (each (stage_one flt pl) ps s)) \<and> applied (snd (each (stage_one flt pl) ps s)) = []"
  using assms
proof (induction ps arbitrary: s)
  case (Cons p ps)
  note one = stage_one_inv [OF Cons.prems(1,2) _ Cons.prems(5,6), of p]
  have p: "p \<notin> fst ` set (staged s)" using Cons.prems(4) by auto
  show ?case
    unfolding each.simps
  proof (rule seq_snd)
    fix e s' assume "stage_one flt pl p s = (Inl e, s')"
    then show "tx_inv d0 pl s' \<and> applied s' = []" using one p by simp
  next
    fix a s' assume "stage_one flt pl p s = (Inr a, s')"
    then have s': "tx_inv d0 pl s'" "applied s' = []" "fst ` set (staged s') \<subseteq> insert p (fst ` set (staged s))"
      using one p by auto
    have "fst ` set (staged s') \<inter> set ps = {}" using s'(3) Cons.prems(3,4) by auto
    then show "tx_inv d0 pl (snd (each (stage_one flt pl) ps s')) \<and> applied (snd (each (stage_one flt pl) ps s')) = []"
      using Cons.IH [OF s'(1,2)] Cons.prems(3,5,6) by simp
  qed
qed simp

text \<open>The recheck changes nothing; when it passes, every observed path is as it was read.\<close>

definition agrees :: "(bytes \<Rightarrow> nat list) \<Rightarrow> 'z disk_scheme \<Rightarrow> purepath \<times> file_snapshot option \<Rightarrow> bool" where
  "agrees digest d = (\<lambda>(p, sn).
     case sn of
       None \<Rightarrow> \<not> path_exists d p
     | Some n \<Rightarrow> (case fmap d p of
                    None \<Rightarrow> False
                  | Some f \<Rightarrow> digest (vf_content f) = sn_digest n \<and> vf_mode f = sn_mode n))"

lemma assert_snapshot_effect:
  "assert_snapshot flt digest e s = (r, s') \<Longrightarrow>
     s' = s\<lparr>clock := clock s + 1\<rparr> \<and> (r = Inr () \<longrightarrow> agrees digest s e) \<and>
     (\<not> flt (clock s) \<longrightarrow> r = (if agrees digest s e then Inr () else Inl (PatchConflict (fst e))))"
  by (auto simp: assert_snapshot_def sys_def Let_def agrees_def path_exists_def
      split: if_splits option.splits prod.splits)

lemma agrees_clock [simp]: "agrees digest (s\<lparr>clock := c\<rparr>) e = agrees digest s e"
  by (simp add: agrees_def path_exists_def split: option.splits prod.splits)

lemma assert_all_effect:
  "each (assert_snapshot flt digest) es s = (r, s') \<Longrightarrow>
     s' = s\<lparr>clock := clock s'\<rparr> \<and> (r = Inr () \<longrightarrow> (\<forall>e \<in> set es. agrees digest s e))"
proof (induction es arbitrary: s)
  case (Cons e es)
  obtain r1 s1 where 1: "assert_snapshot flt digest e s = (r1, s1)" by (cases "assert_snapshot flt digest e s")
  have eff: "s1 = s\<lparr>clock := clock s + 1\<rparr>" "r1 = Inr () \<longrightarrow> agrees digest s e"
    using assert_snapshot_effect [OF 1] by auto
  show ?case
  proof (cases r1)
    case (Inl x)
    then show ?thesis using Cons.prems 1 eff by (auto simp: seq_def)
  next
    case (Inr u)
    then have "each (assert_snapshot flt digest) es s1 = (r, s')"
      using Cons.prems 1 by (simp add: seq_def)
    from Cons.IH [OF this] show ?thesis using eff Inr by auto
  qed
qed simp

lemma delete_one_effect:
  assumes "delete_one flt pl p s = (r, s')"
  shows "s' = s\<lparr>clock := clock s'\<rparr> \<and> (r = Inr () \<longrightarrow> \<not> (is_changed pl p \<and> path_exists s p)) \<or>
    is_changed pl p \<and> r = Inr () \<and>
    s' = s\<lparr>clock := clock s', files := AList.delete p (files s), applied := applied s @ [p]\<rparr>"
  using assms
  by (auto simp: delete_one_def seq_def unlink_file_def sys_def Let_def path_exists_def split: if_splits)

lemma tx_inv_delete [inv_intros]:
  assumes "tx_inv d0 pl s" "is_changed pl p" "virtual_at pl p = None" "p \<notin> set (applied s)"
  shows "tx_inv d0 pl (s\<lparr>clock := c, files := AList.delete p (files s), applied := applied s @ [p]\<rparr>)"
proof -
  have "p \<noteq> q" if "(q, t) \<in> set (staged s)" for q t
    using tx_inv_fields(3) [OF assms(1) that] assms(3) by auto
  then show ?thesis using assms by (fastforce simp: tx_inv_def delete_conv')
qed

lemma delete_all_inv:
  assumes "tx_inv d0 pl s" "distinct ps" "set (applied s) \<inter> set ps = {}" "\<forall>p \<in> set ps. virtual_at pl p = None"
    and "each (delete_one flt pl) ps s = (r, s')"
  shows "tx_inv d0 pl s' \<and> set (applied s) \<subseteq> set (applied s') \<and>
    set (applied s') \<subseteq> set (applied s) \<union> set ps \<and> staged s' = staged s \<and>
    (r = Inr () \<longrightarrow> (\<forall>p \<in> set ps. is_changed pl p \<longrightarrow> fmap s' p = None))"
  using assms
proof (induction ps arbitrary: s)
  case (Cons p ps)
  obtain r1 s1 where 1: "delete_one flt pl p s = (r1, s1)" by (cases "delete_one flt pl p s")
  have step: "tx_inv d0 pl s1 \<and> set (applied s) \<subseteq> set (applied s1) \<and>
      set (applied s1) \<subseteq> insert p (set (applied s)) \<and> staged s1 = staged s \<and>
      (r1 = Inr () \<longrightarrow> is_changed pl p \<longrightarrow> fmap s1 p = None)"
    using delete_one_effect [OF 1]
  proof
    assume a: "s1 = s\<lparr>clock := clock s1\<rparr> \<and> (r1 = Inr () \<longrightarrow> \<not> (is_changed pl p \<and> path_exists s p))"
    then obtain c where "s1 = s\<lparr>clock := c\<rparr>" by blast
    with a show ?thesis using tx_inv_clock [OF Cons.prems(1)] by (auto simp: path_exists_def)
  next
    assume a: "is_changed pl p \<and> r1 = Inr () \<and>
      s1 = s\<lparr>clock := clock s1, files := AList.delete p (files s), applied := applied s @ [p]\<rparr>"
    then obtain c where "s1 = s\<lparr>clock := c, files := AList.delete p (files s), applied := applied s @ [p]\<rparr>" by blast
    with a show ?thesis
      using tx_inv_delete [OF Cons.prems(1), of p c] Cons.prems(3,4) by (auto simp: delete_conv')
  qed
  show ?case
  proof (cases r1)
    case (Inl e)
    then show ?thesis using Cons.prems(5) 1 step by (auto simp: seq_def)
  next
    case (Inr u)
    then have rest: "each (delete_one flt pl) ps s1 = (r, s')" using Cons.prems(5) 1 by (simp add: seq_def)
    have "set (applied s1) \<inter> set ps = {}" using step Cons.prems(2,3) by auto
    from Cons.IH [OF _ _ this _ rest] have IH: "tx_inv d0 pl s' \<and> set (applied s1) \<subseteq> set (applied s') \<and>
        set (applied s') \<subseteq> set (applied s1) \<union> set ps \<and>
        staged s' = staged s1 \<and> (r = Inr () \<longrightarrow> (\<forall>p \<in> set ps. is_changed pl p \<longrightarrow> fmap s' p = None))"
      using step Cons.prems(2,4) by simp
    have "fmap s' p = None" if "r = Inr ()" "is_changed pl p"
    proof (cases "p \<in> set (applied s')")
      case True
      then show ?thesis using IH tx_inv_fields(1) [of d0 pl s' p] Cons.prems(4) by simp
    next
      case False
      then have "fmap s' p = fmap d0 p" using IH tx_inv_fields(1) [of d0 pl s' p] by simp
      moreover have "p \<notin> set (applied s1) \<Longrightarrow> fmap d0 p = None"
        using step Inr that tx_inv_fields(1) [of d0 pl s1 p] by simp
      ultimately show ?thesis using False IH by auto
    qed
    then show ?thesis using IH step by auto
  qed
qed simp

lemma install_one_effect:
  assumes "install_one flt (p, t) s = (r, s')" and "tmap s t = Some (dir, f)"
  shows "s' = s\<lparr>clock := clock s'\<rparr> \<and> r \<noteq> Inr () \<or>
    r = Inr () \<and> p \<notin> set (dirs s) \<and>
    s' = s\<lparr>clock := clock s', files := AList.update p f (files s), temps := AList.delete t (temps s),
           applied := applied s @ [p]\<rparr>"
  using assms by (auto simp: install_one_def seq_def fs_replace_def sys_def Let_def split: if_splits)

lemma tx_inv_install [inv_intros]:
  assumes inv: "tx_inv d0 pl s" and st: "(p, t) \<in> set (staged s)" "p \<notin> set (applied s)" "is_changed pl p"
    and f: "virtual_at pl p = Some f"
  shows "tx_inv d0 pl (s\<lparr>clock := c, files := AList.update p f (files s), temps := AList.delete t (temps s),
           applied := applied s @ [p]\<rparr>)"
proof -
  have other: "t' \<noteq> t" if "(q, t') \<in> set (staged s)" "q \<noteq> p" for q t'
    using that st(1) tx_inv_fields(5) [OF inv] by (metis distinct_map inj_onD prod.inject snd_conv)
  have same: "t' = t" if "(p, t') \<in> set (staged s)" for t'
    using that st(1) tx_inv_fields(6) [OF inv] by (metis eq_key_imp_eq_value)
  have mem: "t \<in> snd ` set (staged s)" "p \<in> fst ` set (staged s)" using st(1) by force+
  let ?s = "s\<lparr>clock := c, files := AList.update p f (files s), temps := AList.delete t (temps s), applied := applied s @ [p]\<rparr>"
  note F = tx_inv_fields [OF inv]
  show ?thesis
  proof (rule tx_invI)
    show "fmap ?s q = (if q \<in> set (applied ?s) then virtual_at pl q else fmap d0 q)" for q
      using F(1) [of q] f by (simp add: update_conv')
    show "tmap ?s u = tmap d0 u" if "u \<notin> snd ` set (staged ?s)" for u
      using F(2) [of u] that mem(1) by (auto simp: delete_conv')
    show "tmap ?s u = (if q \<in> set (applied ?s) then None else Some (parent_of q, the (virtual_at pl q)))"
      if "(q, u) \<in> set (staged ?s)" for q u
      using F(4) [of q u] that other [of q u] same [of u] by (cases "q = p") (auto simp: delete_conv')
    show "next_temp d0 \<le> u \<and> u < next_temp ?s \<and> virtual_at pl q \<noteq> None" if "(q, u) \<in> set (staged ?s)" for q u
      using F(3) [of q u] that by simp
    show "q \<notin> set (dirs ?s)" if "fmap d0 q \<noteq> None" for q
      using F(9) [OF that] by simp
    show "is_changed pl q" if "q \<in> set (applied ?s)" for q
      using F(11) [of q] that st(3) by auto
    show "q \<in> fst ` set (staged ?s)" if "q \<in> set (applied ?s)" "virtual_at pl q \<noteq> None" for q
      using F(12) [of q] that mem(2) by auto
    show "q \<notin> set (dirs d0)" if "q \<in> set (created_dirs ?s)" for q
      using F(13) [of q] that by simp
  qed (use F(5-8,10) st(2) in simp_all)
qed

lemma install_all_inv:
  assumes "tx_inv d0 pl s" "distinct (map fst ps)" "set ps \<subseteq> set (staged s)" "set (applied s) \<inter> fst ` set ps = {}"
    and "\<forall>p \<in> fst ` set ps. is_changed pl p"
    and "each (install_one flt) ps s = (r, s')"
  shows "tx_inv d0 pl s' \<and> set (applied s) \<subseteq> set (applied s') \<and> staged s' = staged s \<and>
    (r = Inr () \<longrightarrow> fst ` set ps \<subseteq> set (applied s'))"
  using assms
proof (induction ps arbitrary: s)
  case (Cons e ps)
  obtain p t where e: "e = (p, t)" by (cases e)
  obtain r1 s1 where 1: "install_one flt (p, t) s = (r1, s1)" by (cases "install_one flt (p, t) s")
  have pt: "(p, t) \<in> set (staged s)" "p \<notin> set (applied s)" "is_changed pl p" using Cons.prems e by auto
  obtain f where f: "virtual_at pl p = Some f" using tx_inv_fields(3) [OF Cons.prems(1) pt(1)] by auto
  have t: "tmap s t = Some (parent_of p, f)" using tx_inv_fields(4) [OF Cons.prems(1) pt(1)] pt(2) f by simp
  have step: "tx_inv d0 pl s1 \<and> set (applied s) \<subseteq> set (applied s1) \<and> set (applied s1) \<subseteq> insert p (set (applied s)) \<and>
      staged s1 = staged s \<and> (r1 = Inr () \<longrightarrow> p \<in> set (applied s1))"
    using install_one_effect [OF 1 t]
  proof
    assume a: "s1 = s\<lparr>clock := clock s1\<rparr> \<and> r1 \<noteq> Inr ()"
    then obtain c where "s1 = s\<lparr>clock := c\<rparr>" by blast
    with a show ?thesis using tx_inv_clock [OF Cons.prems(1)] by auto
  next
    assume a: "r1 = Inr () \<and> p \<notin> set (dirs s) \<and> s1 = s\<lparr>clock := clock s1, files := AList.update p f (files s),
        temps := AList.delete t (temps s), applied := applied s @ [p]\<rparr>"
    then obtain c where "s1 = s\<lparr>clock := c, files := AList.update p f (files s),
        temps := AList.delete t (temps s), applied := applied s @ [p]\<rparr>" by blast
    with a show ?thesis using tx_inv_install [OF Cons.prems(1) pt f, of c] by auto
  qed
  show ?case
  proof (cases r1)
    case (Inl x)
    then show ?thesis using Cons.prems(6) e 1 step by (auto simp: seq_def)
  next
    case (Inr u)
    then have rest: "each (install_one flt) ps s1 = (r, s')" using Cons.prems(6) e 1 by (simp add: seq_def)
    have "set (applied s1) \<inter> fst ` set ps = {}" using step Cons.prems(2,4) e by auto
    from Cons.IH [OF _ _ _ this _ rest] show ?thesis
      using step Cons.prems(2,3,5) e Inr by auto
  qed
qed simp

lemma stage_one_staged:
  assumes "stage_one flt pl p s = (r, s')" "isolated flt" "tmap s (next_temp s) = None"
  shows "fst ` set (staged s') \<subseteq> fst ` set (staged s) \<union> {q. q = p \<and> virtual_at pl p \<noteq> None \<and> is_changed pl p} \<and>
    (r = Inr () \<longrightarrow> virtual_at pl p \<noteq> None \<longrightarrow> is_changed pl p \<longrightarrow> p \<in> fst ` set (staged s')) \<and>
    fst ` set (staged s) \<subseteq> fst ` set (staged s')"
proof (cases "virtual_at pl p = None \<or> \<not> is_changed pl p")
  case True
  then show ?thesis using assms(1) by (auto simp: stage_one_def split: option.splits)
next
  case False
  then obtain f where f: "virtual_at pl p = Some f" by auto
  obtain r1 s1 where 1: "ensure_parent flt p s = (r1, s1)" by (cases "ensure_parent flt p s")
  obtain ds c cr where s1: "s1 = s\<lparr>dirs := ds, clock := c, created_dirs := cr\<rparr>"
    using ensure_parent_effect [OF 1] by blast
  obtain r2 s2 where 2: "stage_file flt p f s1 = (r2, s2)" by (cases "stage_file flt p f s1")
  obtain ds c ts n where s2: "s2 = s1\<lparr>dirs := ds, clock := c, temps := ts, next_temp := n\<rparr>"
    using stage_file_effect [OF 2 assms(2)] assms(3) s1 by auto
  have st: "staged s1 = staged s" "staged s2 = staged s" using s1 s2 by simp_all
  have eq: "stage_one flt pl p s = (case r1 of Inl e \<Rightarrow> (Inl e, s1)
      | Inr _ \<Rightarrow> (case r2 of Inl e \<Rightarrow> (Inl e, s2)
                 | Inr t \<Rightarrow> (Inr (), s2\<lparr>staged := AList.update p t (staged s2)\<rparr>)))"
    using False f 1 2 by (simp add: stage_one_def seq_def split: sum.split)
  show ?thesis
  proof (cases "r = Inr ()")
    case True
    then obtain t where "s' = s2\<lparr>staged := AList.update p t (staged s2)\<rparr>"
      using eq assms(1) by (auto split: sum.splits)
    then show ?thesis using st False by (auto simp: dom_update)
  next
    case False
    then have "staged s' = staged s" using eq assms(1) st by (auto split: sum.splits)
    then show ?thesis using False by simp
  qed
qed

lemma stage_all_staged:
  assumes "tx_inv d0 pl s" "applied s = []" "distinct ps" "fst ` set (staged s) \<inter> set ps = {}"
    and "isolated flt" "wf_disk d0"
    and "each (stage_one flt pl) ps s = (r, s')"
  shows "fst ` set (staged s') \<subseteq> fst ` set (staged s) \<union> {p \<in> set ps. virtual_at pl p \<noteq> None \<and> is_changed pl p} \<and>
    fst ` set (staged s) \<subseteq> fst ` set (staged s') \<and>
    (r = Inr () \<longrightarrow> {p \<in> set ps. virtual_at pl p \<noteq> None \<and> is_changed pl p} \<subseteq> fst ` set (staged s'))"
  using assms
proof (induction ps arbitrary: s)
  case (Cons p ps)
  obtain r1 s1 where 1: "stage_one flt pl p s = (r1, s1)" by (cases "stage_one flt pl p s")
  have p: "p \<notin> fst ` set (staged s)" using Cons.prems(4) by auto
  have inv: "tx_inv d0 pl s1" "applied s1 = []" "fst ` set (staged s1) \<subseteq> insert p (fst ` set (staged s))"
    using stage_one_inv [OF Cons.prems(1,2) p Cons.prems(5,6)] 1 by auto
  note one = stage_one_staged [OF 1 Cons.prems(5) tx_inv_fresh [OF Cons.prems(6,1)]]
  show ?case
  proof (cases r1)
    case (Inl e)
    then have "r = Inl e" "s' = s1" using Cons.prems(7) 1 by (simp_all add: seq_def)
    then show ?thesis using one by auto
  next
    case (Inr u)
    then have rest: "each (stage_one flt pl) ps s1 = (r, s')" using Cons.prems(7) 1 by (simp add: seq_def)
    have "fst ` set (staged s1) \<inter> set ps = {}" using inv(3) Cons.prems(3,4) by auto
    note IH = Cons.IH [OF inv(1,2) _ this Cons.prems(5,6) rest]
    have ps: "distinct ps" using Cons.prems(3) by simp
    define F where "F x = fst ` set (staged x)" for x :: tx
    have "r1 = Inr ()" using Inr by simp
    then show ?thesis using IH [OF ps] one unfolding F_def [symmetric] set_simps by blast
  qed
qed simp

section \<open>Outcome of the commit\<close>

definition as_planned :: "disk \<Rightarrow> plan \<Rightarrow> bool" where
  "as_planned d pl \<longleftrightarrow> (\<forall>p \<in> set (touched pl).
     fmap d p = map_option restore_of (original_at pl p) \<and> (original_at pl p = None \<longrightarrow> p \<notin> set (dirs d)))"

lemma agrees_as_planned:
  assumes "wf_plan digest pl" "inj digest" "fmap s = fmap d" "\<forall>e \<in> set (original pl). agrees digest s e"
    and "set (dirs d) \<subseteq> set (dirs s)"
  shows "as_planned d pl"
  unfolding as_planned_def
proof
  fix p assume "p \<in> set (touched pl)"
  then have "p \<in> fst ` set (original pl)" using assms(1) by (metis wf_plan_def list.set_map)
  then obtain sn where sn: "map_of (original pl) p = Some sn"
    by (metis map_of_eq_None_iff not_None_eq)
  then have mem: "(p, sn) \<in> set (original pl)" by (rule map_of_SomeD)
  then have ag: "agrees digest s (p, sn)" using assms(4) by blast
  have at: "original_at pl p = sn" using sn by (simp add: original_at_def)
  show "fmap d p = map_option restore_of (original_at pl p) \<and> (original_at pl p = None \<longrightarrow> p \<notin> set (dirs d))"
  proof (cases sn)
    case None
    then show ?thesis using ag assms(3,5) at by (auto simp: agrees_def path_exists_def)
  next
    case (Some n)
    then obtain f where f: "fmap s p = Some f" "digest (vf_content f) = sn_digest n" "vf_mode f = sn_mode n"
      using ag by (auto simp: agrees_def split: option.splits)
    have "sn_digest n = digest (sn_content n)" using assms(1) mem Some by (auto simp: wf_plan_def)
    then have "vf_content f = sn_content n" using f(2) assms(2) by (metis injD)
    then have "f = restore_of n" using f(3) by (simp add: restore_of_def)
    then show ?thesis using f(1) assms(3) at Some by simp
  qed
qed

lemma unchanged_virtual:
  "\<not> is_changed pl p \<Longrightarrow> virtual_at pl p = map_option restore_of (original_at pl p)"
  by (auto simp: is_changed_def restore_of_def split: option.splits)

lemma begin_tx_simps [simp]:
  "files (begin_tx d) = files d" "dirs (begin_tx d) = dirs d" "temps (begin_tx d) = temps d"
  "staged (begin_tx d) = []" "applied (begin_tx d) = []" "created_dirs (begin_tx d) = []"
  "clock (begin_tx d) = clock d" "next_temp (begin_tx d) = next_temp d"
  by (simp_all add: begin_tx_def disk.defs)

lemma commit_stage:
  assumes "wf_disk d" "wf_plan digest pl" "isolated flt"
    and "each (stage_one flt pl) (final_paths pl) (begin_tx d) = (r, s)"
  shows "tx_inv d pl s \<and> applied s = [] \<and> fmap s = fmap d \<and> (\<forall>p \<in> fst ` set (staged s). is_changed pl p) \<and>
    (r = Inr () \<longrightarrow> {p \<in> set (touched pl). virtual_at pl p \<noteq> None \<and> is_changed pl p} \<subseteq> fst ` set (staged s))"
proof -
  have ps: "distinct (final_paths pl)"
    using assms(2) by (auto simp: final_paths_def wf_plan_def)
  have none: "fst ` set (staged (begin_tx d)) \<inter> set (final_paths pl) = {}" by simp
  note inv = stage_all_inv [OF tx_inv_begin [OF assms(1)] _ ps none assms(3,1)]
  note staged = stage_all_staged [OF tx_inv_begin [OF assms(1)] _ ps none assms(3,1) assms(4)]
  have inv: "tx_inv d pl s" "applied s = []" using inv [of pl] assms(4) by simp_all
  then have "fmap s = fmap d" using tx_inv_fields(1) [OF inv(1)] by (auto simp: fun_eq_iff)
  then show ?thesis using inv staged by (auto simp: final_paths_def)
qed

lemma commit_body_phases:
  assumes wf: "wf_disk d" "wf_plan digest pl" "inj digest" "isolated flt"
    and run: "commit_body flt digest pl (begin_tx d) = (r, s)"
  obtains "tx_inv d pl s" "applied s = []" "r \<noteq> Inr ()"
  | s2 r3 s3 where "tx_inv d pl s2" "applied s2 = []" "as_planned d pl" "\<forall>p \<in> fst ` set (staged s2). is_changed pl p"
      "{p \<in> set (touched pl). virtual_at pl p \<noteq> None \<and> is_changed pl p} \<subseteq> fst ` set (staged s2)"
      "each (delete_one flt pl) (deleted_paths pl) s2 = (r3, s3)"
      "(case r3 of Inl e \<Rightarrow> r = Inl e \<and> s = s3 | Inr _ \<Rightarrow> each (install_one flt) (staged s3) s3 = (r, s))"
proof -
  obtain r1 s1 where 1: "each (stage_one flt pl) (final_paths pl) (begin_tx d) = (r1, s1)"
    by (cases "each (stage_one flt pl) (final_paths pl) (begin_tx d)")
  note st = commit_stage [OF wf(1,2,4) 1]
  obtain r2 s2 where 2: "each (assert_snapshot flt digest) (original pl) s1 = (r2, s2)"
    by (cases "each (assert_snapshot flt digest) (original pl) s1")
  obtain c where s2: "s2 = s1\<lparr>clock := c\<rparr>" and ag: "r2 = Inr () \<longrightarrow> (\<forall>e \<in> set (original pl). agrees digest s1 e)"
    using assert_all_effect [OF 2] by blast
  have inv2: "tx_inv d pl s2" "applied s2 = []" using st s2 tx_inv_clock by auto
  show thesis
  proof (cases r1)
    case (Inl e)
    then have "r = Inl e" "s = s1" using run 1 by (simp_all add: commit_body_def seq_def)
    then show ?thesis using that(1) st by simp
  next
    case ok1: (Inr u)
    show ?thesis
    proof (cases r2)
      case (Inl e)
      then have "r = Inl e" "s = s2" using run 1 2 ok1 by (simp_all add: commit_body_def seq_def)
      then show ?thesis using that(1) inv2 by simp
    next
      case ok2: (Inr v)
      obtain r3 s3 where 3: "each (delete_one flt pl) (deleted_paths pl) s2 = (r3, s3)"
        by (cases "each (delete_one flt pl) (deleted_paths pl) s2")
      have pl: "as_planned d pl"
        using agrees_as_planned [OF wf(2,3), of s1 d] st ag ok2 tx_inv_fields(8) [of d pl s1] by simp
      have out: "case r3 of Inl e \<Rightarrow> r = Inl e \<and> s = s3 | Inr _ \<Rightarrow> each (install_one flt) (staged s3) s3 = (r, s)"
        using run 1 2 3 ok1 ok2 by (cases r3) (auto simp: commit_body_def seq_def)
      show ?thesis
        by (rule that(2) [OF inv2 pl _ _ 3 out]) (use st s2 ok1 in auto)
    qed
  qed
qed

lemma delete_phase:
  assumes wf: "wf_plan digest pl" and inv: "tx_inv d pl s2" "applied s2 = []"
    and run: "each (delete_one flt pl) (deleted_paths pl) s2 = (r, s3)"
  shows "tx_inv d pl s3 \<and> staged s3 = staged s2 \<and> set (applied s3) \<inter> fst ` set (staged s3) = {} \<and>
    (r = Inr () \<longrightarrow> (\<forall>p \<in> set (touched pl). virtual_at pl p = None \<longrightarrow> is_changed pl p \<longrightarrow> fmap s3 p = None))"
proof -
  have ps: "distinct (deleted_paths pl)" "\<forall>p \<in> set (deleted_paths pl). virtual_at pl p = None"
    using wf by (auto simp: deleted_paths_def wf_plan_def)
  have none: "set (applied s2) \<inter> set (deleted_paths pl) = {}" using inv(2) by simp
  note del = delete_all_inv [OF inv(1) ps(1) none ps(2) run]
  have "virtual_at pl p = None" if "p \<in> set (applied s3)" for p
    using del that inv(2) ps(2) by auto
  moreover have "virtual_at pl p \<noteq> None" if "(p, t) \<in> set (staged s3)" for p t
    using tx_inv_fields(3) [of d pl s3 p t] del that by blast
  ultimately have "set (applied s3) \<inter> fst ` set (staged s3) = {}" by fastforce
  then show ?thesis using del by (auto simp: deleted_paths_def)
qed

lemma commit_body_outcome:
  assumes wf: "wf_disk d" "wf_plan digest pl" "inj digest" "isolated flt"
    and run: "commit_body flt digest pl (begin_tx d) = (r, s)"
  shows "tx_inv d pl s \<and> (applied s \<noteq> [] \<longrightarrow> as_planned d pl) \<and>
    (r = Inr () \<longrightarrow> as_planned d pl \<and> (\<forall>p \<in> set (touched pl). fmap s p = virtual_at pl p) \<and>
       fst ` set (staged s) \<subseteq> set (applied s))"
proof (rule commit_body_phases [OF wf run])
  assume "tx_inv d pl s" "applied s = []" "r \<noteq> Inr ()"
  then show ?thesis by simp
next
  fix s2 r3 s3
  assume inv: "tx_inv d pl s2" "applied s2 = []" and planned: "as_planned d pl"
    and ch: "\<forall>p \<in> fst ` set (staged s2). is_changed pl p"
    and all: "{p \<in> set (touched pl). virtual_at pl p \<noteq> None \<and> is_changed pl p} \<subseteq> fst ` set (staged s2)"
    and 3: "each (delete_one flt pl) (deleted_paths pl) s2 = (r3, s3)"
    and 4: "case r3 of Inl e \<Rightarrow> r = Inl e \<and> s = s3 | Inr _ \<Rightarrow> each (install_one flt) (staged s3) s3 = (r, s)"
  note del = delete_phase [OF wf(2) inv 3]
  show ?thesis
  proof (cases r3)
    case (Inl e)
    then show ?thesis using 4 del planned by simp
  next
    case (Inr u)
    then have run4: "each (install_one flt) (staged s3) s3 = (r, s)" using 4 by simp
    have pre: "tx_inv d pl s3" "distinct (map fst (staged s3))" "set (staged s3) \<subseteq> set (staged s3)"
      "set (applied s3) \<inter> fst ` set (staged s3) = {}" "\<forall>p \<in> fst ` set (staged s3). is_changed pl p"
      using conjunct1 [OF conjunct2 [OF conjunct2 [OF del]]] del ch tx_inv_fields(6) [of d pl s3]
      by (simp_all only: subset_refl conj_assoc simp_thms)
    note ins = install_all_inv [OF pre run4]
    have "fmap s p = virtual_at pl p" if ok: "r = Inr ()" and p: "p \<in> set (touched pl)" for p
    proof (cases "p \<in> set (applied s)")
      case True
      then show ?thesis using ins tx_inv_fields(1) [of d pl s p] by simp
    next
      case False
      then have fm: "fmap s p = fmap d p" "p \<notin> set (applied s3)" using ins tx_inv_fields(1) [of d pl s p] by auto
      show ?thesis
      proof (cases "is_changed pl p")
        case True
        have sub: "fst ` set (staged s2) \<subseteq> set (applied s)" using del ins ok by simp
        have "virtual_at pl p = None"
        proof (rule ccontr)
          assume "virtual_at pl p \<noteq> None"
          then have "p \<in> fst ` set (staged s2)" using all p True by blast
          then show False using sub False by blast
        qed
        moreover from this have "fmap s3 p = None" using del Inr p True by simp
        ultimately show ?thesis using fm del tx_inv_fields(1) [of d pl s3 p] by simp
      next
        case False
        then show ?thesis using fm planned p unchanged_virtual by (simp add: as_planned_def)
      qed
    qed
    moreover have "staged s = staged s3" "tx_inv d pl s" using ins by auto
    ultimately show ?thesis using ins planned by auto
  qed
qed

lemma tx_inv_temps_done:
  assumes "tx_inv d pl s" "wf_disk d" "fst ` set (staged s) \<subseteq> set (applied s)"
  shows "tmap s = tmap d"
proof
  fix t
  show "tmap s t = tmap d t"
  proof (cases "t \<in> snd ` set (staged s)")
    case True
    then obtain p where p: "(p, t) \<in> set (staged s)" by auto
    then have "p \<in> set (applied s)" using assms(3) by force
    then have "tmap s t = None" using tx_inv_fields(4) [OF assms(1) p] by simp
    moreover have "tmap d t = None"
      using tx_inv_fields(3) [OF assms(1) p] assms(2) unfolding wf_disk_def by (meson not_less)
    ultimately show ?thesis by simp
  next
    case False
    then show ?thesis using tx_inv_fields(2) [OF assms(1)] by blast
  qed
qed

section \<open>Rollback\<close>

definition quiet_from :: "fault_plan \<Rightarrow> nat \<Rightarrow> bool" where
  "quiet_from flt n \<longleftrightarrow> (\<forall>i \<ge> n. \<not> flt i)"

lemma quiet_from_mono: "quiet_from flt n \<Longrightarrow> n \<le> m \<Longrightarrow> quiet_from flt m"
  by (auto simp: quiet_from_def)

lemma quiet_from_now: "quiet_from flt n \<Longrightarrow> n \<le> m \<Longrightarrow> \<not> flt m"
  by (auto simp: quiet_from_def)

lemma cleanup_paths_effect:
  "quiet_from flt (clock s) \<Longrightarrow>
     \<exists>us c. cleanup_paths flt ts s = s\<lparr>clock := c, temps := us\<rparr> \<and>
       map_of us = (\<lambda>t. if t \<in> set ts then None else tmap s t) \<and> clock s \<le> c"
proof (induction ts arbitrary: s)
  case Nil
  have "cleanup_paths flt [] s = s\<lparr>clock := clock s, temps := temps s\<rparr>" by (simp add: cleanup_paths_def)
  then show ?case by (intro exI conjI, assumption) auto
next
  case (Cons t ts)
  let ?s = "s\<lparr>clock := Suc (clock s), temps := AList.delete t (temps s)\<rparr>"
  have step: "cleanup_paths flt (t # ts) s = cleanup_paths flt ts ?s"
    using quiet_from_now [OF Cons.prems, of "clock s"]
    by (simp add: cleanup_paths_def attempt_def unlink_temp_def sys_def Let_def)
  have "quiet_from flt (clock ?s)" using quiet_from_mono [OF Cons.prems] by simp
  from Cons.IH [OF this] obtain us c where "cleanup_paths flt ts ?s = ?s\<lparr>clock := c, temps := us\<rparr>"
      "map_of us = (\<lambda>t. if t \<in> set ts then None else tmap ?s t)" "clock ?s \<le> c" by blast
  then show ?case
    unfolding step by (intro exI [where x = us], intro exI [where x = c]) (auto simp: delete_conv' fun_eq_iff)
qed

lemma undo_one_effect:
  assumes q: "quiet_from flt (clock s)" and fresh: "tmap s (next_temp s) = None"
    and place: "original_at pl p \<noteq> None \<Longrightarrow> parent_of p \<in> set (dirs s) \<and> p \<notin> set (dirs s)"
  shows "let s' = snd (undo_one flt pl p s) in
    s' = s\<lparr>files := files s', temps := temps s', next_temp := next_temp s', clock := clock s'\<rparr> \<and>
    fmap s' = (fmap s)(p := map_option restore_of (original_at pl p)) \<and>
    tmap s' = tmap s \<and> next_temp s \<le> next_temp s' \<and> clock s \<le> clock s'"
proof (cases "original_at pl p")
  case None
  then show ?thesis using quiet_from_now [OF q, of "clock s"]
    by (auto simp: undo_one_def unlink_file_def sys_def Let_def delete_conv' fun_eq_iff)
next
  case (Some sn)
  have fl: "\<not> flt (clock s)" "\<not> flt (Suc (clock s))" "\<not> flt (Suc (Suc (clock s)))"
    using quiet_from_now [OF q] by auto
  have "next_temp s \<notin> fst ` set (temps s)" using fresh by (simp add: map_of_eq_None_iff)
  then show ?thesis using Some fl place fresh
    by (auto simp: undo_one_def atomic_write_def stage_file_def seq_def make_parents_def mkstemp_def
        write_temp_def on_error_def fs_replace_def sys_def Let_def delete_conv' update_conv' fun_eq_iff)
qed

lemma undo_all_effect:
  assumes "quiet_from flt (clock s)" and "\<And>t. next_temp s \<le> t \<Longrightarrow> tmap s t = None"
    and "\<And>p. p \<in> set ps \<Longrightarrow> original_at pl p \<noteq> None \<Longrightarrow> parent_of p \<in> set (dirs s) \<and> p \<notin> set (dirs s)"
  shows "\<exists>fs ts n c. fold (\<lambda>p. attempt (undo_one flt pl p)) ps s =
      s\<lparr>files := fs, temps := ts, next_temp := n, clock := c\<rparr> \<and>
    map_of fs = (\<lambda>p. if p \<in> set ps then map_option restore_of (original_at pl p) else fmap s p) \<and>
    map_of ts = tmap s \<and> clock s \<le> c"
  using assms
proof (induction ps arbitrary: s)
  case Nil
  have "fold (\<lambda>p. attempt (undo_one flt pl p)) [] s =
      s\<lparr>files := files s, temps := temps s, next_temp := next_temp s, clock := clock s\<rparr>" by simp
  then show ?case by (intro exI conjI, assumption) auto
next
  case (Cons p ps)
  obtain fs ts n c where 1: "snd (undo_one flt pl p s) = s\<lparr>files := fs, temps := ts, next_temp := n, clock := c\<rparr>"
      "map_of fs = (fmap s)(p := map_option restore_of (original_at pl p))" "map_of ts = tmap s"
      "next_temp s \<le> n" "clock s \<le> c"
    using undo_one_effect [OF Cons.prems(1) Cons.prems(2) [OF order_refl] Cons.prems(3) [OF list.set_intros(1)]]
    unfolding Let_def by blast
  let ?s = "s\<lparr>files := fs, temps := ts, next_temp := n, clock := c\<rparr>"
  have "quiet_from flt (clock ?s)" using quiet_from_mono [OF Cons.prems(1)] 1(5) by simp
  moreover have "tmap ?s t = None" if "next_temp ?s \<le> t" for t
    using that Cons.prems(2) [of t] 1(3,4) by simp
  moreover have "parent_of q \<in> set (dirs ?s) \<and> q \<notin> set (dirs ?s)" if "q \<in> set ps" "original_at pl q \<noteq> None" for q
    using Cons.prems(3) [of q] that by simp
  ultimately obtain fs' ts' n' c' where 2: "fold (\<lambda>p. attempt (undo_one flt pl p)) ps ?s =
      ?s\<lparr>files := fs', temps := ts', next_temp := n', clock := c'\<rparr>"
      "map_of fs' = (\<lambda>p. if p \<in> set ps then map_option restore_of (original_at pl p) else fmap ?s p)"
      "map_of ts' = tmap ?s" "clock ?s \<le> c'"
    using Cons.IH [of ?s] by blast
  have "fold (\<lambda>p. attempt (undo_one flt pl p)) (p # ps) s =
      s\<lparr>files := fs', temps := ts', next_temp := n', clock := c'\<rparr>"
    using 1(1) 2(1) by (simp add: attempt_def)
  moreover have "map_of fs' = (\<lambda>q. if q \<in> set (p # ps) then map_option restore_of (original_at pl q) else fmap s q)"
    using 2(2) 1(2) by (auto simp: fun_eq_iff)
  moreover have "map_of ts' = tmap s" "clock s \<le> c'" using 2(3,4) 1(3,5) by simp_all
  ultimately show ?case by blast
qed

lemma cleanup_empty_dirs_effect:
  "\<exists>ds c. cleanup_empty_dirs flt ps s = s\<lparr>dirs := ds, clock := c\<rparr> \<and>
     set ds \<subseteq> set (dirs s) \<and> (\<forall>q. q \<in> set (dirs s) \<longrightarrow> q \<notin> set ps \<longrightarrow> q \<in> set ds)"
proof -
  have "\<exists>ds c. fold (\<lambda>p. attempt (fs_rmdir flt p)) qs s = s\<lparr>dirs := ds, clock := c\<rparr> \<and>
     set ds \<subseteq> set (dirs s) \<and> (\<forall>q. q \<in> set (dirs s) \<longrightarrow> q \<notin> set qs \<longrightarrow> q \<in> set ds)" for qs
  proof (induction qs arbitrary: s)
    case Nil
    have "fold (\<lambda>p. attempt (fs_rmdir flt p)) [] s = s\<lparr>dirs := dirs s, clock := clock s\<rparr>" by simp
    then show ?case by (intro exI conjI, assumption) auto
  next
    case (Cons p qs)
    obtain ds c where 1: "attempt (fs_rmdir flt p) s = s\<lparr>dirs := ds, clock := c\<rparr>"
        "set ds \<subseteq> set (dirs s)" "\<forall>q. q \<in> set (dirs s) \<longrightarrow> q \<noteq> p \<longrightarrow> q \<in> set ds"
    proof (cases "attempt (fs_rmdir flt p) s = s\<lparr>dirs := removeAll p (dirs s), clock := Suc (clock s)\<rparr>")
      case True
      then show ?thesis by (rule that) auto
    next
      case False
      then have "attempt (fs_rmdir flt p) s = s\<lparr>dirs := dirs s, clock := Suc (clock s)\<rparr>"
        by (auto simp: attempt_def fs_rmdir_def sys_def Let_def)
      then show ?thesis by (rule that) auto
    qed
    obtain ds' c' where "fold (\<lambda>p. attempt (fs_rmdir flt p)) qs (s\<lparr>dirs := ds, clock := c\<rparr>) =
        (s\<lparr>dirs := ds, clock := c\<rparr>)\<lparr>dirs := ds', clock := c'\<rparr>"
        "set ds' \<subseteq> set ds" "\<forall>q. q \<in> set ds \<longrightarrow> q \<notin> set qs \<longrightarrow> q \<in> set ds'"
      using Cons.IH [of "s\<lparr>dirs := ds, clock := c\<rparr>"] by auto
    then show ?case using 1 by (intro exI [where x = ds'], intro exI [where x = c']) auto
  qed
  from this [of "sort_key (\<lambda>p. - int (length (parts p))) ps"] show ?thesis
    unfolding cleanup_empty_dirs_def set_sort .
qed

lemma touched_changed: "wf_plan digest pl \<Longrightarrow> is_changed pl p \<Longrightarrow> p \<in> set (touched pl)"
proof (rule ccontr)
  assume wf: "wf_plan digest pl" and ch: "is_changed pl p" and no: "p \<notin> set (touched pl)"
  have "p \<notin> fst ` set (original pl)" "p \<notin> fst ` set (virtual pl)"
    using wf no unfolding wf_plan_def by (metis list.set_map)+
  then have "original_at pl p = None" "virtual_at pl p = None"
    by (auto simp: original_at_def virtual_at_def map_of_eq_None_iff split: option.splits)
      (metis map_of_eq_None_iff option.distinct(1))+
  then show False using ch by (simp add: is_changed_def)
qed

lemma rollback_restores:
  assumes wf: "wf_disk d" "wf_plan digest pl" and inv: "tx_inv d pl s"
    and planned: "applied s \<noteq> [] \<longrightarrow> as_planned d pl" and q: "quiet_from flt (clock s)"
  shows "fmap (rollback flt pl s) = fmap d \<and> tmap (rollback flt pl s) = tmap d \<and>
    set (dirs d) \<subseteq> set (dirs (rollback flt pl s))"
proof -
  note F = tx_inv_fields [OF inv]
  obtain us c where s1: "cleanup_paths flt (map snd (staged s)) s = s\<lparr>clock := c, temps := us\<rparr>"
      "map_of us = (\<lambda>t. if t \<in> snd ` set (staged s) then None else tmap s t)" "clock s \<le> c"
    using cleanup_paths_effect [OF q, of "map snd (staged s)"] by auto
  let ?s1 = "s\<lparr>clock := c, temps := us\<rparr>"
  have tm: "map_of us = tmap d"
  proof
    fix t
    show "map_of us t = tmap d t"
    proof (cases "t \<in> snd ` set (staged s)")
      case True
      then have "next_temp d \<le> t" using F(3) by auto
      then show ?thesis using True s1(2) wf(1) unfolding wf_disk_def by (metis not_less)
    qed (use s1(2) F(2) in simp)
  qed
  have orig: "fmap d p = map_option restore_of (original_at pl p)" if "p \<in> set (applied s)" for p
    using that planned touched_changed [OF wf(2) F(11) [OF that]] by (auto simp: as_planned_def)
  have place: "parent_of p \<in> set (dirs ?s1) \<and> p \<notin> set (dirs ?s1)"
    if "p \<in> set (rev (applied s))" "original_at pl p \<noteq> None" for p
  proof -
    have "fmap d p \<noteq> None" using orig [of p] that by auto
    then show ?thesis using F(8,9) wf(1) by (auto simp: wf_disk_def)
  qed
  have fresh: "tmap ?s1 t = None" if "next_temp ?s1 \<le> t" for t
  proof -
    have "\<not> t < next_temp d" using that F(7) by simp
    then have "tmap d t = None" using wf(1) unfolding wf_disk_def by blast
    then show ?thesis using tm by simp
  qed
  have quiet: "quiet_from flt (clock ?s1)" using quiet_from_mono [OF q s1(3)] by simp
  obtain fs ts n c2 where s2: "fold (\<lambda>p. attempt (undo_one flt pl p)) (rev (applied s)) ?s1 =
      ?s1\<lparr>files := fs, temps := ts, next_temp := n, clock := c2\<rparr>"
      "map_of fs = (\<lambda>p. if p \<in> set (rev (applied s)) then map_option restore_of (original_at pl p) else fmap ?s1 p)"
      "map_of ts = tmap ?s1"
    using undo_all_effect [of flt ?s1 "rev (applied s)" pl, OF quiet fresh place] by blast
  let ?s2 = "?s1\<lparr>files := fs, temps := ts, next_temp := n, clock := c2\<rparr>"
  have fm: "map_of fs = fmap d"
    using s2(2) F(1) orig by (auto simp: fun_eq_iff)
  obtain ds c3 where s3: "cleanup_empty_dirs flt (created_dirs s) ?s2 = ?s2\<lparr>dirs := ds, clock := c3\<rparr>"
      "\<forall>q. q \<in> set (dirs ?s2) \<longrightarrow> q \<notin> set (created_dirs s) \<longrightarrow> q \<in> set ds"
    using cleanup_empty_dirs_effect [of flt "created_dirs s" ?s2] by blast
  have "rollback flt pl s = ?s2\<lparr>dirs := ds, clock := c3\<rparr>"
    using s1(1) s2(1) s3(1) by (simp add: rollback_def Let_def)
  moreover have "set (dirs d) \<subseteq> set ds" using s3(2) F(8,13) by auto
  ultimately show ?thesis using fm tm s2(3) by simp
qed

section \<open>Properties of the commit\<close>

lemma truncate_simps [simp]:
  "files (disk.truncate s) = files s" "temps (disk.truncate s) = temps s" "dirs (disk.truncate s) = dirs s"
  "clock (disk.truncate s) = clock s" "next_temp (disk.truncate s) = next_temp s"
  by (simp_all add: disk.defs)

text \<open>
  C2. All or nothing, the failure half: when any step of the commit fails (a full disk, a conflict,
  a name taken by a directory), and the calls of the rollback itself work, every file has the
  content and mode it had before, no temporary file is left, and no directory is lost.
\<close>

theorem commit_failure_restores:
  assumes "wf_disk d" "wf_plan digest pl" "inj digest" "isolated flt"
    and "commit_body flt digest pl (begin_tx d) = (Inl e, s)" and "quiet_from flt (clock s)"
  shows "\<exists>d'. commit flt digest pl d = (Inl e, d') \<and> fmap d' = fmap d \<and> tmap d' = tmap d \<and>
    set (dirs d) \<subseteq> set (dirs d')"
proof -
  have "commit flt digest pl d = (Inl e, disk.truncate (rollback flt pl s))"
    using assms(5) by (simp add: commit_def)
  moreover have "tx_inv d pl s" "applied s \<noteq> [] \<longrightarrow> as_planned d pl"
    using commit_body_outcome [OF assms(1-5)] by auto
  ultimately show ?thesis
    using rollback_restores [OF assms(1,2) _ _ assms(6)] by simp
qed

text \<open>
  All or nothing, the success half: a commit that returns found every observed path unchanged
  since the planning, has installed the planned state of every touched path, changed no other file
  and left no temporary file.
\<close>

lemma commit_success_installs:
  assumes "wf_disk d" "wf_plan digest pl" "inj digest" "isolated flt"
    and "commit flt digest pl d = (Inr u, d')"
  shows "as_planned d pl \<and> tmap d' = tmap d \<and>
    fmap d' = (\<lambda>p. if p \<in> set (touched pl) then virtual_at pl p else fmap d p)"
proof -
  obtain r s where run: "commit_body flt digest pl (begin_tx d) = (r, s)"
    by (cases "commit_body flt digest pl (begin_tx d)")
  then have ok: "r = Inr ()" "d' = disk.truncate s" using assms(5) by (auto simp: commit_def split: sum.splits)
  note out = commit_body_outcome [OF assms(1-4) run]
  have inv: "tx_inv d pl s" using out by blast
  have "fmap s p = fmap d p" if "p \<notin> set (touched pl)" for p
    using that touched_changed [OF assms(2)] tx_inv_fields(11) [OF inv, of p] tx_inv_fields(1) [OF inv, of p] by auto
  then have "fmap s = (\<lambda>p. if p \<in> set (touched pl) then virtual_at pl p else fmap d p)"
    using out ok(1) by (auto simp: fun_eq_iff)
  then show ?thesis using out ok tx_inv_temps_done [OF inv assms(1)] by simp
qed

section \<open>The abstract specification of an envelope\<close>

text \<open>
  What the tool promises: the sections run one after the other on a map from paths to files, and
  either all of them apply or none does.
\<close>

type_synonym file_map = "purepath \<Rightarrow> virtual_file option"

definition spec_path :: "os \<Rightarrow> settings \<Rightarrow> config \<Rightarrow> string \<Rightarrow> commit_error + (purepath \<times> config)" where
  "spec_path env st cfg s = (case validate_path env st cfg s of Inl e \<Rightarrow> Inl (BadPath e) | Inr r \<Rightarrow> Inr r)"

definition spec_target :: "os \<Rightarrow> settings \<Rightarrow> config \<Rightarrow> string option \<Rightarrow> commit_error + (purepath option \<times> config)" where
  "spec_target env st cfg mv =
     (if mv = None \<or> mv = Some [] then Inr (None, cfg)
      else bind_err (spec_path env st cfg (the mv)) (\<lambda>(p, cfg). Inr (Some p, cfg)))"

definition spec_update :: "file_patch \<Rightarrow> purepath \<Rightarrow> purepath option \<Rightarrow> virtual_file \<Rightarrow> file_map \<Rightarrow> commit_error + file_map" where
  "spec_update patch p target f fs =
     bind_err (patched patch f) (\<lambda>(updated, _).
       let t = (case target of None \<Rightarrow> p | Some t \<Rightarrow> t) in
       if t = p then
         (if target \<noteq> None \<and> vf_content updated = vf_content f then Inl (SamePathMove (fp_path patch))
          else Inr (fs(p \<mapsto> updated)))
       else if fs t \<noteq> None then Inl (DestinationExists t)
       else Inr (fs(p := None, t \<mapsto> updated)))"

definition spec_step :: "os \<Rightarrow> settings \<Rightarrow> file_map \<times> config \<Rightarrow> file_patch \<Rightarrow> commit_error + (file_map \<times> config)" where
  "spec_step env st = (\<lambda>(fs, cfg) patch.
     bind_err (spec_path env st cfg (fp_path patch)) (\<lambda>(p, cfg).
     bind_err (spec_target env st cfg (fp_move_to patch)) (\<lambda>(target, cfg).
       case (fp_kind patch, fs p) of
         (Add, None) \<Rightarrow> Inr (fs(p \<mapsto> \<lparr>vf_content = Utf8 (lines_to_text (fp_contents patch)),
                                     vf_mode = DEFAULT_FILE_MODE\<rparr>), cfg)
       | (Add, Some _) \<Rightarrow> Inl (FileExists p)
       | (_, None) \<Rightarrow> Inl (FileNotFound p)
       | (Delete, Some _) \<Rightarrow> Inr (fs(p := None), cfg)
       | (Update, Some f) \<Rightarrow> bind_err (spec_update patch p target f fs) (\<lambda>fs. Inr (fs, cfg)))))"

definition overlay :: "plan \<Rightarrow> 'z disk_scheme \<Rightarrow> file_map" where
  "overlay pl d p = (case map_of (virtual pl) p of Some v \<Rightarrow> v | None \<Rightarrow> fmap d p)"

definition disk_abort :: "commit_error \<Rightarrow> bool" where
  "disk_abort e \<longleftrightarrow> e = OsFailure \<or> (\<exists>p. e = IsADirectory p)"

definition plan_rel :: "(bytes \<Rightarrow> nat list) \<Rightarrow> disk \<Rightarrow> plan \<times> disk \<Rightarrow> file_map \<times> config \<Rightarrow> bool" where
  "plan_rel digest d = (\<lambda>(pl, d1) (fs, cfg).
     d1\<lparr>clock := 0\<rparr> = d\<lparr>clock := 0\<rparr> \<and> fs = overlay pl d \<and> cfg = guard pl \<and> wf_plan digest pl \<and> as_planned d pl)"

lemma same_but_clock:
  "d1\<lparr>clock := 0\<rparr> = d\<lparr>clock := 0\<rparr> \<longleftrightarrow>
     files d1 = files d \<and> dirs d1 = dirs d \<and> temps d1 = temps d \<and> next_temp d1 = next_temp (d :: disk)"
  by (cases d; cases d1) auto

lemma snapshot_effect:
  assumes "snapshot flt digest p d1 = (r, d2)" and "d1\<lparr>clock := 0\<rparr> = (d :: disk)\<lparr>clock := 0\<rparr>"
  shows "d2\<lparr>clock := 0\<rparr> = d\<lparr>clock := 0\<rparr> \<and>
    (case r of Inl e \<Rightarrow> disk_abort e
     | Inr sn \<Rightarrow> fmap d p = map_option restore_of sn \<and> (sn = None \<longrightarrow> p \<notin> set (dirs d)) \<and> (\<forall>n. sn = Some n \<longrightarrow> sn_digest n = digest (sn_content n)))"
  using assms
  by (auto simp: snapshot_def sys_def Let_def same_but_clock path_exists_def disk_abort_def restore_of_def
      split: if_splits option.splits)

lemma load_effect:
  assumes rel: "plan_rel digest d (pl, d1) (fs, cfg)"
  shows "case load flt digest p (pl, d1) of
      Inl e \<Rightarrow> disk_abort e
    | Inr (v, pl', d2) \<Rightarrow> v = fs p \<and> plan_rel digest d (pl', d2) (fs, cfg) \<and> p \<in> set (touched pl')"
proof (cases "map_of (virtual pl) p")
  case (Some v)
  moreover have "p \<in> set (touched pl)"
    using rel map_of_SomeD [OF Some] by (force simp: plan_rel_def wf_plan_def)
  ultimately show ?thesis using rel by (simp add: load_def plan_rel_def overlay_def)
next
  case None
  obtain r d2 where 1: "snapshot flt digest p d1 = (r, d2)" by (cases "snapshot flt digest p d1")
  note eff = snapshot_effect [OF 1, of d]
  have rel': "d1\<lparr>clock := 0\<rparr> = d\<lparr>clock := 0\<rparr>" "fs = overlay pl d" "cfg = guard pl" "wf_plan digest pl" "as_planned d pl"
    using rel by (auto simp: plan_rel_def)
  have new: "p \<notin> set (touched pl)" "p \<notin> fst ` set (original pl)"
    using None rel'(4) unfolding wf_plan_def by (metis map_of_eq_None_iff list.set_map)+
  show ?thesis
  proof (cases r)
    case (Inl e)
    then show ?thesis using None 1 eff rel'(1) by (simp add: load_def)
  next
    case (Inr sn)
    let ?v = "map_option restore_of sn"
    let ?pl = "pl\<lparr>original := AList.update p sn (original pl), virtual := AList.update p ?v (virtual pl),
                 touched := touched pl @ [p]\<rparr>"
    have fm: "fmap d p = ?v" "\<forall>n. sn = Some n \<longrightarrow> sn_digest n = digest (sn_content n)"
        "sn = None \<longrightarrow> p \<notin> set (dirs d)"
      using eff rel'(1) Inr by auto
    have "overlay ?pl d = overlay pl d"
      using None fm(1) by (auto simp: overlay_def update_conv' fun_eq_iff)
    moreover have "wf_plan digest ?pl"
      using rel'(4) new fm(2) by (auto simp: wf_plan_def update_fresh dom_update split: option.split)
    moreover have "as_planned d ?pl"
      using rel'(5) fm(1,3) new by (auto simp: as_planned_def original_at_def update_conv')
    moreover have "load flt digest p (pl, d1) = Inr (?v, ?pl, d2)"
      using None 1 Inr by (simp add: load_def Let_def)
    moreover have "fs p = ?v" using rel'(2) None fm(1) by (simp add: overlay_def)
    ultimately show ?thesis using eff rel' by (simp add: plan_rel_def)
  qed
qed

lemma plan_rel_guard: "plan_rel digest d (pl, d1) (fs, cfg) \<Longrightarrow> plan_rel digest d (pl\<lparr>guard := c\<rparr>, d1) (fs, c)"
  by (auto simp: plan_rel_def overlay_def wf_plan_def as_planned_def original_at_def)

lemma plan_rel_note [simp]: "plan_rel digest d (note_hunks s h pl, d1) a = plan_rel digest d (pl, d1) a"
  by (auto simp: plan_rel_def note_hunks_def overlay_def wf_plan_def as_planned_def original_at_def fun_eq_iff
      split: prod.splits)

lemma plan_rel_set:
  "plan_rel digest d (pl, d1) (fs, cfg) \<Longrightarrow> p \<in> set (touched pl) \<Longrightarrow>
     plan_rel digest d (set_virtual p v pl, d1) (fs(p := v), cfg)"
  by (auto simp: plan_rel_def set_virtual_def overlay_def wf_plan_def as_planned_def original_at_def
      update_conv' dom_update fun_eq_iff)

lemma touched_set_virtual [simp]: "touched (set_virtual p v pl) = touched pl"
  by (simp add: set_virtual_def)

lemma plan_update_sim:
  assumes rel: "plan_rel digest d (pl, d1) (fs, cfg)" and p: "p \<in> set (touched pl)"
  shows "case plan_update flt digest patch p target f (pl, d1) of
      Inl e \<Rightarrow> disk_abort e \<or> spec_update patch p target f fs = Inl e
    | Inr s' \<Rightarrow> \<exists>fs'. spec_update patch p target f fs = Inr fs' \<and> plan_rel digest d s' (fs', cfg)"
proof (cases "patched patch f")
  case (Inl e)
  then show ?thesis by (simp add: plan_update_def spec_update_def)
next
  case (Inr u)
  then obtain updated hunks where u: "patched patch f = Inr (updated, hunks)" by (cases u) auto
  show ?thesis
  proof (cases "\<exists>t. target = Some t \<and> t \<noteq> p")
    case False
    then show ?thesis
      using u plan_rel_set [OF rel p, of "Some updated"]
      by (auto simp: plan_update_def spec_update_def split: option.splits)
  next
    case True
    then obtain t where t: "target = Some t" "t \<noteq> p" by blast
    note ld = load_effect [OF rel, where p = t and flt = flt]
    show ?thesis
    proof (cases "load flt digest t (pl, d1)")
      case (Inl e)
      then show ?thesis using ld u t by (simp add: plan_update_def)
    next
      case (Inr l)
      then obtain v pl2 d2 where l: "load flt digest t (pl, d1) = Inr (v, pl2, d2)" by (cases l) auto
      have l2: "v = fs t" "plan_rel digest d (pl2, d2) (fs, cfg)" "t \<in> set (touched pl2)" using ld l by auto
      have "p \<in> set (touched pl2)"
        using l p by (auto simp: load_def Let_def split: option.splits sum.splits prod.splits)
      then have "plan_rel digest d (set_virtual t (Some updated) (set_virtual p None pl2), d2) (fs(p := None, t \<mapsto> updated), cfg)"
        using l2 by (intro plan_rel_set) simp_all
      then show ?thesis using u t l l2 by (auto simp: plan_update_def spec_update_def Let_def)
    qed
  qed
qed

lemma validated_spec:
  "validated env st s pl = map_sum id (\<lambda>(p, c). (p, pl\<lparr>guard := c\<rparr>)) (spec_path env st (guard pl) s)"
  by (auto simp: validated_def spec_path_def split: sum.splits)

lemma validated_target_spec:
  "validated_target env st mv pl = map_sum id (\<lambda>(t, c). (t, pl\<lparr>guard := c\<rparr>)) (spec_target env st (guard pl) mv)"
  by (auto simp: validated_target_def spec_target_def validated_spec bind_err_def split: option.splits sum.splits)

lemma plan_step_sim:
  assumes rel: "plan_rel digest d (pl, d1) (fs, cfg)"
  shows "case plan_step flt digest env st (pl, d1) patch of
      Inl e \<Rightarrow> disk_abort e \<or> spec_step env st (fs, cfg) patch = Inl e
    | Inr s' \<Rightarrow> \<exists>a'. spec_step env st (fs, cfg) patch = Inr a' \<and> plan_rel digest d s' a'"
proof -
  have g: "guard pl = cfg" using rel by (simp add: plan_rel_def)
  show ?thesis
  proof (cases "spec_path env st cfg (fp_path patch)")
    case (Inl e)
    then show ?thesis by (simp add: plan_step_def spec_step_def validated_spec g)
  next
    case (Inr r)
    then obtain p c1 where p: "spec_path env st cfg (fp_path patch) = Inr (p, c1)" by (cases r) auto
    show ?thesis
    proof (cases "spec_target env st c1 (fp_move_to patch)")
      case (Inl e)
      then show ?thesis by (simp add: plan_step_def spec_step_def validated_spec validated_target_spec g p)
    next
      case (Inr r)
      then obtain t c2 where t: "spec_target env st c1 (fp_move_to patch) = Inr (t, c2)" by (cases r) auto
      let ?pl = "pl\<lparr>guard := c2\<rparr>"
      have rel2: "plan_rel digest d (?pl, d1) (fs, c2)" by (rule plan_rel_guard [OF rel])
      note ld = load_effect [OF rel2, where p = p and flt = flt]
      show ?thesis
      proof (cases "load flt digest p (?pl, d1)")
        case (Inl e)
        then show ?thesis
          using ld by (simp add: plan_step_def validated_spec validated_target_spec g p t)
      next
        case (Inr l)
        then obtain v pl3 d3 where l: "load flt digest p (?pl, d1) = Inr (v, pl3, d3)" by (cases l) auto
        have l3: "v = fs p" "plan_rel digest d (pl3, d3) (fs, c2)" "p \<in> set (touched pl3)" using ld l by auto
        note upd = plan_update_sim [OF l3(2,3), where flt = flt and patch = patch and target = t]
        show ?thesis
          using upd plan_rel_set [OF l3(2,3)] l3(1)
          by (cases "fp_kind patch"; cases "fs p")
            (force simp: plan_step_def spec_step_def validated_spec validated_target_spec g p t l
              split: sum.splits)+
      qed
    qed
  qed
qed

interpretation planning: loop_refinement "plan_rel digest d" "plan_step flt digest env st" "spec_step env st" disk_abort
  for digest d flt env st
proof
  fix s a x s' assume "plan_rel digest d s a" "plan_step flt digest env st s x = Inr s'"
  then show "\<exists>a'. spec_step env st a x = Inr a' \<and> plan_rel digest d s' a'"
    using plan_step_sim [of digest d "fst s" "snd s" "fst a" "snd a", where flt = flt and env = env and st = st and patch = x]
    by simp
next
  fix s a x e assume "plan_rel digest d s a" "plan_step flt digest env st s x = Inl e"
  then show "disk_abort e \<or> spec_step env st a x = Inl e"
    using plan_step_sim [of digest d "fst s" "snd s" "fst a" "snd a", where flt = flt and env = env and st = st and patch = x]
    by simp
qed

lemma plan_rel_empty: "plan_rel digest d (empty_plan cfg, d) (fmap d, cfg)"
  by (auto simp: plan_rel_def empty_plan_def overlay_def wf_plan_def as_planned_def fun_eq_iff)

lemma make_plan_sim:
  assumes "make_plan flt digest env st cfg text d = Inr (pl, d1)"
  shows "\<exists>patches fs. parse_patch text = Inr patches \<and> fold_err (spec_step env st) (fmap d, cfg) patches = Inr (fs, guard pl) \<and>
    plan_rel digest d (pl, d1) (fs, guard pl)"
proof -
  obtain patches where ps: "parse_patch text = Inr patches"
      "fold_err (plan_step flt digest env st) (empty_plan cfg, d) patches = Inr (pl, d1)"
    using assms by (auto simp: make_plan_def split: sum.splits)
  obtain a where a: "fold_err (spec_step env st) (fmap d, cfg) patches = Inr a" "plan_rel digest d (pl, d1) a"
    using planning.loop_ok [OF plan_rel_empty ps(2)] by blast
  obtain fs where "a = (fs, guard pl)" using a(2) by (cases a) (auto simp: plan_rel_def)
  then show ?thesis using a ps(1) by blast
qed

text \<open>
  C21. The planning refines the specification: the plan's file table, laid over the disk, is what the
  sections give when they run one after the other on the map of files, with the same errors; only
  a directory in the place of a file and a failing read are errors the specification does not have.
\<close>

theorem make_plan_refines:
  "case make_plan flt digest env st cfg text d of
     Inr (pl, d1) \<Rightarrow> (\<exists>patches cfg'. parse_patch text = Inr patches \<and>
        fold_err (spec_step env st) (fmap d, cfg) patches = Inr (overlay pl d, cfg')) \<and>
        d1\<lparr>clock := 0\<rparr> = d\<lparr>clock := 0\<rparr>
   | Inl e \<Rightarrow> disk_abort e \<or> (\<exists>pe. parse_patch text = Inl pe \<and> e = Syntax pe) \<or>
        (\<exists>patches. parse_patch text = Inr patches \<and> fold_err (spec_step env st) (fmap d, cfg) patches = Inl e)"
proof (cases "make_plan flt digest env st cfg text d")
  case (Inl e)
  then show ?thesis
    using planning.loop_err [OF plan_rel_empty, where flt = flt and e = e]
    by (fastforce simp: make_plan_def split: sum.splits)
next
  case (Inr r)
  then show ?thesis using make_plan_sim [of flt digest env st cfg "text" d "fst r" "snd r"]
    by (fastforce simp: plan_rel_def)
qed

lemma wf_disk_clock: "d1\<lparr>clock := 0\<rparr> = (d :: disk)\<lparr>clock := 0\<rparr> \<Longrightarrow> wf_disk d \<Longrightarrow> wf_disk d1"
  by (auto simp: same_but_clock wf_disk_def)

end
