(* ===== verification/PatchLocks.thy ===== *)
theory PatchLocks
  imports PatchCommit "HOL-Library.List_Lexorder" "HOL-Library.Char_ord"
begin

text \<open>
  The path locks of the patch tool (\<open>_checkout_lock\<close>, \<open>_checkin_lock\<close>, \<open>_acquire_all\<close>,
  \<open>_patch_file\<close>): a reference-counted table of locks, acquired in sorted order. The coroutines of
  one event loop interleave only where they wait, so that a step of the relation below is what runs
  between two waits: checking all locks out, acquiring one free lock, starting the worker thread,
  and the two clean-ups (locks released, then entries checked in), at the normal end, when a
  waiting coroutine is cancelled, and when one is cancelled while its worker thread runs. The
  order in which a lock serves its waiters is left open.
\<close>

section \<open>The lock table\<close>

datatype 'p task =
    Idle
  | Acquiring "'p list" "nat list" nat \<comment> \<open>paths, locks, how many are held\<close>
  | Running "'p list" "nat list"
  | Ended

record 'p lock_state =
  path_locks :: "'p \<Rightarrow> nat option"
  path_lock_refs :: "'p \<Rightarrow> int option"
  lock_owner :: "nat \<Rightarrow> nat option"
  next_lock :: nat
  tasks :: "nat \<Rightarrow> 'p task"
  workers :: "(nat \<times> 'p list) list" \<comment> \<open>worker threads inside \<open>_apply_patch\<close>\<close>

definition ref_count :: "'p lock_state \<Rightarrow> 'p \<Rightarrow> int" where
  "ref_count s p = (case path_lock_refs s p of None \<Rightarrow> 0 | Some n \<Rightarrow> n)"

definition checkout_lock :: "'p \<Rightarrow> 'p lock_state \<Rightarrow> nat \<times> 'p lock_state" where
  "checkout_lock p s =
     (let s = s\<lparr>path_lock_refs := (path_lock_refs s)(p \<mapsto> ref_count s p + 1)\<rparr> in
      case path_locks s p of
        Some l \<Rightarrow> (l, s)
      | None \<Rightarrow> (next_lock s, s\<lparr>path_locks := (path_locks s)(p \<mapsto> next_lock s), next_lock := next_lock s + 1\<rparr>))"

fun checkout_all :: "'p list \<Rightarrow> 'p lock_state \<Rightarrow> nat list \<times> 'p lock_state" where
  "checkout_all [] s = ([], s)"
| "checkout_all (p # ps) s =
     (let (l, s) = checkout_lock p s; (ls, s) = checkout_all ps s in (l # ls, s))"

definition checkin_lock :: "'p \<Rightarrow> 'p lock_state \<Rightarrow> 'p lock_state" where
  "checkin_lock p s =
     (let remaining = ref_count s p - 1 in
      if remaining \<le> 0
      then s\<lparr>path_lock_refs := (path_lock_refs s)(p := None), path_locks := (path_locks s)(p := None)\<rparr>
      else s\<lparr>path_lock_refs := (path_lock_refs s)(p \<mapsto> remaining)\<rparr>)"

definition release_locks :: "nat list \<Rightarrow> 'p lock_state \<Rightarrow> 'p lock_state" where
  "release_locks ls s = s\<lparr>lock_owner := fold (\<lambda>l f. f(l := None)) (rev ls) (lock_owner s)\<rparr>"

text \<open>The two \<open>finally\<close> blocks of \<open>_patch_file\<close>: release what is held, then check every path in.\<close>

definition leave :: "nat \<Rightarrow> 'p list \<Rightarrow> nat list \<Rightarrow> 'p lock_state \<Rightarrow> 'p lock_state" where
  "leave t ps held s =
     (let s = fold checkin_lock ps (release_locks held s) in s\<lparr>tasks := (tasks s)(t := Ended)\<rparr>)"

text \<open>\<open>sorted(set(paths))\<close> of the validated paths; \<open>pathlib\<close> orders paths by the parts of their text.\<close>

definition path_key :: "purepath \<Rightarrow> string list" where
  "path_key p = split_on (CHR ''/'') (path_str p)"

definition patch_paths :: "os \<Rightarrow> settings \<Rightarrow> config \<Rightarrow> string \<Rightarrow> commit_error + string list list" where
  "patch_paths env st cfg patch_text =
     (case parse_patch patch_text of
        Inl e \<Rightarrow> Inl (Syntax e)
      | Inr patches \<Rightarrow>
          bind_err (fold_err (\<lambda>(ps, cfg) s.
                 (case validate_path env st cfg s of Inl e \<Rightarrow> Inl (BadPath e) | Inr (p, cfg) \<Rightarrow> Inr (ps @ [path_key p], cfg)))
               ([], cfg)
               (concat (map (\<lambda>patch. fp_path patch # (case fp_move_to patch of None \<Rightarrow> [] | Some m \<Rightarrow> [m])) patches)))
            (\<lambda>(ps, cfg). Inr (sort (remdups ps))))"

section \<open>Interleaving\<close>

datatype lock_event = Start | Acquire | Enter | Finish | CancelWaiting | CancelRunning | WorkerEnds

inductive lock_step :: "lock_event \<Rightarrow> ('p :: linorder) lock_state \<Rightarrow> 'p lock_state \<Rightarrow> bool" where
  start: "tasks s t = Idle \<Longrightarrow> sorted ps \<Longrightarrow> distinct ps \<Longrightarrow> checkout_all ps s = (ls, s') \<Longrightarrow>
    lock_step Start s (s'\<lparr>tasks := (tasks s')(t := Acquiring ps ls 0)\<rparr>)"
| acquire: "tasks s t = Acquiring ps ls k \<Longrightarrow> k < length ls \<Longrightarrow> lock_owner s (ls ! k) = None \<Longrightarrow>
    lock_step Acquire s (s\<lparr>lock_owner := (lock_owner s)(ls ! k \<mapsto> t), tasks := (tasks s)(t := Acquiring ps ls (Suc k))\<rparr>)"
| enter: "tasks s t = Acquiring ps ls k \<Longrightarrow> length ls \<le> k \<Longrightarrow>
    lock_step Enter s (s\<lparr>tasks := (tasks s)(t := Running ps ls), workers := (t, ps) # workers s\<rparr>)"
| finish: "tasks s t = Running ps ls \<Longrightarrow>
    lock_step Finish s (leave t ps ls (s\<lparr>workers := remove1 (t, ps) (workers s)\<rparr>))"
| cancel_waiting: "tasks s t = Acquiring ps ls k \<Longrightarrow>
    lock_step CancelWaiting s (leave t ps (take k ls) s)"
| cancel_running: "tasks s t = Running ps ls \<Longrightarrow>
    lock_step CancelRunning s (leave t ps ls s)"
| worker_ends: "tasks s t = Ended \<Longrightarrow> (t, ps) \<in> set (workers s) \<Longrightarrow>
    lock_step WorkerEnds s (s\<lparr>workers := remove1 (t, ps) (workers s)\<rparr>)"

inductive_cases lock_stepE: "lock_step e s s'"

definition no_locks :: "'p lock_state" where
  "no_locks = \<lparr>path_locks = (\<lambda>_. None), path_lock_refs = (\<lambda>_. None), lock_owner = (\<lambda>_. None),
     next_lock = 0, tasks = (\<lambda>_. Idle), workers = []\<rparr>"

text \<open>Runs whose events all satisfy \<open>P\<close>.\<close>

inductive lock_reach :: "(lock_event \<Rightarrow> bool) \<Rightarrow> ('p :: linorder) lock_state \<Rightarrow> bool" for P where
  init: "lock_reach P no_locks"
| step: "lock_reach P s \<Longrightarrow> P e \<Longrightarrow> lock_step e s s' \<Longrightarrow> lock_reach P s'"

definition lock_move :: "(lock_event \<Rightarrow> bool) \<Rightarrow> ('p :: linorder) lock_state \<Rightarrow> 'p lock_state \<Rightarrow> bool" where
  "lock_move P s s' \<longleftrightarrow> (\<exists>e. P e \<and> lock_step e s s')"

lemma lock_reach_run: "lock_reach P s \<Longrightarrow> (lock_move P)\<^sup>*\<^sup>* no_locks s"
  by (induction rule: lock_reach.induct) (auto simp: lock_move_def intro: rtranclp.rtrancl_into_rtrancl)

section \<open>Invariant\<close>

fun task_paths :: "'p task \<Rightarrow> 'p list" where
  "task_paths (Acquiring ps ls k) = ps"
| "task_paths (Running ps ls) = ps"
| "task_paths _ = []"

fun task_locks :: "'p task \<Rightarrow> nat list" where
  "task_locks (Acquiring ps ls k) = ls"
| "task_locks (Running ps ls) = ls"
| "task_locks _ = []"

fun held_locks :: "'p task \<Rightarrow> nat list" where
  "held_locks (Acquiring ps ls k) = take k ls"
| "held_locks (Running ps ls) = ls"
| "held_locks _ = []"

definition users :: "'p lock_state \<Rightarrow> 'p \<Rightarrow> nat set" where
  "users s p = {t. p \<in> set (task_paths (tasks s t))}"

definition lock_inv :: "('p :: linorder) lock_state \<Rightarrow> bool" where
  "lock_inv s \<longleftrightarrow>
     finite {t. tasks s t \<noteq> Idle} \<and>
     (\<forall>t. sorted (task_paths (tasks s t)) \<and> distinct (task_paths (tasks s t)) \<and>
          map (path_locks s) (task_paths (tasks s t)) = map Some (task_locks (tasks s t))) \<and>
     (\<forall>p. path_lock_refs s p = (if users s p = {} then None else Some (int (card (users s p))))) \<and>
     (\<forall>p. path_locks s p = None \<longleftrightarrow> users s p = {}) \<and>
     (\<forall>p l. path_locks s p = Some l \<longrightarrow> l < next_lock s) \<and>
     (\<forall>p q l. path_locks s p = Some l \<longrightarrow> path_locks s q = Some l \<longrightarrow> p = q) \<and>
     (\<forall>l t. lock_owner s l = Some t \<longleftrightarrow> l \<in> set (held_locks (tasks s t)))"


lemma checkout_all_effect:
  assumes "checkout_all ps s = (ls, s')" "distinct ps"
    and "\<forall>p l. path_locks s p = Some l \<longrightarrow> l < next_lock s"
    and "\<forall>p q l. path_locks s p = Some l \<longrightarrow> path_locks s q = Some l \<longrightarrow> p = q"
  shows "tasks s' = tasks s \<and> lock_owner s' = lock_owner s \<and> workers s' = workers s \<and> next_lock s \<le> next_lock s' \<and>
    (\<forall>p. path_lock_refs s' p = (if p \<in> set ps then Some (ref_count s p + 1) else path_lock_refs s p)) \<and>
    (\<forall>p l. path_locks s p = Some l \<longrightarrow> path_locks s' p = Some l) \<and>
    (\<forall>p. p \<notin> set ps \<longrightarrow> path_locks s' p = path_locks s p) \<and>
    map (path_locks s') ps = map Some ls \<and>
    (\<forall>p l. path_locks s' p = Some l \<longrightarrow> path_locks s p = None \<longrightarrow> next_lock s \<le> l) \<and>
    (\<forall>p l. path_locks s' p = Some l \<longrightarrow> l < next_lock s') \<and>
    (\<forall>p q l. path_locks s' p = Some l \<longrightarrow> path_locks s' q = Some l \<longrightarrow> p = q)"
  using assms
proof (induction ps arbitrary: s ls)
  case Nil
  then show ?case by auto
next
  case (Cons p ps)
  obtain l s1 where 1: "checkout_lock p s = (l, s1)" by (cases "checkout_lock p s")
  then obtain ls2 where 2: "checkout_all ps s1 = (ls2, s')" "ls = l # ls2"
    using Cons.prems(1) by (auto split: prod.splits)
  have s1: "tasks s1 = tasks s" "lock_owner s1 = lock_owner s" "workers s1 = workers s" "next_lock s \<le> next_lock s1"
      "path_lock_refs s1 = (path_lock_refs s)(p \<mapsto> ref_count s p + 1)" "path_locks s1 p = Some l"
      "\<And>q. q \<noteq> p \<Longrightarrow> path_locks s1 q = path_locks s q" "\<And>k. path_locks s p = Some k \<Longrightarrow> k = l"
      "path_locks s p = None \<Longrightarrow> l = next_lock s \<and> next_lock s1 = Suc l"
    using 1 by (auto simp: checkout_lock_def Let_def split: option.splits)
  have b1: "\<forall>q k. path_locks s1 q = Some k \<longrightarrow> k < next_lock s1"
    using Cons.prems(3) s1 by (metis dual_order.strict_trans1 lessI option.exhaust option.inject)
  have i1: "\<forall>q r k. path_locks s1 q = Some k \<longrightarrow> path_locks s1 r = Some k \<longrightarrow> q = r"
  proof (intro allI impI)
    fix q r k assume qr: "path_locks s1 q = Some k" "path_locks s1 r = Some k"
    show "q = r"
    proof (cases "path_locks s p")
      case None
      then show ?thesis using qr s1(6,7,9) Cons.prems(3,4) by (metis less_irrefl option.inject)
    next
      case (Some k')
      then show ?thesis using qr s1(6,7,8) Cons.prems(4) by (metis option.inject)
    qed
  qed
  have "distinct ps" "p \<notin> set ps" using Cons.prems(2) by auto
  from Cons.IH [OF 2(1) this(1) b1 i1] have IH:
    "tasks s' = tasks s1" "lock_owner s' = lock_owner s1" "workers s' = workers s1" "next_lock s1 \<le> next_lock s'"
    "\<And>q. path_lock_refs s' q = (if q \<in> set ps then Some (ref_count s1 q + 1) else path_lock_refs s1 q)"
    "\<And>q k. path_locks s1 q = Some k \<Longrightarrow> path_locks s' q = Some k"
    "\<And>q. q \<notin> set ps \<Longrightarrow> path_locks s' q = path_locks s1 q" "map (path_locks s') ps = map Some ls2"
    "\<And>q k. path_locks s' q = Some k \<Longrightarrow> path_locks s1 q = None \<Longrightarrow> next_lock s1 \<le> k"
    "\<forall>q k. path_locks s' q = Some k \<longrightarrow> k < next_lock s'"
    "\<forall>q r k. path_locks s' q = Some k \<longrightarrow> path_locks s' r = Some k \<longrightarrow> q = r" by blast+
  have A: "path_lock_refs s' q = (if q \<in> set (p # ps) then Some (ref_count s q + 1) else path_lock_refs s q)" for q
    using IH(5) [of q] s1(5) \<open>p \<notin> set ps\<close> by (auto simp: ref_count_def)
  have B: "path_locks s' q = Some k" if "path_locks s q = Some k" for q k
    using that IH(6) s1(6,7,8) by (cases "q = p") auto
  have C: "path_locks s' q = path_locks s q" if "q \<notin> set (p # ps)" for q
    using that IH(7) s1(7) by auto
  have D: "map (path_locks s') (p # ps) = map Some ls" using IH(6) [OF s1(6)] IH(8) 2(2) by simp
  have E: "next_lock s \<le> k" if "path_locks s' q = Some k" "path_locks s q = None" for q k
  proof (cases "q = p")
    case True
    then show ?thesis using that s1(6,9) IH(6) by fastforce
  next
    case False
    then show ?thesis using that s1(4,7) IH(9) by (metis le_trans)
  qed
  show ?case
    using A B C D E IH(10,11) by (intro conjI) (simp_all only: IH(1-3) s1(1-3) le_trans [OF s1(4) IH(4)], blast+)
qed

lemma checkin_all_effect:
  "distinct ps \<Longrightarrow> s' = fold checkin_lock ps s \<Longrightarrow>
     tasks s' = tasks s \<and> lock_owner s' = lock_owner s \<and> workers s' = workers s \<and> next_lock s' = next_lock s \<and>
     (\<forall>p. path_lock_refs s' p =
        (if p \<in> set ps then (if ref_count s p \<le> 1 then None else Some (ref_count s p - 1)) else path_lock_refs s p)) \<and>
     (\<forall>p. path_locks s' p = (if p \<in> set ps \<and> ref_count s p \<le> 1 then None else path_locks s p))"
proof (induction ps arbitrary: s s')
  case (Cons p ps)
  let ?s = "checkin_lock p s"
  have 1: "tasks ?s = tasks s" "lock_owner ?s = lock_owner s" "workers ?s = workers s" "next_lock ?s = next_lock s"
    "path_lock_refs ?s = (path_lock_refs s)(p := (if ref_count s p \<le> 1 then None else Some (ref_count s p - 1)))"
    "path_locks ?s = (if ref_count s p \<le> 1 then (path_locks s)(p := None) else path_locks s)"
    by (auto simp: checkin_lock_def Let_def)
  have rc: "ref_count ?s q = ref_count s q" if "q \<noteq> p" for q using that 1(5) by (simp add: ref_count_def)
  have "distinct ps" "p \<notin> set ps" "s' = fold checkin_lock ps ?s" using Cons.prems by auto
  note IH = Cons.IH [OF this(1,3)]
  have "path_lock_refs s' q = (if q \<in> set (p # ps) then (if ref_count s q \<le> 1 then None else Some (ref_count s q - 1))
      else path_lock_refs s q)" for q
    using IH 1(5) rc [of q] \<open>p \<notin> set ps\<close> by (cases "q = p") auto
  moreover have "path_locks s' q = (if q \<in> set (p # ps) \<and> ref_count s q \<le> 1 then None else path_locks s q)" for q
    using IH 1(6) rc [of q] \<open>p \<notin> set ps\<close> by (cases "q = p") auto
  ultimately show ?case using IH 1 by simp
qed simp

lemma release_locks_owner:
  "lock_owner (release_locks ls s) l = (if l \<in> set ls then None else lock_owner s l)"
proof -
  have "fold (\<lambda>l f. f(l := None)) ks f l = (if l \<in> set ks then None else f l)" for ks :: "nat list" and f :: "nat \<Rightarrow> nat option"
    by (induction ks arbitrary: f) auto
  from this [of "rev ls"] show ?thesis by (simp add: release_locks_def)
qed


lemma lock_inv_fields:
  assumes "lock_inv s"
  shows "finite {t. tasks s t \<noteq> Idle}"
    and "\<And>t. sorted (task_paths (tasks s t))" "\<And>t. distinct (task_paths (tasks s t))"
    and "\<And>t. map (path_locks s) (task_paths (tasks s t)) = map Some (task_locks (tasks s t))"
    and "\<And>p. path_lock_refs s p = (if users s p = {} then None else Some (int (card (users s p))))"
    and "\<And>p. path_locks s p = None \<longleftrightarrow> users s p = {}"
    and "\<forall>p l. path_locks s p = Some l \<longrightarrow> l < next_lock s"
    and "\<forall>p q l. path_locks s p = Some l \<longrightarrow> path_locks s q = Some l \<longrightarrow> p = q"
    and "\<And>l t. lock_owner s l = Some t \<longleftrightarrow> l \<in> set (held_locks (tasks s t))"
  using assms unfolding lock_inv_def by blast+

lemma lock_invI:
  assumes "finite {t. tasks s t \<noteq> Idle}"
    and "\<And>t. sorted (task_paths (tasks s t))" "\<And>t. distinct (task_paths (tasks s t))"
    and "\<And>t. map (path_locks s) (task_paths (tasks s t)) = map Some (task_locks (tasks s t))"
    and "\<And>p. path_lock_refs s p = (if users s p = {} then None else Some (int (card (users s p))))"
    and "\<And>p. path_locks s p = None \<longleftrightarrow> users s p = {}"
    and "\<And>p l. path_locks s p = Some l \<Longrightarrow> l < next_lock s"
    and "\<And>p q l. path_locks s p = Some l \<Longrightarrow> path_locks s q = Some l \<Longrightarrow> p = q"
    and "\<And>l t. lock_owner s l = Some t \<longleftrightarrow> l \<in> set (held_locks (tasks s t))"
  shows "lock_inv s"
  using assms unfolding lock_inv_def by blast

lemma finite_users: "lock_inv s \<Longrightarrow> finite (users s p)"
  by (rule finite_subset [OF _ lock_inv_fields(1)]) (auto simp: users_def)

lemma users_upd:
  "users (s\<lparr>tasks := (tasks s)(t := x)\<rparr>) p = (users s p - {t}) \<union> (if p \<in> set (task_paths x) then {t} else {})"
  by (auto simp: users_def)

lemma ref_count_users: "lock_inv s \<Longrightarrow> ref_count s p = int (card (users s p))"
  by (auto simp: ref_count_def lock_inv_fields(5))

lemma lock_inv_workers [simp]: "lock_inv (s\<lparr>workers := ws\<rparr>) = lock_inv s"
  by (simp add: lock_inv_def users_def)

lemma lock_inv_start [inv_intros]:
  assumes inv: "lock_inv s" and t: "tasks s t = Idle" and ps: "sorted ps" "distinct ps"
    and co: "checkout_all ps s = (ls, s')"
  shows "lock_inv (s'\<lparr>tasks := (tasks s')(t := Acquiring ps ls 0)\<rparr>)" (is "lock_inv ?s")
proof -
  note F = lock_inv_fields [OF inv]
  note E = checkout_all_effect [OF co ps(2) F(7,8)]
  have us: "users ?s p = (if p \<in> set ps then insert t (users s p) else users s p)" for p
    using E t by (auto simp: users_def)
  have new: "t \<notin> users s p" for p using t by (simp add: users_def)
  show ?thesis
  proof (rule lock_invI)
    have "{u. tasks ?s u \<noteq> Idle} \<subseteq> insert t {u. tasks s u \<noteq> Idle}" using E by auto
    then show "finite {u. tasks ?s u \<noteq> Idle}" using F(1) finite_subset by blast
    show "sorted (task_paths (tasks ?s u))" "distinct (task_paths (tasks ?s u))" for u
      using F(2,3) [of u] E ps by simp_all
    show "map (path_locks ?s) (task_paths (tasks ?s u)) = map Some (task_locks (tasks ?s u))" for u
    proof (cases "u = t")
      case False
      have "map (path_locks s') (task_paths (tasks s u)) = map (path_locks s) (task_paths (tasks s u))"
      proof (rule map_cong [OF refl])
        fix p assume "p \<in> set (task_paths (tasks s u))"
        then have "users s p \<noteq> {}" by (auto simp: users_def)
        then obtain l where "path_locks s p = Some l" using F(6) [of p] by auto
        then show "path_locks s' p = path_locks s p" using E by auto
      qed
      then show ?thesis using False E F(4) [of u] by simp
    qed (use E in simp)
    show "path_lock_refs ?s p = (if users ?s p = {} then None else Some (int (card (users ?s p))))" for p
      using E F(5) [of p] us [of p] new [of p] finite_users [OF inv, of p] ref_count_users [OF inv, of p]
      by (auto simp: card_insert_if)
    show "path_locks ?s p = None \<longleftrightarrow> users ?s p = {}" for p
    proof (cases "p \<in> set ps")
      case True
      then have "Some ` set ls = path_locks s' ` set ps" using E by (metis image_set)
      then have "path_locks s' p \<noteq> None" using True by auto
      then show ?thesis using us [of p] True by simp
    next
      case False
      then show ?thesis using us [of p] E F(6) [of p] by simp
    qed
    show "l < next_lock ?s" if "path_locks ?s p = Some l" for p l using that E by simp
    show "p = q" if "path_locks ?s p = Some l" "path_locks ?s q = Some l" for p q l using that E by simp
    show "lock_owner ?s l = Some u \<longleftrightarrow> l \<in> set (held_locks (tasks ?s u))" for l u
      using E F(9) [of l u] t by (cases "u = t") auto
  qed
qed

lemma lock_inv_leave [inv_intros]:
  assumes inv: "lock_inv s" and x: "task_paths (tasks s t) = ps" "held_locks (tasks s t) = held"
  shows "lock_inv (leave t ps held s)"
proof -
  note F = lock_inv_fields [OF inv]
  define s1 where "s1 = release_locks held s"
  define s2 where "s2 = fold checkin_lock ps s1"
  have r: "tasks s1 = tasks s" "path_locks s1 = path_locks s" "path_lock_refs s1 = path_lock_refs s"
    "next_lock s1 = next_lock s" "\<And>p. ref_count s1 p = ref_count s p"
    by (simp_all add: s1_def release_locks_def ref_count_def)
  have dps: "distinct ps" using F(3) [of t] x(1) by simp
  note E = checkin_all_effect [OF dps s2_def]
  let ?s = "s2\<lparr>tasks := (tasks s2)(t := Ended)\<rparr>"
  have eq: "leave t ps held s = ?s" by (simp add: leave_def s2_def s1_def Let_def)
  have us: "users ?s p = users s p - {t}" for p using E r(1) by (auto simp: users_def)
  have mem: "t \<in> users s p \<longleftrightarrow> p \<in> set ps" for p using x(1) by (simp add: users_def)
  have one: "users ?s p = {} \<longleftrightarrow> card (users s p) \<le> 1" if "p \<in> set ps" for p
    using mem [of p] that finite_users [OF inv, of p] us [of p] by (auto simp: card_le_Suc0_iff_eq)
  show ?thesis
    unfolding eq
  proof (rule lock_invI)
    have "{u. tasks ?s u \<noteq> Idle} \<subseteq> insert t {u. tasks s u \<noteq> Idle}" using E r(1) by auto
    then show "finite {u. tasks ?s u \<noteq> Idle}" using F(1) finite_subset by blast
    show "sorted (task_paths (tasks ?s u))" "distinct (task_paths (tasks ?s u))" for u
      using F(2,3) [of u] E r(1) by simp_all
    show "map (path_locks ?s) (task_paths (tasks ?s u)) = map Some (task_locks (tasks ?s u))" for u
    proof (cases "u = t")
      case False
      have "map (path_locks s2) (task_paths (tasks s u)) = map (path_locks s) (task_paths (tasks s u))"
      proof (rule map_cong [OF refl])
        fix p assume "p \<in> set (task_paths (tasks s u))"
        then have "u \<in> users ?s p" using us [of p] False by (simp add: users_def)
        then have "\<not> (p \<in> set ps \<and> ref_count s p \<le> 1)" using one [of p] ref_count_users [OF inv, of p] by auto
        then show "path_locks s2 p = path_locks s p" using E r by auto
      qed
      then show ?thesis using False E r(1) F(4) [of u] by simp
    qed simp
    show "path_lock_refs ?s p = (if users ?s p = {} then None else Some (int (card (users ?s p))))" for p
      using E r F(5) [of p] us [of p] one [of p] mem [of p] ref_count_users [OF inv, of p] finite_users [OF inv, of p]
      by (cases "p \<in> set ps") (auto simp: of_nat_diff)
    show "path_locks ?s p = None \<longleftrightarrow> users ?s p = {}" for p
      using E r F(6) [of p] us [of p] one [of p] mem [of p] ref_count_users [OF inv, of p]
      by (cases "p \<in> set ps") auto
    show "l < next_lock ?s" if "path_locks ?s p = Some l" for p l
      using that E r F(7) by (auto split: if_splits)
    show "p = q" if "path_locks ?s p = Some l" "path_locks ?s q = Some l" for p q l
      using that E r F(8) by (auto split: if_splits)
    show "lock_owner ?s l = Some u \<longleftrightarrow> l \<in> set (held_locks (tasks ?s u))" for l u
      using E r(1) F(9) [of l u] F(9) [of l t] x(2) release_locks_owner [of held s l]
      by (cases "u = t") (auto simp: s1_def)
  qed
qed


lemma lock_inv_acquire [inv_intros]:
  assumes inv: "lock_inv s" and t: "tasks s t = Acquiring ps ls k" "k < length ls" "lock_owner s (ls ! k) = None"
  shows "lock_inv (s\<lparr>lock_owner := (lock_owner s)(ls ! k \<mapsto> t), tasks := (tasks s)(t := Acquiring ps ls (Suc k))\<rparr>)"
    (is "lock_inv ?s")
proof -
  note F = lock_inv_fields [OF inv]
  have us: "users ?s = users s" using t(1) by (auto simp: users_def fun_eq_iff)
  show ?thesis
  proof (rule lock_invI)
    have "{u. tasks ?s u \<noteq> Idle} \<subseteq> insert t {u. tasks s u \<noteq> Idle}" by auto
    then show "finite {u. tasks ?s u \<noteq> Idle}" using F(1) finite_subset by blast
    show "sorted (task_paths (tasks ?s u))" "distinct (task_paths (tasks ?s u))"
      "map (path_locks ?s) (task_paths (tasks ?s u)) = map Some (task_locks (tasks ?s u))" for u
      using F(2-4) [of u] t(1) by auto
    show "path_lock_refs ?s p = (if users ?s p = {} then None else Some (int (card (users ?s p))))"
      "path_locks ?s p = None \<longleftrightarrow> users ?s p = {}" for p
      using F(5,6) [of p] us by simp_all
    show "l < next_lock ?s" if "path_locks ?s p = Some l" for p l using that F(7) by simp
    show "p = q" if "path_locks ?s p = Some l" "path_locks ?s q = Some l" for p q l using that F(8) by simp
    show "lock_owner ?s l = Some u \<longleftrightarrow> l \<in> set (held_locks (tasks ?s u))" for l u
      using F(9) [of l u] F(9) [of "ls ! k" u] t by (auto simp: take_Suc_conv_app_nth)
  qed
qed

lemma lock_inv_step: "lock_step e s s' \<Longrightarrow> lock_inv s \<Longrightarrow> lock_inv s'"
proof (induction rule: lock_step.induct)
  case (enter s t ps ls k)
  note F = lock_inv_fields [OF enter(3)]
  let ?s = "s\<lparr>tasks := (tasks s)(t := Running ps ls)\<rparr>"
  have us: "users ?s = users s" using enter(1) by (auto simp: users_def fun_eq_iff)
  have "lock_inv ?s"
  proof (rule lock_invI)
    have "{u. tasks ?s u \<noteq> Idle} \<subseteq> insert t {u. tasks s u \<noteq> Idle}" by auto
    then show "finite {u. tasks ?s u \<noteq> Idle}" using F(1) finite_subset by blast
    show "sorted (task_paths (tasks ?s u))" "distinct (task_paths (tasks ?s u))"
      "map (path_locks ?s) (task_paths (tasks ?s u)) = map Some (task_locks (tasks ?s u))" for u
      using F(2-4) [of u] enter(1) by auto
    show "path_lock_refs ?s p = (if users ?s p = {} then None else Some (int (card (users ?s p))))"
      "path_locks ?s p = None \<longleftrightarrow> users ?s p = {}" for p
      using F(5,6) [of p] us by simp_all
    show "l < next_lock ?s" if "path_locks ?s p = Some l" for p l using that F(7) by simp
    show "p = q" if "path_locks ?s p = Some l" "path_locks ?s q = Some l" for p q l using that F(8) by simp
    show "lock_owner ?s l = Some u \<longleftrightarrow> l \<in> set (held_locks (tasks ?s u))" for l u
      using F(9) [of l u] enter(1,2) by auto
  qed
  then show ?case using lock_inv_workers [where s = ?s and ws = "(t, ps) # workers s"] by simp
qed (auto intro: inv_intros)

interpretation lock_table: reachable_invariant "lock_move P" lock_inv no_locks for P
proof unfold_locales
  show "lock_inv t" if "lock_inv s" "lock_move P s t" for s t :: "'a lock_state"
    using that lock_inv_step unfolding lock_move_def by blast
  show "lock_inv no_locks" by (simp add: lock_inv_def no_locks_def users_def)
qed

lemma lock_inv_reach: "lock_reach P s \<Longrightarrow> lock_inv s"
  by (rule lock_table.reachable_inv [OF lock_reach_run])

section \<open>Properties of the locks\<close>

text \<open>
  The table does not grow: in every reachable state, cancellations included, a path has an
  entry exactly while some coroutine has it checked out, and its count is the number of those
  coroutines; when all coroutines have ended the table is empty.
\<close>

theorem lock_table_exact:
  assumes "lock_reach P s"
  shows "path_lock_refs s p = (if users s p = {} then None else Some (int (card (users s p)))) \<and>
    (path_locks s p = None \<longleftrightarrow> users s p = {}) \<and>
    ((\<forall>t. tasks s t \<in> {Idle, Ended}) \<longrightarrow> path_locks s = (\<lambda>_. None) \<and> path_lock_refs s = (\<lambda>_. None))"
proof -
  note F = lock_inv_fields [OF lock_inv_reach [OF assms]]
  have "users s q = {}" if "\<forall>t. tasks s t \<in> {Idle, Ended}" for q
  proof -
    have "task_paths (tasks s t) = []" for t using that [rule_format, of t] by auto
    then show ?thesis by (simp add: users_def)
  qed
  then show ?thesis using F(5,6) by (auto simp: fun_eq_iff)
qed


lemma leave_simps [simp]:
  "workers (leave t ps held s) = workers s" "tasks (leave t ps held s) = (tasks s)(t := Ended)"
proof -
  have c: "workers (checkin_lock p s) = workers s" "tasks (checkin_lock p s) = tasks s" for p and s :: "'a lock_state"
    by (simp_all add: checkin_lock_def Let_def)
  have "workers (fold checkin_lock ps s) = workers s" "tasks (fold checkin_lock ps s) = tasks s" for ps and s :: "'a lock_state"
    by (induction ps arbitrary: s) (simp_all add: c)
  then show "workers (leave t ps held s) = workers s" "tasks (leave t ps held s) = (tasks s)(t := Ended)"
    by (simp_all add: leave_def release_locks_def Let_def)
qed

lemma checkout_all_simps:
  "checkout_all ps s = (ls, s') \<Longrightarrow> workers s' = workers s \<and> tasks s' = tasks s"
  by (induction ps arbitrary: s ls) (fastforce simp: checkout_lock_def Let_def split: prod.splits option.splits)+

definition workers_ok :: "'p lock_state \<Rightarrow> bool" where
  "workers_ok s \<longleftrightarrow> distinct (map fst (workers s)) \<and>
     (\<forall>(t, ps) \<in> set (workers s). \<exists>ls. tasks s t = Running ps ls)"

lemma workers_okD: "workers_ok s \<Longrightarrow> (t, ps) \<in> set (workers s) \<Longrightarrow> \<exists>ls. tasks s t = Running ps ls"
  by (auto simp: workers_ok_def)

lemma workers_ok_step: "lock_step e s s' \<Longrightarrow> e \<noteq> CancelRunning \<Longrightarrow> workers_ok s \<Longrightarrow> workers_ok s'"
proof (induction rule: lock_step.induct)
  case (start s t ps ls s')
  then show ?case using checkout_all_simps [OF start(4)] by (fastforce simp: workers_ok_def)
next
  case (enter s t ps ls k)
  have "t \<notin> fst ` set (workers s)" using enter by (force simp: workers_ok_def)
  then show ?case using enter by (force simp: workers_ok_def)
next
  case (finish s t ps ls)
  then have d: "distinct (map fst (workers s))" by (simp add: workers_ok_def)
  have "t \<notin> fst ` set (remove1 (t, ps) (workers s))"
  proof
    assume "t \<in> fst ` set (remove1 (t, ps) (workers s))"
    then obtain qs where qs: "(t, qs) \<in> set (remove1 (t, ps) (workers s))" by auto
    then have "(t, qs) \<in> set (workers s)" by (metis notin_set_remove1)
    then have "qs = ps" using finish by (force simp: workers_ok_def)
    then show False using qs d by (auto simp: distinct_map)
  qed
  moreover have "distinct (map fst (remove1 (t, ps) (workers s)))"
    using d by (auto simp: distinct_map inj_on_def dest: notin_set_remove1)
  moreover have "\<exists>ks. tasks s u = Running qs ks" if "(u, qs) \<in> set (remove1 (t, ps) (workers s))" for u qs
    using that workers_okD [OF finish(3)] by (metis notin_set_remove1)
  ultimately show ?case
    unfolding workers_ok_def by (fastforce simp: image_iff)
next
  case (worker_ends s t ps)
  then show ?case by (fastforce simp: workers_ok_def)
qed (fastforce simp: workers_ok_def)+

interpretation lock_workers: reachable_invariant "lock_move (\<lambda>e. e \<noteq> CancelRunning)" workers_ok no_locks
proof unfold_locales
  show "workers_ok t" if "workers_ok s" "lock_move (\<lambda>e. e \<noteq> CancelRunning) s t" for s t :: "'a lock_state"
    using that workers_ok_step unfolding lock_move_def by blast
  show "workers_ok no_locks" by (simp add: workers_ok_def no_locks_def)
qed

lemma workers_ok_reach: "lock_reach (\<lambda>e. e \<noteq> CancelRunning) s \<Longrightarrow> workers_ok s"
  by (rule lock_workers.reachable_inv [OF lock_reach_run])

text \<open>
  C27. Mutual exclusion. As long as no coroutine is cancelled while its worker thread runs, two
  worker threads that are inside \<open>_apply_patch\<close> at the same time work on disjoint sets of paths.
\<close>

theorem workers_disjoint:
  assumes "lock_reach (\<lambda>e. e \<noteq> CancelRunning) s"
    and "(t, ps) \<in> set (workers s)" "(u, qs) \<in> set (workers s)" "t \<noteq> u"
  shows "set ps \<inter> set qs = {}"
proof (rule ccontr)
  assume "set ps \<inter> set qs \<noteq> {}"
  then obtain p where p: "p \<in> set ps" "p \<in> set qs" by blast
  note F = lock_inv_fields [OF lock_inv_reach [OF assms(1)]]
  obtain ls ks where run: "tasks s t = Running ps ls" "tasks s u = Running qs ks"
    using workers_okD [OF workers_ok_reach [OF assms(1)]] assms(2,3) by blast
  have maps: "map (path_locks s) ps = map Some ls" "map (path_locks s) qs = map Some ks"
    using F(4) [of t] F(4) [of u] run by simp_all
  obtain l where "path_locks s p = Some l" "l \<in> set ls" using maps(1) p(1) by (metis (no_types, lifting) ex_map_conv in_set_conv_nth length_map nth_map)
  moreover from this have "l \<in> set ks" using maps(2) p(2) by (metis (no_types, opaque_lifting) imageE image_eqI list.set_map option.inject)
  ultimately have "lock_owner s l = Some t" "lock_owner s l = Some u" using F(9) run by simp_all
  then show False using assms(4) by simp
qed


fun waiting_for :: "'p task \<Rightarrow> 'p option" where
  "waiting_for (Acquiring ps ls k) = (if k < length ls then Some (ps ! k) else None)"
| "waiting_for _ = None"

lemma blocked_by_later:
  assumes inv: "lock_inv s" and t: "tasks s t = Acquiring ps ls k" "k < length ls" "lock_owner s (ls ! k) = Some u"
  shows "tasks s u \<noteq> Idle \<and> (\<forall>q. waiting_for (tasks s u) = Some q \<longrightarrow> ps ! k < q)"
proof -
  note F = lock_inv_fields [OF inv]
  have held: "ls ! k \<in> set (held_locks (tasks s u))" using F(9) t(3) by blast
  have len: "length ps = length ls" using F(4) [of t] t(1) by (metis length_map task_locks.simps(1) task_paths.simps(1))
  then have pk: "path_locks s (ps ! k) = Some (ls ! k)"
    using F(4) [of t] t(1,2) by (metis nth_map task_locks.simps(1) task_paths.simps(1))
  have "ps ! k < q" if w: "waiting_for (tasks s u) = Some q" for q
  proof -
    obtain ps' ls' k' where u: "tasks s u = Acquiring ps' ls' k'" "k' < length ls'" "q = ps' ! k'"
      using w by (cases "tasks s u") (auto split: if_splits)
    obtain j where j: "j < k'" "ls ! k = ls' ! j"
      using held u by (auto simp: in_set_conv_nth)
    have len': "length ps' = length ls'" using F(4) [of u] u(1) by (metis length_map task_locks.simps(1) task_paths.simps(1))
    have "path_locks s (ps' ! j) = Some (ls' ! j)"
      using F(4) [of u] u(1,2) j(1) len' by (metis nth_map order.strict_trans task_locks.simps(1) task_paths.simps(1))
    then have "ps' ! j = ps ! k" using F(8) pk j(2) by metis
    moreover have "sorted_wrt (<) ps'" using F(2) [of u] F(3) [of u] u(1) by (simp add: strict_sorted_iff)
    then have "ps' ! j < ps' ! k'" using j(1) u(2) len' by (simp add: sorted_wrt_nth_less)
    ultimately show ?thesis using u(3) by simp
  qed
  moreover have "tasks s u \<noteq> Idle" using held by auto
  ultimately show ?thesis by blast
qed



section \<open>Concrete runs\<close>

definition do_start :: "nat \<Rightarrow> 'p list \<Rightarrow> 'p lock_state \<Rightarrow> 'p lock_state" where
  "do_start t ps s = (let (ls, s') = checkout_all ps s in s'\<lparr>tasks := (tasks s')(t := Acquiring ps ls 0)\<rparr>)"

definition do_acquire :: "nat \<Rightarrow> 'p lock_state \<Rightarrow> 'p lock_state" where
  "do_acquire t s = (case tasks s t of
     Acquiring ps ls k \<Rightarrow> s\<lparr>lock_owner := (lock_owner s)(ls ! k \<mapsto> t), tasks := (tasks s)(t := Acquiring ps ls (Suc k))\<rparr>
   | _ \<Rightarrow> s)"

definition do_enter :: "nat \<Rightarrow> 'p lock_state \<Rightarrow> 'p lock_state" where
  "do_enter t s = (case tasks s t of
     Acquiring ps ls k \<Rightarrow> s\<lparr>tasks := (tasks s)(t := Running ps ls), workers := (t, ps) # workers s\<rparr> | _ \<Rightarrow> s)"

lemma reach_start:
  "lock_reach P s \<Longrightarrow> P Start \<Longrightarrow> tasks s t = Idle \<Longrightarrow> sorted ps \<Longrightarrow> distinct ps \<Longrightarrow> lock_reach P (do_start t ps s)"
  by (cases "checkout_all ps s") (auto simp: do_start_def intro: lock_reach.step lock_step.start)

lemma reach_acquire:
  "lock_reach P s \<Longrightarrow> P Acquire \<Longrightarrow> tasks s t = Acquiring ps ls k \<Longrightarrow> k < length ls \<Longrightarrow> lock_owner s (ls ! k) = None \<Longrightarrow>
     lock_reach P (do_acquire t s)"
  by (auto simp: do_acquire_def intro: lock_reach.step lock_step.acquire)

lemma reach_enter:
  "lock_reach P s \<Longrightarrow> P Enter \<Longrightarrow> tasks s t = Acquiring ps ls k \<Longrightarrow> length ls \<le> k \<Longrightarrow> lock_reach P (do_enter t s)"
  by (auto simp: do_enter_def intro: lock_reach.step lock_step.enter)

lemmas run_defs = do_start_def do_acquire_def do_enter_def no_locks_def checkout_lock_def leave_def checkin_lock_def
  release_locks_def ref_count_def

abbreviation file_a :: "string list" where "file_a \<equiv> [''work'', ''a'']"
abbreviation file_b :: "string list" where "file_b \<equiv> [''work'', ''b'']"

definition one_running :: "string list lock_state" where
  "one_running = do_enter 0 (do_acquire 0 (do_start 0 [file_a] no_locks))"

lemma one_running_reach: "P Start \<Longrightarrow> P Acquire \<Longrightarrow> P Enter \<Longrightarrow> lock_reach P one_running"
  unfolding one_running_def
  by (intro reach_enter [of _ _ 0 "[file_a]" "[0]" 1] reach_acquire [of _ _ 0 "[file_a]" "[0]" 0] reach_start lock_reach.init)
    (simp_all add: run_defs)

lemma one_running_simps:
  "tasks one_running = (\<lambda>t. if t = 0 then Running [file_a] [0] else Idle)"
  "workers one_running = [(0, [file_a])]" "lock_owner one_running = (\<lambda>l. if l = 0 then Some 0 else None)"
  "path_locks one_running = (\<lambda>p. if p = file_a then Some 0 else None)"
  "path_lock_refs one_running = (\<lambda>p. if p = file_a then Some 1 else None)" "next_lock one_running = 1"
  by (simp_all add: one_running_def run_defs fun_eq_iff)

theorem lock_table_exact_witness:
  "\<exists>s :: string list lock_state. lock_reach (\<lambda>_. True) s \<and> path_lock_refs s file_a = Some (int (card (users s file_a)))"
proof -
  have "users one_running file_a \<noteq> {}" by (auto simp: users_def one_running_simps)
  then show ?thesis using lock_table_exact [OF one_running_reach, of "\<lambda>_. True" file_a] one_running_reach by auto
qed

definition two_running :: "string list lock_state" where
  "two_running = do_enter 1 (do_acquire 1 (do_start 1 [file_b] one_running))"

lemma two_running_reach: "P Start \<Longrightarrow> P Acquire \<Longrightarrow> P Enter \<Longrightarrow> lock_reach P two_running"
  unfolding two_running_def
  by (intro reach_enter [of _ _ 1 "[file_b]" "[1]" 1] reach_acquire [of _ _ 1 "[file_b]" "[1]" 0] reach_start one_running_reach)
    (simp_all add: run_defs one_running_simps)

theorem workers_disjoint_witness:
  "\<exists>s :: string list lock_state. lock_reach (\<lambda>e. e \<noteq> CancelRunning) s \<and>
     (0, [file_a]) \<in> set (workers s) \<and> (1, [file_b]) \<in> set (workers s) \<and> set [file_a] \<inter> set [file_b] = {}"
proof -
  have r: "lock_reach (\<lambda>e. e \<noteq> CancelRunning) two_running" by (rule two_running_reach) simp_all
  have w: "(0, [file_a]) \<in> set (workers two_running)" "(1, [file_b]) \<in> set (workers two_running)"
    by (simp_all add: two_running_def run_defs one_running_simps)
  have d: "set [file_a] \<inter> set [file_b] = {}" by (rule workers_disjoint [OF r w]) simp
  show ?thesis by (intro exI [of _ two_running] conjI r w d)
qed


text \<open>
  A cancelled coroutine gives its locks back while its worker thread is still inside
  \<open>_apply_patch\<close> (cancelling the wait for \<open>asyncio.to_thread\<close> does not stop the thread): there is a
  reachable state in which two worker threads are at work on the same path.
\<close>

theorem cancelled_worker_overlaps:
  "\<exists>s :: string list lock_state. lock_reach (\<lambda>_. True) s \<and>
     (0, [file_a]) \<in> set (workers s) \<and> (1, [file_a]) \<in> set (workers s)"
proof -
  let ?c = "leave 0 [file_a] [0] one_running"
  let ?s = "do_enter 1 (do_acquire 1 (do_start 1 [file_a] ?c))"
  have "tasks one_running 0 = Running [file_a] [0]" by (simp add: one_running_simps)
  then have "lock_step CancelRunning one_running ?c" by (rule lock_step.cancel_running)
  then have "lock_reach (\<lambda>_. True) ?c" using one_running_reach [of "\<lambda>_. True"] by (auto intro: lock_reach.step)
  then have "lock_reach (\<lambda>_. True) ?s"
    by (intro reach_enter [of _ _ 1 "[file_a]" "[1]" 1] reach_acquire [of _ _ 1 "[file_a]" "[1]" 0] reach_start)
      (simp_all add: run_defs one_running_simps)
  moreover have "workers ?s = [(1, [file_a]), (0, [file_a])]" by (simp add: run_defs one_running_simps)
  ultimately show ?thesis by (metis list.set_intros)
qed

end
