(* ===== verification/ToolState.thy ===== *)
theory ToolState
  imports Prelude
begin

text \<open>
  The tool-call entries of a turn's replay state and the two matchers of
  \<open>app/services/_tool_state.py\<close>. An entry is searched from the newest to the oldest; a missing or
  empty tool-call id falls back to the name. Payloads (arguments, results) are kept as their text.
\<close>

record tool_entry =
  te_id :: "string option"
  te_name :: string
  te_arguments :: "string option"
  te_result :: "string option"
  te_agent :: string
  te_started :: bool
  te_done :: bool

definition truthy :: "string option \<Rightarrow> bool" where
  "truthy s \<longleftrightarrow> s \<noteq> None \<and> s \<noteq> Some []"

text \<open>\<open>for tc in reversed(entries): if P(tc): update; return\<close>, with the result when nothing matched.\<close>

fun update_last_match :: "('a \<Rightarrow> bool) \<Rightarrow> ('a \<Rightarrow> 'a) \<Rightarrow> 'a list \<Rightarrow> 'a list option" where
  "update_last_match P f [] = None"
| "update_last_match P f (x # xs) =
     (case update_last_match P f xs of
        Some ys \<Rightarrow> Some (x # ys)
      | None \<Rightarrow> if P x then Some (f x # xs) else None)"

definition adopt_agent :: "string \<Rightarrow> tool_entry \<Rightarrow> tool_entry" where
  "adopt_agent agent tc = (if agent \<noteq> [] \<and> te_agent tc = [] then tc\<lparr>te_agent := agent\<rparr> else tc)"

definition match_tool_start :: "string option \<Rightarrow> string \<Rightarrow> string option \<Rightarrow> string \<Rightarrow> tool_entry list \<Rightarrow> tool_entry list" where
  "match_tool_start i name arguments agent tcs =
     (case update_last_match
             (\<lambda>tc. truthy i \<and> te_id tc = i \<or> \<not> truthy i \<and> te_name tc = name \<and> \<not> te_started tc)
             (\<lambda>tc. adopt_agent agent (tc\<lparr>te_arguments := arguments, te_started := True\<rparr>)) tcs of
        Some tcs' \<Rightarrow> tcs'
      | None \<Rightarrow> tcs @ [\<lparr>te_id = i, te_name = name, te_arguments = arguments, te_result = None,
                        te_agent = agent, te_started = True, te_done = False\<rparr>])"

definition finish_entry :: "string option \<Rightarrow> string \<Rightarrow> tool_entry \<Rightarrow> tool_entry" where
  "finish_entry result agent tc = adopt_agent agent (tc\<lparr>te_done := True, te_result := result\<rparr>)"

definition match_tool_end :: "string option \<Rightarrow> string \<Rightarrow> string option \<Rightarrow> string \<Rightarrow> tool_entry list \<Rightarrow> tool_entry list" where
  "match_tool_end i name result agent tcs =
     (case (if truthy i then update_last_match (\<lambda>tc. te_id tc = i) (finish_entry result agent) tcs else None) of
        Some tcs' \<Rightarrow> tcs'
      | None \<Rightarrow>
          (case update_last_match (\<lambda>tc. te_name tc = name \<and> \<not> te_done tc) (finish_entry result agent) tcs of
             Some tcs' \<Rightarrow> tcs'
           | None \<Rightarrow> tcs @ [\<lparr>te_id = i, te_name = name, te_arguments = None, te_result = result,
                             te_agent = agent, te_started = True, te_done = True\<rparr>]))"

section \<open>Facts\<close>

lemma update_last_match_None: "update_last_match P f xs = None \<longleftrightarrow> (\<forall>x \<in> set xs. \<not> P x)"
  by (induction xs) (auto split: option.splits)

lemma update_last_match_Some:
  "update_last_match P f xs = Some ys \<longleftrightarrow>
     (\<exists>us x vs. xs = us @ x # vs \<and> P x \<and> (\<forall>v \<in> set vs. \<not> P v) \<and> ys = us @ f x # vs)"
proof (induction xs arbitrary: ys)
  case (Cons a xs)
  show ?case
  proof (cases "update_last_match P f xs")
    case None
    then have "\<forall>x \<in> set xs. \<not> P x" by (simp add: update_last_match_None)
    then show ?thesis using None by (auto simp: Cons_eq_append_conv)
  next
    case (Some zs)
    then obtain us x vs where d: "xs = us @ x # vs" "P x" "\<forall>v \<in> set vs. \<not> P v" "zs = us @ f x # vs"
      using Cons.IH by auto
    have uniq: "zs = us' @ f x' # vs'" if "xs = us' @ x' # vs'" "P x'" "\<forall>v \<in> set vs'. \<not> P v" for us' x' vs'
      using Some Cons.IH [of "us' @ f x' # vs'"] that by fastforce
    show ?thesis
    proof
      assume "update_last_match P f (a # xs) = Some ys"
      then have "ys = (a # us) @ f x # vs" using Some d by simp
      then show "\<exists>us x vs. a # xs = us @ x # vs \<and> P x \<and> (\<forall>v \<in> set vs. \<not> P v) \<and> ys = us @ f x # vs"
        using d by (metis append_Cons)
    next
      assume "\<exists>us x vs. a # xs = us @ x # vs \<and> P x \<and> (\<forall>v \<in> set vs. \<not> P v) \<and> ys = us @ f x # vs"
      then obtain us' x' vs' where e: "a # xs = us' @ x' # vs'" "P x'" "\<forall>v \<in> set vs'. \<not> P v" "ys = us' @ f x' # vs'"
        by blast
      then obtain us'' where "us' = a # us''" using d by (cases us') auto
      then show "update_last_match P f (a # xs) = Some ys" using e Some uniq [of us'' x' vs'] by simp
    qed
  qed
qed simp

lemma update_last_match_length: "update_last_match P f xs = Some ys \<Longrightarrow> length ys = length xs"
  by (auto simp: update_last_match_Some)

end
