(* ===== verification/StreamStore.thy ===== *)
theory StreamStore
  imports ToolState
begin

text \<open>
  The in-memory SSE stream store of \<open>app/services/memory_stream_store.py\<close> with the envelope types
  of \<open>stream_envelope.py\<close>: the turn states, which live on a heap because timers and clients keep
  references to them, the bounded subscriber queues, the expiry timers of the event loop, the write
  side (\<open>init_turn\<close>, \<open>ensure_turn\<close>, \<open>push_event\<close>, \<open>commit_agent_content\<close>, \<open>mark_done\<close>, \<open>clear\<close>,
  \<open>close\<close>) and the read side (\<open>attach\<close> as a client that replays section by section and then drains
  its queue). None of the operations waits inside, so each is one step. Free-form payloads are kept
  as their text. Time is in seconds.
\<close>

section \<open>Events and turn states\<close>

datatype event =
    Message string string
  | Thinking string string
  | ToolCall string "string option" string
  | ToolStart string "string option" string "string option"
  | ToolEnd string "string option" string "string option"
  | Usage string
  | Error "string option"
  | DoneEv
  | NotConfigured string
  | QueuedTurn string
  | AgentStatus string string string
  | SummarizationStart string
  | SummarizationContent string string
  | SummarizationEnd string string bool
  | OtherEvent string string

record summary_entry =
  su_text :: string
  su_done :: bool
  su_error :: bool

record turn_state =
  is_streaming :: bool
  content :: "(string \<times> string list) list"
  thinking :: "(string \<times> string list) list"
  tool_calls :: "tool_entry list"
  agent_statuses :: "(string \<times> string) list"
  agent_errors :: "(string \<times> string) list"
  summarization :: "(string \<times> summary_entry) list"
  usage :: "string option"
  turn_error :: "string option"
  agent_not_configured :: "string option"
  queued_turns :: "string list"
  subscribers :: "nat list"
  cleanup_handle :: "nat option"
  cleanup_deadline :: int
  created_at :: int

definition new_turn_state :: turn_state where
  "new_turn_state = \<lparr>is_streaming = True, content = [], thinking = [], tool_calls = [], agent_statuses = [],
     agent_errors = [], summarization = [], usage = None, turn_error = None, agent_not_configured = None,
     queued_turns = [], subscribers = [], cleanup_handle = None, cleanup_deadline = 0, created_at = 0\<rparr>"

definition reset_for_next_turn :: "turn_state \<Rightarrow> turn_state" where
  "reset_for_next_turn st =
     st\<lparr>is_streaming := True, content := [], thinking := [], tool_calls := [], agent_statuses := [],
        agent_errors := [], summarization := [], usage := None, turn_error := None,
        agent_not_configured := None, queued_turns := []\<rparr>"

definition clear_replay_payload :: "turn_state \<Rightarrow> turn_state" where
  "clear_replay_payload st =
     st\<lparr>content := [], thinking := [], tool_calls := [], summarization := [], usage := None,
        turn_error := None, agent_not_configured := None, queued_turns := []\<rparr>"

definition get_or :: "'b \<Rightarrow> ('a \<times> 'b) list \<Rightarrow> 'a \<Rightarrow> 'b" where
  "get_or d al k = (case map_of al k of None \<Rightarrow> d | Some v \<Rightarrow> v)"

definition append_chunk :: "string \<Rightarrow> string \<Rightarrow> (string \<times> string list) list \<Rightarrow> (string \<times> string list) list" where
  "append_chunk agent s d = AList.update agent (get_or [] d agent @ [s]) d"

definition no_summary :: summary_entry where
  "no_summary = \<lparr>su_text = [], su_done = False, su_error = False\<rparr>"

fun update_state :: "event \<Rightarrow> turn_state \<Rightarrow> turn_state" where
  "update_state (Message agent s) st =
     (if s \<noteq> [] then st\<lparr>content := append_chunk agent s (content st)\<rparr> else st)"
| "update_state (Thinking agent s) st =
     (if s \<noteq> [] then st\<lparr>thinking := append_chunk agent s (thinking st)\<rparr> else st)"
| "update_state (ToolCall agent i name) st =
     st\<lparr>tool_calls := tool_calls st @ [\<lparr>te_id = i, te_name = name, te_arguments = None, te_result = None,
          te_agent = agent, te_started = False, te_done = False\<rparr>]\<rparr>"
| "update_state (ToolStart agent i name arguments) st =
     st\<lparr>tool_calls := match_tool_start i name arguments agent (tool_calls st)\<rparr>"
| "update_state (ToolEnd agent i name result) st =
     st\<lparr>tool_calls := match_tool_end i name result agent (tool_calls st)\<rparr>"
| "update_state (Usage d) st = st\<lparr>usage := Some d\<rparr>"
| "update_state (Error m) st = st\<lparr>turn_error := Some (case m of None \<Rightarrow> ''error'' | Some s \<Rightarrow> s)\<rparr>"
| "update_state DoneEv st = st\<lparr>is_streaming := False\<rparr>"
| "update_state (NotConfigured d) st = st\<lparr>agent_not_configured := Some d\<rparr>"
| "update_state (QueuedTurn d) st = st\<lparr>queued_turns := queued_turns st @ [d]\<rparr>"
| "update_state (AgentStatus agent status meta) st =
     (if agent \<noteq> [] \<and> status \<noteq> [] then
        st\<lparr>agent_statuses := AList.update agent status (agent_statuses st),
           agent_errors := (if status = ''error'' then AList.update agent meta (agent_errors st)
                            else AList.delete agent (agent_errors st))\<rparr>
      else st)"
| "update_state (SummarizationStart agent) st =
     (if agent \<noteq> [] then st\<lparr>summarization := AList.update agent no_summary (summarization st)\<rparr> else st)"
| "update_state (SummarizationContent agent s) st =
     (if agent \<noteq> [] \<and> s \<noteq> [] then
        let e = get_or no_summary (summarization st) agent in
        st\<lparr>summarization := AList.update agent (e\<lparr>su_text := su_text e @ s\<rparr>) (summarization st)\<rparr>
      else st)"
| "update_state (SummarizationEnd agent summary err) st =
     (if agent \<noteq> [] then
        let e = get_or no_summary (summarization st) agent;
            e = (if summary \<noteq> [] then e\<lparr>su_text := summary\<rparr> else e);
            e = e\<lparr>su_done := True\<rparr>;
            e = (if err then e\<lparr>su_error := True\<rparr> else e) in
        st\<lparr>summarization := AList.update agent e (summarization st)\<rparr>
      else st)"
| "update_state (OtherEvent name d) st = st"

section \<open>The store\<close>

datatype item = Wire event | Sentinel

record timer =
  tm_due :: int
  tm_session :: string
  tm_addr :: nat

datatype phase = StatusPhase | ConfigPhase | SummaryPhase | QueuedPhase | ThinkingPhase | ContentPhase | ToolPhase | LivePhase

record client =
  cl_addr :: nat
  cl_queue :: nat
  cl_phase :: phase
  cl_open :: bool
  cl_got :: "event list" \<comment> \<open>what the generator has yielded\<close>

record store =
  turns :: "(string \<times> nat) list"
  states :: "nat \<Rightarrow> turn_state"
  queues :: "nat \<Rightarrow> item list"
  timers :: "nat \<Rightarrow> timer option"
  clients :: "nat \<Rightarrow> client option"
  next_addr :: nat
  next_queue :: nat
  next_timer :: nat
  now :: int

definition STREAM_TTL :: int where "STREAM_TTL = 3600"
definition MAX_TURN_LIFETIME :: int where "MAX_TURN_LIFETIME = 14400"
definition QUEUE_SIZE :: nat where "QUEUE_SIZE = 2048"

definition upd_state :: "nat \<Rightarrow> (turn_state \<Rightarrow> turn_state) \<Rightarrow> store \<Rightarrow> store" where
  "upd_state a f s = s\<lparr>states := (states s)(a := f (states s a))\<rparr>"

definition upd_queue :: "nat \<Rightarrow> (item list \<Rightarrow> item list) \<Rightarrow> store \<Rightarrow> store" where
  "upd_queue q f s = s\<lparr>queues := (queues s)(q := f (queues s q))\<rparr>"

text \<open>\<open>_terminate_subscriber\<close>: a full queue gives up its oldest item.\<close>

definition terminate :: "item list \<Rightarrow> item list" where
  "terminate xs = (if length xs \<ge> QUEUE_SIZE then tl xs else xs) @ [Sentinel]"

definition cancel_cleanup :: "nat \<Rightarrow> store \<Rightarrow> store" where
  "cancel_cleanup a s =
     (case cleanup_handle (states s a) of
        None \<Rightarrow> s
      | Some h \<Rightarrow> upd_state a (cleanup_handle_update (\<lambda>_. None)) (s\<lparr>timers := (timers s)(h := None)\<rparr>))"

definition call_later :: "int \<Rightarrow> string \<Rightarrow> nat \<Rightarrow> store \<Rightarrow> store" where
  "call_later delay sid a s =
     upd_state a (cleanup_handle_update (\<lambda>_. Some (next_timer s)))
       (s\<lparr>timers := (timers s)(next_timer s \<mapsto> \<lparr>tm_due = now s + delay, tm_session = sid, tm_addr = a\<rparr>),
          next_timer := next_timer s + 1\<rparr>)"

definition schedule_cleanup :: "string \<Rightarrow> nat \<Rightarrow> store \<Rightarrow> store" where
  "schedule_cleanup sid a s =
     (let s = cancel_cleanup a s;
          s = upd_state a (\<lambda>st. st\<lparr>created_at := now s, cleanup_deadline := now s + STREAM_TTL\<rparr>) s
      in call_later STREAM_TTL sid a s)"

definition refresh_cleanup :: "string \<Rightarrow> nat \<Rightarrow> store \<Rightarrow> store" where
  "refresh_cleanup sid a s =
     (let s = upd_state a (\<lambda>st. st\<lparr>cleanup_deadline :=
                 min (now s + STREAM_TTL) (created_at st + MAX_TURN_LIFETIME)\<rparr>) s
      in if cleanup_handle (states s a) = None then schedule_cleanup sid a s else s)"

text \<open>The timer \<open>h\<close> fires: the event loop forgets it and calls \<open>_expire_turn\<close>.\<close>

definition expire_turn :: "string \<Rightarrow> nat \<Rightarrow> store \<Rightarrow> store" where
  "expire_turn sid a s =
     (if map_of (turns s) sid \<noteq> Some a then s
      else let remaining = cleanup_deadline (states s a) - now s in
        if remaining > 0 then call_later remaining sid a s
        else let s = upd_state a (cleanup_handle_update (\<lambda>_. None)) s; st = states s a in
          if is_streaming st \<and> subscribers st \<noteq> []
          then schedule_cleanup sid a (upd_state a clear_replay_payload s)
          else s\<lparr>turns := AList.delete sid (turns s)\<rparr>)"

definition fire :: "nat \<Rightarrow> store \<Rightarrow> store" where
  "fire h s =
     (case timers s h of
        None \<Rightarrow> s
      | Some t \<Rightarrow> expire_turn (tm_session t) (tm_addr t) (s\<lparr>timers := (timers s)(h := None)\<rparr>))"

definition terminate_all :: "nat \<Rightarrow> store \<Rightarrow> store" where
  "terminate_all a s = fold (\<lambda>q. upd_queue q terminate) (subscribers (states s a)) s"

definition fresh_turn :: "string \<Rightarrow> store \<Rightarrow> store" where
  "fresh_turn sid s =
     schedule_cleanup sid (next_addr s)
       (s\<lparr>states := (states s)(next_addr s := new_turn_state), turns := AList.update sid (next_addr s) (turns s),
          next_addr := next_addr s + 1\<rparr>)"

definition init_turn :: "string \<Rightarrow> bool \<Rightarrow> store \<Rightarrow> store" where
  "init_turn sid keep_subscribers s =
     (case map_of (turns s) sid of
        None \<Rightarrow> fresh_turn sid s
      | Some old \<Rightarrow>
          let s = cancel_cleanup old s in
          if keep_subscribers then schedule_cleanup sid old (upd_state old reset_for_next_turn s)
          else fresh_turn sid (terminate_all old s))"

definition ensure_turn :: "string \<Rightarrow> store \<Rightarrow> store" where
  "ensure_turn sid s = (if map_of (turns s) sid \<noteq> None then s else init_turn sid False s)"

text \<open>One subscriber of the fan-out: a full queue loses its oldest item, gets the sentinel and is dropped.\<close>

definition fan_out_one :: "event \<Rightarrow> nat \<Rightarrow> nat \<Rightarrow> store \<Rightarrow> store" where
  "fan_out_one ev a q s =
     (if length (queues s q) < QUEUE_SIZE then upd_queue q (\<lambda>xs. xs @ [Wire ev]) s
      else upd_state a (\<lambda>st. st\<lparr>subscribers := remove1 q (subscribers st)\<rparr>)
             (upd_queue q (\<lambda>xs. let xs = tl xs in if length xs < QUEUE_SIZE then xs @ [Sentinel] else xs) s))"

definition fan_out :: "event \<Rightarrow> nat \<Rightarrow> store \<Rightarrow> store" where
  "fan_out ev a s = fold (fan_out_one ev a) (subscribers (states s a)) s"

definition push_existing :: "string \<Rightarrow> event \<Rightarrow> store \<Rightarrow> store" where
  "push_existing sid ev s =
     (case map_of (turns s) sid of
        None \<Rightarrow> s
      | Some a \<Rightarrow> fan_out ev a (refresh_cleanup sid a (upd_state a (update_state ev) s)))"

definition push_event :: "string \<Rightarrow> event \<Rightarrow> bool \<Rightarrow> store \<Rightarrow> store" where
  "push_event sid ev create_if_missing s =
     push_existing sid ev
       (if map_of (turns s) sid = None \<and> create_if_missing then ensure_turn sid s else s)"

definition commit_content :: "string \<Rightarrow> turn_state \<Rightarrow> turn_state" where
  "commit_content agent st =
     st\<lparr>content := AList.delete agent (content st), thinking := AList.delete agent (thinking st),
        summarization := (case map_of (summarization st) agent of
            Some e \<Rightarrow> if su_done e \<and> \<not> su_error e then AList.delete agent (summarization st) else summarization st
          | None \<Rightarrow> summarization st),
        tool_calls := filter (\<lambda>tc. te_agent tc \<noteq> agent) (tool_calls st)\<rparr>"

definition commit_agent_content :: "string \<Rightarrow> string \<Rightarrow> store \<Rightarrow> store" where
  "commit_agent_content sid agent s =
     (case map_of (turns s) sid of None \<Rightarrow> s | Some a \<Rightarrow> upd_state a (commit_content agent) s)"

definition mark_done :: "string \<Rightarrow> store \<Rightarrow> store" where
  "mark_done sid s =
     (case map_of (turns s) sid of
        None \<Rightarrow> s
      | Some a \<Rightarrow> terminate_all a (refresh_cleanup sid a (upd_state a (is_streaming_update (\<lambda>_. False)) s)))"

definition clear :: "string \<Rightarrow> store \<Rightarrow> store" where
  "clear sid s =
     (case map_of (turns s) sid of
        None \<Rightarrow> s
      | Some a \<Rightarrow> terminate_all a (cancel_cleanup a (s\<lparr>turns := AList.delete sid (turns s)\<rparr>)))"

definition close :: "store \<Rightarrow> store" where
  "close s = (fold (\<lambda>(sid, a) s. terminate_all a (cancel_cleanup a s)) (turns s) s)\<lparr>turns := []\<rparr>"

definition running_session_ids :: "store \<Rightarrow> string list" where
  "running_session_ids s = map fst (filter (\<lambda>(sid, a). is_streaming (states s a)) (turns s))"

definition get_agent_statuses :: "string \<Rightarrow> store \<Rightarrow> (string \<times> string) list" where
  "get_agent_statuses sid s =
     (case map_of (turns s) sid of
        None \<Rightarrow> []
      | Some a \<Rightarrow> if is_streaming (states s a) then agent_statuses (states s a) else [])"

section \<open>Clients\<close>

definition replayable :: "string \<Rightarrow> bool" where
  "replayable status \<longleftrightarrow> status \<in> set [''idle'', ''working'', ''waiting_input'', ''offline'', ''error'']"

definition replay_statuses :: "turn_state \<Rightarrow> event list" where
  "replay_statuses st =
     map (\<lambda>(agent, status). AgentStatus agent status (get_or ''{}'' (agent_errors st) agent))
       (filter (\<lambda>(agent, status). agent \<noteq> [] \<and> replayable status) (agent_statuses st))"

definition replay_summary :: "string \<times> summary_entry \<Rightarrow> event list" where
  "replay_summary = (\<lambda>(agent, e).
     if agent = [] then []
     else [SummarizationStart agent] @
          (if su_text e \<noteq> [] \<and> \<not> su_done e then [SummarizationContent agent (su_text e)] else []) @
          (if su_done e then [SummarizationEnd agent (su_text e) (su_error e)] else []))"

definition replay_chunks :: "(string \<Rightarrow> string \<Rightarrow> event) \<Rightarrow> (string \<times> string list) list \<Rightarrow> event list" where
  "replay_chunks ev d = map (\<lambda>(agent, chunks). ev agent (concat chunks)) (filter (\<lambda>(agent, chunks). chunks \<noteq> []) d)"

definition replay_tool :: "tool_entry \<Rightarrow> event list" where
  "replay_tool tc =
     [ToolCall (te_agent tc) (te_id tc) (te_name tc)] @
     (if te_started tc then [ToolStart (te_agent tc) (te_id tc) (te_name tc) (te_arguments tc)] else []) @
     (if te_done tc then [ToolEnd (te_agent tc) (te_id tc) (te_name tc) (te_result tc)] else [])"

fun replay_section :: "phase \<Rightarrow> turn_state \<Rightarrow> event list" where
  "replay_section StatusPhase st = replay_statuses st"
| "replay_section ConfigPhase st = (case agent_not_configured st of None \<Rightarrow> [] | Some d \<Rightarrow> [NotConfigured d])"
| "replay_section SummaryPhase st = concat (map replay_summary (summarization st))"
| "replay_section QueuedPhase st = map QueuedTurn (queued_turns st)"
| "replay_section ThinkingPhase st = replay_chunks Thinking (thinking st)"
| "replay_section ContentPhase st = replay_chunks Message (content st)"
| "replay_section ToolPhase st = concat (map replay_tool (tool_calls st))"
| "replay_section LivePhase st = []"

fun next_phase :: "phase \<Rightarrow> phase" where
  "next_phase StatusPhase = ConfigPhase"
| "next_phase ConfigPhase = SummaryPhase"
| "next_phase SummaryPhase = QueuedPhase"
| "next_phase QueuedPhase = ThinkingPhase"
| "next_phase ThinkingPhase = ContentPhase"
| "next_phase ContentPhase = ToolPhase"
| "next_phase ToolPhase = LivePhase"
| "next_phase LivePhase = LivePhase"

definition replay :: "turn_state \<Rightarrow> event list" where
  "replay st = concat (map (\<lambda>p. replay_section p st)
     [StatusPhase, ConfigPhase, SummaryPhase, QueuedPhase, ThinkingPhase, ContentPhase, ToolPhase])"

text \<open>\<open>attach\<close> up to its first yield: the client number is the number of its queue.\<close>

definition attach_open :: "string \<Rightarrow> store \<Rightarrow> store" where
  "attach_open sid s =
     (case map_of (turns s) sid of
        None \<Rightarrow> s
      | Some a \<Rightarrow>
          if \<not> is_streaming (states s a) then s
          else let q = next_queue s in
            (upd_state a (\<lambda>st. st\<lparr>subscribers := subscribers st @ [q]\<rparr>) s)
              \<lparr>queues := (queues s)(q := []), next_queue := q + 1,
               clients := (clients s)(q \<mapsto> \<lparr>cl_addr = a, cl_queue = q, cl_phase = StatusPhase, cl_open = True, cl_got = []\<rparr>)\<rparr>)"

definition attach_replay :: "nat \<Rightarrow> store \<Rightarrow> store" where
  "attach_replay c s =
     (case clients s c of
        None \<Rightarrow> s
      | Some cl \<Rightarrow>
          s\<lparr>clients := (clients s)(c \<mapsto>
             cl\<lparr>cl_got := cl_got cl @ replay_section (cl_phase cl) (states s (cl_addr cl)),
                cl_phase := next_phase (cl_phase cl)\<rparr>)\<rparr>)"

definition attach_close :: "nat \<Rightarrow> store \<Rightarrow> store" where
  "attach_close c s =
     (case clients s c of
        None \<Rightarrow> s
      | Some cl \<Rightarrow>
          upd_state (cl_addr cl) (\<lambda>st. st\<lparr>subscribers := remove1 (cl_queue cl) (subscribers st)\<rparr>)
            (s\<lparr>clients := (clients s)(c \<mapsto> cl\<lparr>cl_open := False\<rparr>)\<rparr>))"

definition attach_get :: "nat \<Rightarrow> store \<Rightarrow> store" where
  "attach_get c s =
     (case clients s c of
        None \<Rightarrow> s
      | Some cl \<Rightarrow>
          (case queues s (cl_queue cl) of
             [] \<Rightarrow> s
           | Sentinel # xs \<Rightarrow> attach_close c (upd_queue (cl_queue cl) tl s)
           | Wire ev # xs \<Rightarrow>
               upd_queue (cl_queue cl) tl s\<lparr>clients := (clients s)(c \<mapsto> cl\<lparr>cl_got := cl_got cl @ [ev]\<rparr>)\<rparr>))"


section \<open>Steps\<close>

text \<open>
  What can happen to the store. A \<open>done\<close> event is only pushed together with \<open>mark_done\<close>
  (\<open>session.py\<close> and \<open>agent_service.py\<close> do both in a row). A timer fires when it is due, before
  the clock moves on.
\<close>

inductive store_step :: "store \<Rightarrow> store \<Rightarrow> bool" where
  step_init: "store_step s (init_turn sid keep s)"
| step_ensure: "store_step s (ensure_turn sid s)"
| step_push: "ev \<noteq> DoneEv \<Longrightarrow> store_step s (push_event sid ev create s)"
| step_finish: "store_step s (mark_done sid (push_event sid DoneEv create s))"
| step_mark_done: "store_step s (mark_done sid s)"
| step_commit: "store_step s (commit_agent_content sid agent s)"
| step_clear: "store_step s (clear sid s)"
| step_close: "store_step s (close s)"
| step_attach: "store_step s (attach_open sid s)"
| step_replay: "clients s c = Some cl \<Longrightarrow> cl_open cl \<Longrightarrow> cl_phase cl \<noteq> LivePhase \<Longrightarrow> store_step s (attach_replay c s)"
| step_get: "clients s c = Some cl \<Longrightarrow> cl_open cl \<Longrightarrow> cl_phase cl = LivePhase \<Longrightarrow> store_step s (attach_get c s)"
| step_disconnect: "clients s c = Some cl \<Longrightarrow> cl_open cl \<Longrightarrow> store_step s (attach_close c s)"
| step_fire: "timers s h = Some t \<Longrightarrow> tm_due t \<le> now s \<Longrightarrow> store_step s (fire h s)"
| step_time: "now s \<le> t \<Longrightarrow> (\<And>h tm. timers s h = Some tm \<Longrightarrow> t \<le> tm_due tm) \<Longrightarrow> store_step s (s\<lparr>now := t\<rparr>)"

inductive_simps store_step_simps: "store_step s s'"

definition empty_store :: store where
  "empty_store = \<lparr>turns = [], states = (\<lambda>_. new_turn_state), queues = (\<lambda>_. []), timers = (\<lambda>_. None),
     clients = (\<lambda>_. None), next_addr = 0, next_queue = 0, next_timer = 0, now = 0\<rparr>"

inductive store_reach :: "store \<Rightarrow> bool" where
  reach_empty: "store_reach empty_store"
| reach_step: "store_reach s \<Longrightarrow> store_step s s' \<Longrightarrow> store_reach s'"

lemma store_reach_run: "store_reach s \<Longrightarrow> store_step\<^sup>*\<^sup>* empty_store s"
  by (induction rule: store_reach.induct) (auto intro: rtranclp.rtrancl_into_rtrancl)

section \<open>Routing of the clients\<close>

text \<open>What the operations on timers leave alone.\<close>

definition routing :: "store \<Rightarrow> (string \<times> nat) list \<times> (nat \<Rightarrow> nat list \<times> bool) \<times> (nat \<Rightarrow> item list) \<times>
    (nat \<Rightarrow> (nat \<times> nat \<times> bool) option) \<times> nat \<times> nat" where
  "routing s = (turns s, \<lambda>a. (subscribers (states s a), is_streaming (states s a)), queues s,
     \<lambda>c. map_option (\<lambda>cl. (cl_addr cl, cl_queue cl, cl_open cl)) (clients s c), next_addr s, next_queue s)"

lemma routing_upd_state:
  "(\<And>st. subscribers (f st) = subscribers st \<and> is_streaming (f st) = is_streaming st) \<Longrightarrow>
     routing (upd_state a f s) = routing s"
  by (auto simp: routing_def upd_state_def fun_eq_iff)

lemma routing_timers [simp]:
  "routing (s\<lparr>timers := t\<rparr>) = routing s" "routing (s\<lparr>next_timer := n\<rparr>) = routing s" "routing (s\<lparr>now := i\<rparr>) = routing s"
  by (simp_all add: routing_def)

lemma routing_cancel [simp]: "routing (cancel_cleanup a s) = routing s"
  by (simp add: cancel_cleanup_def routing_upd_state split: option.split)

lemma routing_call_later [simp]: "routing (call_later d sid a s) = routing s"
  by (simp add: call_later_def routing_upd_state)

lemma routing_schedule [simp]: "routing (schedule_cleanup sid a s) = routing s"
  by (simp add: schedule_cleanup_def Let_def routing_upd_state)

lemma routing_refresh [simp]: "routing (refresh_cleanup sid a s) = routing s"
  by (simp add: refresh_cleanup_def Let_def routing_upd_state)

abbreviation subs :: "store \<Rightarrow> nat \<Rightarrow> nat list" where
  "subs s a \<equiv> subscribers (states s a)"

definition ckey :: "store \<Rightarrow> nat \<Rightarrow> (nat \<times> nat \<times> bool) option" where
  "ckey s c = map_option (\<lambda>cl. (cl_addr cl, cl_queue cl, cl_open cl)) (clients s c)"

lemma routing_eqD:
  assumes "routing s = routing s'"
  shows "turns s = turns s'" "\<And>a. subs s a = subs s' a" "\<And>a. is_streaming (states s a) = is_streaming (states s' a)"
    "queues s = queues s'" "ckey s = ckey s'" "next_addr s = next_addr s'" "next_queue s = next_queue s'"
  using assms by (auto simp: routing_def ckey_def fun_eq_iff)

definition live :: "store \<Rightarrow> nat \<Rightarrow> bool" where
  "live s a \<longleftrightarrow> a \<in> snd ` set (turns s)"

definition served :: "store \<Rightarrow> nat \<Rightarrow> nat \<Rightarrow> bool" where
  "served s c a \<longleftrightarrow> Sentinel \<in> set (queues s c) \<or> c \<in> set (subs s a) \<and> live s a"

definition route_inv :: "store \<Rightarrow> bool" where
  "route_inv s \<longleftrightarrow>
     distinct (map fst (turns s)) \<and> distinct (map snd (turns s)) \<and> (\<forall>a. live s a \<longrightarrow> a < next_addr s) \<and>
     (\<forall>q. length (queues s q) \<le> QUEUE_SIZE) \<and>
     (\<forall>a. distinct (subs s a)) \<and> (\<forall>a. next_addr s \<le> a \<longrightarrow> subs s a = []) \<and>
     (\<forall>a. \<forall>q \<in> set (subs s a). ckey s q = Some (a, q, True)) \<and>
     (\<forall>c a q b. ckey s c = Some (a, q, b) \<longrightarrow> q = c \<and> c < next_queue s \<and> a < next_addr s) \<and>
     (\<forall>c a q. ckey s c = Some (a, q, True) \<longrightarrow> served s c a)"

definition finished_inv :: "store \<Rightarrow> bool" where
  "finished_inv s \<longleftrightarrow> (\<forall>a. live s a \<longrightarrow> \<not> is_streaming (states s a) \<longrightarrow>
     (\<forall>q \<in> set (subs s a). Sentinel \<in> set (queues s q)))"

lemma route_inv_cong: "routing s = routing s' \<Longrightarrow> route_inv s = route_inv s'"
  using routing_eqD [of s s'] unfolding route_inv_def served_def live_def by simp

lemma finished_inv_cong: "routing s = routing s' \<Longrightarrow> finished_inv s = finished_inv s'"
  using routing_eqD [of s s'] unfolding finished_inv_def live_def by simp

lemma route_invD:
  assumes "route_inv s"
  shows "distinct (map fst (turns s))" "distinct (map snd (turns s))" "\<And>a. live s a \<Longrightarrow> a < next_addr s"
    and "\<And>q. length (queues s q) \<le> QUEUE_SIZE" "\<And>a. distinct (subs s a)" "\<And>a. next_addr s \<le> a \<Longrightarrow> subs s a = []"
    and "\<And>a q. q \<in> set (subs s a) \<Longrightarrow> ckey s q = Some (a, q, True)"
    and "\<And>c a q b. ckey s c = Some (a, q, b) \<Longrightarrow> q = c \<and> c < next_queue s \<and> a < next_addr s"
    and "\<And>c a q. ckey s c = Some (a, q, True) \<Longrightarrow> served s c a"
  using assms unfolding route_inv_def by blast+

lemma route_invI:
  assumes "distinct (map fst (turns s))" "distinct (map snd (turns s))" "\<And>a. live s a \<Longrightarrow> a < next_addr s"
    and "\<And>q. length (queues s q) \<le> QUEUE_SIZE" "\<And>a. distinct (subs s a)" "\<And>a. next_addr s \<le> a \<Longrightarrow> subs s a = []"
    and "\<And>a q. q \<in> set (subs s a) \<Longrightarrow> ckey s q = Some (a, q, True)"
    and "\<And>c a q b. ckey s c = Some (a, q, b) \<Longrightarrow> q = c \<and> c < next_queue s \<and> a < next_addr s"
    and "\<And>c a q. ckey s c = Some (a, q, True) \<Longrightarrow> served s c a"
  shows "route_inv s"
  using assms unfolding route_inv_def by blast

subsection \<open>Terminating and fanning out\<close>

lemma terminate_length: "length xs \<le> QUEUE_SIZE \<Longrightarrow> length (terminate xs) \<le> QUEUE_SIZE"
  by (auto simp: terminate_def QUEUE_SIZE_def)

lemma terminate_sentinel [simp]: "Sentinel \<in> set (terminate xs)"
  by (simp add: terminate_def)

lemma upd_queue_simps [simp]:
  "turns (upd_queue q f s) = turns s" "states (upd_queue q f s) = states s" "clients (upd_queue q f s) = clients s"
  "timers (upd_queue q f s) = timers s" "next_addr (upd_queue q f s) = next_addr s"
  "next_queue (upd_queue q f s) = next_queue s" "next_timer (upd_queue q f s) = next_timer s" "now (upd_queue q f s) = now s"
  by (simp_all add: upd_queue_def)

lemma fold_terminate:
  "distinct qs \<Longrightarrow> fold (\<lambda>q. upd_queue q terminate) qs s =
     s\<lparr>queues := (\<lambda>q. if q \<in> set qs then terminate (queues s q) else queues s q)\<rparr>"
  by (induction qs arbitrary: s) (auto simp: upd_queue_def fun_eq_iff)

lemma terminate_all_eq:
  "distinct (subs s a) \<Longrightarrow> terminate_all a s =
     s\<lparr>queues := (\<lambda>q. if q \<in> set (subs s a) then terminate (queues s q) else queues s q)\<rparr>"
  by (simp add: terminate_all_def fold_terminate)

lemma route_inv_queues:
  assumes inv: "route_inv s" and "\<And>q. length (f q) \<le> QUEUE_SIZE"
    and "\<And>q. Sentinel \<in> set (queues s q) \<Longrightarrow> Sentinel \<in> set (f q)"
  shows "route_inv (s\<lparr>queues := f\<rparr>)"
proof (rule route_invI)
  note D = route_invD [OF inv]
  show "served (s\<lparr>queues := f\<rparr>) c a" if "ckey (s\<lparr>queues := f\<rparr>) c = Some (a, q, True)" for c a q
    using D(9) [of c a q] that assms(3) by (auto simp: served_def ckey_def live_def)
  show "q = c \<and> c < next_queue (s\<lparr>queues := f\<rparr>) \<and> a < next_addr (s\<lparr>queues := f\<rparr>)"
    if "ckey (s\<lparr>queues := f\<rparr>) c = Some (a, q, b)" for c a q b
    using D(8) [of c a q b] that by (simp add: ckey_def)
  show "ckey (s\<lparr>queues := f\<rparr>) q = Some (a, q, True)" if "q \<in> set (subs (s\<lparr>queues := f\<rparr>) a)" for a q
    using D(7) [of q a] that by (simp add: ckey_def)
  show "a < next_addr (s\<lparr>queues := f\<rparr>)" if "live (s\<lparr>queues := f\<rparr>) a" for a
    using D(3) [of a] that by (simp add: live_def)
qed (use route_invD [OF inv] assms(2) in simp_all)

lemma finished_inv_queues:
  assumes "finished_inv s" and "\<And>q. Sentinel \<in> set (queues s q) \<Longrightarrow> Sentinel \<in> set (f q)"
  shows "finished_inv (s\<lparr>queues := f\<rparr>)"
  using assms by (auto simp: finished_inv_def live_def)

lemma route_inv_terminate [inv_intros]: "route_inv s \<Longrightarrow> route_inv (terminate_all a s)"
  unfolding terminate_all_eq [OF route_invD(5)]
  by (rule route_inv_queues) (auto simp: route_invD(4) terminate_length)

lemma finished_inv_terminate [inv_intros]: "route_inv s \<Longrightarrow> finished_inv s \<Longrightarrow> finished_inv (terminate_all a s)"
  unfolding terminate_all_eq [OF route_invD(5)]
  by (rule finished_inv_queues) auto

lemma route_inv_drop_sub:
  assumes inv: "route_inv s" and "Sentinel \<in> set (queues s q)"
  shows "route_inv (upd_state a (\<lambda>st. st\<lparr>subscribers := remove1 q (subscribers st)\<rparr>) s)" (is "route_inv ?s")
proof (rule route_invI)
  note D = route_invD [OF inv]
  have subs: "subs ?s b = (if b = a then remove1 q (subs s a) else subs s b)" for b by (simp add: upd_state_def)
  have same: "ckey ?s = ckey s" "turns ?s = turns s" "queues ?s = queues s" "next_addr ?s = next_addr s"
    "next_queue ?s = next_queue s"
    by (simp_all add: upd_state_def ckey_def fun_eq_iff)
  show "served ?s c b" if "ckey ?s c = Some (b, r, True)" for c b r
    using D(9) [of c b r] that assms(2) same subs [of b] D(5) [of b] by (cases "c = q") (auto simp: served_def live_def)
  show "r = c \<and> c < next_queue ?s \<and> b < next_addr ?s" if "ckey ?s c = Some (b, r, x)" for c b r x
    using D(8) [of c b r x] that same by simp
  show "ckey ?s r = Some (b, r, True)" if "r \<in> set (subs ?s b)" for b r
    using D(7) [of r b] D(5) [of b] that same subs [of b] by (auto split: if_splits dest: notin_set_remove1)
  show "b < next_addr ?s" if "live ?s b" for b using D(3) [of b] that same by (simp add: live_def)
  show "distinct (subs ?s b)" for b by (cases "b = a") (simp_all add: subs distinct_remove1 D(5))
  show "subs ?s b = []" if "next_addr ?s \<le> b" for b using D(6) [of b] that same subs [of b] by auto
qed (use route_invD [OF inv] in \<open>simp_all add: upd_state_def\<close>)

lemma finished_inv_drop_sub:
  "finished_inv s \<Longrightarrow> finished_inv (upd_state a (\<lambda>st. st\<lparr>subscribers := remove1 q (subscribers st)\<rparr>) s)"
  by (auto simp: finished_inv_def upd_state_def live_def dest: notin_set_remove1)

lemma fan_out_one_inv:
  assumes inv: "route_inv s"
  shows "route_inv (fan_out_one ev a q s) \<and> (finished_inv s \<longrightarrow> finished_inv (fan_out_one ev a q s))"
proof (cases "length (queues s q) < QUEUE_SIZE")
  case True
  then have eq: "fan_out_one ev a q s = s\<lparr>queues := (queues s)(q := queues s q @ [Wire ev])\<rparr>"
    by (simp add: fan_out_one_def upd_queue_def)
  show ?thesis
    unfolding eq using True route_invD(4) [OF inv]
    by (auto intro!: route_inv_queues [OF inv] finished_inv_queues)
next
  case False
  let ?f = "(queues s)(q := tl (queues s q) @ [Sentinel])"
  have len: "length (queues s q) = QUEUE_SIZE" "0 < QUEUE_SIZE"
    using False route_invD(4) [OF inv, of q] by (auto simp: QUEUE_SIZE_def)
  then have eq: "fan_out_one ev a q s = upd_state a (\<lambda>st. st\<lparr>subscribers := remove1 q (subscribers st)\<rparr>) (s\<lparr>queues := ?f\<rparr>)"
    by (simp add: fan_out_one_def upd_queue_def Let_def)
  have "route_inv (s\<lparr>queues := ?f\<rparr>)" "finished_inv s \<longrightarrow> finished_inv (s\<lparr>queues := ?f\<rparr>)"
    using len route_invD(4) [OF inv] by (auto intro!: route_inv_queues [OF inv] finished_inv_queues)
  then show ?thesis
    unfolding eq by (auto intro!: route_inv_drop_sub finished_inv_drop_sub)
qed

lemma fan_out_inv [inv_intros]:
  assumes "route_inv s"
  shows "route_inv (fan_out ev a s) \<and> (finished_inv s \<longrightarrow> finished_inv (fan_out ev a s))"
proof -
  have "route_inv (fold (fan_out_one ev a) qs s) \<and> (finished_inv s \<longrightarrow> finished_inv (fold (fan_out_one ev a) qs s))" for qs
    using assms
  proof (induction qs arbitrary: s)
    case (Cons q qs)
    then show ?case using fan_out_one_inv [of s ev a q] by simp
  qed simp
  then show ?thesis by (simp add: fan_out_def)
qed


subsection \<open>The operations\<close>

lemma route_inv_upd_state:
  "(\<And>st. subscribers (f st) = subscribers st) \<Longrightarrow> route_inv (upd_state a f s) = route_inv s"
proof -
  assume f: "\<And>st. subscribers (f st) = subscribers st"
  have "subs (upd_state a f s) b = subs s b" "ckey (upd_state a f s) = ckey s" "turns (upd_state a f s) = turns s"
    "queues (upd_state a f s) = queues s" "next_addr (upd_state a f s) = next_addr s" "next_queue (upd_state a f s) = next_queue s" for b
    by (simp_all add: upd_state_def f ckey_def fun_eq_iff)
  then show ?thesis by (simp add: route_inv_def served_def live_def)
qed

lemma finished_inv_upd_state:
  assumes "\<And>st. subscribers (f st) = subscribers st" "\<And>st. is_streaming st \<Longrightarrow> is_streaming (f st)" "finished_inv s"
  shows "finished_inv (upd_state a f s)"
  using assms by (auto simp: finished_inv_def upd_state_def live_def)

lemma update_state_subscribers [simp]: "subscribers (update_state ev st) = subscribers st"
  by (cases ev) (simp_all add: Let_def)

lemma update_state_streaming: "ev \<noteq> DoneEv \<Longrightarrow> is_streaming (update_state ev st) = is_streaming st"
  by (cases ev) (simp_all add: Let_def)

lemma reset_simps [simp]:
  "subscribers (reset_for_next_turn st) = subscribers st" "is_streaming (reset_for_next_turn st)"
  "subscribers (clear_replay_payload st) = subscribers st" "is_streaming (clear_replay_payload st) = is_streaming st"
  "subscribers (commit_content agent st) = subscribers st" "is_streaming (commit_content agent st) = is_streaming st"
  by (simp_all add: reset_for_next_turn_def clear_replay_payload_def commit_content_def)

lemmas route_congs =
  route_inv_cong [OF routing_cancel] route_inv_cong [OF routing_schedule] route_inv_cong [OF routing_refresh]
  route_inv_cong [OF routing_call_later]
  finished_inv_cong [OF routing_cancel] finished_inv_cong [OF routing_schedule] finished_inv_cong [OF routing_refresh]
  finished_inv_cong [OF routing_call_later]

text \<open>A turn whose entry is replaced or removed leaves no client behind that lacks the sentinel.\<close>

lemma served_terminated:
  assumes "route_inv s" "ckey s c = Some (a, q, True)"
  shows "Sentinel \<in> set (queues (terminate_all a s) c)"
  using route_invD(9) [OF assms] unfolding terminate_all_eq [OF route_invD(5) [OF assms(1)]]
  by (auto simp: served_def)

lemma route_inv_turns:
  assumes inv: "route_inv s" and x: "distinct (map fst x)" "distinct (map snd x)" "\<And>a. a \<in> snd ` set x \<Longrightarrow> a < next_addr s"
    and sv: "\<And>c a q. ckey s c = Some (a, q, True) \<Longrightarrow> served (s\<lparr>turns := x\<rparr>) c a"
  shows "route_inv (s\<lparr>turns := x\<rparr>)"
proof -
  have k: "ckey (s\<lparr>turns := x\<rparr>) = ckey s" by (simp add: ckey_def fun_eq_iff)
  note D = route_invD [OF inv]
  show ?thesis
  proof (rule route_invI)
    show "ckey (s\<lparr>turns := x\<rparr>) q = Some (a, q, True)" if "q \<in> set (subs (s\<lparr>turns := x\<rparr>) a)" for a q
      using D(7) [of q a] that k by simp
    show "q = c \<and> c < next_queue (s\<lparr>turns := x\<rparr>) \<and> a < next_addr (s\<lparr>turns := x\<rparr>)"
      if "ckey (s\<lparr>turns := x\<rparr>) c = Some (a, q, b)" for c a q b
      using D(8) [of c a q b] that k by simp
    show "served (s\<lparr>turns := x\<rparr>) c a" if "ckey (s\<lparr>turns := x\<rparr>) c = Some (a, q, True)" for c a q
      using sv [of c a q] that k by simp
    show "a < next_addr (s\<lparr>turns := x\<rparr>)" if "live (s\<lparr>turns := x\<rparr>) a" for a
      using x(3) [of a] that by (simp add: live_def)
    show "subs (s\<lparr>turns := x\<rparr>) a = []" if "next_addr (s\<lparr>turns := x\<rparr>) \<le> a" for a
      using D(6) [of a] that by simp
  qed (use x(1,2) D(4,5) in simp_all)
qed

lemma route_inv_remove_turn:
  assumes inv: "route_inv s" and a: "map_of (turns s) sid = Some a"
    and sent: "\<And>q. q \<in> set (subs s a) \<Longrightarrow> Sentinel \<in> set (queues s q)"
  shows "route_inv (s\<lparr>turns := AList.delete sid (turns s)\<rparr>)" (is "route_inv ?s")
proof (rule route_inv_turns [OF inv])
  note D = route_invD [OF inv]
  have sub: "set (AList.delete sid (turns s)) \<subseteq> set (turns s)" by (auto simp: AList.delete_eq)
  have livekeep: "live ?s b" if lb: "live s b" "b \<noteq> a" for b
  proof -
    obtain sd where sd: "(sd, b) \<in> set (turns s)" using lb(1) by (auto simp: live_def)
    then have "sd \<noteq> sid" using D(1) a lb(2) by (metis map_of_is_SomeI option.inject)
    then show ?thesis using sd by (force simp: live_def AList.delete_eq)
  qed
  show "distinct (map fst (AList.delete sid (turns s)))" using D(1) by (simp add: distinct_delete)
  show "distinct (map snd (AList.delete sid (turns s)))" using D(2) by (rule distinct_values_delete)
  show "b < next_addr s" if "b \<in> snd ` set (AList.delete sid (turns s))" for b
    using D(3) [of b] that sub by (auto simp: live_def)
  show "served ?s c b" if k: "ckey s c = Some (b, q, True)" for c b q
    using D(9) [OF k] sent [of c] livekeep [of b] by (cases "b = a") (auto simp: served_def)
qed

lemma finished_inv_remove_turn:
  "finished_inv s \<Longrightarrow> finished_inv (s\<lparr>turns := AList.delete sid (turns s)\<rparr>)"
  by (fastforce simp: finished_inv_def live_def AList.delete_eq)

lemma route_inv_fresh:
  assumes inv: "route_inv s" "finished_inv s"
    and sent: "\<And>a q. map_of (turns s) sid = Some a \<Longrightarrow> q \<in> set (subs s a) \<Longrightarrow> Sentinel \<in> set (queues s q)"
  shows "route_inv (fresh_turn sid s) \<and> finished_inv (fresh_turn sid s)"
proof -
  let ?n = "next_addr s"
  let ?s = "s\<lparr>states := (states s)(?n := new_turn_state), turns := AList.update sid ?n (turns s), next_addr := ?n + 1\<rparr>"
  note D = route_invD [OF inv(1)]
  have mem: "(sd, a) \<in> set (AList.update sid ?n (turns s)) \<longleftrightarrow> (if sd = sid then a = ?n else (sd, a) \<in> set (turns s))" for sd a
  proof -
    have "distinct (map fst (AList.update sid ?n (turns s)))" using D(1) by (simp add: distinct_update)
    then have "(sd, a) \<in> set (AList.update sid ?n (turns s)) \<longleftrightarrow> map_of (AList.update sid ?n (turns s)) sd = Some a" by simp
    also have "\<dots> \<longleftrightarrow> (if sd = sid then a = ?n else map_of (turns s) sd = Some a)" by (auto simp: update_conv')
    finally show ?thesis using D(1) by simp
  qed
  have new: "\<not> live s ?n" using D(3) [of ?n] by auto
  have livekeep: "live ?s b" if lb: "live s b" "map_of (turns s) sid \<noteq> Some b" for b
  proof -
    obtain sd where sd: "(sd, b) \<in> set (turns s)" using lb(1) by (auto simp: live_def)
    then have "sd \<noteq> sid" using D(1) lb(2) by (auto simp: map_of_is_SomeI)
    then show ?thesis using sd mem [of sd b] by (force simp: live_def)
  qed
  have liveold: "b = ?n \<or> live s b" if "live ?s b" for b
    using that values_update [of sid ?n "turns s"] by (auto simp: live_def)
  have subs: "subs ?s b = (if b = ?n then [] else subs s b)" for b by (simp add: new_turn_state_def)
  have "route_inv ?s"
  proof (rule route_invI)
    show "distinct (map fst (turns ?s))" using D(1) by (simp add: distinct_update)
    show "distinct (map snd (turns ?s))"
      using D(2) new by (simp add: live_def distinct_values_update)
    show "b < next_addr ?s" if "live ?s b" for b using liveold [OF that] D(3) [of b] by auto
    show "served ?s c b" if k: "ckey ?s c = Some (b, q, True)" for c b q
    proof -
      have k': "ckey s c = Some (b, q, True)" using k by (simp add: ckey_def)
      have b: "b \<noteq> ?n" using D(8) [OF k'] by auto
      show ?thesis
      proof (cases "map_of (turns s) sid = Some b")
        case True
        then show ?thesis using D(9) [OF k'] sent [OF True, of c] by (auto simp: served_def)
      next
        case False
        then show ?thesis using D(9) [OF k'] livekeep [of b] b subs [of b] by (auto simp: served_def)
      qed
    qed
    show "q = c \<and> c < next_queue ?s \<and> b < next_addr ?s" if "ckey ?s c = Some (b, q, x)" for c b q x
      using D(8) [of c b q x] that by (auto simp: ckey_def)
    show "ckey ?s q = Some (b, q, True)" if "q \<in> set (subs ?s b)" for b q
      using D(7) [of q b] that subs [of b] by (auto simp: ckey_def split: if_splits)
    show "distinct (subs ?s b)" for b using D(5) [of b] subs [of b] by simp
    show "subs ?s b = []" if "next_addr ?s \<le> b" for b using D(6) [of b] subs [of b] that by simp
  qed (use D(4) in simp)
  moreover have "finished_inv ?s"
    unfolding finished_inv_def
  proof (intro allI impI ballI)
    fix b q assume b: "live ?s b" "\<not> is_streaming (states ?s b)" "q \<in> set (subs ?s b)"
    then have "b \<noteq> ?n" using subs [of b] by auto
    then show "Sentinel \<in> set (queues ?s q)"
      using b liveold [OF b(1)] inv(2) by (auto simp: finished_inv_def)
  qed
  ultimately show ?thesis unfolding fresh_turn_def by (simp add: route_congs)
qed

lemma init_turn_inv [inv_intros]:
  assumes inv: "route_inv s" "finished_inv s"
  shows "route_inv (init_turn sid keep s) \<and> finished_inv (init_turn sid keep s)"
proof (cases "map_of (turns s) sid")
  case None
  then show ?thesis using route_inv_fresh [OF inv, of sid] by (simp add: init_turn_def)
next
  case (Some old)
  let ?s = "cancel_cleanup old s"
  have c: "route_inv ?s" "finished_inv ?s" using inv by (simp_all add: route_congs)
  show ?thesis
  proof (cases keep)
    case True
    then show ?thesis using c Some
      by (simp add: init_turn_def Let_def route_congs route_inv_upd_state finished_inv_upd_state)
  next
    case False
    have t: "route_inv (terminate_all old ?s)" "finished_inv (terminate_all old ?s)"
      using c route_inv_terminate finished_inv_terminate by blast+
    have eq: "terminate_all old ?s = ?s\<lparr>queues := (\<lambda>q. if q \<in> set (subs ?s old) then terminate (queues ?s q) else queues ?s q)\<rparr>"
      by (rule terminate_all_eq [OF route_invD(5) [OF c(1)]])
    have "turns ?s = turns s" using routing_eqD(1) [OF routing_cancel] .
    then have "route_inv (fresh_turn sid (terminate_all old ?s)) \<and> finished_inv (fresh_turn sid (terminate_all old ?s))"
      using Some by (intro route_inv_fresh t) (auto simp: eq)
    then show ?thesis using Some False by (simp add: init_turn_def Let_def)
  qed
qed


lemma ensure_turn_inv [inv_intros]:
  "route_inv s \<Longrightarrow> finished_inv s \<Longrightarrow> route_inv (ensure_turn sid s) \<and> finished_inv (ensure_turn sid s)"
  by (simp add: ensure_turn_def init_turn_inv)

lemma push_existing_inv:
  assumes "route_inv s"
  shows "route_inv (push_existing sid ev s)"
    and "finished_inv s \<Longrightarrow> ev \<noteq> DoneEv \<Longrightarrow> finished_inv (push_existing sid ev s)"
proof -
  have r: "route_inv (refresh_cleanup sid a (upd_state a (update_state ev) s))" for a
    using assms by (simp add: route_congs route_inv_upd_state)
  then show "route_inv (push_existing sid ev s)"
    using fan_out_inv assms by (simp add: push_existing_def split: option.split)
  assume "finished_inv s" "ev \<noteq> DoneEv"
  then have "finished_inv (upd_state a (update_state ev) s)" for a
    by (intro finished_inv_upd_state) (simp_all add: update_state_streaming)
  then show "finished_inv (push_existing sid ev s)"
    using fan_out_inv r \<open>finished_inv s\<close> by (simp add: push_existing_def route_congs split: option.split)
qed

lemma push_event_inv [inv_intros]:
  assumes "route_inv s" "finished_inv s"
  shows "route_inv (push_event sid ev create s)" "ev \<noteq> DoneEv \<Longrightarrow> finished_inv (push_event sid ev create s)"
  using push_existing_inv assms ensure_turn_inv by (simp_all add: push_event_def)

lemma mark_done_route: "route_inv s \<Longrightarrow> route_inv (mark_done sid s)"
  by (auto simp: mark_done_def route_congs route_inv_upd_state split: option.split intro!: route_inv_terminate)

text \<open>After \<open>mark_done\<close> all subscribers of the turn have the sentinel, however the flag was set before.\<close>

definition finished_but :: "nat option \<Rightarrow> store \<Rightarrow> bool" where
  "finished_but x s \<longleftrightarrow> (\<forall>a. Some a \<noteq> x \<longrightarrow> live s a \<longrightarrow> \<not> is_streaming (states s a) \<longrightarrow>
     (\<forall>q \<in> set (subs s a). Sentinel \<in> set (queues s q)))"

lemma mark_done_finished:
  assumes "route_inv s" "finished_but (map_of (turns s) sid) s"
  shows "finished_inv (mark_done sid s)"
proof (cases "map_of (turns s) sid")
  case None
  then show ?thesis using assms(2) by (simp add: mark_done_def finished_inv_def finished_but_def)
next
  case (Some a)
  let ?s = "refresh_cleanup sid a (upd_state a (is_streaming_update (\<lambda>_. False)) s)"
  have rt: "routing ?s = routing (upd_state a (is_streaming_update (\<lambda>_. False)) s)" by simp
  have inv: "route_inv ?s" using assms(1) by (simp add: route_congs route_inv_upd_state)
  note R = routing_eqD [OF rt]
  have "finished_inv (terminate_all a ?s)"
    unfolding terminate_all_eq [OF route_invD(5) [OF inv]] finished_inv_def
  proof (intro allI impI ballI)
    fix b q
    assume b: "live (?s\<lparr>queues := \<lambda>q. if q \<in> set (subs ?s a) then terminate (queues ?s q) else queues ?s q\<rparr>) b"
      "\<not> is_streaming (states (?s\<lparr>queues := \<lambda>q. if q \<in> set (subs ?s a) then terminate (queues ?s q) else queues ?s q\<rparr>) b)"
      "q \<in> set (subs (?s\<lparr>queues := \<lambda>q. if q \<in> set (subs ?s a) then terminate (queues ?s q) else queues ?s q\<rparr>) b)"
    show "Sentinel \<in> set (queues (?s\<lparr>queues := \<lambda>q. if q \<in> set (subs ?s a) then terminate (queues ?s q) else queues ?s q\<rparr>) q)"
    proof (cases "b = a")
      case True
      then show ?thesis using b(3) by simp
    next
      case False
      then have "live s b" "\<not> is_streaming (states s b)" "q \<in> set (subs s b)"
        using b R(1) R(2,3) [of b] by (auto simp: live_def upd_state_def)
      then have "Sentinel \<in> set (queues s q)" using assms(2) Some False by (auto simp: finished_but_def)
      then show ?thesis using R(4) by (simp add: upd_state_def)
    qed
  qed
  then show ?thesis using Some by (simp add: mark_done_def)
qed

lemma finished_inv_but: "finished_inv s \<Longrightarrow> finished_but x s"
  by (simp add: finished_inv_def finished_but_def)

lemma cancel_turns: "cancel_cleanup a (s\<lparr>turns := x\<rparr>) = (cancel_cleanup a s)\<lparr>turns := x\<rparr>"
  by (simp add: cancel_cleanup_def upd_state_def split: option.split)

lemma upd_queue_turns: "upd_queue q f (s\<lparr>turns := x\<rparr>) = (upd_queue q f s)\<lparr>turns := x\<rparr>"
  by (simp add: upd_queue_def)

lemma terminate_all_turns: "terminate_all a (s\<lparr>turns := x\<rparr>) = (terminate_all a s)\<lparr>turns := x\<rparr>"
proof -
  have "fold (\<lambda>q. upd_queue q terminate) qs (s\<lparr>turns := x\<rparr>) = (fold (\<lambda>q. upd_queue q terminate) qs s)\<lparr>turns := x\<rparr>" for qs
    by (induction qs arbitrary: s) (simp_all add: upd_queue_turns)
  then show ?thesis by (simp add: terminate_all_def)
qed

lemma terminate_all_fields [simp]:
  "turns (terminate_all a s) = turns s" "states (terminate_all a s) = states s" "clients (terminate_all a s) = clients s"
  "timers (terminate_all a s) = timers s" "now (terminate_all a s) = now s" "next_addr (terminate_all a s) = next_addr s"
  "next_timer (terminate_all a s) = next_timer s"
proof -
  have "\<exists>f. fold (\<lambda>q. upd_queue q terminate) qs s = s\<lparr>queues := f\<rparr>" for qs
  proof (induction qs arbitrary: s)
    case Nil
    have "fold (\<lambda>q. upd_queue q terminate) [] s = s\<lparr>queues := queues s\<rparr>" by simp
    then show ?case by blast
  next
    case (Cons q qs)
    from Cons.IH [of "upd_queue q terminate s"] show ?case by (auto simp: upd_queue_def)
  qed
  then obtain f where "terminate_all a s = s\<lparr>queues := f\<rparr>" by (metis terminate_all_def)
  then show "turns (terminate_all a s) = turns s" "states (terminate_all a s) = states s" "clients (terminate_all a s) = clients s"
    "timers (terminate_all a s) = timers s" "now (terminate_all a s) = now s" "next_addr (terminate_all a s) = next_addr s"
    "next_timer (terminate_all a s) = next_timer s" by simp_all
qed

lemma cancel_fields [simp]: "turns (cancel_cleanup a s) = turns s" "subs (cancel_cleanup a s) b = subs s b"
  using routing_eqD(1,2) [OF routing_cancel] by blast+

lemma terminate_sentinels:
  "route_inv s \<Longrightarrow> q \<in> set (subs s a) \<Longrightarrow> Sentinel \<in> set (queues (terminate_all a s) q)"
  by (simp add: terminate_all_eq [OF route_invD(5)])

lemma clear_inv [inv_intros]:
  assumes "route_inv s" "finished_inv s"
  shows "route_inv (clear sid s) \<and> finished_inv (clear sid s)"
proof (cases "map_of (turns s) sid")
  case None
  then show ?thesis using assms by (simp add: clear_def)
next
  case (Some a)
  let ?t = "terminate_all a (cancel_cleanup a s)"
  have c: "route_inv (cancel_cleanup a s)" "finished_inv (cancel_cleanup a s)" using assms by (simp_all add: route_congs)
  have t: "route_inv ?t" "finished_inv ?t" using c route_inv_terminate finished_inv_terminate by blast+
  have "clear sid s = ?t\<lparr>turns := AList.delete sid (turns ?t)\<rparr>"
    using Some by (simp add: clear_def cancel_turns terminate_all_turns)
  moreover have "route_inv (?t\<lparr>turns := AList.delete sid (turns ?t)\<rparr>)"
    by (rule route_inv_remove_turn [OF t(1), of sid a]) (use Some terminate_sentinels [OF c(1)] in simp_all)
  ultimately show ?thesis using finished_inv_remove_turn [OF t(2)] by simp
qed

definition terminate_turns :: "(string \<times> nat) list \<Rightarrow> store \<Rightarrow> store" where
  "terminate_turns ts s = fold (\<lambda>(sid, a) s. terminate_all a (cancel_cleanup a s)) ts s"

lemma terminate_keeps_sentinel: "Sentinel \<in> set (queues s q) \<Longrightarrow> Sentinel \<in> set (queues (terminate_all a s) q)"
proof -
  assume "Sentinel \<in> set (queues s q)"
  then have "Sentinel \<in> set (queues (fold (\<lambda>q. upd_queue q terminate) qs s) q)" for qs
    by (induction qs arbitrary: s) (simp_all add: upd_queue_def)
  then show ?thesis by (simp add: terminate_all_def)
qed

lemma terminate_turns_inv:
  assumes "route_inv s" "finished_inv s"
  shows "route_inv (terminate_turns ts s) \<and> finished_inv (terminate_turns ts s) \<and> turns (terminate_turns ts s) = turns s \<and>
    (\<forall>a. subs (terminate_turns ts s) a = subs s a) \<and>
    (\<forall>q. Sentinel \<in> set (queues s q) \<longrightarrow> Sentinel \<in> set (queues (terminate_turns ts s) q)) \<and>
    (\<forall>a \<in> snd ` set ts. \<forall>q \<in> set (subs s a). Sentinel \<in> set (queues (terminate_turns ts s) q))"
  using assms
proof (induction ts arbitrary: s)
  case Nil
  then show ?case by (simp add: terminate_turns_def)
next
  case (Cons e ts)
  obtain sid a where e: "e = (sid, a)" by (cases e)
  let ?s = "terminate_all a (cancel_cleanup a s)"
  have c: "route_inv (cancel_cleanup a s)" "finished_inv (cancel_cleanup a s)" using Cons.prems by (simp_all add: route_congs)
  have t: "route_inv ?s" "finished_inv ?s" using c route_inv_terminate finished_inv_terminate by blast+
  have q: "queues (cancel_cleanup a s) = queues s" using routing_eqD(4) [OF routing_cancel] .
  have "terminate_turns (e # ts) s = terminate_turns ts ?s" by (simp add: terminate_turns_def e)
  moreover have "Sentinel \<in> set (queues ?s q)" if "Sentinel \<in> set (queues s q)" for q
    using that terminate_keeps_sentinel [of "cancel_cleanup a s" q a] by (simp add: q)
  moreover have "Sentinel \<in> set (queues ?s q)" if "q \<in> set (subs s a)" for q
    using that terminate_sentinels [OF c(1), of q a] by simp
  ultimately show ?case using Cons.IH [OF t] e by auto
qed

lemma close_inv [inv_intros]:
  assumes "route_inv s" "finished_inv s"
  shows "route_inv (close s) \<and> finished_inv (close s)"
proof -
  let ?t = "terminate_turns (turns s) s"
  note T = terminate_turns_inv [OF assms, of "turns s"]
  have eq: "close s = ?t\<lparr>turns := []\<rparr>" by (simp add: close_def terminate_turns_def)
  note D = route_invD [of ?t]
  have "route_inv (?t\<lparr>turns := []\<rparr>)"
  proof (rule route_inv_turns)
    show "served (?t\<lparr>turns := []\<rparr>) c a" if "ckey ?t c = Some (a, q, True)" for c a q
      using D(9) [of c a q] T that by (auto simp: served_def live_def)
  qed (use T in simp_all)
  moreover have "finished_inv (?t\<lparr>turns := []\<rparr>)" by (simp add: finished_inv_def live_def)
  ultimately show ?thesis by (simp add: eq)
qed


lemma commit_inv [inv_intros]:
  "route_inv s \<Longrightarrow> finished_inv s \<Longrightarrow> route_inv (commit_agent_content sid agent s) \<and> finished_inv (commit_agent_content sid agent s)"
  by (simp add: commit_agent_content_def route_inv_upd_state finished_inv_upd_state split: option.split)

lemma attach_open_inv [inv_intros]:
  assumes inv: "route_inv s" "finished_inv s"
  shows "route_inv (attach_open sid s) \<and> finished_inv (attach_open sid s)"
proof (cases "\<exists>a. map_of (turns s) sid = Some a \<and> is_streaming (states s a)")
  case False
  then show ?thesis using inv by (auto simp: attach_open_def split: option.splits)
next
  case True
  then obtain a where a: "map_of (turns s) sid = Some a" "is_streaming (states s a)" by blast
  let ?s = "attach_open sid s" and ?q = "next_queue s"
  note D = route_invD [OF inv(1)]
  have turns: "turns ?s = turns s" and subs: "subs ?s b = (if b = a then subs s a @ [?q] else subs s b)"
    and str: "is_streaming (states ?s b) = is_streaming (states s b)" and nq: "next_queue ?s = Suc ?q" "next_addr ?s = next_addr s"
    and qs: "queues ?s = (queues s)(?q := [])" and key: "ckey ?s = (ckey s)(?q \<mapsto> (a, ?q, True))" for b
    using a by (auto simp: attach_open_def upd_state_def Let_def ckey_def fun_eq_iff)
  have lv: "live ?s = live s" using turns by (simp add: live_def fun_eq_iff)
  have la: "live s a" using map_of_SomeD [OF a(1)] by (force simp: live_def)
  have new: "?q \<notin> set (subs s b)" for b using D(7) [of ?q b] D(8) [of ?q b ?q True] by auto
  have "route_inv ?s"
  proof (rule route_invI)
    show "served ?s c b" if "ckey ?s c = Some (b, q, True)" for c b q
      using that D(9) [of c b q] la by (cases "c = ?q") (auto simp: served_def key subs lv qs)
    show "ckey ?s q = Some (b, q, True)" if "q \<in> set (subs ?s b)" for b q
      using that D(7) [of q b] new [of b] by (auto simp: key subs split: if_splits)
    show "q = c \<and> c < next_queue ?s \<and> b < next_addr ?s" if "ckey ?s c = Some (b, q, x)" for c b q x
      using that D(8) [of c b q x] D(3) [OF la] by (auto simp: key nq split: if_splits)
    show "distinct (subs ?s b)" for b by (cases "b = a") (simp_all add: subs D(5) new)
    show "subs ?s b = []" if "next_addr ?s \<le> b" for b using that D(6) [of b] D(3) [OF la] by (auto simp: subs nq)
    show "length (queues ?s q) \<le> QUEUE_SIZE" for q using D(4) [of q] by (simp add: qs)
  qed (use D(1-3) in \<open>simp_all add: turns lv nq\<close>)
  moreover have "finished_inv ?s"
    using inv(2) new a(2) by (auto simp: finished_inv_def lv str subs qs split: if_splits)
  ultimately show ?thesis by blast
qed

lemma attach_replay_inv [inv_intros]:
  assumes "route_inv s" "finished_inv s"
  shows "route_inv (attach_replay c s) \<and> finished_inv (attach_replay c s)"
proof -
  have "routing (attach_replay c s) = routing s"
    by (auto simp: attach_replay_def routing_def fun_eq_iff split: option.split)
  then show ?thesis using assms route_inv_cong finished_inv_cong by blast
qed

lemma attach_close_inv [inv_intros]:
  assumes inv: "route_inv s" "finished_inv s"
  shows "route_inv (attach_close c s) \<and> finished_inv (attach_close c s)"
proof (cases "clients s c")
  case None
  then show ?thesis using inv by (simp add: attach_close_def)
next
  case (Some cl)
  let ?s = "attach_close c s" and ?a = "cl_addr cl"
  note D = route_invD [OF inv(1)]
  have cq: "cl_queue cl = c" using D(8) [of c ?a "cl_queue cl" "cl_open cl"] Some by (simp add: ckey_def)
  have turns: "turns ?s = turns s" and subs: "subs ?s b = (if b = ?a then remove1 c (subs s ?a) else subs s b)"
    and str: "is_streaming (states ?s b) = is_streaming (states s b)" and nq: "next_queue ?s = next_queue s" "next_addr ?s = next_addr s"
    and qs: "queues ?s = queues s" and key: "ckey ?s = (ckey s)(c \<mapsto> (?a, c, False))" for b
    using Some cq by (auto simp: attach_close_def upd_state_def ckey_def fun_eq_iff)
  have lv: "live ?s = live s" using turns by (simp add: live_def fun_eq_iff)
  have sub': "set (subs ?s b) = set (subs s b) - (if b = ?a then {c} else {})" for b
    by (cases "b = ?a") (simp_all add: subs set_remove1_eq [OF D(5)])
  have other: "c \<notin> set (subs s b)" if "b \<noteq> ?a" for b using D(7) [of c b] that Some by (auto simp: ckey_def)
  have "route_inv ?s"
  proof (rule route_invI)
    show "served ?s d b" if "ckey ?s d = Some (b, q, True)" for d b q
      using that D(9) [of d b q] sub' [of b] by (cases "d = c") (auto simp: served_def key lv qs)
    show "ckey ?s q = Some (b, q, True)" if "q \<in> set (subs ?s b)" for b q
      using that D(7) [of q b] sub' [of b] other [of b] by (auto simp: key split: if_splits)
    show "q = d \<and> d < next_queue ?s \<and> b < next_addr ?s" if "ckey ?s d = Some (b, q, x)" for d b q x
      using that D(8) [of d b q x] D(8) [of c ?a c "cl_open cl"] Some cq by (auto simp: key nq ckey_def split: if_splits)
    show "distinct (subs ?s b)" for b using D(5) [of b] by (auto simp: subs)
    show "subs ?s b = []" if "next_addr ?s \<le> b" for b using that D(6) [of b] by (auto simp: subs nq)
  qed (use D(1-4) in \<open>simp_all add: turns lv nq qs\<close>)
  moreover have "finished_inv ?s" using inv(2) sub' by (auto simp: finished_inv_def lv str qs)
  ultimately show ?thesis by blast
qed

lemma attach_get_inv [inv_intros]:
  assumes inv: "route_inv s" "finished_inv s"
  shows "route_inv (attach_get c s) \<and> finished_inv (attach_get c s)"
proof (cases "clients s c")
  case None
  then show ?thesis using inv by (simp add: attach_get_def)
next
  case (Some cl)
  have cq: "cl_queue cl = c" using route_invD(8) [OF inv(1), of c "cl_addr cl" "cl_queue cl" "cl_open cl"] Some by (simp add: ckey_def)
  show ?thesis
  proof (cases "queues s c")
    case Nil
    then show ?thesis using inv Some cq by (simp add: attach_get_def)
  next
    case (Cons it xs)
    show ?thesis
    proof (cases it)
      case Sentinel
      \<comment> \<open>closing first commutes with taking the sentinel off\<close>
      have eq: "attach_get c s = (attach_close c s)\<lparr>queues := (queues s)(c := xs)\<rparr>"
        using Some cq Cons Sentinel by (simp add: attach_get_def attach_close_def upd_queue_def upd_state_def)
      have c: "route_inv (attach_close c s)" "finished_inv (attach_close c s)" using attach_close_inv [OF inv] by auto
      note D = route_invD [OF c(1)]
      have key: "ckey (attach_close c s) c = Some (cl_addr cl, c, False)" and qs: "queues (attach_close c s) = queues s"
        using Some cq by (simp_all add: attach_close_def ckey_def upd_state_def)
      have notsub: "c \<notin> set (subs (attach_close c s) b)" for b using D(7) [of c b] key by auto
      let ?s = "(attach_close c s)\<lparr>queues := (queues s)(c := xs)\<rparr>"
      have k: "ckey ?s = ckey (attach_close c s)" and lv: "live ?s = live (attach_close c s)"
        by (simp_all add: ckey_def live_def fun_eq_iff)
      have "route_inv ?s"
      proof (rule route_invI)
        show "served ?s d b" if "ckey ?s d = Some (b, q, True)" for d b q
          using that D(9) [of d b q] key by (cases "d = c") (auto simp: served_def k lv qs)
        show "length (queues ?s q) \<le> QUEUE_SIZE" for q
          using route_invD(4) [OF inv(1), of q] Cons by (cases "q = c") auto
        show "ckey ?s q = Some (b, q, True)" if "q \<in> set (subs ?s b)" for b q using D(7) [of q b] that k by simp
        show "q = d \<and> d < next_queue ?s \<and> b < next_addr ?s" if "ckey ?s d = Some (b, q, x)" for d b q x
          using D(8) [of d b q x] that k by simp
        show "subs ?s b = []" if "next_addr ?s \<le> b" for b using D(6) [of b] that by simp
      qed (use D(1-3,5) in \<open>simp_all add: lv\<close>)
      moreover have "finished_inv ?s"
        using c(2) notsub by (auto simp: finished_inv_def lv qs)
      ultimately show ?thesis by (simp add: eq)
    next
      case (Wire ev)
      let ?f = "(queues s)(c := xs)"
      have "routing (attach_get c s) = routing (s\<lparr>queues := ?f\<rparr>)"
        using Some cq Cons Wire by (auto simp: attach_get_def upd_queue_def routing_def fun_eq_iff)
      moreover have "route_inv (s\<lparr>queues := ?f\<rparr>)"
      proof (rule route_inv_queues [OF inv(1)])
        show "length (?f q) \<le> QUEUE_SIZE" for q using route_invD(4) [OF inv(1), of q] Cons by (cases "q = c") auto
      qed (use Cons Wire in \<open>auto split: if_splits\<close>)
      moreover have "finished_inv (s\<lparr>queues := ?f\<rparr>)"
        by (rule finished_inv_queues [OF inv(2)]) (use Cons Wire in \<open>auto split: if_splits\<close>)
      ultimately show ?thesis using route_inv_cong finished_inv_cong by blast
    qed
  qed
qed

subsection \<open>Expiry and the reachable stores\<close>

lemma expire_turn_inv:
  assumes inv: "route_inv s" "finished_inv s"
  shows "route_inv (expire_turn sid a s) \<and> finished_inv (expire_turn sid a s)"
proof -
  let ?s = "upd_state a (cleanup_handle_update (\<lambda>_. None)) s"
  have eq: "routing ?s = routing s" by (simp add: routing_upd_state)
  have i: "route_inv ?s" "finished_inv ?s" using inv route_inv_cong [OF eq] finished_inv_cong [OF eq] by simp_all
  note R = routing_eqD [OF eq]
  have "route_inv (?s\<lparr>turns := AList.delete sid (turns ?s)\<rparr>)"
    if "map_of (turns s) sid = Some a" "\<not> (is_streaming (states ?s a) \<and> subs ?s a \<noteq> [])"
  proof (rule route_inv_remove_turn [OF i(1)])
    show "map_of (turns ?s) sid = Some a" using that(1) R(1) by simp
    then have "live ?s a" by (force simp: live_def dest: map_of_SomeD)
    then show "Sentinel \<in> set (queues ?s q)" if "q \<in> set (subs ?s a)" for q
      using i(2) that \<open>\<not> (is_streaming (states ?s a) \<and> subs ?s a \<noteq> [])\<close> by (cases "subs ?s a") (auto simp: finished_inv_def)
  qed
  moreover have "finished_inv (?s\<lparr>turns := AList.delete sid (turns ?s)\<rparr>)" using i(2) by (rule finished_inv_remove_turn)
  moreover have "route_inv (upd_state a clear_replay_payload ?s)" "finished_inv (upd_state a clear_replay_payload ?s)"
    using i by (simp_all add: route_inv_upd_state finished_inv_upd_state)
  ultimately show ?thesis using inv by (simp add: expire_turn_def Let_def route_congs)
qed

lemma fire_inv [inv_intros]:
  assumes "route_inv s" "finished_inv s"
  shows "route_inv (fire h s) \<and> finished_inv (fire h s)"
  using assms expire_turn_inv [of "s\<lparr>timers := (timers s)(h := None)\<rparr>"]
    route_inv_cong [OF routing_timers(1)] finished_inv_cong [OF routing_timers(1)]
  by (simp add: fire_def split: option.split)

abbreviation stream_again :: "nat \<Rightarrow> store \<Rightarrow> store" where
  "stream_again a \<equiv> upd_state a (is_streaming_update (\<lambda>_. True))"

lemma finished_but_streaming: "finished_but (Some a) s \<longleftrightarrow> finished_inv (stream_again a s)"
  by (auto simp: finished_but_def finished_inv_def upd_state_def live_def)

lemma finished_inv_again:
  assumes "finished_inv s" "\<And>st. subscribers (f st) = subscribers st"
  shows "finished_inv (stream_again a (upd_state a f s))"
  unfolding finished_inv_def
proof (intro allI impI ballI)
  fix b q
  assume "live (stream_again a (upd_state a f s)) b" "\<not> is_streaming (states (stream_again a (upd_state a f s)) b)"
    "q \<in> set (subs (stream_again a (upd_state a f s)) b)"
  then have "live s b" "\<not> is_streaming (states s b)" "q \<in> set (subs s b)"
    by (auto simp: upd_state_def live_def split: if_splits)
  then show "Sentinel \<in> set (queues (stream_again a (upd_state a f s)) q)"
    using assms(1) by (simp add: finished_inv_def upd_state_def)
qed

lemma fan_out_streaming: "fan_out ev a (stream_again a s) = stream_again a (fan_out ev a s)"
proof -
  have "fan_out_one ev a q (stream_again a s) = stream_again a (fan_out_one ev a q s)" for q s
    by (cases "states s a") (simp add: fan_out_one_def upd_state_def upd_queue_def)
  then have "fold (fan_out_one ev a) qs (stream_again a s) = stream_again a (fold (fan_out_one ev a) qs s)" for qs
    by (induction qs arbitrary: s) simp_all
  then show ?thesis by (simp add: fan_out_def upd_state_def)
qed

lemma fan_out_turns [simp]: "turns (fan_out ev a s) = turns s"
proof -
  have "turns (fold (fan_out_one ev a) qs s) = turns s" for qs
    by (induction qs arbitrary: s) (simp_all add: fan_out_one_def upd_state_def upd_queue_def)
  then show ?thesis by (simp add: fan_out_def)
qed

lemma finish_inv [inv_intros]:
  assumes inv: "route_inv s" "finished_inv s"
  shows "route_inv (mark_done sid (push_event sid DoneEv create s)) \<and> finished_inv (mark_done sid (push_event sid DoneEv create s))"
proof -
  let ?e = "if map_of (turns s) sid = None \<and> create then ensure_turn sid s else s"
  have e: "route_inv ?e" "finished_inv ?e" using inv ensure_turn_inv by auto
  let ?p = "push_event sid DoneEv create s"
  have r: "route_inv ?p" using push_event_inv(1) [OF inv] .
  have "finished_but (map_of (turns ?p) sid) ?p"
  proof (cases "map_of (turns ?e) sid")
    case None
    then have "?p = ?e" by (simp add: push_event_def push_existing_def)
    then show ?thesis using e(2) finished_inv_but by metis
  next
    case (Some a)
    let ?u = "upd_state a (update_state DoneEv) ?e"
    let ?r = "refresh_cleanup sid a ?u"
    have p: "?p = fan_out DoneEv a ?r" using Some by (simp add: push_event_def push_existing_def)
    have rt: "routing (stream_again a ?r) = routing (stream_again a ?u)"
      using routing_refresh [of sid a ?u] by (auto simp: routing_def upd_state_def fun_eq_iff)
    have "finished_inv (stream_again a ?u)"
      using e(2) by (rule finished_inv_again) simp
    moreover have "route_inv (stream_again a ?r)" using e(1) by (simp add: route_inv_upd_state route_congs)
    ultimately have "finished_inv (fan_out DoneEv a (stream_again a ?r))"
      using fan_out_inv finished_inv_cong [OF rt] by blast
    moreover have "turns ?p = turns ?e" using routing_eqD(1) [OF routing_refresh [of sid a ?u]] by (simp add: p upd_state_def)
    ultimately show ?thesis using Some p by (simp add: fan_out_streaming finished_but_streaming)
  qed
  then show ?thesis using mark_done_finished [OF r] mark_done_route [OF r] by blast
qed

lemma store_step_inv:
  assumes "store_step s s'" "route_inv s" "finished_inv s"
  shows "route_inv s' \<and> finished_inv s'"
  using assms
proof (induction rule: store_step.induct)
  case (step_time s t)
  then show ?case using route_inv_cong [OF routing_timers(3)] finished_inv_cong [OF routing_timers(3)] by simp
next
  case (step_init s sid keep)
  then show ?case using init_turn_inv by blast
next
  case (step_ensure s sid)
  then show ?case using ensure_turn_inv by blast
next
  case (step_push ev s sid create)
  then show ?case using push_event_inv by blast
next
  case (step_finish s sid create)
  then show ?case using finish_inv by blast
next
  case (step_mark_done s sid)
  then show ?case using mark_done_route mark_done_finished finished_inv_but by blast
next
  case (step_commit s sid agent)
  then show ?case using commit_inv by blast
next
  case (step_clear s sid)
  then show ?case using clear_inv by blast
next
  case (step_close s)
  then show ?case using close_inv by blast
next
  case (step_attach s sid)
  then show ?case using attach_open_inv by blast
next
  case (step_replay s c cl)
  then show ?case using attach_replay_inv by blast
next
  case (step_get s c cl)
  then show ?case using attach_get_inv by blast
next
  case (step_disconnect s c cl)
  then show ?case using attach_close_inv by blast
next
  case (step_fire s h t)
  then show ?case using fire_inv by blast
qed

lemma empty_store_inv: "route_inv empty_store" "finished_inv empty_store"
  by (simp_all add: empty_store_def route_inv_def finished_inv_def live_def ckey_def new_turn_state_def)

interpretation stream_routes: reachable_invariant store_step "\<lambda>s. route_inv s \<and> finished_inv s" empty_store
  using store_step_inv empty_store_inv by unfold_locales blast+

lemma store_reach_inv: "store_reach s \<Longrightarrow> route_inv s \<and> finished_inv s"
  by (rule stream_routes.reachable_inv [OF store_reach_run])

end
