(* ===== verification/StreamTimers.thy ===== *)
theory StreamTimers
  imports StreamStore
begin

text \<open>
  The expiry timers of the stream store: every turn the store knows has exactly one pending timer,
  due no later than \<open>_MAX_TURN_LIFETIME\<close> after the turn's payload was last started, and every
  pending timer belongs to the handle its turn state records. With the routing invariant this gives
  the bounds and the safety properties of the store.
\<close>

section \<open>The invariant\<close>

definition timed :: "store \<Rightarrow> string \<Rightarrow> nat \<Rightarrow> bool" where
  "timed s sid a \<longleftrightarrow> (\<exists>h t. cleanup_handle (states s a) = Some h \<and> timers s h = Some t \<and>
     tm_session t = sid \<and> tm_addr t = a \<and> now s \<le> tm_due t \<and>
     tm_due t \<le> created_at (states s a) + MAX_TURN_LIFETIME)"

definition aged :: "store \<Rightarrow> nat \<Rightarrow> bool" where
  "aged s a \<longleftrightarrow> created_at (states s a) \<le> now s \<and>
     cleanup_deadline (states s a) \<le> created_at (states s a) + MAX_TURN_LIFETIME"

definition owned :: "store \<Rightarrow> bool" where
  "owned s \<longleftrightarrow> (\<forall>h t. timers s h = Some t \<longrightarrow>
     tm_addr t < next_addr s \<and> cleanup_handle (states s (tm_addr t)) = Some h) \<and>
     (\<forall>a h. cleanup_handle (states s a) = Some h \<longrightarrow> h < next_timer s) \<and>
     (\<forall>a b h. cleanup_handle (states s a) = Some h \<longrightarrow> cleanup_handle (states s b) = Some h \<longrightarrow> a = b)"

definition timer_but :: "nat set \<Rightarrow> store \<Rightarrow> bool" where
  "timer_but X s \<longleftrightarrow> owned s \<and> (\<forall>(sid, a) \<in> set (turns s). a \<notin> X \<longrightarrow> timed s sid a \<and> aged s a)"

abbreviation timer_inv :: "store \<Rightarrow> bool" where
  "timer_inv \<equiv> timer_but {}"

lemma timer_butI:
  "owned s \<Longrightarrow> (\<And>sid a. (sid, a) \<in> set (turns s) \<Longrightarrow> a \<notin> X \<Longrightarrow> timed s sid a \<and> aged s a) \<Longrightarrow> timer_but X s"
  by (auto simp: timer_but_def)

lemma timer_butD:
  assumes "timer_but X s"
  shows "owned s" "(sid, a) \<in> set (turns s) \<Longrightarrow> a \<notin> X \<Longrightarrow> timed s sid a" "(sid, a) \<in> set (turns s) \<Longrightarrow> a \<notin> X \<Longrightarrow> aged s a"
  using assms by (auto simp: timer_but_def)

lemma ownedI:
  assumes "\<And>h t. timers s h = Some t \<Longrightarrow> tm_addr t < next_addr s"
    and "\<And>h t. timers s h = Some t \<Longrightarrow> cleanup_handle (states s (tm_addr t)) = Some h"
    and "\<And>a h. cleanup_handle (states s a) = Some h \<Longrightarrow> h < next_timer s"
    and "\<And>a b h. cleanup_handle (states s a) = Some h \<Longrightarrow> cleanup_handle (states s b) = Some h \<Longrightarrow> a = b"
  shows "owned s"
  unfolding owned_def using assms by (intro conjI allI impI) blast+

lemma ownedD:
  assumes "owned s"
  shows "timers s h = Some t \<Longrightarrow> tm_addr t < next_addr s"
    and "timers s h = Some t \<Longrightarrow> cleanup_handle (states s (tm_addr t)) = Some h"
    and "cleanup_handle (states s a) = Some h \<Longrightarrow> h < next_timer s"
    and "cleanup_handle (states s a) = Some h \<Longrightarrow> cleanup_handle (states s b) = Some h \<Longrightarrow> a = b"
  using assms unfolding owned_def by blast+

lemma timer_but_mono: "timer_but X s \<Longrightarrow> X \<subseteq> Y \<Longrightarrow> timer_but Y s"
  by (auto simp: timer_but_def)

text \<open>What the operations on queues and clients leave alone.\<close>

definition timing :: "store \<Rightarrow> (string \<times> nat) list \<times> (nat \<Rightarrow> nat option \<times> int \<times> int) \<times> (nat \<Rightarrow> timer option) \<times> nat \<times> nat \<times> int" where
  "timing s = (turns s, \<lambda>a. (cleanup_handle (states s a), cleanup_deadline (states s a), created_at (states s a)),
     timers s, next_addr s, next_timer s, now s)"

lemma timing_eqD:
  assumes "timing s = timing s'"
  shows "turns s = turns s'" "\<And>a. cleanup_handle (states s a) = cleanup_handle (states s' a)"
    "\<And>a. cleanup_deadline (states s a) = cleanup_deadline (states s' a)" "\<And>a. created_at (states s a) = created_at (states s' a)"
    "timers s = timers s'" "next_addr s = next_addr s'" "next_timer s = next_timer s'" "now s = now s'"
  using assms by (auto simp: timing_def fun_eq_iff)

lemma timer_but_cong: "timing s = timing s' \<Longrightarrow> timer_but X s = timer_but X s'"
  using timing_eqD [of s s'] unfolding timer_but_def owned_def timed_def aged_def by simp

lemma timing_upd_state:
  "(\<And>st. cleanup_handle (f st) = cleanup_handle st \<and> cleanup_deadline (f st) = cleanup_deadline st \<and> created_at (f st) = created_at st) \<Longrightarrow>
     timing (upd_state a f s) = timing s"
  by (auto simp: timing_def upd_state_def fun_eq_iff)

lemma timing_queues [simp]: "timing (upd_queue q f s) = timing s" "timing (s\<lparr>queues := x\<rparr>) = timing s"
    "timing (s\<lparr>clients := y\<rparr>) = timing s" "timing (s\<lparr>next_queue := n\<rparr>) = timing s"
  by (simp_all add: timing_def)

lemma timing_update_state [simp]: "timing (upd_state a (update_state ev) s) = timing s"
  by (rule timing_upd_state) (cases ev; simp add: Let_def)

lemma timing_payload [simp]:
  "timing (upd_state a reset_for_next_turn s) = timing s" "timing (upd_state a clear_replay_payload s) = timing s"
  "timing (upd_state a (commit_content agent) s) = timing s" "timing (upd_state a (is_streaming_update g) s) = timing s"
  "timing (upd_state a (\<lambda>st. st\<lparr>subscribers := k st\<rparr>) s) = timing s"
  by (rule timing_upd_state; simp add: reset_for_next_turn_def clear_replay_payload_def commit_content_def)+

lemma timing_terminate_all [simp]: "timing (terminate_all a s) = timing s"
proof -
  have "timing (fold (\<lambda>q. upd_queue q terminate) qs s) = timing s" for qs
    by (induction qs arbitrary: s) simp_all
  then show ?thesis by (simp add: terminate_all_def)
qed

lemma timing_fan_out [simp]: "timing (fan_out ev a s) = timing s"
proof -
  have "timing (fan_out_one ev a q s) = timing s" for q s by (simp add: fan_out_one_def)
  then have "timing (fold (fan_out_one ev a) qs s) = timing s" for qs
    by (induction qs arbitrary: s) simp_all
  then show ?thesis by (simp add: fan_out_def)
qed

lemma timing_attach [simp]:
  "timing (attach_open sid s) = timing s" "timing (attach_replay c s) = timing s"
  "timing (attach_close c s) = timing s" "timing (attach_get c s) = timing s"
proof -
  show cl: "timing (attach_close c s) = timing s" for s by (simp add: attach_close_def split: option.split)
  show "timing (attach_get c s) = timing s" by (simp add: attach_get_def cl split: option.split list.split item.split)
  show "timing (attach_open sid s) = timing s"
    by (auto simp: attach_open_def timing_def upd_state_def Let_def fun_eq_iff split: option.split)
qed (simp add: attach_replay_def split: option.split)

section \<open>The timer operations\<close>

lemma cancel_timers:
  assumes "timer_but X s"
  shows "timer_but (insert a X) (cancel_cleanup a s)" "cleanup_handle (states (cancel_cleanup a s) a) = None"
proof -
  show "cleanup_handle (states (cancel_cleanup a s) a) = None"
    by (simp add: cancel_cleanup_def upd_state_def split: option.split)
  show "timer_but (insert a X) (cancel_cleanup a s)"
  proof (cases "cleanup_handle (states s a)")
    case None
    then show ?thesis using assms timer_but_mono by (simp add: cancel_cleanup_def) blast
  next
    case (Some h)
    note O = ownedD [OF timer_butD(1) [OF assms]]
    let ?s = "upd_state a (cleanup_handle_update (\<lambda>_. None)) (s\<lparr>timers := (timers s)(h := None)\<rparr>)"
    have "timer_but (insert a X) ?s"
    proof (rule timer_butI)
      show "owned ?s"
      proof (rule ownedI)
        show "cleanup_handle (states ?s (tm_addr t)) = Some k" if tk: "timers ?s k = Some t" for k t
        proof -
          have k: "k \<noteq> h" "timers s k = Some t" using tk by (simp_all add: upd_state_def split: if_splits)
          then have "tm_addr t \<noteq> a" using O(2) [OF k(2)] Some by auto
          then show ?thesis using O(2) [OF k(2)] by (simp add: upd_state_def)
        qed
        show "tm_addr t < next_addr ?s" if "timers ?s k = Some t" for k t
          using that O(1) [of k t] by (simp add: upd_state_def split: if_splits)
        show "k < next_timer ?s" if "cleanup_handle (states ?s b) = Some k" for b k
          using that O(3) [of b k] by (simp add: upd_state_def split: if_splits)
        show "b = c" if "cleanup_handle (states ?s b) = Some k" "cleanup_handle (states ?s c) = Some k" for b c k
          using that O(4) [of b k c] by (simp add: upd_state_def split: if_splits)
      qed
    next
      fix sid b
      assume "(sid, b) \<in> set (turns ?s)" "b \<notin> insert a X"
      then have b: "(sid, b) \<in> set (turns s)" "b \<noteq> a" "b \<notin> X" by (simp_all add: upd_state_def)
      have "cleanup_handle (states s b) \<noteq> Some h" using O(4) [OF Some] b(2) by blast
      moreover have "states ?s b = states s b" "timers ?s = (timers s)(h := None)" "now ?s = now s"
        using b(2) by (simp_all add: upd_state_def)
      ultimately show "timed ?s sid b \<and> aged ?s b"
        using timer_butD(2,3) [OF assms b(1,3)] unfolding timed_def aged_def by auto
    qed
    then show ?thesis using Some by (simp add: cancel_cleanup_def)
  qed
qed

text \<open>A timer set for a turn without one.\<close>

lemma call_later_timers:
  assumes inv: "timer_but (insert a X) s" and none: "\<And>h t. timers s h = Some t \<Longrightarrow> tm_addr t \<noteq> a" and a: "a < next_addr s"
    and sid: "\<And>sd. (sd, a) \<in> set (turns s) \<Longrightarrow> sd = sid" and d: "0 \<le> d" "now s + d \<le> created_at (states s a) + MAX_TURN_LIFETIME"
    and ag: "aged s a"
  shows "timer_but X (call_later d sid a s)"
proof -
  note O = ownedD [OF timer_butD(1) [OF inv]]
  let ?n = "next_timer s" and ?s = "call_later d sid a s"
  have F: "turns ?s = turns s" "cleanup_handle (states ?s b) = (if b = a then Some ?n else cleanup_handle (states s b))"
    "cleanup_deadline (states ?s b) = cleanup_deadline (states s b)" "created_at (states ?s b) = created_at (states s b)"
    "timers ?s = (timers s)(?n \<mapsto> \<lparr>tm_due = now s + d, tm_session = sid, tm_addr = a\<rparr>)" "next_timer ?s = Suc ?n"
    "next_addr ?s = next_addr s" "now ?s = now s" for b
    by (simp_all add: call_later_def upd_state_def)
  have lt: "k < ?n" if "timers s k = Some t" for k t using O(2,3) that by blast
  show ?thesis
  proof (rule timer_butI)
    show "owned ?s"
    proof (rule ownedI)
      show "tm_addr t < next_addr ?s" if "timers ?s k = Some t" for k t
        using that O(1) [of k t] a by (auto simp: F split: if_splits)
      show "cleanup_handle (states ?s (tm_addr t)) = Some k" if "timers ?s k = Some t" for k t
        using that O(2) [of k t] none [of k t] by (auto simp: F split: if_splits)
      show "k < next_timer ?s" if "cleanup_handle (states ?s b) = Some k" for b k
        using that O(3) [of b k] by (auto simp: F split: if_splits)
      show "b = c" if "cleanup_handle (states ?s b) = Some k" "cleanup_handle (states ?s c) = Some k" for b c k
        using that O(4) [of b k c] O(3) [of b k] O(3) [of c k] by (auto simp: F split: if_splits)
    qed
  next
    fix sd b
    assume b: "(sd, b) \<in> set (turns ?s)" "b \<notin> X"
    show "timed ?s sd b \<and> aged ?s b"
    proof (cases "b = a")
      case True
      moreover have "sd = sid" using sid b(1) True by (simp add: F)
      ultimately show ?thesis using d ag by (auto simp: timed_def aged_def F)
    next
      case False
      then have old: "timed s sd b" "aged s b" using timer_butD(2,3) [OF inv] b by (auto simp: F)
      moreover have "cleanup_handle (states s b) \<noteq> Some ?n" using O(3) [of b ?n] by auto
      ultimately show ?thesis using False by (auto simp: timed_def aged_def F)
    qed
  qed
qed

lemma cancel_next [simp]: "next_addr (cancel_cleanup a s) = next_addr s" "now (cancel_cleanup a s) = now s"
  by (simp_all add: cancel_cleanup_def upd_state_def split: option.split)

lemma schedule_timers:
  assumes inv: "timer_but (insert a X) s" and a: "a < next_addr s" and sid: "\<And>sd. (sd, a) \<in> set (turns s) \<Longrightarrow> sd = sid"
  shows "timer_but X (schedule_cleanup sid a s)"
proof -
  let ?c = "cancel_cleanup a s"
  let ?u = "upd_state a (\<lambda>st. st\<lparr>created_at := now ?c, cleanup_deadline := now ?c + STREAM_TTL\<rparr>) ?c"
  note C = cancel_timers [OF inv, of a]
  note O = ownedD [OF timer_butD(1) [OF C(1)]]
  have f: "turns ?u = turns s" "next_addr ?u = next_addr s"
    by (simp_all add: upd_state_def cancel_cleanup_def split: option.split)
  have "timer_but (insert a X) ?u"
  proof (rule timer_butI)
    show "owned ?u" using O by (intro ownedI) (auto simp: upd_state_def split: if_splits)
    show "timed ?u sd b \<and> aged ?u b" if "(sd, b) \<in> set (turns ?u)" "b \<notin> insert a X" for sd b
      using timer_butD(2,3) [OF C(1), of sd b] that by (auto simp: timed_def aged_def upd_state_def)
  qed
  moreover have "tm_addr t \<noteq> a" if "timers ?u h = Some t" for h t
    using O(2) [of h t] C(2) that by (auto simp: upd_state_def)
  moreover have "aged ?u a" by (simp add: aged_def upd_state_def STREAM_TTL_def MAX_TURN_LIFETIME_def)
  ultimately show ?thesis
    unfolding schedule_cleanup_def Let_def
    by (intro call_later_timers) (simp_all add: f a sid upd_state_def STREAM_TTL_def MAX_TURN_LIFETIME_def)
qed

lemma refresh_timers:
  assumes inv: "timer_but X s" and a: "(sid, a) \<in> set (turns s)" "a \<notin> X"
  shows "timer_but X (refresh_cleanup sid a s)"
proof -
  let ?u = "upd_state a (\<lambda>st. st\<lparr>cleanup_deadline := min (now s + STREAM_TTL) (created_at st + MAX_TURN_LIFETIME)\<rparr>) s"
  note O = ownedD [OF timer_butD(1) [OF inv]]
  have "timer_but X ?u"
  proof (rule timer_butI)
    show "owned ?u" using O by (intro ownedI) (auto simp: upd_state_def split: if_splits)
    show "timed ?u sd b \<and> aged ?u b" if "(sd, b) \<in> set (turns ?u)" "b \<notin> X" for sd b
      using timer_butD(2,3) [OF inv, of sd b] that by (auto simp: timed_def aged_def upd_state_def)
  qed
  moreover have "cleanup_handle (states ?u a) \<noteq> None" using timer_butD(2) [OF inv a] by (auto simp: timed_def upd_state_def)
  ultimately show ?thesis by (auto simp: refresh_cleanup_def Let_def)
qed


section \<open>The operations of the store\<close>

lemma turn_key_unique: "route_inv s \<Longrightarrow> map_of (turns s) sid = Some a \<Longrightarrow> (sd, a) \<in> set (turns s) \<Longrightarrow> sd = sid"
  using inj_onD [of snd "set (turns s)" "(sd, a)" "(sid, a)"] route_invD(2) [of s] map_of_SomeD [of "turns s" sid a]
  by (simp add: distinct_map)

lemma turn_addr: "route_inv s \<Longrightarrow> map_of (turns s) sid = Some a \<Longrightarrow> a < next_addr s"
  using route_invD(3) [of s a] by (force simp: live_def dest: map_of_SomeD)

lemma route_inv_handles:
  "route_inv s \<Longrightarrow> route_inv (upd_state a (cleanup_handle_update f) s)" "route_inv s \<Longrightarrow> route_inv (cancel_cleanup a s)"
  by (simp_all add: route_inv_upd_state route_congs)

lemma if_cases: "(c \<Longrightarrow> P x) \<Longrightarrow> P y \<Longrightarrow> P z \<Longrightarrow> P (if c then x else if d then y else z)"
  by simp

lemma fire_timers:
  assumes inv: "timer_inv s" "route_inv s" and h: "timers s h = Some t" "tm_due t \<le> now s"
  shows "timer_inv (fire h s)"
proof -
  let ?a = "tm_addr t" and ?sid = "tm_session t" and ?s = "s\<lparr>timers := (timers s)(h := None)\<rparr>"
  note O = ownedD [OF timer_butD(1) [OF inv(1)]]
  have none: "tm_addr t' \<noteq> ?a" if "timers ?s k = Some t'" for k t'
    using that O(2) [of k t'] O(2) [OF h(1)] by (auto split: if_splits)
  have i: "timer_but {?a} ?s"
  proof (rule timer_butI)
    show "owned ?s" by (rule ownedI) (use O in \<open>auto split: if_splits\<close>)
  next
    fix sd b
    assume b: "(sd, b) \<in> set (turns ?s)" "b \<notin> {?a}"
    then have "cleanup_handle (states s b) \<noteq> Some h" using O(4) [OF O(2) [OF h(1)], of b] by auto
    then show "timed ?s sd b \<and> aged ?s b"
      using timer_butD(2,3) [OF inv(1), of sd b] b unfolding timed_def aged_def by auto
  qed
  show ?thesis
  proof (cases "map_of (turns s) ?sid = Some ?a")
    case False
    \<comment> \<open>a timer of a turn that is still known carries that turn's session\<close>
    have "?a \<noteq> b" if "(sd, b) \<in> set (turns s)" for sd b
    proof
      assume e: "?a = b"
      have "timed s sd b" using timer_butD(2) [OF inv(1) that] by simp
      then have "?sid = sd" using O(2) [OF h(1)] h(1) e by (auto simp: timed_def)
      then show False using False that e route_invD(1) [OF inv(2)] by simp
    qed
    then have "timer_inv ?s" using i unfolding timer_but_def by fastforce
    then show ?thesis using h(1) False by (simp add: fire_def expire_turn_def)
  next
    case True
    have a: "?a < next_addr s" using turn_addr [OF inv(2) True] .
    have sid: "sd = ?sid" if "(sd, ?a) \<in> set (turns s)" for sd using turn_key_unique [OF inv(2) True that] .
    have ag: "aged s ?a" using timer_butD(3) [OF inv(1) map_of_SomeD [OF True]] by simp
    let ?n = "upd_state ?a (cleanup_handle_update (\<lambda>_. None)) ?s"
    have n: "timer_but {?a} ?n"
    proof (rule timer_butI)
      show "owned ?n" by (rule ownedI)
          (use ownedD [OF timer_butD(1) [OF i]] none in \<open>auto simp: upd_state_def split: if_splits\<close>)
      show "timed ?n sd b \<and> aged ?n b" if "(sd, b) \<in> set (turns ?n)" "b \<notin> {?a}" for sd b
        using timer_butD(2,3) [OF i, of sd b] that by (simp add: timed_def aged_def upd_state_def)
    qed
    have later: "timer_inv (call_later (cleanup_deadline (states s ?a) - now s) ?sid ?a ?s)"
      if "0 < cleanup_deadline (states s ?a) - now s"
      by (rule call_later_timers [OF i none]) (use that a sid ag in \<open>simp_all add: aged_def\<close>)
    have "timer_but {?a} (upd_state ?a clear_replay_payload ?n)" using n timer_but_cong [OF timing_payload(2)] by blast
    then have keep: "timer_inv (schedule_cleanup ?sid ?a (upd_state ?a clear_replay_payload ?n))"
      by (rule schedule_timers) (use a sid in \<open>simp_all add: upd_state_def\<close>)
    have gone: "timer_inv (?n\<lparr>turns := AList.delete ?sid (turns ?n)\<rparr>)"
    proof (rule timer_butI)
      show "owned (?n\<lparr>turns := AList.delete ?sid (turns ?n)\<rparr>)" using timer_butD(1) [OF n] by (simp add: owned_def)
    next
      fix sd b
      assume "(sd, b) \<in> set (turns (?n\<lparr>turns := AList.delete ?sid (turns ?n)\<rparr>))"
      then have b: "(sd, b) \<in> set (turns s)" "sd \<noteq> ?sid" by (auto simp: upd_state_def AList.delete_eq)
      then have "b \<noteq> ?a" using sid by blast
      then show "timed (?n\<lparr>turns := AList.delete ?sid (turns ?n)\<rparr>) sd b \<and> aged (?n\<lparr>turns := AList.delete ?sid (turns ?n)\<rparr>) b"
        using timer_butD(2,3) [OF n, of sd b] b(1) by (simp add: timed_def aged_def upd_state_def)
    qed
    have "fire h s = (if 0 < cleanup_deadline (states s ?a) - now s then call_later (cleanup_deadline (states s ?a) - now s) ?sid ?a ?s
      else if is_streaming (states ?n ?a) \<and> subs ?n ?a \<noteq> [] then schedule_cleanup ?sid ?a (upd_state ?a clear_replay_payload ?n)
      else ?n\<lparr>turns := AList.delete ?sid (turns ?n)\<rparr>)"
      unfolding fire_def expire_turn_def Let_def using h(1) True by simp
    then show ?thesis by (simp only:) (rule if_cases [of _ timer_inv, OF later keep gone])
  qed
qed

lemma fresh_timers:
  assumes inv: "timer_but X s" "route_inv s" and X: "\<And>a sd. (sd, a) \<in> set (turns s) \<Longrightarrow> a \<in> X \<Longrightarrow> sd = sid"
  shows "timer_inv (fresh_turn sid s)"
proof -
  let ?n = "next_addr s"
  let ?s = "s\<lparr>states := (states s)(?n := new_turn_state), turns := AList.update sid ?n (turns s), next_addr := ?n + 1\<rparr>"
  note O = ownedD [OF timer_butD(1) [OF inv(1)]]
  have mem: "(sd, b) \<in> set (AList.update sid ?n (turns s)) \<Longrightarrow> sd = sid \<and> b = ?n \<or> sd \<noteq> sid \<and> (sd, b) \<in> set (turns s)" for sd b
    using route_invD(1) [OF inv(2)] distinct_update [of "turns s" sid ?n]
    by (metis map_of_eq_Some_iff option.inject update_Some_unfold)
  have lt: "b < ?n" if "(sd, b) \<in> set (turns s)" for sd b using that route_invD(3) [OF inv(2), of b] by (force simp: live_def)
  have "timer_but {?n} ?s"
  proof (rule timer_butI)
    show "owned ?s"
    proof (rule ownedI)
      show "tm_addr t < next_addr ?s" if "timers ?s k = Some t" for k t using that O(1) [of k t] by simp
      show "cleanup_handle (states ?s (tm_addr t)) = Some k" if "timers ?s k = Some t" for k t
        using that O(1,2) [of k t] by simp
      show "k < next_timer ?s" if "cleanup_handle (states ?s b) = Some k" for b k
        using that O(3) [of b k] by (simp add: new_turn_state_def split: if_splits)
      show "b = c" if "cleanup_handle (states ?s b) = Some k" "cleanup_handle (states ?s c) = Some k" for b c k
        using that O(4) [of b k c] by (simp add: new_turn_state_def split: if_splits)
    qed
  next
    fix sd b
    assume "(sd, b) \<in> set (turns ?s)" "b \<notin> {?n}"
    then have b: "sd \<noteq> sid" "(sd, b) \<in> set (turns s)" using mem [of sd b] by auto
    then have "timed s sd b" "aged s b" using timer_butD(2,3) [OF inv(1), of sd b] X by blast+
    then show "timed ?s sd b \<and> aged ?s b" using lt [OF b(2)] by (simp add: timed_def aged_def)
  qed
  then show ?thesis
    unfolding fresh_turn_def
    by (rule schedule_timers) (use mem lt in \<open>fastforce+\<close>)
qed

lemma init_turn_timers:
  assumes inv: "timer_inv s" "route_inv s"
  shows "timer_inv (init_turn sid keep s)"
proof (cases "map_of (turns s) sid")
  case None
  then show ?thesis using fresh_timers [OF inv] by (simp add: init_turn_def)
next
  case (Some a)
  let ?c = "cancel_cleanup a s"
  have c: "timer_but {a} ?c" using cancel_timers(1) [OF inv(1), of a] .
  have r: "route_inv ?c" using inv(2) by (simp add: route_congs)
  have key: "sd = sid" if "(sd, a) \<in> set (turns s)" for sd using turn_key_unique [OF inv(2) Some that] .
  have "timer_but {a} (upd_state a reset_for_next_turn ?c)" using c timer_but_cong [OF timing_payload(1)] by blast
  then have "timer_inv (schedule_cleanup sid a (upd_state a reset_for_next_turn ?c))"
    by (rule schedule_timers) (use key turn_addr [OF inv(2) Some] in \<open>simp_all add: upd_state_def\<close>)
  moreover have "timer_but {a} (terminate_all a ?c)" using c timer_but_cong [OF timing_terminate_all] by blast
  then have "timer_inv (fresh_turn sid (terminate_all a ?c))"
    by (rule fresh_timers) (use key route_inv_terminate [OF r] in auto)
  ultimately show ?thesis using Some by (simp add: init_turn_def Let_def)
qed

lemma ensure_timers: "timer_inv s \<Longrightarrow> route_inv s \<Longrightarrow> timer_inv (ensure_turn sid s)"
  by (simp add: ensure_turn_def init_turn_timers)

lemma push_timers:
  assumes inv: "timer_inv s" "route_inv s"
  shows "timer_inv (push_event sid ev create s)"
proof -
  have "timer_inv (push_existing sid ev s)" if i: "timer_inv s" for s
  proof (cases "map_of (turns s) sid")
    case None
    then show ?thesis using i by (simp add: push_existing_def)
  next
    case (Some a)
    have "timer_inv (upd_state a (update_state ev) s)" using i timer_but_cong [OF timing_update_state] by blast
    then have "timer_inv (refresh_cleanup sid a (upd_state a (update_state ev) s))"
      by (rule refresh_timers) (use map_of_SomeD [OF Some] in \<open>simp_all add: upd_state_def\<close>)
    then show ?thesis using Some timer_but_cong [OF timing_fan_out] by (simp add: push_existing_def)
  qed
  then show ?thesis using inv ensure_timers by (simp add: push_event_def)
qed

lemma mark_done_timers:
  assumes "timer_inv s"
  shows "timer_inv (mark_done sid s)"
proof (cases "map_of (turns s) sid")
  case (Some a)
  have "timer_inv (upd_state a (is_streaming_update (\<lambda>_. False)) s)" using assms timer_but_cong [OF timing_payload(4)] by blast
  then have "timer_inv (refresh_cleanup sid a (upd_state a (is_streaming_update (\<lambda>_. False)) s))"
    by (rule refresh_timers) (use map_of_SomeD [OF Some] in \<open>simp_all add: upd_state_def\<close>)
  then show ?thesis using Some timer_but_cong [OF timing_terminate_all] by (simp add: mark_done_def)
qed (use assms in \<open>simp add: mark_done_def\<close>)

lemma commit_timers: "timer_inv s \<Longrightarrow> timer_inv (commit_agent_content sid agent s)"
  using timer_but_cong [OF timing_payload(3)] by (simp add: commit_agent_content_def split: option.split)

lemma timer_but_fewer:
  assumes "timer_but X s" "\<And>sd a. (sd, a) \<in> set ts \<Longrightarrow> (sd, a) \<in> set (turns s) \<and> a \<notin> X"
  shows "timer_inv (s\<lparr>turns := ts\<rparr>)"
proof (rule timer_butI)
  show "owned (s\<lparr>turns := ts\<rparr>)" using timer_butD(1) [OF assms(1)] by (simp add: owned_def)
  show "timed (s\<lparr>turns := ts\<rparr>) sd a \<and> aged (s\<lparr>turns := ts\<rparr>) a" if "(sd, a) \<in> set (turns (s\<lparr>turns := ts\<rparr>))" for sd a
    using timer_butD(2,3) [OF assms(1), of sd a] assms(2) [of sd a] that by (simp add: timed_def aged_def)
qed

lemma clear_timers:
  assumes inv: "timer_inv s" "route_inv s"
  shows "timer_inv (clear sid s)"
proof (cases "map_of (turns s) sid")
  case (Some a)
  have "timer_inv ((cancel_cleanup a s)\<lparr>turns := AList.delete sid (turns s)\<rparr>)"
    by (rule timer_but_fewer [OF cancel_timers(1) [OF inv(1)]])
      (use turn_key_unique [OF inv(2) Some] in \<open>auto simp: AList.delete_eq\<close>)
  then show ?thesis using Some timer_but_cong [OF timing_terminate_all] by (simp add: clear_def cancel_turns)
qed (use inv in \<open>simp add: clear_def\<close>)

lemma close_timers:
  assumes "timer_inv s"
  shows "timer_inv (close s)"
proof -
  have "\<exists>X. timer_but X (terminate_turns ts s)" if "timer_but Y s" for ts Y s
    using that
  proof (induction ts arbitrary: s Y)
    case (Cons e ts)
    have "timer_but (insert (snd e) Y) (terminate_all (snd e) (cancel_cleanup (snd e) s))"
      using cancel_timers(1) [OF Cons.prems] timer_but_cong [OF timing_terminate_all] by blast
    from Cons.IH [OF this] show ?case by (simp add: terminate_turns_def split_beta)
  qed (auto simp: terminate_turns_def)
  from this [OF assms] obtain X where "timer_but X (terminate_turns (turns s) s)" by blast
  from timer_but_fewer [OF this, of "[]"] show ?thesis by (simp add: close_def terminate_turns_def)
qed

lemma store_step_timers:
  assumes "store_step s s'" "timer_inv s" "route_inv s" "finished_inv s"
  shows "timer_inv s'"
  using assms
proof (induction rule: store_step.induct)
  case (step_time s t)
  show ?case
  proof (rule timer_butI)
    show "owned (s\<lparr>now := t\<rparr>)" using timer_butD(1) [OF step_time(3)] by (simp add: owned_def)
    show "timed (s\<lparr>now := t\<rparr>) sd a \<and> aged (s\<lparr>now := t\<rparr>) a" if "(sd, a) \<in> set (turns (s\<lparr>now := t\<rparr>))" for sd a
      using timer_butD(2,3) [OF step_time(3), of sd a] that step_time(1,2) by (force simp: timed_def aged_def)
  qed
next
  case (step_finish s sid create)
  then show ?case using mark_done_timers push_timers by blast
qed (simp_all add: init_turn_timers ensure_timers push_timers mark_done_timers commit_timers clear_timers close_timers
      fire_timers timer_but_cong [OF timing_attach(1)] timer_but_cong [OF timing_attach(2)]
      timer_but_cong [OF timing_attach(3)] timer_but_cong [OF timing_attach(4)])

lemma empty_store_timers: "timer_inv empty_store"
  by (simp add: empty_store_def timer_but_def owned_def new_turn_state_def)

interpretation stream_timers: reachable_invariant store_step
  "\<lambda>s. timer_inv s \<and> route_inv s \<and> finished_inv s" empty_store
  using store_step_timers store_step_inv empty_store_timers empty_store_inv by unfold_locales blast+

lemma store_reach_timers: "store_reach s \<Longrightarrow> timer_inv s"
  using stream_timers.reachable_inv [OF store_reach_run] by blast

end
