(* ===== verification/StreamReplay.thy ===== *)
theory StreamReplay
  imports StreamTimers
begin

text \<open>
  What a client of \<open>attach\<close> sees: the replayed events rebuild the turn's visible state, the live
  events follow through a bounded queue, every open client stays served, and no turn outlives
  \<open>_MAX_TURN_LIFETIME\<close> without its timer coming due.
\<close>

section \<open>Well-formed turn states\<close>

definition chunks_wf :: "(string \<times> string list) list \<Rightarrow> bool" where
  "chunks_wf d \<longleftrightarrow> distinct (map fst d) \<and> (\<forall>(agent, cs) \<in> set d. cs \<noteq> [] \<and> [] \<notin> set cs)"

definition summaries_wf :: "(string \<times> summary_entry) list \<Rightarrow> bool" where
  "summaries_wf d \<longleftrightarrow> distinct (map fst d) \<and> [] \<notin> fst ` set d \<and> (\<forall>(agent, e) \<in> set d. su_error e \<longrightarrow> su_done e)"

definition statuses_wf :: "(string \<times> string) list \<Rightarrow> (string \<times> string) list \<Rightarrow> bool" where
  "statuses_wf d errs \<longleftrightarrow> distinct (map fst d) \<and> distinct (map fst errs) \<and> [] \<notin> fst ` set d \<and>
     (\<forall>agent. (map_of errs agent \<noteq> None) = (map_of d agent = Some ''error''))"

definition entry_wf :: "tool_entry \<Rightarrow> bool" where
  "entry_wf tc \<longleftrightarrow> (te_started tc \<or> te_arguments tc = None) \<and> (te_done tc \<or> te_result tc = None)"

definition turn_wf :: "turn_state \<Rightarrow> bool" where
  "turn_wf st \<longleftrightarrow> chunks_wf (content st) \<and> chunks_wf (thinking st) \<and> summaries_wf (summarization st) \<and>
     statuses_wf (agent_statuses st) (agent_errors st) \<and> list_all entry_wf (tool_calls st)"

lemma map_of_distinct: "distinct (map fst d) \<Longrightarrow> (k, v) \<in> set d \<Longrightarrow> get_or x d k = v"
  by (simp add: get_or_def)

lemma update_set:
  assumes "distinct (map fst d)" "(k', v') \<in> set (AList.update k v d)"
  shows "(k', v') = (k, v) \<or> (k', v') \<in> set d"
  using assms distinct_update [of d k v] by (metis map_of_eq_Some_iff option.inject update_Some_unfold)

lemma chunks_wf_append: "chunks_wf d \<Longrightarrow> s \<noteq> [] \<Longrightarrow> chunks_wf (append_chunk agent s d)"
proof -
  assume d: "chunks_wf d" and s: "s \<noteq> []"
  have "[] \<notin> set (get_or [] d agent)" using d by (auto simp: chunks_wf_def get_or_def split: option.split dest: map_of_SomeD)
  then show ?thesis
    using d s unfolding chunks_wf_def append_chunk_def by (auto simp: distinct_update dest!: update_set [rotated])
qed

lemma summaries_wf_update:
  assumes "summaries_wf d" "agent \<noteq> []" "su_error e \<Longrightarrow> su_done e"
  shows "summaries_wf (AList.update agent e d)"
  using assms unfolding summaries_wf_def
  by (auto simp: distinct_update dest!: update_set [rotated] split: prod.splits)

lemma summaries_wf_no: "summaries_wf d \<Longrightarrow> agent \<noteq> [] \<Longrightarrow> summaries_wf (AList.update agent no_summary d)"
  by (rule summaries_wf_update) (simp_all add: no_summary_def)

lemma get_or_fresh: "k \<notin> fst ` set d \<Longrightarrow> get_or x d k = x"
  by (metis get_or_def map_of_eq_None_iff option.simps(4))

lemma get_or_last: "k \<notin> fst ` set xs \<Longrightarrow> get_or z (xs @ [(k, x)]) k = x"
  by (induction xs) (auto simp: get_or_def)

lemma summaries_wf_get: "summaries_wf d \<Longrightarrow> su_error (get_or no_summary d agent) \<Longrightarrow> su_done (get_or no_summary d agent)"
  by (cases "map_of d agent") (auto simp: summaries_wf_def get_or_def no_summary_def)

lemma statuses_wf_update:
  assumes "statuses_wf d errs" "agent \<noteq> []"
  shows "statuses_wf (AList.update agent status d)
    (if status = ''error'' then AList.update agent meta errs else AList.delete agent errs)"
proof -
  let ?errs = "if status = ''error'' then AList.update agent meta errs else AList.delete agent errs"
  have keys: "(map_of errs a \<noteq> None) = (map_of d a = Some ''error'')" for a using assms(1) by (simp only: statuses_wf_def)
  have "(map_of ?errs a \<noteq> None) = (map_of (AList.update agent status d) a = Some ''error'')" for a
    using keys [of a] by (cases "a = agent") (auto simp: update_conv' delete_conv')
  moreover have "[] \<notin> fst ` set (AList.update agent status d)" using assms by (auto simp: statuses_wf_def dom_update)
  moreover have "distinct (map fst (AList.update agent status d))" "distinct (map fst ?errs)"
    using assms(1) by (simp_all add: statuses_wf_def distinct_update distinct_delete)
  ultimately show ?thesis unfolding statuses_wf_def by blast
qed

lemma update_last_match_all:
  "update_last_match P f xs = Some ys \<Longrightarrow> list_all Q xs \<Longrightarrow> (\<And>x. Q x \<Longrightarrow> Q (f x)) \<Longrightarrow> list_all Q ys"
  by (auto simp: update_last_match_Some list_all_iff)

lemma entries_wf_start: "list_all entry_wf tcs \<Longrightarrow> list_all entry_wf (match_tool_start i name arguments agent tcs)"
  unfolding match_tool_start_def
  by (auto simp: entry_wf_def adopt_agent_def split: option.split intro: update_last_match_all [where Q = entry_wf])

lemma entries_wf_end:
  assumes "list_all entry_wf tcs"
  shows "list_all entry_wf (match_tool_end i name result agent tcs)"
proof -
  have "entry_wf (finish_entry result agent x)" if "entry_wf x" for x
    using that by (simp add: entry_wf_def finish_entry_def adopt_agent_def)
  then have "list_all entry_wf ys" if "update_last_match P (finish_entry result agent) tcs = Some ys" for P ys
    using update_last_match_all [OF that assms] by blast
  then show ?thesis using assms by (auto simp: match_tool_end_def entry_wf_def split: option.split)
qed

lemma turn_wf_update [simp]: "turn_wf st \<Longrightarrow> turn_wf (update_state ev st)"
proof (cases ev)
  case (SummarizationContent agent s)
  assume "turn_wf st"
  then show ?thesis
    using SummarizationContent summaries_wf_get [of "summarization st" agent]
    by (auto simp: turn_wf_def Let_def intro!: summaries_wf_update)
next
  case (SummarizationEnd agent s err)
  assume "turn_wf st"
  then show ?thesis
    using SummarizationEnd by (auto simp: turn_wf_def Let_def intro!: summaries_wf_update)
qed (auto simp: turn_wf_def chunks_wf_append summaries_wf_no statuses_wf_update entries_wf_start
      entries_wf_end entry_wf_def)

lemma turn_wf_new [simp]: "turn_wf new_turn_state"
  by (simp add: turn_wf_def new_turn_state_def chunks_wf_def summaries_wf_def statuses_wf_def)

lemma turn_wf_payload [simp]:
  "turn_wf (reset_for_next_turn st)" "turn_wf st \<Longrightarrow> turn_wf (clear_replay_payload st)"
  by (simp add: turn_wf_def reset_for_next_turn_def chunks_wf_def summaries_wf_def statuses_wf_def)
    (simp add: turn_wf_def clear_replay_payload_def, simp add: chunks_wf_def summaries_wf_def)

lemma turn_wf_commit [simp]: "turn_wf st \<Longrightarrow> turn_wf (commit_content agent st)"
proof -
  assume wf: "turn_wf st"
  have sub: "set (AList.delete agent d) \<subseteq> set d" for d :: "(string \<times> 'b) list" by (auto simp: AList.delete_eq)
  have c: "chunks_wf (AList.delete agent d)" if "chunks_wf d" for d
    using that sub [of d] distinct_delete [of d agent] unfolding chunks_wf_def by blast
  have s: "summaries_wf (AList.delete agent d)" if "summaries_wf d" for d
    using that sub [of d] distinct_delete [of d agent] unfolding summaries_wf_def by blast
  show ?thesis using wf c s by (auto simp: turn_wf_def commit_content_def list_all_iff split: option.split)
qed

lemma update_append_other: "k \<notin> fst ` set xs \<Longrightarrow> AList.update k v (xs @ ys) = xs @ AList.update k v ys"
  by (induction xs) auto

section \<open>Rebuilding the state from its replay\<close>

definition joined :: "(string \<times> string list) list \<Rightarrow> (string \<times> string) list" where
  "joined d = map (\<lambda>(agent, cs). (agent, concat cs)) d"

lemma rebuild_content:
  assumes "chunks_wf d" "fst ` set d \<inter> fst ` set (content st) = {}"
  shows "fold update_state (replay_chunks Message d) st = st\<lparr>content := content st @ map (\<lambda>(a, cs). (a, [concat cs])) d\<rparr>"
  using assms
proof (induction d arbitrary: st)
  case (Cons p d)
  obtain a cs where p: "p = (a, cs)" by (cases p)
  have cs: "cs \<noteq> []" "concat cs \<noteq> []" using Cons.prems(1) by (auto simp: p chunks_wf_def) (cases cs; auto)
  have a: "a \<notin> fst ` set (content st)" "a \<notin> fst ` set d" using Cons.prems by (auto simp: p chunks_wf_def)
  have "append_chunk a (concat cs) (content st) = content st @ [(a, [concat cs])]"
    using a(1) by (simp add: append_chunk_def get_or_fresh update_fresh)
  then have "fold update_state (replay_chunks Message (p # d)) st =
      fold update_state (replay_chunks Message d) (st\<lparr>content := content st @ [(a, [concat cs])]\<rparr>)"
    using cs by (simp add: replay_chunks_def p)
  also have "\<dots> = st\<lparr>content := content st @ map (\<lambda>(a, cs). (a, [concat cs])) (p # d)\<rparr>"
    using Cons.IH [of "st\<lparr>content := content st @ [(a, [concat cs])]\<rparr>"] Cons.prems a by (auto simp: p chunks_wf_def)
  finally show ?case .
qed (simp add: replay_chunks_def)

lemma rebuild_thinking:
  assumes "chunks_wf d" "fst ` set d \<inter> fst ` set (thinking st) = {}"
  shows "fold update_state (replay_chunks Thinking d) st = st\<lparr>thinking := thinking st @ map (\<lambda>(a, cs). (a, [concat cs])) d\<rparr>"
  using assms
proof (induction d arbitrary: st)
  case (Cons p d)
  obtain a cs where p: "p = (a, cs)" by (cases p)
  have cs: "cs \<noteq> []" "concat cs \<noteq> []" using Cons.prems(1) by (auto simp: p chunks_wf_def) (cases cs; auto)
  have a: "a \<notin> fst ` set (thinking st)" "a \<notin> fst ` set d" using Cons.prems by (auto simp: p chunks_wf_def)
  have "append_chunk a (concat cs) (thinking st) = thinking st @ [(a, [concat cs])]"
    using a(1) by (simp add: append_chunk_def get_or_fresh update_fresh)
  then have "fold update_state (replay_chunks Thinking (p # d)) st =
      fold update_state (replay_chunks Thinking d) (st\<lparr>thinking := thinking st @ [(a, [concat cs])]\<rparr>)"
    using cs by (simp add: replay_chunks_def p)
  also have "\<dots> = st\<lparr>thinking := thinking st @ map (\<lambda>(a, cs). (a, [concat cs])) (p # d)\<rparr>"
    using Cons.IH [of "st\<lparr>thinking := thinking st @ [(a, [concat cs])]\<rparr>"] Cons.prems a by (auto simp: p chunks_wf_def)
  finally show ?case .
qed (simp add: replay_chunks_def)


lemma disjoint_insert: "A \<inter> B = {} \<Longrightarrow> a \<notin> A \<Longrightarrow> C \<subseteq> insert a B \<Longrightarrow> A \<inter> C = {}"
  by blast

lemma rebuild_statuses:
  assumes "distinct (map fst d)" "[] \<notin> fst ` set d" "fst ` set d \<inter> fst ` set (agent_statuses st) = {}"
    "fst ` set d \<inter> fst ` set (agent_errors st) = {}"
  shows "\<exists>errs. fold update_state (map (\<lambda>(a, s). AgentStatus a s (get_or ''{}'' old a)) (filter (\<lambda>(a, s). a \<noteq> [] \<and> replayable s) d)) st =
      st\<lparr>agent_statuses := agent_statuses st @ filter (\<lambda>(a, s). replayable s) d, agent_errors := agent_errors st @ errs\<rparr> \<and>
    errs = map (\<lambda>(a, s). (a, get_or ''{}'' old a)) (filter (\<lambda>(a, s). s = ''error'') d)"
  using assms
proof (induction d arbitrary: st)
  case (Cons p d)
  obtain a s where p: "p = (a, s)" by (cases p)
  show ?case
  proof (cases "replayable s \<and> s \<noteq> []")
    case False
    then have "\<not> replayable s" "s \<noteq> ''error''" by (auto simp: replayable_def)
    then show ?thesis using Cons.IH [of st] Cons.prems by (simp add: p)
  next
    case True
    let ?e = "if s = ''error'' then [(a, get_or ''{}'' old a)] else []"
    let ?st = "st\<lparr>agent_statuses := agent_statuses st @ [(a, s)], agent_errors := agent_errors st @ ?e\<rparr>"
    have a: "a \<notin> fst ` set (agent_statuses st)" "a \<notin> fst ` set (agent_errors st)" "a \<noteq> []" "a \<notin> fst ` set d"
      using Cons.prems by (auto simp: p)
    then have "update_state (AgentStatus a s (get_or ''{}'' old a)) st = ?st"
      using True by (simp add: update_fresh delete_id)
    moreover have i: "fst ` set d \<inter> fst ` set (agent_statuses st) = {}" "fst ` set d \<inter> fst ` set (agent_errors st) = {}"
      using Cons.prems(3,4) by auto
    have "fst ` set d \<inter> fst ` set (agent_statuses ?st) = {}" by (rule disjoint_insert [OF i(1) a(4)]) auto
    moreover have "fst ` set d \<inter> fst ` set (agent_errors ?st) = {}" by (rule disjoint_insert [OF i(2) a(4)]) auto
    ultimately show ?thesis using Cons.IH [of ?st] Cons.prems True a(3) by (simp add: p)
  qed
qed simp

lemma rebuild_summary:
  assumes "summaries_wf d" "fst ` set d \<inter> fst ` set (summarization st) = {}"
  shows "fold update_state (concat (map replay_summary d)) st = st\<lparr>summarization := summarization st @ d\<rparr>"
  using assms
proof (induction d arbitrary: st)
  case (Cons p d)
  obtain a e where p: "p = (a, e)" by (cases p)
  have a: "a \<notin> fst ` set (summarization st)" "a \<noteq> []" "a \<notin> fst ` set d" "su_error e \<longrightarrow> su_done e"
    using Cons.prems by (auto simp: p summaries_wf_def)
  have last: "AList.update a y (summarization st @ [(a, x)]) = summarization st @ [(a, y)]"
    "get_or z (summarization st @ [(a, x)]) a = x" for x y :: summary_entry and z
    using a(1) by (simp_all add: update_append_other get_or_last)
  have "fold update_state (replay_summary p) st = st\<lparr>summarization := summarization st @ [p]\<rparr>"
    using a by (cases e) (auto simp: p replay_summary_def update_fresh last no_summary_def Let_def)
  then show ?case
    using Cons.IH [of "st\<lparr>summarization := summarization st @ [p]\<rparr>"] Cons.prems a by (auto simp: p summaries_wf_def)
qed simp

lemma update_last_match_last: "P x \<Longrightarrow> update_last_match P f (xs @ [x]) = Some (xs @ [f x])"
  by (induction xs) simp_all

lemma rebuild_tool: "entry_wf tc \<Longrightarrow> fold update_state (replay_tool tc) st = st\<lparr>tool_calls := tool_calls st @ [tc]\<rparr>"
  by (cases tc) (auto simp: replay_tool_def match_tool_start_def match_tool_end_def update_last_match_last adopt_agent_def
      finish_entry_def entry_wf_def split: option.split)

lemma rebuild_tools:
  "list_all entry_wf tcs \<Longrightarrow> fold update_state (concat (map replay_tool tcs)) st = st\<lparr>tool_calls := tool_calls st @ tcs\<rparr>"
  by (induction tcs arbitrary: st) (simp_all add: rebuild_tool)

lemma rebuild_queued: "fold update_state (map QueuedTurn ds) st = st\<lparr>queued_turns := queued_turns st @ ds\<rparr>"
  by (induction ds arbitrary: st) simp_all

lemma map_of_annotated: "map_of (map (\<lambda>(a, s). (a, g a)) (filter P d)) k = (if \<exists>s. (k, s) \<in> set d \<and> P (k, s) then Some (g k) else None)"
  by (induction d) auto

lemma rebuilt_errors:
  assumes "statuses_wf d errs"
  shows "map_of (map (\<lambda>(a, s). (a, get_or x errs a)) (filter (\<lambda>(a, s). s = ''error'') d)) = map_of errs"
proof
  fix k
  have "(map_of errs k \<noteq> None) = (map_of d k = Some ''error'')" "distinct (map fst d)"
    using assms by (simp_all only: statuses_wf_def)
  then show "map_of (map (\<lambda>(a, s). (a, get_or x errs a)) (filter (\<lambda>(a, s). s = ''error'') d)) k = map_of errs k"
    by (cases "map_of errs k") (auto simp: map_of_annotated get_or_def)
qed

lemma new_fields:
  "content new_turn_state = []" "thinking new_turn_state = []" "tool_calls new_turn_state = []" "agent_statuses new_turn_state = []"
  "summarization new_turn_state = []" "queued_turns new_turn_state = []" "agent_not_configured new_turn_state = None"
  "new_turn_state\<lparr>agent_not_configured := None\<rparr> = new_turn_state"
  by (simp_all add: new_turn_state_def)

text \<open>The replay of a well-formed state, applied to a fresh one.\<close>

lemma rebuild:
  assumes "turn_wf st"
  shows "\<exists>errs. fold update_state (replay st) new_turn_state = new_turn_state
    \<lparr>content := map (\<lambda>(a, cs). (a, [concat cs])) (content st), thinking := map (\<lambda>(a, cs). (a, [concat cs])) (thinking st),
     tool_calls := tool_calls st, agent_statuses := filter (\<lambda>(a, s). replayable s) (agent_statuses st), agent_errors := errs,
     summarization := summarization st, agent_not_configured := agent_not_configured st, queued_turns := queued_turns st\<rparr> \<and>
    map_of errs = map_of (agent_errors st)"
proof -
  have wf: "chunks_wf (content st)" "chunks_wf (thinking st)" "summaries_wf (summarization st)" "list_all entry_wf (tool_calls st)"
    "statuses_wf (agent_statuses st) (agent_errors st)" using assms by (simp_all add: turn_wf_def)
  then have d: "distinct (map fst (agent_statuses st))" "[] \<notin> fst ` set (agent_statuses st)" unfolding statuses_wf_def by blast+
  let ?errs = "map (\<lambda>(a, s). (a, get_or ''{}'' (agent_errors st) a)) (filter (\<lambda>(a, s). s = ''error'') (agent_statuses st))"
  have s: "fold update_state (replay_statuses st) new_turn_state =
    new_turn_state\<lparr>agent_statuses := filter (\<lambda>(a, s). replayable s) (agent_statuses st), agent_errors := ?errs\<rparr>"
    using rebuild_statuses [OF d, of new_turn_state "agent_errors st"] by (simp add: replay_statuses_def new_turn_state_def)
  have "fold update_state (replay st) new_turn_state = new_turn_state
    \<lparr>content := map (\<lambda>(a, cs). (a, [concat cs])) (content st), thinking := map (\<lambda>(a, cs). (a, [concat cs])) (thinking st),
     tool_calls := tool_calls st, agent_statuses := filter (\<lambda>(a, s). replayable s) (agent_statuses st), agent_errors := ?errs,
     summarization := summarization st, agent_not_configured := agent_not_configured st, queued_turns := queued_turns st\<rparr>"
    using wf(1-4) by (cases "agent_not_configured st")
      (simp_all add: replay_def s rebuild_content rebuild_thinking rebuild_summary rebuild_tools rebuild_queued new_fields)
  then show ?thesis using rebuilt_errors [OF wf(5)] by blast
qed

section \<open>Every state of a reachable store is well-formed\<close>

definition states_wf :: "store \<Rightarrow> bool" where
  "states_wf s \<longleftrightarrow> (\<forall>a. turn_wf (states s a))"

lemma states_wf_upd: "states_wf s \<Longrightarrow> (\<And>st. turn_wf st \<Longrightarrow> turn_wf (f st)) \<Longrightarrow> states_wf (upd_state a f s)"
  by (simp add: states_wf_def upd_state_def)

lemma states_wf_frame [simp]:
  "states_wf (upd_queue q g s) = states_wf s" "states_wf (s\<lparr>queues := x\<rparr>) = states_wf s" "states_wf (s\<lparr>clients := y\<rparr>) = states_wf s"
  "states_wf (s\<lparr>next_queue := n\<rparr>) = states_wf s" "states_wf (s\<lparr>timers := t\<rparr>) = states_wf s" "states_wf (s\<lparr>turns := u\<rparr>) = states_wf s"
  "states_wf (s\<lparr>next_timer := n\<rparr>) = states_wf s" "states_wf (s\<lparr>now := i\<rparr>) = states_wf s" "states_wf (s\<lparr>next_addr := n\<rparr>) = states_wf s"
  by (simp_all add: states_wf_def)

lemma turn_wf_fields [simp]:
  "turn_wf (st\<lparr>subscribers := x\<rparr>) = turn_wf st" "turn_wf (st\<lparr>cleanup_handle := h\<rparr>) = turn_wf st"
  "turn_wf (st\<lparr>cleanup_deadline := d\<rparr>) = turn_wf st" "turn_wf (st\<lparr>created_at := d\<rparr>) = turn_wf st"
  "turn_wf (st\<lparr>is_streaming := b\<rparr>) = turn_wf st"
  by (simp_all add: turn_wf_def)

lemma states_wf_cancel [simp]: "states_wf s \<Longrightarrow> states_wf (cancel_cleanup a s)"
  by (auto simp: cancel_cleanup_def split: option.split intro: states_wf_upd)

lemma states_wf_later [simp]: "states_wf s \<Longrightarrow> states_wf (call_later d sid a s)"
  by (auto simp: call_later_def intro: states_wf_upd)

lemma states_wf_schedule [simp]: "states_wf s \<Longrightarrow> states_wf (schedule_cleanup sid a s)"
  by (simp add: schedule_cleanup_def Let_def states_wf_upd)

lemma states_wf_refresh [simp]: "states_wf s \<Longrightarrow> states_wf (refresh_cleanup sid a s)"
  by (simp add: refresh_cleanup_def Let_def states_wf_upd)

lemma states_wf_fold: "(\<And>x s. states_wf s \<Longrightarrow> states_wf (f x s)) \<Longrightarrow> states_wf s \<Longrightarrow> states_wf (fold f xs s)"
  by (induction xs arbitrary: s) simp_all

lemma states_wf_terminate [simp]: "states_wf s \<Longrightarrow> states_wf (terminate_all a s)"
  by (simp add: terminate_all_def states_wf_fold)

lemma states_wf_fan_out [simp]: "states_wf s \<Longrightarrow> states_wf (fan_out ev a s)"
  unfolding fan_out_def by (rule states_wf_fold) (simp_all add: fan_out_one_def states_wf_upd)

lemma states_wf_fresh [simp]: "states_wf s \<Longrightarrow> states_wf (fresh_turn sid s)"
  by (auto simp: fresh_turn_def states_wf_def [of "_\<lparr>next_addr := _\<rparr>"] intro!: states_wf_schedule) (simp add: states_wf_def)

lemma states_wf_init [simp]: "states_wf s \<Longrightarrow> states_wf (init_turn sid keep s)"
  by (simp add: init_turn_def Let_def states_wf_upd split: option.split)

lemma states_wf_push [simp]: "states_wf s \<Longrightarrow> states_wf (push_event sid ev create s)"
  by (simp add: push_event_def push_existing_def ensure_turn_def states_wf_upd split: option.split)

lemma states_wf_close_client [simp]: "states_wf s \<Longrightarrow> states_wf (attach_close c s)"
  by (simp add: attach_close_def states_wf_upd split: option.split)

lemma states_wf_open [simp]: "states_wf s \<Longrightarrow> states_wf (attach_open sid s)"
  by (simp add: attach_open_def Let_def states_wf_upd split: option.split)

lemma states_wf_get [simp]: "states_wf s \<Longrightarrow> states_wf (attach_get c s)"
  by (simp add: attach_get_def split: option.split list.split item.split)

lemma states_wf_fire [simp]: "states_wf s \<Longrightarrow> states_wf (fire h s)"
  by (simp add: fire_def expire_turn_def Let_def states_wf_upd split: option.split)

lemma states_wf_close [simp]: "states_wf s \<Longrightarrow> states_wf (close s)"
  by (auto simp: close_def intro: states_wf_fold)

lemma states_wf_done [simp]: "states_wf s \<Longrightarrow> states_wf (mark_done sid s)"
  by (simp add: mark_done_def states_wf_upd split: option.split)

lemma store_step_wf: "store_step s s' \<Longrightarrow> states_wf s \<Longrightarrow> states_wf s'"
  by (induction rule: store_step.induct)
    (simp_all add: ensure_turn_def commit_agent_content_def clear_def attach_replay_def states_wf_upd split: option.split)

interpretation stream_states: reachable_invariant store_step states_wf empty_store
  by unfold_locales (rule store_step_wf, auto simp: states_wf_def empty_store_def)

lemma store_reach_wf: "store_reach s \<Longrightarrow> states_wf s"
  by (rule stream_states.reachable_inv [OF store_reach_run])

section \<open>Properties\<close>

definition example_store :: store where
  "example_store = push_event ''s'' (AgentStatus ''lead'' ''working'' ''{}'') True empty_store"

definition example_attached :: store where
  "example_attached = attach_open ''s'' (push_event ''s'' (Message ''lead'' ''ab'') False example_store)"

lemma example_reach: "store_reach example_store" "store_reach example_attached"
proof -
  show e: "store_reach example_store"
    unfolding example_store_def by (rule reach_step [OF reach_empty step_push]) simp
  have "store_reach (push_event ''s'' (Message ''lead'' ''ab'') False example_store)"
    by (rule reach_step [OF e step_push]) simp
  then show "store_reach example_attached" unfolding example_attached_def by (rule reach_step [OF _ step_attach])
qed

lemmas store_ops =
  push_event_def push_existing_def ensure_turn_def init_turn_def fresh_turn_def schedule_cleanup_def refresh_cleanup_def
  cancel_cleanup_def call_later_def upd_state_def upd_queue_def fan_out_def fan_out_one_def empty_store_def new_turn_state_def
  STREAM_TTL_def MAX_TURN_LIFETIME_def QUEUE_SIZE_def append_chunk_def get_or_def attach_open_def attach_replay_def attach_get_def
  replay_statuses_def replay_chunks_def replayable_def Let_def

text \<open>
  The queue between the store and a client never holds more than 2048 items, whatever the
  interleaving of pushes, attaches, drains, expiry and termination: every operation that adds to a
  queue, the sentinel of \<open>_terminate_subscriber\<close> included, first makes room in a full one.
\<close>

theorem queues_bounded:
  assumes "store_reach s"
  shows "length (queues s q) \<le> 2048"
  using route_invD(4) [of s q] store_reach_inv [OF assms] by (simp add: QUEUE_SIZE_def)

theorem queues_bounded_witness: "length (queues example_attached 0) \<le> 2048"
  by (rule queues_bounded [OF example_reach(2)])

text \<open>
  C30. No client of \<open>attach\<close> is stranded: in every reachable store, an open client either has the
  sentinel that ends its loop waiting in its queue, or it is subscribed to a turn that the store
  still knows and that is still streaming, so that later events and the final sentinel reach it.
\<close>

theorem client_never_stranded:
  assumes "store_reach s" "clients s c = Some cl" "cl_open cl"
  shows "Sentinel \<in> set (queues s (cl_queue cl)) \<or>
    (\<exists>sid. map_of (turns s) sid = Some (cl_addr cl) \<and> is_streaming (states s (cl_addr cl)) \<and>
       cl_queue cl \<in> set (subscribers (states s (cl_addr cl))))"
proof -
  have inv: "route_inv s" "finished_inv s" using store_reach_inv [OF assms(1)] by simp_all
  have key: "ckey s c = Some (cl_addr cl, cl_queue cl, True)" using assms by (simp add: ckey_def)
  have c: "cl_queue cl = c" using route_invD(8) [OF inv(1) key] by simp
  have known: "\<exists>sid. map_of (turns s) sid = Some (cl_addr cl)" if "live s (cl_addr cl)"
    using that route_invD(1) [OF inv(1)] by (auto simp: live_def)
  show ?thesis
    using route_invD(9) [OF inv(1) key] inv(2) known unfolding served_def finished_inv_def c by blast
qed

theorem client_never_stranded_witness:
  "Sentinel \<in> set (queues example_attached 0) \<or>
    (\<exists>sid. map_of (turns example_attached) sid = Some 0 \<and> is_streaming (states example_attached 0) \<and>
       0 \<in> set (subscribers (states example_attached 0)))"
  using client_never_stranded [OF example_reach(2), of 0
      "\<lparr>cl_addr = 0, cl_queue = 0, cl_phase = StatusPhase, cl_open = True, cl_got = []\<rparr>"]
  by (simp add: example_attached_def example_store_def store_ops)

text \<open>
  C32. The retention bound: in every reachable store each turn has a pending expiry timer for its own
  session, due neither in the past nor later than four hours after the payload was started; so no
  turn's payload is older than \<open>_MAX_TURN_LIFETIME\<close>, however often activity extends its deadline.
\<close>

theorem turn_lifetime_bounded:
  assumes "store_reach s" "map_of (turns s) sid = Some a"
  shows "\<exists>h t. cleanup_handle (states s a) = Some h \<and> timers s h = Some t \<and> tm_session t = sid \<and> tm_addr t = a \<and>
    created_at (states s a) \<le> now s \<and> now s \<le> tm_due t \<and> tm_due t \<le> created_at (states s a) + 14400"
  using timer_butD(2,3) [OF store_reach_timers [OF assms(1)] map_of_SomeD [OF assms(2)]]
  by (auto simp: timed_def aged_def MAX_TURN_LIFETIME_def)

theorem turn_lifetime_bounded_witness:
  "\<exists>h t. cleanup_handle (states example_store 0) = Some h \<and> timers example_store h = Some t \<and> tm_session t = ''s'' \<and> tm_addr t = 0 \<and>
    created_at (states example_store 0) \<le> now example_store \<and> now example_store \<le> tm_due t \<and>
    tm_due t \<le> created_at (states example_store 0) + 14400"
  by (rule turn_lifetime_bounded [OF example_reach(1)]) (simp add: example_store_def store_ops)

text \<open>
  C31. Replay is faithful: for every turn state of a reachable store, a client that folds the events
  of \<open>attach\<close>'s replay over a fresh state ends with the same text and thinking per agent, the same
  tool-call entries (matched by id or by name), summaries, queued turns, configuration notice and
  error metadata, and with exactly the replayable agent statuses.
\<close>

theorem replay_rebuilds:
  assumes "store_reach s" and st: "st = states s a" and st': "st' = fold update_state (replay st) new_turn_state"
  shows "joined (content st') = joined (content st) \<and> joined (thinking st') = joined (thinking st) \<and>
    tool_calls st' = tool_calls st \<and> summarization st' = summarization st \<and> queued_turns st' = queued_turns st \<and>
    agent_not_configured st' = agent_not_configured st \<and> map_of (agent_errors st') = map_of (agent_errors st) \<and>
    agent_statuses st' = filter (\<lambda>(agent, status). replayable status) (agent_statuses st)"
proof -
  have "turn_wf st" using store_reach_wf [OF assms(1)] by (simp add: states_wf_def st)
  from rebuild [OF this] show ?thesis unfolding st' by (auto simp: joined_def split_beta)
qed

theorem replay_rebuilds_witness:
  "joined (content (fold update_state (replay (states example_attached 0)) new_turn_state)) = [(''lead'', ''ab'')]"
  using replay_rebuilds [OF example_reach(2) refl refl, of 0]
  by (simp add: example_attached_def example_store_def store_ops joined_def)

text \<open>
  Replay and the live queue overlap: an event pushed after the client has registered its queue
  and before the section that replays its text is delivered twice. Here the client attaches, yields
  the replayed status, the lead agent streams \<open>cd\<close>, and the client receives \<open>abcd\<close> from the
  replay and then \<open>cd\<close> again from its queue.
\<close>

theorem replay_overlaps_queue:
  "map_option cl_got (clients
     (attach_get 0 ((attach_replay 0 ^^ 6)
       (push_event ''s'' (Message ''lead'' ''cd'') False (attach_replay 0 example_attached)))) 0) =
   Some [AgentStatus ''lead'' ''working'' ''{}'', Message ''lead'' ''abcd'', Message ''lead'' ''cd'']"
  by (simp add: example_attached_def example_store_def store_ops eval_nat_numeral)

end
