(* ===== verification/Permission.thy ===== *)
theory Permission
  imports Glob
begin

text \<open>
  Tool-call approval, \<open>app/agent/permission.py\<close>, with the patterns the only caller builds
  (\<open>hooks/stream_publisher.py\<close>): rules evaluated last-match-wins, the per-session service with its
  pending requests, and the auto-allow service. \<open>ask\<close> is split at its \<open>await\<close>: \<open>ask_begin\<close> runs
  up to the future, \<open>ask_resume\<close> from the reply on. Request ids are fresh, as UUIDs are; metadata
  and the callbacks only inform the client.
\<close>

section \<open>Rules\<close>

datatype action = Allow | Deny | Ask
datatype reply = Once | Always | Reject

record rule =
  permission :: string
  rule_pattern :: string
  rule_action :: action

type_synonym ruleset = "rule list"

definition rule_matches :: "string \<Rightarrow> string \<Rightarrow> rule \<Rightarrow> bool" where
  "rule_matches tool pat r \<longleftrightarrow> fnmatch tool (permission r) \<and> fnmatch pat (rule_pattern r)"

definition evaluate :: "string \<Rightarrow> string \<Rightarrow> ruleset list \<Rightarrow> rule" where
  "evaluate tool pat rulesets =
     (case fold (\<lambda>r match. if rule_matches tool pat r then Some r else match) (concat rulesets) None of
        Some r \<Rightarrow> r
      | None \<Rightarrow> \<lparr>permission = tool, rule_pattern = ''*'', rule_action = Ask\<rparr>)"

section \<open>The service\<close>

record request =
  rq_id :: nat
  rq_session :: string
  rq_tool :: string
  rq_patterns :: "string list"
  rq_always :: "string list"
  rq_future :: "reply option"

record service =
  svc_session :: string
  base_ruleset :: ruleset
  session_ruleset :: ruleset
  pending :: "(nat \<times> request) list"

datatype permission_error = PermissionDenied string string ruleset | PermissionRejected nat

datatype ask_state = Proceed | Waiting nat

definition new_service :: "string \<Rightarrow> ruleset option \<Rightarrow> service" where
  "new_service sid base = \<lparr>svc_session = sid, base_ruleset = (case base of None \<Rightarrow> [] | Some b \<Rightarrow> b),
     session_ruleset = [], pending = []\<rparr>"

text \<open>\<open>PermissionRequest.create\<close>, with \<open>always_patterns or patterns\<close> of the callers.\<close>

definition create_request :: "nat \<Rightarrow> string \<Rightarrow> string \<Rightarrow> string list \<Rightarrow> string list option \<Rightarrow> request" where
  "create_request rid sid tool patterns always =
     \<lparr>rq_id = rid, rq_session = sid, rq_tool = tool, rq_patterns = patterns,
      rq_always = (case always of None \<Rightarrow> patterns | Some [] \<Rightarrow> patterns | Some ps \<Rightarrow> ps), rq_future = None\<rparr>"

text \<open>The loop over the patterns: the error of the first denied one, else whether any needs asking.\<close>

fun check_patterns :: "string \<Rightarrow> service \<Rightarrow> string list \<Rightarrow> permission_error + bool" where
  "check_patterns tool svc [] = Inr False"
| "check_patterns tool svc (p # ps) =
     (case rule_action (evaluate tool p [base_ruleset svc, session_ruleset svc]) of
        Deny \<Rightarrow> Inl (PermissionDenied tool p (base_ruleset svc @ session_ruleset svc))
      | Allow \<Rightarrow> check_patterns tool svc ps
      | Ask \<Rightarrow> map_sum id (\<lambda>_. True) (check_patterns tool svc ps))"

definition ask_begin :: "nat \<Rightarrow> string \<Rightarrow> string list \<Rightarrow> string list option \<Rightarrow> service \<Rightarrow> permission_error + (ask_state \<times> service)" where
  "ask_begin rid tool patterns always svc =
     (case check_patterns tool svc patterns of
        Inl e \<Rightarrow> Inl e
      | Inr False \<Rightarrow> Inr (Proceed, svc)
      | Inr True \<Rightarrow>
          let req = create_request rid (svc_session svc) tool patterns always in
          Inr (Waiting rid, svc\<lparr>pending := AList.update rid req (pending svc)\<rparr>))"

definition allow_rules :: "request \<Rightarrow> ruleset" where
  "allow_rules req = map (\<lambda>p. \<lparr>permission = rq_tool req, rule_pattern = p, rule_action = Allow\<rparr>) (rq_always req)"

text \<open>The waiting task wakes up with the result of its future.\<close>

definition ask_resume :: "request \<Rightarrow> reply \<Rightarrow> service \<Rightarrow> (permission_error + unit) \<times> service" where
  "ask_resume req r svc =
     (let svc = svc\<lparr>pending := AList.delete (rq_id req) (pending svc)\<rparr> in
      case r of
        Reject \<Rightarrow> (Inl (PermissionRejected (rq_id req)), svc)
      | Always \<Rightarrow> (Inr (), svc\<lparr>session_ruleset := session_ruleset svc @ allow_rules req\<rparr>)
      | Once \<Rightarrow> (Inr (), svc))"

definition ask_cancel :: "nat \<Rightarrow> service \<Rightarrow> service" where
  "ask_cancel rid svc = svc\<lparr>pending := AList.delete rid (pending svc)\<rparr>"

definition reply_to :: "nat \<Rightarrow> reply \<Rightarrow> string option \<Rightarrow> service \<Rightarrow> bool \<times> service" where
  "reply_to rid r sid svc =
     (case map_of (pending svc) rid of
        None \<Rightarrow> (False, svc)
      | Some req \<Rightarrow>
          if sid \<noteq> None \<and> sid \<noteq> Some (rq_session req) then (False, svc)
          else (True, if rq_future req = None
                      then svc\<lparr>pending := AList.update rid (req\<lparr>rq_future := Some r\<rparr>) (pending svc)\<rparr> else svc))"

definition auto_allow_pending :: "nat \<Rightarrow> service \<Rightarrow> bool \<times> service" where
  "auto_allow_pending rid svc = reply_to rid Always None svc"

definition auto_allow_all_pending :: "service \<Rightarrow> nat \<times> service" where
  "auto_allow_all_pending svc =
     fold (\<lambda>rid (n, svc). let (ok, svc) = auto_allow_pending rid svc in (if ok then n + 1 else n, svc))
       (map fst (pending svc)) (0, svc)"

definition list_pending :: "service \<Rightarrow> request list" where
  "list_pending svc = map snd (pending svc)"

text \<open>\<open>AutoAllowPermissionService.ask\<close>; \<open>watched\<close> says that some callback is set.\<close>

definition auto_ask :: "nat \<Rightarrow> bool \<Rightarrow> string \<Rightarrow> string list \<Rightarrow> string list option \<Rightarrow> service \<Rightarrow> permission_error + service" where
  "auto_ask rid watched tool patterns always svc =
     (case check_patterns tool svc patterns of
        Inl e \<Rightarrow> Inl e
      | Inr _ \<Rightarrow>
          if watched then
            let req = create_request rid (svc_session svc) tool patterns always in
            Inr (svc\<lparr>session_ruleset := session_ruleset svc @ allow_rules req\<rparr>)
          else Inr svc)"

text \<open>The patterns of a tool call: the argument that is present, from the parsed arguments.\<close>

definition call_patterns :: "string \<Rightarrow> (string \<times> string) list \<Rightarrow> string list" where
  "call_patterns fn_name arguments =
     (case map_of arguments ''command'' of
        Some cmd \<Rightarrow> let cmd = strip cmd in [if cmd \<noteq> [] then take 200 cmd else fn_name]
      | None \<Rightarrow>
          if map_of arguments ''path'' \<noteq> None \<or> map_of arguments ''file_path'' \<noteq> None then
            (case (map_of arguments ''path'', map_of arguments ''file_path'') of
               (Some (c # p), _) \<Rightarrow> [c # p]
             | (_, Some (c # p)) \<Rightarrow> [c # p]
             | _ \<Rightarrow> [fn_name])
          else [fn_name])"

section \<open>Last match wins\<close>

lemma fold_last_match:
  "fold (\<lambda>r m. if P r then Some r else m) rs m0 =
     (case filter P (rev rs) of [] \<Rightarrow> m0 | r # _ \<Rightarrow> Some r)"
  by (induction rs arbitrary: m0) (auto split: list.splits)

lemma filter_rev_Cons:
  assumes "filter P (rev rs) = r # ys"
  shows "\<exists>us vs. rs = us @ r # vs \<and> P r \<and> (\<forall>v \<in> set vs. \<not> P v)"
proof -
  obtain us vs where "rev rs = us @ r # vs" "\<forall>u \<in> set us. \<not> P u" "P r" using filter_eq_ConsD [OF assms] by blast
  then have "rs = rev vs @ r # rev us" by (metis append.assoc append_Cons append_Nil rev.simps(2) rev_append rev_swap)
  then show ?thesis using \<open>P r\<close> \<open>\<forall>u \<in> set us. \<not> P u\<close> by (metis set_rev)
qed

definition default_rule :: "string \<Rightarrow> rule" where
  "default_rule tool = \<lparr>permission = tool, rule_pattern = ''*'', rule_action = Ask\<rparr>"

lemma evaluate_alt:
  "evaluate tool pat rss = (case filter (rule_matches tool pat) (rev (concat rss)) of [] \<Rightarrow> default_rule tool | r # _ \<Rightarrow> r)"
  unfolding evaluate_def fold_last_match by (auto simp: default_rule_def split: list.split)

lemma evaluate_last:
  "rule_matches tool pat r \<Longrightarrow> \<forall>v \<in> set vs. \<not> rule_matches tool pat v \<Longrightarrow> concat rss = us @ r # vs \<Longrightarrow> evaluate tool pat rss = r"
  by (simp add: evaluate_alt)

lemma evaluate_append:
  "evaluate tool pat [base, sess] =
     (if \<exists>r \<in> set sess. rule_matches tool pat r then evaluate tool pat [sess] else evaluate tool pat [base])"
proof (cases "filter (rule_matches tool pat) (rev sess)")
  case Nil
  then show ?thesis by (auto simp: evaluate_alt filter_empty_conv)
next
  case (Cons r ys)
  then have "r \<in> set sess \<and> rule_matches tool pat r" using filter_rev_Cons [OF Cons] by auto
  then show ?thesis using Cons by (auto simp: evaluate_alt)
qed

lemma evaluate_mem: "\<exists>r \<in> set sess. rule_matches tool pat r \<Longrightarrow> evaluate tool pat [sess] \<in> set sess"
proof -
  assume "\<exists>r \<in> set sess. rule_matches tool pat r"
  then obtain r ys where r: "filter (rule_matches tool pat) (rev sess) = r # ys" by (cases "filter (rule_matches tool pat) (rev sess)") (auto simp: filter_empty_conv)
  then have "r \<in> set sess" using filter_rev_Cons [OF r] by auto
  then show ?thesis using r by (simp add: evaluate_alt)
qed

text \<open>What the loop over the patterns decides.\<close>

abbreviation decision :: "string \<Rightarrow> service \<Rightarrow> string \<Rightarrow> action" where
  "decision tool svc p \<equiv> rule_action (evaluate tool p [base_ruleset svc, session_ruleset svc])"

lemma check_patterns_cases:
  "check_patterns tool svc ps =
     (case find (\<lambda>p. decision tool svc p = Deny) ps of
        Some p \<Rightarrow> Inl (PermissionDenied tool p (base_ruleset svc @ session_ruleset svc))
      | None \<Rightarrow> Inr (\<exists>p \<in> set ps. decision tool svc p = Ask))"
  by (induction ps) (auto split: action.splits option.splits)

lemma check_patterns_Inr:
  "check_patterns tool svc ps = Inr b \<longleftrightarrow> (\<forall>p \<in> set ps. decision tool svc p \<noteq> Deny) \<and> b = (\<exists>p \<in> set ps. decision tool svc p = Ask)"
  by (auto simp: check_patterns_cases find_None_iff find_Some_iff split: option.split)

lemma check_patterns_Inl: "(\<exists>e. check_patterns tool svc ps = Inl e) \<longleftrightarrow> (\<exists>p \<in> set ps. decision tool svc p = Deny)"
  by (auto simp: check_patterns_cases find_None_iff find_Some_iff split: option.split)
   
section \<open>Runs of the service\<close>

text \<open>
  The steps of a service: calls that ask (the interactive and the auto-allow \<open>ask\<close>), replies, the
  resumption of an answered call and the cancellation of a waiting one. \<open>admitted\<close> restricts the
  tools and patterns of the calls.
\<close>

inductive perm_step :: "(string \<Rightarrow> string list \<Rightarrow> bool) \<Rightarrow> service \<Rightarrow> service \<Rightarrow> bool" for admitted where
  step_ask: "admitted tool ps \<Longrightarrow> rid \<notin> fst ` set (pending svc) \<Longrightarrow> ask_begin rid tool ps (Some ps) svc = Inr (st, svc') \<Longrightarrow>
    perm_step admitted svc svc'"
| step_auto: "admitted tool ps \<Longrightarrow> auto_ask rid watched tool ps (Some ps) svc = Inr svc' \<Longrightarrow> perm_step admitted svc svc'"
| step_reply: "perm_step admitted svc (snd (reply_to rid r sid svc))"
| step_resume: "map_of (pending svc) rid = Some req \<Longrightarrow> rq_future req = Some r \<Longrightarrow>
    perm_step admitted svc (snd (ask_resume req r svc))"
| step_cancel: "perm_step admitted svc (ask_cancel rid svc)"

subsection \<open>Session rules\<close>

text \<open>
  A rule of the session comes from a call that was not denied; a pending request records such a
  call. With literal tools and patterns a session rule matches nothing but its own call.
\<close>

definition literal :: "string \<Rightarrow> string list \<Rightarrow> bool" where
  "literal tool ps \<longleftrightarrow> list_all plain_char tool \<and> (\<forall>p \<in> set ps. list_all plain_char p)"

definition undenied :: "service \<Rightarrow> string \<Rightarrow> string \<Rightarrow> bool" where
  "undenied svc tool p \<longleftrightarrow> rule_action (evaluate tool p [base_ruleset svc]) \<noteq> Deny"

definition literal_inv :: "service \<Rightarrow> bool" where
  "literal_inv svc \<longleftrightarrow>
     (\<forall>r \<in> set (session_ruleset svc). rule_action r = Allow \<and> literal (permission r) [rule_pattern r] \<and> undenied svc (permission r) (rule_pattern r)) \<and>
     (\<forall>(i, req) \<in> set (pending svc). rq_id req = i \<and> literal (rq_tool req) (rq_always req) \<and> (\<forall>p \<in> set (rq_always req). undenied svc (rq_tool req) p))"

lemma literal_matches: "literal (permission r) [rule_pattern r] \<Longrightarrow> rule_matches tool p r \<longleftrightarrow> permission r = tool \<and> rule_pattern r = p"
  by (auto simp: literal_def rule_matches_def fnmatch_plain)

lemma decision_undenied:
  assumes "literal_inv svc"
  shows "decision tool svc p = Deny \<longleftrightarrow> \<not> undenied svc tool p"
proof (cases "\<exists>r \<in> set (session_ruleset svc). rule_matches tool p r")
  case True
  then obtain r where r: "r \<in> set (session_ruleset svc)" "rule_matches tool p r" by blast
  have "undenied svc tool p" using assms r literal_matches [of r] by (auto simp: literal_inv_def)
  moreover have "decision tool svc p = Allow"
    using evaluate_mem [OF True] True assms by (auto simp: evaluate_append literal_inv_def)
  ultimately show ?thesis by simp
next
  case False
  then show ?thesis by (simp add: evaluate_append undenied_def)
qed

lemma create_request_simps [simp]:
  "rq_always (create_request rid sid tool ps (Some ps)) = ps" "rq_tool (create_request rid sid tool ps a) = tool"
  "rq_id (create_request rid sid tool ps a) = rid" "rq_future (create_request rid sid tool ps a) = None"
  by (cases ps; simp add: create_request_def)+

lemma set_update: "set (AList.update k v al) \<subseteq> insert (k, v) (set al)"
  by (induction al) auto

lemma set_delete: "set (AList.delete k al) \<subseteq> set al"
  by (auto simp: AList.delete_eq)

lemma literal_inv_pending:
  assumes "literal_inv svc" "set ps \<subseteq> insert (i, req) (set (pending svc))"
    and "rq_id req = i" "literal (rq_tool req) (rq_always req)" "\<And>p. p \<in> set (rq_always req) \<Longrightarrow> undenied svc (rq_tool req) p"
  shows "literal_inv (svc\<lparr>pending := ps\<rparr>)"
  using assms unfolding literal_inv_def undenied_def by (auto split: prod.splits)

lemma literal_inv_drop:
  "literal_inv svc \<Longrightarrow> set ps \<subseteq> set (pending svc) \<Longrightarrow> literal_inv (svc\<lparr>pending := ps\<rparr>)"
  unfolding literal_inv_def undenied_def by (auto split: prod.splits)

lemma literal_inv_allow:
  assumes "literal_inv svc" "literal (rq_tool req) (rq_always req)" "\<And>p. p \<in> set (rq_always req) \<Longrightarrow> undenied svc (rq_tool req) p"
  shows "literal_inv (svc\<lparr>session_ruleset := session_ruleset svc @ allow_rules req\<rparr>)"
  using assms unfolding literal_inv_def undenied_def allow_rules_def literal_def by (auto split: prod.splits)

interpretation literal_calls: step_invariant "perm_step literal" literal_inv
proof unfold_locales
  fix svc svc'
  assume "literal_inv svc" and "perm_step literal svc svc'"
  from this(2,1) show "literal_inv svc'"
  proof (induction rule: perm_step.induct)
    case (step_ask tool ps rid svc st svc')
    note inv = step_ask(4)
    have ok: "undenied svc tool p" if "p \<in> set ps" and "check_patterns tool svc ps = Inr b" for p b
      using that decision_undenied [OF inv, of tool p] by (simp add: check_patterns_Inr)
    show ?case
      using step_ask inv ok set_update [of rid "create_request rid (svc_session svc) tool ps (Some ps)" "pending svc"]
      by (auto simp: ask_begin_def Let_def split: sum.splits bool.splits intro!: literal_inv_pending)
  next
    case (step_auto tool ps rid watched svc svc')
    note inv = step_auto(3)
    have ok: "undenied svc tool p" if "p \<in> set ps" and "check_patterns tool svc ps = Inr b" for p b
      using that decision_undenied [OF inv, of tool p] by (simp add: check_patterns_Inr)
    show ?case
      using step_auto inv ok by (auto simp: auto_ask_def Let_def split: sum.splits if_splits intro!: literal_inv_allow)
  next
    case (step_reply svc rid r sid)
    note inv = step_reply
    show ?case
    proof (cases "map_of (pending svc) rid")
      case (Some req)
      then have "(rid, req) \<in> set (pending svc)" by (rule map_of_SomeD)
      then have "rq_id req = rid \<and> literal (rq_tool req) (rq_always req) \<and> (\<forall>p \<in> set (rq_always req). undenied svc (rq_tool req) p)"
        using inv by (auto simp: literal_inv_def)
      then have "literal_inv (svc\<lparr>pending := AList.update rid (req\<lparr>rq_future := Some r\<rparr>) (pending svc)\<rparr>)"
        by (intro literal_inv_pending [OF inv set_update]) simp_all
      then show ?thesis using inv Some by (simp add: reply_to_def)
    qed (use inv in \<open>simp add: reply_to_def\<close>)
  next
    case (step_resume svc rid req r)
    note inv = step_resume(3)
    have req: "literal (rq_tool req) (rq_always req)" "\<And>p. p \<in> set (rq_always req) \<Longrightarrow> undenied svc (rq_tool req) p"
      using inv map_of_SomeD [OF step_resume(1)] by (auto simp: literal_inv_def)
    let ?svc = "svc\<lparr>pending := AList.delete (rq_id req) (pending svc)\<rparr>"
    have d: "literal_inv ?svc" using literal_inv_drop [OF inv set_delete] .
    have "literal_inv (?svc\<lparr>session_ruleset := session_ruleset ?svc @ allow_rules req\<rparr>)"
      using req by (intro literal_inv_allow [OF d]) (simp_all add: undenied_def)
    then show ?case using d by (cases r) (simp_all add: ask_resume_def Let_def)
  next
    case (step_cancel svc rid)
    show ?case using literal_inv_drop [OF step_cancel set_delete] by (simp add: ask_cancel_def)
  qed
qed

lemma base_kept: "perm_step adm svc svc' \<Longrightarrow> base_ruleset svc' = base_ruleset svc"
  by (erule perm_step.cases)
    (auto simp: ask_begin_def auto_ask_def reply_to_def ask_resume_def ask_cancel_def Let_def
       split: sum.splits bool.splits if_splits option.splits reply.splits)

lemma run_base: "(perm_step adm)\<^sup>*\<^sup>* svc svc' \<Longrightarrow> base_ruleset svc' = base_ruleset svc"
  by (induction rule: rtranclp_induct) (simp_all add: base_kept)

subsection \<open>What a session has allowed stays allowed\<close>

definition allowed :: "string \<Rightarrow> string \<Rightarrow> service \<Rightarrow> bool" where
  "allowed tool p svc \<longleftrightarrow> (\<forall>r \<in> set (session_ruleset svc). rule_action r = Allow) \<and>
     (\<exists>r \<in> set (session_ruleset svc). rule_matches tool p r)"

lemma allowed_decision: "allowed tool p svc \<Longrightarrow> decision tool svc p = Allow"
  using evaluate_mem [of "session_ruleset svc" tool p] by (auto simp: allowed_def evaluate_append)

lemma session_rules_grow:
  "perm_step adm svc svc' \<Longrightarrow> \<exists>rs. session_ruleset svc' = session_ruleset svc @ rs \<and> (\<forall>r \<in> set rs. rule_action r = Allow)"
  by (erule perm_step.cases)
    (auto simp: ask_begin_def auto_ask_def reply_to_def ask_resume_def ask_cancel_def allow_rules_def Let_def
       split: sum.splits bool.splits if_splits option.splits reply.splits)

interpretation session_allows: step_invariant "perm_step adm" "allowed tool p" for adm tool p
proof unfold_locales
  show "allowed tool p svc'" if "allowed tool p svc" "perm_step adm svc svc'" for svc svc'
    using that session_rules_grow [OF that(2)] by (auto simp: allowed_def)
qed

interpretation session_only_allows: step_invariant "perm_step adm" "\<lambda>svc. \<forall>r \<in> set (session_ruleset svc). rule_action r = Allow" for adm
proof unfold_locales
  show "\<forall>r \<in> set (session_ruleset svc'). rule_action r = Allow"
    if "\<forall>r \<in> set (session_ruleset svc). rule_action r = Allow" "perm_step adm svc svc'" for svc svc'
    using that session_rules_grow [OF that(2)] by auto
qed

section \<open>Properties\<close>

text \<open>
  \<open>evaluate\<close> is \<open>findLast\<close> over the rules in the order of the rulesets: it returns the rule
  after which no rule matches, and the \<open>ask\<close> fallback exactly when none does.
\<close>

theorem evaluate_is_find_last:
  "evaluate tool pat rulesets = r \<longleftrightarrow>
     (\<exists>us vs. concat rulesets = us @ r # vs \<and> rule_matches tool pat r \<and> (\<forall>v \<in> set vs. \<not> rule_matches tool pat v)) \<or>
     (\<forall>v \<in> set (concat rulesets). \<not> rule_matches tool pat v) \<and> r = \<lparr>permission = tool, rule_pattern = ''*'', rule_action = Ask\<rparr>"
  (is "_ \<longleftrightarrow> ?last \<or> ?none")
proof
  assume e: "evaluate tool pat rulesets = r"
  show "?last \<or> ?none"
  proof (cases "filter (rule_matches tool pat) (rev (concat rulesets))")
    case Nil
    then show ?thesis using e by (auto simp: evaluate_alt filter_empty_conv default_rule_def)
  next
    case (Cons x ys)
    then have "x = r" using e by (simp add: evaluate_alt)
    then show ?thesis using filter_rev_Cons [OF Cons] by blast
  qed
next
  assume "?last \<or> ?none"
  then show "evaluate tool pat rulesets = r"
    using evaluate_last by (auto simp: evaluate_alt filter_empty_conv default_rule_def)
qed

theorem evaluate_is_find_last_witness:
  "evaluate ''bash'' ''git push'' [[\<lparr>permission = ''*'', rule_pattern = ''*'', rule_action = Ask\<rparr>],
      [\<lparr>permission = ''bash'', rule_pattern = ''git push'', rule_action = Allow\<rparr>]] =
     \<lparr>permission = ''bash'', rule_pattern = ''git push'', rule_action = Allow\<rparr>"
proof -
  let ?r = "\<lparr>permission = ''bash'', rule_pattern = ''git push'', rule_action = Allow\<rparr>"
  let ?d = "\<lparr>permission = ''*'', rule_pattern = ''*'', rule_action = Ask\<rparr>"
  have "rule_matches ''bash'' ''git push'' ?r" by (simp add: rule_matches_def fnmatch_plain plain_char_def)
  then have "\<exists>us vs. concat [[?d], [?r]] = us @ ?r # vs \<and> rule_matches ''bash'' ''git push'' ?r \<and>
      (\<forall>v \<in> set vs. \<not> rule_matches ''bash'' ''git push'' v)"
    by (intro exI [where x = "[?d]"] exI [where x = "[]"]) simp
  then show ?thesis by (intro iffD2 [OF evaluate_is_find_last] disjI1)
qed

text \<open>
  C33. A denied call stays denied: while the tools and the patterns of the calls are literal, no run
  of the service (approvals, auto-allowed calls, replies and cancellations in any order) makes a
  call succeed that the base rules deny; it raises, and the service is unchanged.
\<close>

theorem deny_is_permanent:
  assumes "(perm_step literal)\<^sup>*\<^sup>* (new_service sid base) svc" "p \<in> set ps"
    and "rule_action (evaluate tool p [base_ruleset (new_service sid base)]) = Deny"
  shows "\<exists>q \<in> set ps. ask_begin rid tool ps always svc = Inl (PermissionDenied tool q (base_ruleset svc @ session_ruleset svc)) \<and>
    auto_ask rid watched tool ps always svc = Inl (PermissionDenied tool q (base_ruleset svc @ session_ruleset svc))"
proof -
  have "literal_inv (new_service sid base)" by (simp add: literal_inv_def new_service_def)
  then have inv: "literal_inv svc" using literal_calls.run_inv [OF assms(1)] by blast
  have "decision tool svc p = Deny"
    using decision_undenied [OF inv, of tool p] run_base [OF assms(1)] assms(3) by (simp add: undenied_def)
  then obtain q where "find (\<lambda>p. decision tool svc p = Deny) ps = Some q" "q \<in> set ps"
    using assms(2) by (cases "find (\<lambda>p. decision tool svc p = Deny) ps") (auto simp: find_None_iff find_Some_iff)
  then show ?thesis by (intro bexI [where x = q]) (simp_all add: ask_begin_def auto_ask_def check_patterns_cases)
qed

definition deny_rm :: rule where
  "deny_rm = \<lparr>permission = ''bash'', rule_pattern = ''rm *'', rule_action = Deny\<rparr>"

lemma deny_rm_matches: "fnmatch ''rm x'' ''rm *'' \<and> fnmatch ''bash'' ''bash'' \<and> \<not> fnmatch ''ls'' ''rm *''"
  by (simp add: fnmatch_def glob_tokens.simps)

theorem deny_is_permanent_witness:
  "\<exists>q \<in> set [''rm x'']. ask_begin 0 ''bash'' [''rm x''] None (new_service ''s'' (Some [deny_rm])) =
      Inl (PermissionDenied ''bash'' q [deny_rm]) \<and>
    auto_ask 0 True ''bash'' [''rm x''] None (new_service ''s'' (Some [deny_rm])) = Inl (PermissionDenied ''bash'' q [deny_rm])"
  using deny_is_permanent [OF rtranclp.rtrancl_refl, of "''rm x''" "[''rm x'']" "''bash''" "''s''" "Some [deny_rm]" 0 None True]
  by (simp add: evaluate_def rule_matches_def new_service_def deny_rm_def deny_rm_matches)

text \<open>
  An \<open>always\<close> reply is remembered: once a waiting call has been resumed with \<open>always\<close>, every
  later call of the same tool with one of its patterns goes on without asking, whatever happens in
  between, unless a pattern contains a bracket (then the pattern does not match itself).
\<close>

theorem always_is_remembered:
  assumes "(perm_step adm)\<^sup>*\<^sup>* (new_service sid base) svc" "(perm_step adm)\<^sup>*\<^sup>* (snd (ask_resume req Always svc)) later"
    and "set ps \<subseteq> set (rq_always req)" "CHR ''['' \<notin> set (rq_tool req)" "\<forall>p \<in> set ps. CHR ''['' \<notin> set p"
  shows "ask_begin rid (rq_tool req) ps always later = Inr (Proceed, later)"
proof -
  have "\<forall>r \<in> set (session_ruleset svc). rule_action r = Allow"
    using session_only_allows.run_inv [OF assms(1)] by (simp add: new_service_def)
  then have start: "allowed (rq_tool req) p (snd (ask_resume req Always svc))" if p: "p \<in> set ps" for p
  proof -
    let ?r = "\<lparr>permission = rq_tool req, rule_pattern = p, rule_action = Allow\<rparr>"
    have "?r \<in> set (allow_rules req)" using assms(3) p by (auto simp: allow_rules_def)
    moreover have "rule_matches (rq_tool req) p ?r" using assms(4,5) p fnmatch_self by (simp add: rule_matches_def)
    moreover have "\<forall>r \<in> set (allow_rules req). rule_action r = Allow" by (auto simp: allow_rules_def)
    ultimately show ?thesis
      using \<open>\<forall>r \<in> set (session_ruleset svc). rule_action r = Allow\<close>
      by (auto simp: allowed_def ask_resume_def Let_def)
  qed
  have "allowed (rq_tool req) p later" if "p \<in> set ps" for p
    using session_allows.run_inv [OF assms(2) start [OF that]] .
  then have "decision (rq_tool req) later p = Allow" if "p \<in> set ps" for p using allowed_decision that by blast
  then have "check_patterns (rq_tool req) later ps = Inr False" by (simp add: check_patterns_Inr)
  then show ?thesis by (simp add: ask_begin_def)
qed

theorem always_is_remembered_witness:
  "ask_begin 1 ''bash'' [''ls''] None
     (snd (ask_resume (create_request 0 ''s'' ''bash'' [''ls''] None) Always (new_service ''s'' None))) =
   Inr (Proceed, snd (ask_resume (create_request 0 ''s'' ''bash'' [''ls''] None) Always (new_service ''s'' None)))"
  using always_is_remembered [of "\<lambda>_ _. True" "''s''" None "new_service ''s'' None" "create_request 0 ''s'' ''bash'' [''ls''] None"
      "snd (ask_resume (create_request 0 ''s'' ''bash'' [''ls''] None) Always (new_service ''s'' None))" "[''ls'']" 1 None]
  by (simp add: create_request_def)

text \<open>
  A reply reaches only the request it names: it is accepted exactly for a pending request of the
  given session (of any session when none is given), changes no other request and no rule, and the
  first reply to a request wins.
\<close>

theorem reply_isolated:
  assumes "reply_to rid r sid svc = (ok, svc')"
  shows "(ok \<longleftrightarrow> (\<exists>req. map_of (pending svc) rid = Some req \<and> (sid = None \<or> sid = Some (rq_session req)))) \<and>
    (\<not> ok \<longrightarrow> svc' = svc) \<and> base_ruleset svc' = base_ruleset svc \<and> session_ruleset svc' = session_ruleset svc \<and>
    (\<forall>i. i \<noteq> rid \<longrightarrow> map_of (pending svc') i = map_of (pending svc) i) \<and>
    (\<forall>req. ok \<longrightarrow> map_of (pending svc) rid = Some req \<longrightarrow>
       map_of (pending svc') rid = Some (req\<lparr>rq_future := Some (case rq_future req of None \<Rightarrow> r | Some r0 \<Rightarrow> r0)\<rparr>))"
proof (cases "map_of (pending svc) rid")
  case (Some req)
  have "req\<lparr>rq_future := Some x\<rparr> = req" if "rq_future req = Some x" for x using that by simp
  then show ?thesis
    using assms Some by (auto simp: reply_to_def update_conv' split: if_splits option.split)
qed (use assms in \<open>auto simp: reply_to_def\<close>)

theorem reply_isolated_witness:
  "fst (reply_to 0 Once (Some ''other'') ((new_service ''s'' None)\<lparr>pending := [(0, create_request 0 ''s'' ''bash'' [''ls''] None)]\<rparr>)) = False"
  using reply_isolated [of 0 Once "Some ''other''"
      "(new_service ''s'' None)\<lparr>pending := [(0, create_request 0 ''s'' ''bash'' [''ls''] None)]\<rparr>", OF surjective_pairing]
  by (simp add: create_request_def)

text \<open>
  An approved command is recorded as a glob: under the auto-allow service, a call whose command
  is a single star is not denied by the rule against \<open>rm *\<close>, and the session rule it leaves
  behind lets a later \<open>rm x\<close> through, which the base rule denied before.
\<close>

theorem wildcard_call_overrides_deny:
  "(\<exists>e. auto_ask 0 True ''bash'' (call_patterns ''bash'' [(''command'', ''rm x'')]) None (new_service ''s'' (Some [deny_rm])) = Inl e) \<and>
   (\<exists>svc svc'. auto_ask 0 True ''bash'' (call_patterns ''bash'' [(''command'', ''*'')]) None (new_service ''s'' (Some [deny_rm])) = Inr svc \<and>
      auto_ask 1 True ''bash'' (call_patterns ''bash'' [(''command'', ''rm x'')]) None svc = Inr svc')"
proof -
  have s: "strip ''*'' = ''*''" "strip ''rm x'' = ''rm x''" by (simp_all add: strip_def lstrip_def rstrip_def is_space_def)
  have m: "\<not> fnmatch ''*'' ''rm *''" "fnmatch ''rm x'' ''rm *''" "fnmatch ''bash'' ''bash''"
    by (simp_all add: fnmatch_def glob_tokens.simps)
  show ?thesis
    by (simp add: auto_ask_def call_patterns_def s evaluate_def rule_matches_def new_service_def deny_rm_def m create_request_def
        allow_rules_def Let_def)
qed

text \<open>
  Only the first 200 characters of a command are judged: two commands that agree on them get
  the same decision and the same session rules, whatever follows.
\<close>

theorem command_tail_ignored:
  assumes "strip cmd = head @ tail" "strip cmd' = head @ tail'" "length head = 200"
  shows "auto_ask rid watched tool (call_patterns tool ((''command'', cmd) # args)) always svc =
      auto_ask rid watched tool (call_patterns tool ((''command'', cmd') # args')) always svc \<and>
    ask_begin rid tool (call_patterns tool ((''command'', cmd) # args)) always svc =
      ask_begin rid tool (call_patterns tool ((''command'', cmd') # args')) always svc"
proof -
  have "head \<noteq> []" using assms(3) by auto
  then have "call_patterns tool ((''command'', cmd) # args) = [head]" "call_patterns tool ((''command'', cmd') # args') = [head]"
    using assms by (simp_all add: call_patterns_def Let_def)
  then show ?thesis by simp
qed

theorem command_tail_ignored_witness:
  "auto_ask 0 True ''bash'' (call_patterns ''bash'' [(''command'', replicate 200 CHR ''a'')]) None (new_service ''s'' None) =
   auto_ask 0 True ''bash'' (call_patterns ''bash'' [(''command'', replicate 200 CHR ''a'' @ '';rm x'')]) None (new_service ''s'' None)"
proof -
  have s: "strip (replicate 200 CHR ''a'' @ xs) = replicate 200 CHR ''a'' @ xs" if "xs = [] \<or> last xs = CHR ''x''" for xs
    using that unfolding strip_def by (subst lstrip_id, simp add: hd_append is_space_def, subst rstrip_id)
      (auto simp: is_space_def last_append)
  show ?thesis
    using command_tail_ignored [of "replicate 200 CHR ''a''" "replicate 200 CHR ''a''" "[]" "replicate 200 CHR ''a'' @ '';rm x''" "'';rm x''"
        0 True "''bash''" "[]" None "new_service ''s'' None" "[]"] s [of "[]"] s [of "'';rm x''"] by simp
qed

end
