(* ===== verification/Retry.thy ===== *)
theory Retry
  imports Complex_Main Prelude
begin

text \<open>
  The retrying provider stream of \<open>app/agent/agent_loop/retry.py\<close>: classification of errors, the
  wait a provider asks for, the backoff schedule and \<open>stream_with_retry\<close>, whose run is the list of
  the items it yields, the sleeps, the hook notices and the way it ends. The provider is a
  parameter: what each attempt yields and how it ends; \<open>loads\<close> decodes JSON text; the random draws
  and the moments the interrupt event is set are parameters as well. Decimal seconds are exact.
\<close>

section \<open>Responses and errors\<close>

record response =
  status_code :: nat
  retry_after_header :: string
  body_text :: "string option" \<comment> \<open>None: it cannot be read\<close>

datatype net_error = RequestErr | ConnectionErr | TimeoutErr | GaiErr | HostErr | SslErr | HttpException
  | CertVerificationErr | UnsupportedProtocol | DecodingErr | TooManyRedirects | UnrelatedErr

datatype failure = HttpError response | NetError net_error

datatype provider_error =
    AuthenticationError nat string "string option"
  | RequestError nat string "string option"
  | RateLimitError
  | ValueErr
  | Reraised failure

definition MAX_RETRIES :: nat where "MAX_RETRIES = 5"

text \<open>The classes of \<open>TRANSIENT_NETWORK_ERRORS\<close>, subclasses included, and the vetoed ones.\<close>

definition network_family :: "net_error \<Rightarrow> bool" where
  "network_family e \<longleftrightarrow> e \<noteq> UnrelatedErr"

definition non_transient :: "net_error \<Rightarrow> bool" where
  "non_transient e \<longleftrightarrow> e \<in> {CertVerificationErr, UnsupportedProtocol, DecodingErr, TooManyRedirects}"

definition is_transient_network_error :: "net_error \<Rightarrow> bool" where
  "is_transient_network_error e \<longleftrightarrow> network_family e \<and> \<not> non_transient e"

definition non_retryable_429_markers :: "string list" where
  "non_retryable_429_markers =
     [''usage_limit_reached'', ''usage_not_included'', ''workspace_owner_credits_depleted'',
      ''workspace_member_credits_depleted'', ''workspace_owner_usage_limit_reached'', ''workspace_member_usage_limit_reached'',
      ''quota_exceeded'', ''insufficient_quota'', ''insufficient balance'', ''no resource package'', ''billing_not_active'',
      ''subscription:free-usage-exhausted'']"

definition BASE_DELAY :: rat where "BASE_DELAY = 1"
definition MAX_DELAY :: rat where "MAX_DELAY = 60"

text \<open>\<open>draw\<close> stands for the uniform draw, as a fraction of its range.\<close>

definition backoff_delay :: "rat \<Rightarrow> nat \<Rightarrow> nat \<Rightarrow> rat" where
  "backoff_delay draw attempt retry_after =
     (if retry_after > 0 then min (of_nat retry_after) MAX_DELAY
      else let base = min (BASE_DELAY * 3 ^ attempt) MAX_DELAY in base / 2 + draw * (base / 2))"

definition is_retryable_http_error :: "(string \<Rightarrow> json option) \<Rightarrow> response \<Rightarrow> bool" where
  "is_retryable_http_error loads r =
     (let status = status_code r in
      if status \<in> {408, 429} then True
      else if 500 \<le> status \<and> status < 600 \<and> status \<notin> {501, 505} then True
      else (case Option.bind (body_text r) loads of
              None \<Rightarrow> False
            | Some payload \<Rightarrow>
                (case json_get ''error'' payload of
                   Some (JObj d) \<Rightarrow> map_of d ''code'' = Some (JStr ''server_error'')
                 | _ \<Rightarrow> False)))"

section \<open>How long to wait\<close>

definition py_isdigit :: "char \<Rightarrow> bool" where
  "py_isdigit c \<longleftrightarrow> is_digit c \<or> (of_char c :: nat) \<in> {178, 179, 185}"

text \<open>\<open>int(s)\<close> on a non-empty string of digits: a superscript digit is a \<open>ValueError\<close>.\<close>

definition py_int :: "string \<Rightarrow> nat option" where
  "py_int s = (if s \<noteq> [] \<and> list_all is_digit s then Some (decimal s) else None)"

definition eat :: "string \<Rightarrow> string \<Rightarrow> string option" where
  "eat p s = (if startswith s p then Some (drop (length p) s) else None)"

definition eat_spaces :: "string \<Rightarrow> string" where
  "eat_spaces s = dropWhile is_space s"

definition eat_digits :: "string \<Rightarrow> (string \<times> string) option" where
  "eat_digits s = (let d = takeWhile is_digit s in if d = [] then None else Some (d, dropWhile is_digit s))"

text \<open>The first match of \<open>re.finditer\<close>: a matcher tried at every position from the left.\<close>

fun search :: "(string \<Rightarrow> 'a option) \<Rightarrow> string \<Rightarrow> 'a option" where
  "search m [] = m []"
| "search m (c # s) = (case m (c # s) of Some x \<Rightarrow> Some x | None \<Rightarrow> search m s)"

definition quote :: string where "quote = [CHR 0x22]"

definition match_retry_delay :: "string \<Rightarrow> nat option" where
  "match_retry_delay s =
     Option.bind (eat (quote @ ''retryDelay'' @ quote) s) (\<lambda>s.
     Option.bind (eat '':'' (eat_spaces s)) (\<lambda>s.
     Option.bind (eat quote (eat_spaces s)) (\<lambda>s.
     Option.bind (eat_digits s) (\<lambda>(d, s).
     Option.bind (eat (''s'' @ quote) s) (\<lambda>_. Some (decimal d))))))"

definition match_reset_after :: "string \<Rightarrow> nat option" where
  "match_reset_after s =
     Option.bind (eat ''reset after '' s) (\<lambda>s.
     Option.bind (eat_digits s) (\<lambda>(d, s).
     Option.bind (eat ''s'' s) (\<lambda>_. Some (decimal d))))"

text \<open>
  \<open>try again in\s+(\d+(?:\.\d+)?)\s*(ms|s|seconds?)\<close> on the lower-cased text: the whole seconds and
  whether the unit is milliseconds.
\<close>

definition match_unit :: "string \<Rightarrow> bool option" where
  "match_unit s = (let s = eat_spaces s in if startswith s ''ms'' then Some True else if startswith s ''s'' then Some False else None)"

definition match_try_again :: "string \<Rightarrow> (nat \<times> bool) option" where
  "match_try_again s =
     Option.bind (eat ''try again in'' s) (\<lambda>s.
     if eat_spaces s = s then None
     else Option.bind (eat_digits (eat_spaces s)) (\<lambda>(d, s).
       let rest = (case Option.bind (eat ''.'' s) eat_digits of Some (_, s') \<Rightarrow> s' | None \<Rightarrow> s) in
       map_option (\<lambda>ms. (decimal d, ms)) (match_unit rest)))"

definition parse_retry_after :: "response \<Rightarrow> nat option" where
  \<comment> \<open>None: \<open>int\<close> raises\<close>
  "parse_retry_after r =
     (if retry_after_header r \<noteq> [] \<and> list_all py_isdigit (retry_after_header r) then py_int (retry_after_header r)
      else case body_text r of
        None \<Rightarrow> Some 0
      | Some body \<Rightarrow>
          (case search match_retry_delay body of Some n \<Rightarrow> Some n | None \<Rightarrow>
          (case search match_reset_after body of Some n \<Rightarrow> Some n | None \<Rightarrow>
          (case search match_try_again (lower body) of
             Some (n, True) \<Rightarrow> Some (max 1 (n div 1000))
           | Some (n, False) \<Rightarrow> Some (max 1 n)
           | None \<Rightarrow> Some 0))))"

definition is_non_retryable_429 :: "response \<Rightarrow> bool" where
  "is_non_retryable_429 r =
     (status_code r = 429 \<and>
      (case body_text r of
         None \<Rightarrow> False
       | Some body \<Rightarrow> list_ex (contains_sub (lower body)) non_retryable_429_markers))"

section \<open>Errors for the user\<close>

text \<open>A string value that is not blank, stripped.\<close>

definition text_of :: "json option \<Rightarrow> string option" where
  "text_of v = (case v of Some (JStr s) \<Rightarrow> if strip s \<noteq> [] then Some (strip s) else None | _ \<Rightarrow> None)"

definition extract_provider_error_message :: "(string \<Rightarrow> json option) \<Rightarrow> string \<Rightarrow> string option" where
  "extract_provider_error_message loads body =
     (case loads body of
        Some (JObj data) \<Rightarrow>
          let rest = (case text_of (map_of data ''message'') of Some s \<Rightarrow> Some s | None \<Rightarrow> text_of (map_of data ''detail'')) in
          (case map_of data ''error'' of
             Some (JObj e) \<Rightarrow>
               (case text_of (map_of e ''message'') of
                  Some msg \<Rightarrow>
                    (case map_of e ''type'' of
                       Some (JStr ty) \<Rightarrow> if strip ty \<noteq> [] then Some (ty @ '': '' @ msg) else Some msg
                     | _ \<Rightarrow> Some msg)
                | None \<Rightarrow> rest)
           | Some (JStr s) \<Rightarrow> if strip s \<noteq> [] then Some (strip s) else rest
           | _ \<Rightarrow> rest)
      | _ \<Rightarrow> None)"

definition word_char :: "char \<Rightarrow> bool" where
  "word_char c \<longleftrightarrow> is_alnum c \<or> c = CHR ''_''"

definition word_at :: "string \<Rightarrow> string \<Rightarrow> nat \<Rightarrow> bool" where
  "word_at w s i \<longleftrightarrow> startswith (drop i s) w \<and> (i = 0 \<or> \<not> word_char (s ! (i - 1))) \<and>
     (i + length w \<ge> length s \<or> \<not> word_char (s ! (i + length w)))"

definition model_problems :: "string list" where
  "model_problems = [''not supported'', ''unsupported'', ''unavailable'', ''not available'', ''does not exist'', ''not found'',
     ''no access'', ''decommissioned'', ''deprecated'', ''retired'']"

definition blames_the_model :: "string option \<Rightarrow> bool" where
  "blames_the_model detail =
     (case detail of
        None \<Rightarrow> False
      | Some d \<Rightarrow> let s = lower d in
          list_ex (\<lambda>i. word_at ''model'' s i \<and>
            list_ex (\<lambda>j. i + 5 \<le> j \<and> NL \<notin> set (take (j - (i + 5)) (drop (i + 5) s)) \<and> list_ex (\<lambda>p. word_at p s j) model_problems)
              [0..<length s]) [0..<length s])"

definition classify_provider_http_error :: "(string \<Rightarrow> json option) \<Rightarrow> string \<Rightarrow> response \<Rightarrow> provider_error" where
  "classify_provider_http_error loads label r =
     (let detail = Option.bind (body_text r) (extract_provider_error_message loads) in
      if status_code r \<in> {401, 403} \<and> \<not> blames_the_model detail
      then AuthenticationError (status_code r) label detail
      else RequestError (status_code r) label detail)"

section \<open>The retry loop\<close>

datatype 'c stream_item = Chunk 'c | Restart

datatype notice = RateLimitNotice nat nat | RetryNotice nat rat | ExhaustedNotice

record 'c provider =
  attempts :: "nat \<Rightarrow> 'c list \<times> failure option" \<comment> \<open>what an attempt yields and how it ends\<close>
  set_before :: "nat \<Rightarrow> bool" \<comment> \<open>the interrupt event is set when the attempt starts\<close>
  set_during_sleep :: "nat \<Rightarrow> bool" \<comment> \<open>it is set before the sleep after the attempt is over\<close>
  draws :: "nat \<Rightarrow> rat"
  label :: string
  hooked :: bool

datatype retry_result = Completed | Interrupted | Raised provider_error

record 'c retry_run =
  rr_items :: "'c stream_item list"
  rr_sleeps :: "rat list"
  rr_notices :: "notice list"
  rr_result :: retry_result

datatype verdict = RaiseNow provider_error | Break "notice list" | Again rat "notice list"

definition on_http_error :: "(string \<Rightarrow> json option) \<Rightarrow> 'c provider \<Rightarrow> nat \<Rightarrow> response \<Rightarrow> verdict" where
  "on_http_error loads p attempt r =
     (if \<not> is_retryable_http_error loads r then RaiseNow (classify_provider_http_error loads (label p) r)
      else if status_code r = 429 \<and> is_non_retryable_429 r then Break []
      else case parse_retry_after r of
        None \<Rightarrow> RaiseNow ValueErr
      | Some retry_after \<Rightarrow>
          let limited = (if status_code r = 429 \<and> hooked p then [RateLimitNotice retry_after (attempt + 1)] else []) in
          if attempt + 1 \<ge> MAX_RETRIES then Break (limited @ (if hooked p then [ExhaustedNotice] else []))
          else
            let required_delay = min (if retry_after > 0 then of_nat retry_after else BASE_DELAY * 3 ^ attempt) MAX_DELAY;
                delay = backoff_delay (draws p attempt) attempt retry_after in
            if status_code r = 429 \<and> required_delay \<ge> MAX_DELAY then Break limited
            else Again delay (limited @ (if hooked p then [RetryNotice (attempt + 1) delay] else [])))"

definition on_network_error :: "'c provider \<Rightarrow> nat \<Rightarrow> net_error \<Rightarrow> verdict" where
  "on_network_error p attempt e =
     (if \<not> network_family e \<or> \<not> is_transient_network_error e then RaiseNow (Reraised (NetError e))
      else if attempt + 1 \<ge> MAX_RETRIES then Break (if hooked p then [ExhaustedNotice] else [])
      else let delay = backoff_delay (draws p attempt) attempt 0 in
        Again delay (if hooked p then [RetryNotice (attempt + 1) delay] else []))"

fun on_failure :: "(string \<Rightarrow> json option) \<Rightarrow> 'c provider \<Rightarrow> nat \<Rightarrow> failure \<Rightarrow> verdict" where
  "on_failure loads p attempt (HttpError r) = on_http_error loads p attempt r"
| "on_failure loads p attempt (NetError e) = on_network_error p attempt e"

fun give_up :: "failure \<Rightarrow> provider_error" where
  "give_up (HttpError r) = (if status_code r = 429 then RateLimitError else Reraised (HttpError r))"
| "give_up (NetError e) = Reraised (NetError e)"

definition run_of :: "'c stream_item list \<Rightarrow> notice list \<Rightarrow> retry_result \<Rightarrow> 'c retry_run" where
  "run_of items notices res = \<lparr>rr_items = items, rr_sleeps = [], rr_notices = notices, rr_result = res\<rparr>"

definition after_sleep :: "'c stream_item list \<Rightarrow> notice list \<Rightarrow> rat \<Rightarrow> 'c retry_run \<Rightarrow> 'c retry_run" where
  "after_sleep items notices delay run =
     \<lparr>rr_items = items @ rr_items run, rr_sleeps = delay # rr_sleeps run, rr_notices = notices @ rr_notices run,
      rr_result = rr_result run\<rparr>"

text \<open>
  The loop with \<open>k\<close> attempts left; \<open>emitted\<close> says that the last attempt has yielded a chunk. It is
  left by \<open>break\<close> only with the failure at hand, so the loop variable \<open>last_exc\<close> is that failure.
\<close>

fun retry_from :: "(string \<Rightarrow> json option) \<Rightarrow> 'c provider \<Rightarrow> nat \<Rightarrow> nat \<Rightarrow> bool \<Rightarrow> failure option \<Rightarrow> 'c retry_run" where
  "retry_from loads p 0 attempt emitted last_exc =
     run_of [] [] (case last_exc of None \<Rightarrow> Completed | Some f \<Rightarrow> Raised (give_up f))"
| "retry_from loads p (Suc k) attempt emitted last_exc =
     (if set_before p attempt then run_of [] [] Interrupted
      else let (chunks, failed) = attempts p attempt;
               items = (if emitted then [Restart] else []) @ map Chunk chunks in
        (case failed of
           None \<Rightarrow> run_of items [] Completed
         | Some f \<Rightarrow>
             (case on_failure loads p attempt f of
                RaiseNow e \<Rightarrow> run_of items [] (Raised e)
              | Break notices \<Rightarrow> run_of items notices (Raised (give_up f))
              | Again delay notices \<Rightarrow>
                  if set_during_sleep p attempt then run_of items notices Interrupted
                  else after_sleep items notices delay (retry_from loads p k (attempt + 1) (chunks \<noteq> []) (Some f)))))"

definition stream_with_retry :: "(string \<Rightarrow> json option) \<Rightarrow> 'c provider \<Rightarrow> 'c retry_run" where
  "stream_with_retry loads p = retry_from loads p MAX_RETRIES 0 False None"

section \<open>Facts\<close>

lemma jitter_bounds:
  fixes b d :: rat
  assumes "0 \<le> d" "d \<le> 1" "0 \<le> b"
  shows "b / 2 \<le> b / 2 + d * (b / 2)" "b / 2 + d * (b / 2) \<le> b"
proof -
  have "0 \<le> d * (b / 2)" using assms by simp
  moreover have "d * (b / 2) \<le> 1 * (b / 2)" using assms by (intro mult_right_mono) simp_all
  ultimately show "b / 2 \<le> b / 2 + d * (b / 2)" "b / 2 + d * (b / 2) \<le> b" by linarith+
qed

lemma backoff_exponential: "backoff_delay draw attempt 0 = min (3 ^ attempt) 60 / 2 + draw * (min (3 ^ attempt) 60 / 2)"
  by (simp add: backoff_delay_def Let_def BASE_DELAY_def MAX_DELAY_def)

lemma backoff_bounds:
  assumes "0 \<le> draw" "draw \<le> 1"
  shows "0 < backoff_delay draw attempt ra" "backoff_delay draw attempt ra \<le> 60"
    and "backoff_delay draw attempt 0 \<le> 3 ^ attempt" "3 ^ attempt \<le> (60 :: rat) \<Longrightarrow> 3 ^ attempt / 2 \<le> backoff_delay draw attempt 0"
proof -
  define b where "b = min (3 ^ attempt) (60 :: rat)"
  have b: "0 < b" "b \<le> 60" "b \<le> 3 ^ attempt" "3 ^ attempt \<le> (60 :: rat) \<Longrightarrow> b = 3 ^ attempt" by (auto simp: b_def)
  have e: "backoff_delay draw attempt 0 = b / 2 + draw * (b / 2)" unfolding b_def by (rule backoff_exponential)
  note j = jitter_bounds [OF assms, of b]
  have n: "0 < ra \<Longrightarrow> backoff_delay draw attempt ra = min (of_nat ra) 60" by (simp add: backoff_delay_def MAX_DELAY_def)
  show "0 < backoff_delay draw attempt ra" "backoff_delay draw attempt ra \<le> 60"
    using n b e j by (cases ra; simp)+
  show "backoff_delay draw attempt 0 \<le> 3 ^ attempt" using b e j by linarith
  show "3 ^ attempt / 2 \<le> backoff_delay draw attempt 0" if "3 ^ attempt \<le> (60 :: rat)" using b(4) [OF that] e j by simp
qed

lemma on_failure_Again:
  "on_failure loads p attempt f = Again d ns \<Longrightarrow> attempt + 1 < MAX_RETRIES \<and> (\<exists>ra. d = backoff_delay (draws p attempt) attempt ra)"
  by (cases f) (auto simp: on_http_error_def on_network_error_def Let_def split: if_splits option.splits)

lemma on_network_Again:
  "on_failure loads p attempt (NetError e) = Again d ns \<Longrightarrow> d = backoff_delay (draws p attempt) attempt 0"
  by (auto simp: on_network_error_def Let_def split: if_splits)

text \<open>How a run of the loop is made up of attempts.\<close>

inductive attempts_made :: "(string \<Rightarrow> json option) \<Rightarrow> 'c provider \<Rightarrow> nat \<Rightarrow> bool \<Rightarrow> nat \<Rightarrow> 'c retry_run \<Rightarrow> bool" for loads p where
  made_stop: "rr_sleeps run = [] \<Longrightarrow> attempt + length (rr_sleeps run) < MAX_RETRIES \<Longrightarrow>
    rr_items run = [] \<and> rr_result run = Interrupted \<or>
    rr_items run = (if emitted then [Restart] else []) @ map Chunk (fst (attempts p attempt)) \<and>
      (rr_result run = Completed \<longleftrightarrow> snd (attempts p attempt) = None) \<Longrightarrow>
    attempts_made loads p attempt emitted attempt run"
| made_again: "attempts_made loads p (attempt + 1) (fst (attempts p attempt) \<noteq> []) n run \<Longrightarrow>
    snd (attempts p attempt) = Some f \<Longrightarrow> on_failure loads p attempt f = Again delay notices \<Longrightarrow>
    attempts_made loads p attempt emitted n
      (after_sleep ((if emitted then [Restart] else []) @ map Chunk (fst (attempts p attempt))) notices delay run)"

lemma retry_from_made:
  assumes "k + attempt = MAX_RETRIES" "0 < k"
  shows "\<exists>n. attempts_made loads p attempt emitted n (retry_from loads p k attempt emitted last_exc)"
  using assms
proof (induction k arbitrary: attempt emitted last_exc)
  case (Suc k)
  obtain chunks failed where a: "attempts p attempt = (chunks, failed)" by force
  show ?case
  proof (cases "\<not> set_before p attempt \<and> (\<exists>f d ns. failed = Some f \<and> on_failure loads p attempt f = Again d ns \<and> \<not> set_during_sleep p attempt)")
    case True
    then obtain f d ns where f: "failed = Some f" "on_failure loads p attempt f = Again d ns" by blast
    have "0 < k" using on_failure_Again [OF f(2)] Suc.prems by simp
    then obtain n where "attempts_made loads p (attempt + 1) (chunks \<noteq> []) n (retry_from loads p k (attempt + 1) (chunks \<noteq> []) (Some f))"
      using Suc.IH [of "attempt + 1"] Suc.prems by fastforce
    from made_again [of loads p attempt n "retry_from loads p k (attempt + 1) (chunks \<noteq> []) (Some f)" f d ns emitted] this
    show ?thesis using a f True by (auto intro!: exI [where x = n])
  next
    case False
    let ?items = "(if emitted then [Restart] else []) @ map Chunk chunks"
    let ?run = "retry_from loads p (Suc k) attempt emitted last_exc"
    have "?run = run_of [] [] Interrupted \<or> (\<exists>ns res. ?run = run_of ?items ns res \<and> (res = Completed \<longleftrightarrow> failed = None))"
      using False a by (cases failed) (auto simp: Let_def split: verdict.splits)
    then have "attempts_made loads p attempt emitted attempt ?run"
      using a Suc.prems by (intro made_stop) (auto simp: run_of_def)
    then show ?thesis by blast
  qed
qed simp

subsection \<open>Sleeps and items of a run\<close>

abbreviation fair_draws :: "'c provider \<Rightarrow> bool" where
  "fair_draws p \<equiv> \<forall>i. 0 \<le> draws p i \<and> draws p i \<le> 1"

lemma made_sleeps:
  assumes "attempts_made loads p attempt emitted n run" "fair_draws p"
  shows "attempt + length (rr_sleeps run) < MAX_RETRIES \<and> (\<forall>d \<in> set (rr_sleeps run). 0 < d \<and> d \<le> 60)"
  using assms
proof (induction rule: attempts_made.induct)
  case (made_again attempt n run f delay notices emitted)
  then obtain ra where "delay = backoff_delay (draws p attempt) attempt ra" using on_failure_Again by blast
  then have "0 < delay \<and> delay \<le> 60" using backoff_bounds(1,2) made_again.prems by blast
  then show ?case using made_again by (auto simp: after_sleep_def)
qed simp

lemma made_network_sleeps:
  assumes "attempts_made loads p attempt emitted n run" "fair_draws p" "\<And>i r. snd (attempts p i) \<noteq> Some (HttpError r)"
  shows "sum_list (rr_sleeps run) \<le> (3 ^ 4 - 3 ^ attempt) / 2"
  using assms
proof (induction rule: attempts_made.induct)
  case (made_stop run attempt emitted)
  then have "(3 :: rat) ^ attempt \<le> 3 ^ 4" by (intro power_increasing) (simp_all add: MAX_RETRIES_def)
  then show ?case using made_stop by simp
next
  case (made_again attempt n run f delay notices emitted)
  then obtain e where "f = NetError e" by (cases f) auto
  then have "delay \<le> 3 ^ attempt" using on_network_Again made_again backoff_bounds(3) by metis
  then show ?case using made_again by (simp add: after_sleep_def)
qed

text \<open>The items a consumer still has when it drops everything before the last restart marker.\<close>

definition since_restart :: "'c stream_item list \<Rightarrow> 'c stream_item list" where
  "since_restart xs = rev (takeWhile (\<lambda>x. x \<noteq> Restart) (rev xs))"

lemma since_restart_marker [simp]: "since_restart (xs @ Restart # ys) = since_restart ys"
  by (auto simp: since_restart_def takeWhile_append takeWhile_eq_all_conv [THEN iffD2])

lemma since_restart_chunks [simp]: "since_restart (map Chunk cs) = map Chunk cs"
  unfolding since_restart_def by (subst takeWhile_eq_all_conv [THEN iffD2]) auto

lemma since_restart_append_chunks: "since_restart (xs @ map Chunk cs) = since_restart xs @ map Chunk cs"
proof -
  have "takeWhile (\<lambda>x. x \<noteq> Restart) (rev (map Chunk cs) @ rev xs) = rev (map Chunk cs) @ takeWhile (\<lambda>x. x \<noteq> Restart) (rev xs)"
    by (rule takeWhile_append2) auto
  then show ?thesis by (simp add: since_restart_def)
qed

lemma made_final_items:
  assumes "attempts_made loads p attempt emitted n run" "rr_result run = Completed" "emitted \<or> since_restart pre = []"
  shows "since_restart (pre @ rr_items run) = map Chunk (fst (attempts p n)) \<and> snd (attempts p n) = None \<and> n < MAX_RETRIES"
  using assms
proof (induction arbitrary: pre rule: attempts_made.induct)
  case (made_stop run attempt emitted)
  then show ?case using since_restart_append_chunks [of pre] by (auto split: if_splits)
next
  case (made_again attempt n run f delay notices emitted)
  let ?items = "(if emitted then [Restart] else []) @ map Chunk (fst (attempts p attempt))"
  have "fst (attempts p attempt) \<noteq> [] \<or> since_restart (pre @ ?items) = []" using made_again.prems(2) by (auto simp: since_restart_def)
  then have "since_restart ((pre @ ?items) @ rr_items run) = map Chunk (fst (attempts p n)) \<and> snd (attempts p n) = None \<and> n < MAX_RETRIES"
    using made_again.IH [of "pre @ ?items"] made_again.prems(1) unfolding after_sleep_def by simp
  then show ?case by (simp only: after_sleep_def retry_run.select_convs append_assoc)
qed

section \<open>Properties\<close>

text \<open>
  The retry budget: a run of \<open>stream_with_retry\<close> sleeps at most four times, never longer than a
  minute, so at most four minutes in all; when only network errors occur the schedule 1, 3, 9, 27
  bounds the whole wait by 40 seconds.
\<close>

theorem retry_budget:
  assumes "fair_draws p"
  shows "length (rr_sleeps (stream_with_retry loads p)) \<le> 4 \<and>
    (\<forall>d \<in> set (rr_sleeps (stream_with_retry loads p)). 0 < d \<and> d \<le> 60) \<and>
    ((\<forall>i r. snd (attempts p i) \<noteq> Some (HttpError r)) \<longrightarrow> sum_list (rr_sleeps (stream_with_retry loads p)) \<le> 40)"
proof -
  obtain n where made: "attempts_made loads p 0 False n (stream_with_retry loads p)"
    using retry_from_made [of MAX_RETRIES 0 loads p False None] by (auto simp: stream_with_retry_def MAX_RETRIES_def)
  show ?thesis using made_sleeps [OF made assms] made_network_sleeps [OF made assms] by (auto simp: MAX_RETRIES_def)
qed

definition flaky :: "nat provider" where
  "flaky = \<lparr>attempts = (\<lambda>i. if i < 2 then ([i], Some (NetError TimeoutErr)) else ([7, 8], None)), set_before = (\<lambda>_. False),
     set_during_sleep = (\<lambda>_. False), draws = (\<lambda>_. 1), label = ''p'', hooked = False\<rparr>"

lemma flaky_run:
  "stream_with_retry loads flaky =
     \<lparr>rr_items = [Chunk 0, Restart, Chunk 1, Restart, Chunk 7, Chunk 8], rr_sleeps = [1, 3], rr_notices = [], rr_result = Completed\<rparr>"
  by (simp add: stream_with_retry_def flaky_def MAX_RETRIES_def eval_nat_numeral run_of_def after_sleep_def on_network_error_def
      network_family_def is_transient_network_error_def non_transient_def backoff_exponential min_def)

theorem retry_budget_witness: "length (rr_sleeps (stream_with_retry (\<lambda>_. None) flaky)) \<le> 4"
  using retry_budget [of flaky "\<lambda>_. None"] by (simp add: flaky_def)

text \<open>
  Restart discipline: when the stream completes, what it has yielded since the last restart
  marker is exactly the output of one attempt, the one that succeeded; so a consumer that drops
  its buffer at each marker assembles that attempt and nothing of the failed ones.
\<close>

theorem completed_stream_is_final_attempt:
  assumes "rr_result (stream_with_retry loads p) = Completed"
  shows "\<exists>n < MAX_RETRIES. snd (attempts p n) = None \<and>
    since_restart (rr_items (stream_with_retry loads p)) = map Chunk (fst (attempts p n))"
proof -
  obtain n where made: "attempts_made loads p 0 False n (stream_with_retry loads p)"
    using retry_from_made [of MAX_RETRIES 0 loads p False None] by (auto simp: stream_with_retry_def MAX_RETRIES_def)
  show ?thesis using made_final_items [OF made assms, of "[]"] by (auto simp: since_restart_def)
qed

theorem completed_stream_is_final_attempt_witness:
  "\<exists>n < MAX_RETRIES. snd (attempts flaky n) = None \<and>
    since_restart (rr_items (stream_with_retry (\<lambda>_. None) flaky)) = map Chunk (fst (attempts flaky n))"
  by (rule completed_stream_is_final_attempt) (simp add: flaky_run)

text \<open>
  A rejected request is not retried: when the first attempt fails with a client error other than
  408 and 429 whose body does not name a server error, the stream raises at once, without a sleep
  or a restart. It is an authentication error exactly for 401 and 403 not blamed on the model.
\<close>

theorem client_error_fails_fast:
  assumes "\<not> set_before p 0" "attempts p 0 = (chunks, Some (HttpError r))"
    and "400 \<le> status_code r" "status_code r < 500" "status_code r \<noteq> 408" "status_code r \<noteq> 429"
    and "\<And>body. body_text r = Some body \<Longrightarrow> loads body = None"
  shows "rr_sleeps (stream_with_retry loads p) = [] \<and> rr_items (stream_with_retry loads p) = map Chunk chunks \<and>
    rr_result (stream_with_retry loads p) =
      Raised ((if status_code r \<in> {401, 403} then AuthenticationError else RequestError) (status_code r) (label p) None)"
proof -
  have none: "Option.bind (body_text r) loads = None" using assms(7) by (cases "body_text r") auto
  have detail: "Option.bind (body_text r) (extract_provider_error_message loads) = None"
    using assms(7) by (cases "body_text r") (auto simp: extract_provider_error_message_def)
  have "\<not> is_retryable_http_error loads r" using assms(3-6) none by (simp add: is_retryable_http_error_def Let_def)
  moreover have "classify_provider_http_error loads (label p) r =
      (if status_code r \<in> {401, 403} then AuthenticationError else RequestError) (status_code r) (label p) None"
    by (simp add: classify_provider_http_error_def detail blames_the_model_def)
  ultimately have "on_failure loads p 0 (HttpError r) =
      RaiseNow ((if status_code r \<in> {401, 403} then AuthenticationError else RequestError) (status_code r) (label p) None)"
    by (simp add: on_http_error_def)
  then show ?thesis using assms(1,2) by (simp add: stream_with_retry_def MAX_RETRIES_def eval_nat_numeral run_of_def)
qed

definition rejecting :: "nat provider" where
  "rejecting = flaky\<lparr>attempts := (\<lambda>_. ([], Some (HttpError \<lparr>status_code = 401, retry_after_header = [], body_text = None\<rparr>)))\<rparr>"

theorem client_error_fails_fast_witness:
  "rr_result (stream_with_retry (\<lambda>_. None) rejecting) = Raised (AuthenticationError 401 ''p'' None)"
  using client_error_fails_fast [of rejecting "[]" "\<lparr>status_code = 401, retry_after_header = [], body_text = None\<rparr>" "\<lambda>_. None"]
  by (simp add: rejecting_def flaky_def)

text \<open>
  A rate-limited response whose \<open>Retry-After\<close> header is a superscript digit ends the turn with
  an uncaught \<open>ValueError\<close> instead of a retry: \<open>str.isdigit\<close> accepts what \<open>int\<close> rejects.
\<close>

theorem superscript_retry_after_raises:
  "rr_result (stream_with_retry (\<lambda>_. None) (flaky\<lparr>attempts := (\<lambda>_. ([], Some (HttpError
     \<lparr>status_code = 429, retry_after_header = [CHR 0xB2], body_text = Some []\<rparr>)))\<rparr>)) = Raised ValueErr"
  by (simp add: stream_with_retry_def flaky_def MAX_RETRIES_def eval_nat_numeral run_of_def on_http_error_def is_retryable_http_error_def
      is_non_retryable_429_def parse_retry_after_def py_isdigit_def py_int_def is_digit_def contains_sub_def lower_def
      non_retryable_429_markers_def)

end
