(* ===== verification/Assemble.thy ===== *)
theory Assemble
  imports Retry
begin

text \<open>
  Assembling one model response, \<open>app/agent/agent_loop/streaming.py\<close>: the accumulators of
  \<open>stream_and_assemble\<close> with the tool-call buffer, the reset at a restart marker, the filter that
  drops half-formed tool calls, and \<open>_merge_consecutive_user_messages\<close>. The consumer takes the
  items of \<open>stream_with_retry\<close>; an interrupt cuts them short. Opaque payloads (usage, encrypted
  reasoning items) are kept as text, the blocks of a provider as decoded JSON; hooks only observe.
\<close>

section \<open>Chunks and accumulators\<close>

record fn_delta =
  fd_name :: "string option"
  fd_arguments :: "string option"
  fd_thought :: "string option"
  fd_signature :: "string option"

record tc_delta =
  td_index :: "int option"
  td_id :: "string option"
  td_function :: "fn_delta option"

record delta =
  d_reasoning :: "string option"
  d_signature :: "string option"
  d_redacted :: "json option"
  d_raw_blocks :: "json list option"
  d_reasoning_item :: "string option"
  d_content :: "string option"
  d_tool_calls :: "tc_delta list"

record stream_chunk =
  ch_usage :: "string option"
  ch_choice :: "(string option \<times> delta) option" \<comment> \<open>finish reason and delta of the first choice\<close>

record call_buffer =
  cb_id :: string
  cb_name :: string
  cb_arguments :: string
  cb_thought :: "string option"
  cb_signature :: "string option"

record assembly =
  full_content :: string
  reasoning :: string
  reasoning_signature :: string
  redacted_blocks :: "json list"
  raw_blocks :: "json list option"
  reasoning_items :: "string list"
  buffer :: "(int \<times> call_buffer) list"
  last_usage :: "string option"
  finish_reason :: "string option"

definition empty_assembly :: assembly where
  "empty_assembly = \<lparr>full_content = [], reasoning = [], reasoning_signature = [], redacted_blocks = [], raw_blocks = None,
     reasoning_items = [], buffer = [], last_usage = None, finish_reason = None\<rparr>"

text \<open>\<open>x or ""\<close>, and a value kept only when it is truthy.\<close>

definition or_empty :: "string option \<Rightarrow> string" where
  "or_empty v = (case v of None \<Rightarrow> [] | Some s \<Rightarrow> s)"

definition if_truthy :: "string option \<Rightarrow> string option" where
  "if_truthy v = (if v = Some [] then None else v)"

definition if_filled :: "json option \<Rightarrow> json option" where
  "if_filled v = (if v = Some (JObj []) then None else v)"

definition prefer_new :: "'a option \<Rightarrow> 'a option \<Rightarrow> 'a option" where
  "prefer_new new old = (case new of None \<Rightarrow> old | Some x \<Rightarrow> Some x)"

definition fn_field :: "(fn_delta \<Rightarrow> string option) \<Rightarrow> tc_delta \<Rightarrow> string option" where
  "fn_field f tc = if_truthy (Option.bind (td_function tc) f)"

definition new_call :: "tc_delta \<Rightarrow> call_buffer" where
  "new_call tc = \<lparr>cb_id = or_empty (td_id tc), cb_name = or_empty (fn_field fd_name tc), cb_arguments = or_empty (fn_field fd_arguments tc),
     cb_thought = fn_field fd_thought tc, cb_signature = fn_field fd_signature tc\<rparr>"

definition extend_call :: "tc_delta \<Rightarrow> call_buffer \<Rightarrow> call_buffer" where
  "extend_call tc b =
     \<lparr>cb_id = (if cb_id b = [] then or_empty (td_id tc) else cb_id b),
      cb_name = (if cb_name b = [] then or_empty (fn_field fd_name tc) else cb_name b),
      cb_arguments = cb_arguments b @ or_empty (fn_field fd_arguments tc),
      cb_thought = (case fn_field fd_thought tc of None \<Rightarrow> cb_thought b | t \<Rightarrow> t),
      cb_signature = (case fn_field fd_signature tc of None \<Rightarrow> cb_signature b | Some s \<Rightarrow> Some (or_empty (cb_signature b) @ s))\<rparr>"

definition tc_slot :: "tc_delta \<Rightarrow> int" where
  "tc_slot tc = (case td_index tc of None \<Rightarrow> 0 | Some i \<Rightarrow> i)"

definition buffer_call :: "tc_delta \<Rightarrow> (int \<times> call_buffer) list \<Rightarrow> (int \<times> call_buffer) list" where
  "buffer_call tc buf =
     AList.update (tc_slot tc) (case map_of buf (tc_slot tc) of None \<Rightarrow> new_call tc | Some b \<Rightarrow> extend_call tc b) buf"

definition absorb_delta :: "delta \<Rightarrow> assembly \<Rightarrow> assembly" where
  "absorb_delta d a =
     a\<lparr>reasoning := reasoning a @ or_empty (d_reasoning d),
       reasoning_signature := reasoning_signature a @ or_empty (d_signature d),
       redacted_blocks := redacted_blocks a @ (case if_filled (d_redacted d) of None \<Rightarrow> [] | Some b \<Rightarrow> [b]),
       raw_blocks := prefer_new (d_raw_blocks d) (raw_blocks a),
       reasoning_items := reasoning_items a @ (case if_truthy (d_reasoning_item d) of None \<Rightarrow> [] | Some i \<Rightarrow> [i]),
       full_content := full_content a @ or_empty (d_content d),
       buffer := fold buffer_call (d_tool_calls d) (buffer a)\<rparr>"

definition absorb_chunk :: "stream_chunk \<Rightarrow> assembly \<Rightarrow> assembly" where
  "absorb_chunk c a =
     (let a = (case if_truthy (ch_usage c) of None \<Rightarrow> a | u \<Rightarrow> a\<lparr>last_usage := u\<rparr>) in
      case ch_choice c of
        None \<Rightarrow> a
      | Some (fr, d) \<Rightarrow> absorb_delta d (case if_truthy fr of None \<Rightarrow> a | f \<Rightarrow> a\<lparr>finish_reason := f\<rparr>))"

fun absorb :: "stream_chunk stream_item \<Rightarrow> assembly \<Rightarrow> assembly" where
  "absorb (Chunk c) a = absorb_chunk c a"
| "absorb Restart a = empty_assembly\<lparr>last_usage := last_usage a\<rparr>"

section \<open>The message\<close>

datatype drop_reason = MissingName | BadJson

record dropped_call =
  dc_index :: int
  dc_reason :: drop_reason

record message =
  m_content :: "string option"
  m_reasoning :: "string option"
  m_signature :: "string option"
  m_items :: "string list option"
  m_tool_calls :: "call_buffer list option"
  m_redacted :: "json list"
  m_raw_blocks :: "json list option"
  x_usage :: "string option"
  x_finish_reason :: "string option"
  x_dropped :: "dropped_call list"

definition check_call :: "(string \<Rightarrow> json option) \<Rightarrow> int \<Rightarrow> call_buffer \<Rightarrow> dropped_call + call_buffer" where
  "check_call loads i b =
     (if cb_name b = [] then Inl \<lparr>dc_index = i, dc_reason = MissingName\<rparr>
      else if cb_arguments b \<noteq> [] \<and> loads (cb_arguments b) = None then Inl \<lparr>dc_index = i, dc_reason = BadJson\<rparr>
      else Inr b)"

definition checked_calls :: "(string \<Rightarrow> json option) \<Rightarrow> (int \<times> call_buffer) list \<Rightarrow> (dropped_call + call_buffer) list" where
  "checked_calls loads buf = map (\<lambda>i. check_call loads i (the (map_of buf i))) (sort (map fst buf))"

definition kept :: "('a + 'b) list \<Rightarrow> 'b list" where
  "kept xs = concat (map (\<lambda>x. case x of Inl _ \<Rightarrow> [] | Inr y \<Rightarrow> [y]) xs)"

definition dropped :: "('a + 'b) list \<Rightarrow> 'a list" where
  "dropped xs = concat (map (\<lambda>x. case x of Inl y \<Rightarrow> [y] | Inr _ \<Rightarrow> []) xs)"

definition non_empty :: "'a list \<Rightarrow> 'a list option" where
  "non_empty xs = (if xs = [] then None else Some xs)"

definition finish_message :: "(string \<Rightarrow> json option) \<Rightarrow> assembly \<Rightarrow> message" where
  "finish_message loads a =
     (let checked = checked_calls loads (buffer a) in
      \<lparr>m_content = non_empty (full_content a), m_reasoning = non_empty (reasoning a), m_signature = non_empty (reasoning_signature a),
       m_items = non_empty (reasoning_items a), m_tool_calls = non_empty (kept checked), m_redacted = redacted_blocks a,
       m_raw_blocks = (if raw_blocks a = Some [] then None else raw_blocks a),
       x_usage = last_usage a, x_finish_reason = finish_reason a, x_dropped = dropped checked\<rparr>)"

text \<open>
  The consumer: \<open>seen\<close> is the number of items it has seen when the interrupt fires, if it fires before
  the stream is over. Without an interrupt an error of the stream passes through.
\<close>

definition stream_and_assemble :: "(string \<Rightarrow> json option) \<Rightarrow> nat option \<Rightarrow> stream_chunk provider \<Rightarrow> provider_error + (message \<times> string option)" where
  "stream_and_assemble loads seen p =
     (let run = stream_with_retry loads p;
          result = (\<lambda>items. let a = fold absorb items empty_assembly in Inr (finish_message loads a, last_usage a)) in
      if seen \<noteq> None \<and> the seen \<le> length (rr_items run) then result (take (the seen) (rr_items run))
      else case rr_result run of Raised e \<Rightarrow> Inl e | _ \<Rightarrow> result (rr_items run))"

section \<open>Adjacent user messages\<close>

datatype ('p, 'o) chat_message = HumanMessage "string option" "'p list" string | OtherMessage 'o

fun plain_human :: "('p, 'o) chat_message \<Rightarrow> bool" where
  "plain_human (HumanMessage c parts extra) \<longleftrightarrow> parts = []"
| "plain_human (OtherMessage m) \<longleftrightarrow> False"

fun message_text :: "('p, 'o) chat_message \<Rightarrow> string" where
  "message_text (HumanMessage c parts extra) = or_empty c"
| "message_text (OtherMessage m) = []"

fun message_extra :: "('p, 'o) chat_message \<Rightarrow> string" where
  "message_extra (HumanMessage c parts extra) = extra"
| "message_extra (OtherMessage m) = []"

definition join_messages :: "('p, 'o) chat_message \<Rightarrow> ('p, 'o) chat_message \<Rightarrow> ('p, 'o) chat_message" where
  "join_messages prev m = HumanMessage (Some (strip (message_text prev @ [NL, NL] @ message_text m))) [] (message_extra prev)"

text \<open>The list \<open>merged\<close> is kept in reverse.\<close>

definition merge_step :: "('p, 'o) chat_message \<Rightarrow> ('p, 'o) chat_message list \<Rightarrow> ('p, 'o) chat_message list" where
  "merge_step m merged =
     (case merged of
        prev # rest \<Rightarrow> if plain_human m \<and> plain_human prev then join_messages prev m # rest else m # merged
      | [] \<Rightarrow> [m])"

definition merge_consecutive_user_messages :: "('p, 'o) chat_message list \<Rightarrow> ('p, 'o) chat_message list" where
  "merge_consecutive_user_messages ms = rev (fold merge_step ms [])"

section \<open>Facts\<close>

text \<open>Usage is independent of everything else in the assembly.\<close>

abbreviation no_usage :: "assembly \<Rightarrow> assembly" where
  "no_usage a \<equiv> a\<lparr>last_usage := None\<rparr>"

lemma absorb_delta_usage:
  "absorb_delta d (a\<lparr>last_usage := u\<rparr>) = (absorb_delta d a)\<lparr>last_usage := u\<rparr>" "last_usage (absorb_delta d a) = last_usage a"
  by (rule assembly.equality; simp add: absorb_delta_def) (simp add: absorb_delta_def)

lemma usage_finish: "a\<lparr>last_usage := u, finish_reason := f\<rparr> = a\<lparr>finish_reason := f, last_usage := u\<rparr>"
  by (rule assembly.equality) simp_all

lemma absorb_chunk_no_usage: "no_usage (absorb_chunk c a) = no_usage (absorb_chunk c (no_usage a))"
  by (cases "ch_choice c"; cases "if_truthy (ch_usage c)")
    (auto simp: absorb_chunk_def absorb_delta_usage usage_finish split: option.split)

lemma absorb_no_usage: "no_usage a = no_usage b \<Longrightarrow> no_usage (absorb x a) = no_usage (absorb x b)"
  by (cases x) (metis absorb.simps(1) absorb_chunk_no_usage, simp)

lemma fold_absorb_no_usage: "no_usage a = no_usage b \<Longrightarrow> no_usage (fold absorb xs a) = no_usage (fold absorb xs b)"
proof (induction xs arbitrary: a b)
  case (Cons x xs)
  then show ?case unfolding fold_simps using Cons.IH [OF absorb_no_usage [OF Cons.prems]] by blast
qed simp

lemma since_restart_id: "Restart \<notin> set xs \<Longrightarrow> since_restart xs = xs"
proof -
  assume "Restart \<notin> set xs"
  then have "takeWhile (\<lambda>x. x \<noteq> Restart) (rev xs) = rev xs" by (auto simp: takeWhile_eq_all_conv)
  then show ?thesis by (simp only: since_restart_def rev_rev_ident)
qed

lemma since_restart_split: "Restart \<in> set xs \<Longrightarrow> \<exists>ys. xs = ys @ Restart # since_restart xs"
proof -
  assume "Restart \<in> set xs"
  then obtain us vs where "xs = us @ Restart # vs" "Restart \<notin> set vs" by (metis split_list_last)
  then show ?thesis by (auto simp: since_restart_id)
qed

lemma assembly_since_restart:
  "no_usage (fold absorb xs empty_assembly) = no_usage (fold absorb (since_restart xs) empty_assembly)"
proof (cases "Restart \<in> set xs")
  case True
  then obtain ys where ys: "xs = ys @ Restart # since_restart xs" using since_restart_split by blast
  let ?a = "empty_assembly\<lparr>last_usage := last_usage (fold absorb ys empty_assembly)\<rparr>"
  have "fold absorb xs empty_assembly = fold absorb (since_restart xs) ?a"
    by (subst ys) simp
  moreover have "no_usage (fold absorb (since_restart xs) ?a) = no_usage (fold absorb (since_restart xs) empty_assembly)"
    by (rule fold_absorb_no_usage) simp
  ultimately show ?thesis by (simp only:)
qed (simp add: since_restart_id)

lemma finish_usage: "finish_message loads (a\<lparr>last_usage := u\<rparr>) = (finish_message loads a)\<lparr>x_usage := u\<rparr>"
  by (simp add: finish_message_def Let_def)

text \<open>The fragments of a call are concatenated in the order they arrive.\<close>

definition fragments :: "int \<Rightarrow> tc_delta list \<Rightarrow> string" where
  "fragments i tcs = concat (map (\<lambda>tc. or_empty (fn_field fd_arguments tc)) (filter (\<lambda>tc. tc_slot tc = i) tcs))"

definition first_name :: "int \<Rightarrow> tc_delta list \<Rightarrow> string" where
  "first_name i tcs =
     (case filter (\<lambda>n. n \<noteq> []) (map (\<lambda>tc. or_empty (fn_field fd_name tc)) (filter (\<lambda>tc. tc_slot tc = i) tcs)) of
        [] \<Rightarrow> [] | n # _ \<Rightarrow> n)"

lemma buffer_call_distinct: "distinct (map fst buf) \<Longrightarrow> distinct (map fst (buffer_call tc buf))"
  by (simp add: buffer_call_def distinct_update)

lemma buffer_fragments:
  "map_option (\<lambda>b. (cb_name b, cb_arguments b)) (map_of (fold buffer_call tcs buf) i) =
     (case map_of buf i of
        Some b \<Rightarrow> Some (if cb_name b = [] then first_name i tcs else cb_name b, cb_arguments b @ fragments i tcs)
      | None \<Rightarrow> if \<exists>tc \<in> set tcs. tc_slot tc = i then Some (first_name i tcs, fragments i tcs) else None)"
proof (induction tcs arbitrary: buf)
  case (Cons tc tcs)
  have "map_of (buffer_call tc buf) i =
      (if tc_slot tc = i then Some (case map_of buf i of None \<Rightarrow> new_call tc | Some b \<Rightarrow> extend_call tc b) else map_of buf i)"
    by (auto simp: buffer_call_def update_conv')
  then show ?case
    using Cons.IH [of "buffer_call tc buf"]
    by (auto simp: fragments_def first_name_def new_call_def extend_call_def split: option.splits list.splits)
qed (simp add: fragments_def first_name_def split: option.split)

text \<open>The tool-call fragments of a list of chunks, in order.\<close>

definition call_deltas :: "stream_chunk list \<Rightarrow> tc_delta list" where
  "call_deltas cs = concat (map (\<lambda>c. case ch_choice c of None \<Rightarrow> [] | Some (fr, d) \<Rightarrow> d_tool_calls d) cs)"

definition content_deltas :: "stream_chunk list \<Rightarrow> string" where
  "content_deltas cs = concat (map (\<lambda>c. case ch_choice c of None \<Rightarrow> [] | Some (fr, d) \<Rightarrow> or_empty (d_content d)) cs)"

lemma absorb_chunk_parts:
  "buffer (absorb_chunk c a) = fold buffer_call (call_deltas [c]) (buffer a)"
  "full_content (absorb_chunk c a) = full_content a @ content_deltas [c]"
  by (auto simp: absorb_chunk_def absorb_delta_def call_deltas_def content_deltas_def Let_def split: option.split)

lemma absorb_chunks_parts:
  "buffer (fold absorb (map Chunk cs) a) = fold buffer_call (call_deltas cs) (buffer a)"
  "full_content (fold absorb (map Chunk cs) a) = full_content a @ content_deltas cs"
proof -
  have split: "call_deltas (c # cs) = call_deltas [c] @ call_deltas cs" "content_deltas (c # cs) = content_deltas [c] @ content_deltas cs" for c cs
    by (simp_all add: call_deltas_def content_deltas_def)
  have "buffer (fold absorb (map Chunk cs) a) = fold buffer_call (call_deltas cs) (buffer a) \<and>
      full_content (fold absorb (map Chunk cs) a) = full_content a @ content_deltas cs"
  proof (induction cs arbitrary: a)
    case (Cons c cs)
    then show ?case by (simp add: absorb_chunk_parts split [of c cs])
  qed (simp add: call_deltas_def content_deltas_def)
  then show "buffer (fold absorb (map Chunk cs) a) = fold buffer_call (call_deltas cs) (buffer a)"
    "full_content (fold absorb (map Chunk cs) a) = full_content a @ content_deltas cs" by blast+
qed

lemma buffer_keys: "fst ` set (fold buffer_call tcs buf) = fst ` set buf \<union> tc_slot ` set tcs"
  by (induction tcs arbitrary: buf) (auto simp: buffer_call_def dom_update)

lemma buffer_distinct: "distinct (map fst buf) \<Longrightarrow> distinct (map fst (fold buffer_call tcs buf))"
  by (induction tcs arbitrary: buf) (simp_all add: buffer_call_distinct)

lemma buffer_slots: "sort (map fst (fold buffer_call tcs [])) = sorted_list_of_set (tc_slot ` set tcs)"
proof -
  have "distinct (sort (map fst (fold buffer_call tcs [])))" using buffer_distinct [of "[]" tcs] by simp
  moreover have "set (sort (map fst (fold buffer_call tcs []))) = tc_slot ` set tcs" using buffer_keys [of tcs "[]"] by simp
  ultimately show ?thesis by (metis sorted_list_of_set.idem_if_sorted_distinct sorted_sort)
qed

abbreviation well_formed_call :: "(string \<Rightarrow> json option) \<Rightarrow> string \<times> string \<Rightarrow> bool" where
  "well_formed_call loads c \<equiv> fst c \<noteq> [] \<and> (snd c = [] \<or> loads (snd c) \<noteq> None)"

lemma checked_calls_parts:
  assumes "\<And>i. i \<in> fst ` set buf \<Longrightarrow> map_option (\<lambda>b. (cb_name b, cb_arguments b)) (map_of buf i) = Some (g i)"
  shows "map (\<lambda>b. (cb_name b, cb_arguments b)) (kept (checked_calls loads buf)) = filter (well_formed_call loads) (map g (sort (map fst buf)))"
    and "map dc_index (dropped (checked_calls loads buf)) = filter (\<lambda>i. \<not> well_formed_call loads (g i)) (sort (map fst buf))"
proof -
  have part: "(cb_name (the (map_of buf i)), cb_arguments (the (map_of buf i))) = g i" if "i \<in> fst ` set buf" for i
    using assms [OF that] by auto
  have "map (\<lambda>b. (cb_name b, cb_arguments b)) (kept (map (\<lambda>i. check_call loads i (the (map_of buf i))) is)) =
      filter (well_formed_call loads) (map g is) \<and>
    map dc_index (dropped (map (\<lambda>i. check_call loads i (the (map_of buf i))) is)) = filter (\<lambda>i. \<not> well_formed_call loads (g i)) is"
    if "set is \<subseteq> fst ` set buf" for "is"
    using that
  proof (induction "is")
    case (Cons i "is")
    then have "g i = (cb_name (the (map_of buf i)), cb_arguments (the (map_of buf i)))" using part by simp
    then show ?case using Cons by (auto simp: kept_def dropped_def check_call_def)
  qed (simp add: kept_def dropped_def)
  from this [of "sort (map fst buf)"]
  show "map (\<lambda>b. (cb_name b, cb_arguments b)) (kept (checked_calls loads buf)) = filter (well_formed_call loads) (map g (sort (map fst buf)))"
    "map dc_index (dropped (checked_calls loads buf)) = filter (\<lambda>i. \<not> well_formed_call loads (g i)) (sort (map fst buf))"
    by (simp_all add: checked_calls_def)
qed

subsection \<open>Merging\<close>

abbreviation apart :: "('p, 'o) chat_message \<Rightarrow> ('p, 'o) chat_message \<Rightarrow> bool" where
  "apart a b \<equiv> \<not> (plain_human a \<and> plain_human b)"

lemma plain_join [simp]: "plain_human (join_messages a b)"
  by (simp add: join_messages_def)

lemma merge_step_apart: "successively apart merged \<Longrightarrow> successively apart (merge_step m merged)"
  by (cases merged; cases "tl merged") (auto simp: merge_step_def)

lemma fold_merge_apart: "successively apart merged \<Longrightarrow> successively apart (fold merge_step ms merged)"
proof (induction ms arbitrary: merged)
  case (Cons m ms)
  then show ?case unfolding fold_simps using merge_step_apart by blast
qed simp

definition ink :: "string \<Rightarrow> string" where
  "ink s = filter (\<lambda>c. \<not> is_space c) s"

lemma ink_strip: "ink (strip s) = ink s"
proof -
  have l: "ink (dropWhile is_space s) = ink s" for s by (induction s) (simp_all add: ink_def)
  have "ink (rev s) = rev (ink s)" for s by (simp add: ink_def rev_filter)
  then show ?thesis using l by (simp add: strip_def lstrip_def rstrip_def)
qed

lemma ink_join: "ink (message_text (join_messages a b)) = ink (message_text a) @ ink (message_text b)"
  by (simp add: join_messages_def or_empty_def ink_strip) (simp add: ink_def is_space_def)

abbreviation all_ink :: "('p, 'o) chat_message list \<Rightarrow> string" where
  "all_ink ms \<equiv> concat (map (\<lambda>m. ink (message_text m)) ms)"

lemma merge_step_ink: "all_ink (rev (merge_step m merged)) = all_ink (rev merged) @ ink (message_text m)"
  by (cases merged) (auto simp: merge_step_def ink_join)

lemma merge_step_others: "filter (\<lambda>m. \<not> plain_human m) (rev (merge_step m merged)) =
    filter (\<lambda>m. \<not> plain_human m) (rev merged) @ (if plain_human m then [] else [m])"
  by (cases merged) (auto simp: merge_step_def)

lemma fold_merge_parts:
  "all_ink (rev (fold merge_step ms merged)) = all_ink (rev merged) @ all_ink ms \<and>
   filter (\<lambda>m. \<not> plain_human m) (rev (fold merge_step ms merged)) = filter (\<lambda>m. \<not> plain_human m) (rev merged @ ms)"
proof (induction ms arbitrary: merged)
  case (Cons m ms)
  then show ?case by (simp add: merge_step_ink merge_step_others)
qed simp

section \<open>Properties\<close>

text \<open>
  C34. A completed response comes from one attempt: the message that \<open>stream_and_assemble\<close> returns
  is, apart from the usage record, the message assembled from the chunks of the attempt that
  succeeded; nothing a failed attempt had streamed is left in it.
\<close>

theorem response_is_final_attempt:
  assumes "rr_result (stream_with_retry loads p) = Completed" "stream_and_assemble loads None p = Inr (m, u)"
  shows "\<exists>n < MAX_RETRIES. snd (attempts p n) = None \<and>
    m\<lparr>x_usage := None\<rparr> = (finish_message loads (fold absorb (map Chunk (fst (attempts p n))) empty_assembly))\<lparr>x_usage := None\<rparr>"
proof -
  obtain k where made: "attempts_made loads p 0 False k (stream_with_retry loads p)"
    using retry_from_made [of MAX_RETRIES 0 loads p False None] by (auto simp: stream_with_retry_def MAX_RETRIES_def)
  note n = made_final_items [OF made assms(1), of "[]"]
  let ?xs = "rr_items (stream_with_retry loads p)"
  have m: "m = finish_message loads (fold absorb ?xs empty_assembly)" using assms by (simp add: stream_and_assemble_def Let_def)
  have "no_usage (fold absorb ?xs empty_assembly) = no_usage (fold absorb (map Chunk (fst (attempts p k))) empty_assembly)"
    using assembly_since_restart [of ?xs] n by (simp add: since_restart_def)
  then have "finish_message loads (no_usage (fold absorb ?xs empty_assembly)) =
      finish_message loads (no_usage (fold absorb (map Chunk (fst (attempts p k))) empty_assembly))" by (rule arg_cong)
  then show ?thesis using n m by (auto simp: finish_usage since_restart_def)
qed

definition say :: "string \<Rightarrow> stream_chunk" where
  "say s = \<lparr>ch_usage = None, ch_choice = Some (None, \<lparr>d_reasoning = None, d_signature = None, d_redacted = None, d_raw_blocks = None,
     d_reasoning_item = None, d_content = Some s, d_tool_calls = []\<rparr>)\<rparr>"

definition flaky_text :: "stream_chunk provider" where
  "flaky_text = \<lparr>attempts = (\<lambda>i. if i = 0 then ([say ''He''], Some (NetError TimeoutErr)) else ([say ''Hel'', say ''lo''], None)),
     set_before = (\<lambda>_. False), set_during_sleep = (\<lambda>_. False), draws = (\<lambda>_. 1), label = ''p'', hooked = False\<rparr>"

lemma flaky_text_run:
  "stream_with_retry loads flaky_text =
     \<lparr>rr_items = [Chunk (say ''He''), Restart, Chunk (say ''Hel''), Chunk (say ''lo'')], rr_sleeps = [1], rr_notices = [], rr_result = Completed\<rparr>"
  by (simp add: stream_with_retry_def flaky_text_def MAX_RETRIES_def eval_nat_numeral run_of_def after_sleep_def on_network_error_def
      network_family_def is_transient_network_error_def non_transient_def backoff_exponential min_def)

theorem response_is_final_attempt_witness:
  "\<exists>n < MAX_RETRIES. snd (attempts flaky_text n) = None \<and>
    (fst (projr (stream_and_assemble (\<lambda>_. None) None flaky_text)))\<lparr>x_usage := None\<rparr> =
      (finish_message (\<lambda>_. None) (fold absorb (map Chunk (fst (attempts flaky_text n))) empty_assembly))\<lparr>x_usage := None\<rparr>"
  by (rule response_is_final_attempt) (simp_all add: flaky_text_run stream_and_assemble_def Let_def)

text \<open>
  C35. Tool calls are reassembled from their fragments: over the chunks of an attempt, the calls of
  the message are, in the order of their indices, the ones whose name (the first one sent for the
  index) is present and whose argument fragments, joined in order, are empty or decode; the others
  are reported as dropped, each once. The text is the joined content.
\<close>

theorem calls_reassembled:
  "let tcs = call_deltas cs; slots = sorted_list_of_set (tc_slot ` set tcs);
       m = finish_message loads (fold absorb (map Chunk cs) empty_assembly);
       well_formed = (\<lambda>i. first_name i tcs \<noteq> [] \<and> (fragments i tcs = [] \<or> loads (fragments i tcs) \<noteq> None)) in
   map (\<lambda>b. (cb_name b, cb_arguments b)) (case m_tool_calls m of None \<Rightarrow> [] | Some bs \<Rightarrow> bs) =
     map (\<lambda>i. (first_name i tcs, fragments i tcs)) (filter well_formed slots) \<and>
   map dc_index (x_dropped m) = filter (\<lambda>i. \<not> well_formed i) slots \<and>
   m_content m = (if content_deltas cs = [] then None else Some (content_deltas cs))"
proof -
  let ?tcs = "call_deltas cs"
  let ?buf = "fold buffer_call ?tcs []"
  have b: "buffer (fold absorb (map Chunk cs) empty_assembly) = ?buf"
    "full_content (fold absorb (map Chunk cs) empty_assembly) = content_deltas cs"
    using absorb_chunks_parts [of cs empty_assembly] by (simp_all add: empty_assembly_def)
  have parts: "map_option (\<lambda>b. (cb_name b, cb_arguments b)) (map_of ?buf i) = Some (first_name i ?tcs, fragments i ?tcs)"
    if "i \<in> fst ` set ?buf" for i
    using buffer_fragments [of ?tcs "[]" i] that buffer_keys [of ?tcs "[]"] by auto
  have calls: "(case non_empty xs of None \<Rightarrow> [] | Some bs \<Rightarrow> bs) = xs" for xs :: "call_buffer list" by (simp add: non_empty_def)
  show ?thesis
    using checked_calls_parts [OF parts, of loads]
    by (simp add: finish_message_def Let_def calls b buffer_slots filter_map comp_def) (simp add: non_empty_def)
qed

definition call_piece :: "int \<Rightarrow> string \<Rightarrow> string \<Rightarrow> stream_chunk" where
  "call_piece i n x = \<lparr>ch_usage = None, ch_choice = Some (None, \<lparr>d_reasoning = None, d_signature = None, d_redacted = None,
     d_raw_blocks = None, d_reasoning_item = None, d_content = None,
     d_tool_calls = [\<lparr>td_index = Some i, td_id = None,
       td_function = Some \<lparr>fd_name = Some n, fd_arguments = Some x, fd_thought = None, fd_signature = None\<rparr>\<rparr>]\<rparr>)\<rparr>"

text \<open>Two interleaved calls, the second of which is cut off in its arguments.\<close>

definition two_calls :: "stream_chunk list" where
  "two_calls = [call_piece 0 ''ls'' ''{'', call_piece 1 ''rm'' ''{'', call_piece 0 [] ''}'']"

theorem calls_reassembled_witness:
  "map (\<lambda>b. (cb_name b, cb_arguments b))
     (the (m_tool_calls (finish_message (\<lambda>s. if s = ''{}'' then Some JNull else None) (fold absorb (map Chunk two_calls) empty_assembly)))) =
     [(''ls'', ''{}'')] \<and>
   map dc_index (x_dropped (finish_message (\<lambda>s. if s = ''{}'' then Some JNull else None) (fold absorb (map Chunk two_calls) empty_assembly))) = [1]"
proof -
  have e: "call_deltas two_calls \<noteq> []" "sorted_list_of_set (tc_slot ` set (call_deltas two_calls)) = [0, 1]"
    "first_name 0 (call_deltas two_calls) = ''ls''" "first_name 1 (call_deltas two_calls) = ''rm''"
    "fragments 0 (call_deltas two_calls) = ''{}''" "fragments 1 (call_deltas two_calls) = ''{''"
    by (simp_all add: two_calls_def call_piece_def call_deltas_def tc_slot_def first_name_def fragments_def fn_field_def
        if_truthy_def or_empty_def insert_commute)
  show ?thesis
    using calls_reassembled [of two_calls "\<lambda>s. if s = ''{}'' then Some JNull else None"]
    by (auto simp: Let_def e split: option.splits)
qed

text \<open>
  Merging for the wire leaves no two adjacent plain user messages, keeps every other message in
  its place among them, and loses no character but white space.
\<close>

theorem merge_separates:
  "successively (\<lambda>a b. \<not> (plain_human a \<and> plain_human b)) (merge_consecutive_user_messages ms) \<and>
   filter (\<lambda>m. \<not> plain_human m) (merge_consecutive_user_messages ms) = filter (\<lambda>m. \<not> plain_human m) ms \<and>
   concat (map (\<lambda>m. filter (\<lambda>c. \<not> is_space c) (message_text m)) (merge_consecutive_user_messages ms)) =
     concat (map (\<lambda>m. filter (\<lambda>c. \<not> is_space c) (message_text m)) ms)"
proof -
  have "successively apart (fold merge_step ms [])" by (rule fold_merge_apart) simp
  then have "successively (\<lambda>a b. apart b a) (fold merge_step ms [])" by (rule successively_mono) blast
  then have "successively apart (merge_consecutive_user_messages ms)"
    by (simp add: merge_consecutive_user_messages_def)
  then show ?thesis using fold_merge_parts [of ms "[]"] by (simp add: merge_consecutive_user_messages_def ink_def)
qed

end
