(* ===== verification/Todo.thy ===== *)
theory Todo
  imports Retry
begin

text \<open>
  The task list of the \<open>todo_manage\<close> tool, \<open>app/agent/tools/builtin/todo.py\<close>: coercion and
  validation of the actions a model sends, the five actions on the stored list, the
  acknowledgement, and loading and saving. The file holds what \<open>_save_store\<close> writes: a counter,
  which an older file may lack, and the items, or something that is not a list.
\<close>

section \<open>Actions\<close>

datatype action_kind = Create | Update | Delete | Read | Clear

record todo_action =
  ta_kind :: action_kind
  ta_task :: "string option"
  ta_content :: "string option"
  ta_status :: "string option"

definition item_statuses :: "string list" where
  "item_statuses = [''pending'', ''in_progress'', ''completed'', ''cancelled'']"

definition normalize_action :: "string \<Rightarrow> string" where
  "normalize_action v =
     (let v = lower (strip v) in
      if v \<in> set [''add'', ''insert'', ''new''] then ''create''
      else if v \<in> set [''remove'', ''rm'', ''del''] then ''delete''
      else if v \<in> set [''list'', ''get'', ''view'', ''show''] then ''read''
      else v)"

definition action_kind_of :: "string \<Rightarrow> action_kind option" where
  "action_kind_of v = map_of [(''create'', Create), (''update'', Update), (''delete'', Delete), (''read'', Read), (''clear'', Clear)] v"

definition validate_action :: "action_kind \<Rightarrow> string option \<Rightarrow> string option \<Rightarrow> string option \<Rightarrow> todo_action option" where
  "validate_action kind task content status =
     (if status \<notin> insert None (Some ` set (''finished'' # item_statuses)) then None
      else if content \<noteq> None \<and> strip (the content) = [] then None
      else case kind of
        Create \<Rightarrow>
          if content = None then None
          else if status = Some ''finished'' then None
          else Some \<lparr>ta_kind = Create, ta_task = task, ta_content = content,
                     ta_status = (if status = None then Some ''pending'' else status)\<rparr>
      | Read \<Rightarrow> Some \<lparr>ta_kind = Read, ta_task = task, ta_content = content, ta_status = status\<rparr>
      | Clear \<Rightarrow>
          if status = None then Some \<lparr>ta_kind = Clear, ta_task = task, ta_content = content, ta_status = Some ''finished''\<rparr>
          else if status \<in> {Some ''completed'', Some ''cancelled'', Some ''finished''}
          then Some \<lparr>ta_kind = Clear, ta_task = task, ta_content = content, ta_status = status\<rparr>
          else None
      | Update \<Rightarrow>
          if task = None \<or> task = Some [] then None
          else if status = Some ''finished'' then None
          else Some \<lparr>ta_kind = Update, ta_task = task, ta_content = content, ta_status = status\<rparr>
      | Delete \<Rightarrow>
          if task = None \<or> task = Some [] then None
          else Some \<lparr>ta_kind = Delete, ta_task = task, ta_content = content, ta_status = status\<rparr>)"

text \<open>An optional string field of an action object; anything else fails the validation.\<close>

definition opt_field :: "string \<Rightarrow> json \<Rightarrow> string option option" where
  "opt_field k j = (case json_get k j of None \<Rightarrow> Some None | Some JNull \<Rightarrow> Some None | Some (JStr s) \<Rightarrow> Some (Some s) | _ \<Rightarrow> None)"

definition parse_action :: "json \<Rightarrow> todo_action option" where
  "parse_action j =
     (case json_get ''action'' j of
        Some (JStr a) \<Rightarrow>
          Option.bind (action_kind_of (normalize_action a)) (\<lambda>kind.
          Option.bind (opt_field ''task_id'' j) (\<lambda>task.
          Option.bind (opt_field ''content'' j) (\<lambda>content.
          Option.bind (opt_field ''status'' j) (\<lambda>status.
          validate_action kind task content status))))
      | _ \<Rightarrow> None)"

definition coerce_actions :: "(string \<Rightarrow> json option) \<Rightarrow> json \<Rightarrow> json" where
  "coerce_actions loads v =
     (let v = (case v of
                 JStr s \<Rightarrow> if strip s = [] then v else (case loads (strip s) of None \<Rightarrow> v | Some w \<Rightarrow> w)
               | _ \<Rightarrow> v)
      in case v of JObj d \<Rightarrow> JArr [JObj d] | _ \<Rightarrow> v)"

fun collect :: "'a option list \<Rightarrow> 'a list option" where
  "collect [] = Some []"
| "collect (None # xs) = None"
| "collect (Some x # xs) = map_option ((#) x) (collect xs)"

definition todo_args :: "(string \<Rightarrow> json option) \<Rightarrow> json \<Rightarrow> todo_action list option" where
  "todo_args loads values =
     (let values = (if json_get ''actions'' values = None \<and> json_get ''action'' values \<noteq> None
                    then JObj [(''actions'', JArr [values])] else values) in
      case map_option (coerce_actions loads) (json_get ''actions'' values) of
        Some (JArr js) \<Rightarrow> collect (map parse_action js)
      | _ \<Rightarrow> None)"

section \<open>The store\<close>

record todo_item =
  task_id :: string
  content :: string
  status :: string

record todo_store =
  counter :: "nat option"
  items :: "todo_item list"

record stored =
  st_counter :: "nat option"
  st_items :: "todo_item list option" \<comment> \<open>None: not a list\<close>

datatype todo_file = Missing | Unreadable | Stored stored

definition load_store :: "todo_file \<Rightarrow> stored" where
  "load_store f = (case f of Stored s \<Rightarrow> s | _ \<Rightarrow> \<lparr>st_counter = Some 0, st_items = Some []\<rparr>)"

definition normalize_store :: "stored \<Rightarrow> todo_store" where
  "normalize_store s = \<lparr>counter = st_counter s, items = (case st_items s of None \<Rightarrow> [] | Some xs \<Rightarrow> xs)\<rparr>"

definition save_store :: "todo_store \<Rightarrow> todo_file" where
  "save_store s = Stored \<lparr>st_counter = counter s, st_items = Some (items s)\<rparr>"

definition task_name :: "nat \<Rightarrow> string" where
  "task_name n = ''task_'' @ show_nat n"

fun update_item :: "string \<Rightarrow> (todo_item \<Rightarrow> todo_item) \<Rightarrow> todo_item list \<Rightarrow> todo_item list" where
  "update_item i f [] = []"
| "update_item i f (x # xs) = (if task_id x = i then f x # xs else x # update_item i f xs)"

definition edit_item :: "todo_action \<Rightarrow> todo_item \<Rightarrow> todo_item" where
  "edit_item act x =
     x\<lparr>content := (case ta_content act of None \<Rightarrow> content x | Some c \<Rightarrow> c),
       status := (case ta_status act of None \<Rightarrow> status x | Some s \<Rightarrow> s)\<rparr>"

definition cleared_by :: "string \<Rightarrow> todo_item \<Rightarrow> bool" where
  "cleared_by s x \<longleftrightarrow> (if s = ''finished'' then status x \<in> {''completed'', ''cancelled''} else status x = s)"

text \<open>One action: the store and the outcome it logs; \<^const>\<open>None\<close> is the \<open>KeyError\<close> of a store without a counter.\<close>

definition apply_action :: "todo_action \<Rightarrow> todo_store \<Rightarrow> (todo_store \<times> string list) option" where
  "apply_action act s =
     (case ta_kind act of
        Read \<Rightarrow> Some (s, [])
      | Create \<Rightarrow>
          (case ta_content act of
             None \<Rightarrow> Some (s, [])
           | Some [] \<Rightarrow> Some (s, [])
           | Some c \<Rightarrow>
               (case counter s of
                  None \<Rightarrow> None
                | Some n \<Rightarrow>
                    let st = (case ta_status act of None \<Rightarrow> ''pending'' | Some [] \<Rightarrow> ''pending'' | Some x \<Rightarrow> x) in
                    Some (s\<lparr>counter := Some (n + 1), items := items s @ [\<lparr>task_id = task_name (n + 1), content = c, status = st\<rparr>]\<rparr>,
                          [''created '' @ task_name (n + 1)])))
      | Update \<Rightarrow>
          (case ta_task act of
             None \<Rightarrow> Some (s, [])
           | Some [] \<Rightarrow> Some (s, [])
           | Some i \<Rightarrow>
               if i \<in> task_id ` set (items s)
               then Some (s\<lparr>items := update_item i (edit_item act) (items s)\<rparr>, [''updated '' @ i])
               else Some (s, [''unknown '' @ i]))
      | Delete \<Rightarrow>
          (case ta_task act of
             None \<Rightarrow> Some (s, [])
           | Some [] \<Rightarrow> Some (s, [])
           | Some i \<Rightarrow>
               let xs = filter (\<lambda>x. task_id x \<noteq> i) (items s) in
               Some (s\<lparr>items := xs\<rparr>, [(if length xs < length (items s) then ''deleted '' else ''unknown '') @ i]))
      | Clear \<Rightarrow>
          let st = (case ta_status act of None \<Rightarrow> ''finished'' | Some [] \<Rightarrow> ''finished'' | Some x \<Rightarrow> x);
              xs = filter (\<lambda>x. \<not> cleared_by st x) (items s) in
          Some (s\<lparr>items := xs\<rparr>, [''cleared '' @ show_nat (length (items s) - length xs) @ '' tasks'']))"

fun apply_all :: "todo_action list \<Rightarrow> todo_store \<Rightarrow> (todo_store \<times> string list) option" where
  "apply_all [] s = Some (s, [])"
| "apply_all (act # acts) s =
     Option.bind (apply_action act s) (\<lambda>(s, log). map_option (\<lambda>(s, rest). (s, log @ rest)) (apply_all acts s))"

section \<open>The reply\<close>

definition format_items :: "todo_item list \<Rightarrow> string" where
  "format_items xs =
     (if xs = [] then ''No todos.''
      else join [NL] (map (\<lambda>x. ''['' @ task_id x @ ''] ['' @ status x @ ''] '' @ content x) xs))"

definition partition_space :: "string \<Rightarrow> string \<times> string" where
  "partition_space s = (takeWhile (\<lambda>c. c \<noteq> CHR '' '') s, tl (dropWhile (\<lambda>c. c \<noteq> CHR '' '') s))"

datatype slot = Verbatim string | Verb string

definition consolidate_part :: "string \<Rightarrow> slot list \<times> (string \<times> string list) list \<Rightarrow> slot list \<times> (string \<times> string list) list" where
  "consolidate_part part = (\<lambda>(slots, grouped).
     let (verb, subject) = partition_space part in
     if subject = [] \<or> CHR '':'' \<in> set part then (slots @ [Verbatim part], grouped)
     else case map_of grouped verb of
       None \<Rightarrow> (slots @ [Verb verb], AList.update verb [subject] grouped)
     | Some bucket \<Rightarrow> (slots, if subject \<in> set bucket then grouped else AList.update verb (bucket @ [subject]) grouped))"

definition consolidate_outcomes :: "string list \<Rightarrow> string list" where
  "consolidate_outcomes parts =
     (let (slots, grouped) = fold consolidate_part parts ([], []) in
      map (\<lambda>sl. case sl of Verbatim p \<Rightarrow> p | Verb v \<Rightarrow> v @ '' '' @ join '', '' (the (map_of grouped v))) slots)"

definition apply_actions :: "todo_action list \<Rightarrow> todo_file \<Rightarrow> (string \<times> todo_file) option" where
  "apply_actions acts f =
     (case apply_all acts (normalize_store (load_store f)) of
        None \<Rightarrow> None
      | Some (s, logged) \<Rightarrow>
          let outcomes = consolidate_outcomes logged;
              has_read = list_ex (\<lambda>a. ta_kind a = Read) acts in
          Some (if has_read \<or> outcomes = [] then format_items (items s) else join ''; '' outcomes, save_store s))"

section \<open>Invariant\<close>

definition action_wf :: "todo_action \<Rightarrow> bool" where
  "action_wf act \<longleftrightarrow>
     (\<forall>c. ta_content act = Some c \<longrightarrow> strip c \<noteq> []) \<and>
     (ta_kind act \<in> {Create, Update} \<longrightarrow> ta_status act \<in> insert None (Some ` set item_statuses)) \<and>
     (ta_kind act = Create \<longrightarrow> ta_content act \<noteq> None \<and> ta_status act \<noteq> None) \<and>
     (ta_kind act \<in> {Update, Delete} \<longrightarrow> ta_task act \<noteq> None \<and> ta_task act \<noteq> Some [])"

lemma pending_status [simp]: "''pending'' \<in> set item_statuses"
  by (simp add: item_statuses_def)

lemma validate_action_wf: "validate_action kind task c st = Some act \<Longrightarrow> action_wf act"
  unfolding validate_action_def
  by (cases kind; cases c; cases st) (simp_all add: action_wf_def split: if_splits, auto)

lemma collect_Some: "collect xs = Some ys \<Longrightarrow> y \<in> set ys \<Longrightarrow> Some y \<in> set xs"
  by (induction xs arbitrary: ys rule: collect.induct) auto

lemma todo_args_wf: "todo_args loads v = Some acts \<Longrightarrow> list_all action_wf acts"
proof -
  assume a: "todo_args loads v = Some acts"
  have "action_wf act" if "parse_action j = Some act" for j act
    using that validate_action_wf by (auto simp: parse_action_def split: option.splits json.splits Option.bind_splits)
  moreover obtain js where "collect (map parse_action js) = Some acts"
    using a by (auto simp: todo_args_def Let_def split: option.splits json.splits)
  ultimately show ?thesis using collect_Some [of "map parse_action js" acts] unfolding list_all_iff by (metis imageE list.set_map)
qed

definition item_ok :: "nat \<Rightarrow> todo_item \<Rightarrow> bool" where
  "item_ok n x \<longleftrightarrow> (\<exists>k. 1 \<le> k \<and> k \<le> n \<and> task_id x = task_name k) \<and> status x \<in> set item_statuses \<and> strip (content x) \<noteq> []"

definition store_ok :: "todo_store \<Rightarrow> bool" where
  "store_ok s \<longleftrightarrow> (\<exists>n. counter s = Some n \<and> list_all (item_ok n) (items s)) \<and> distinct (map task_id (items s))"

lemma task_name_inject [simp]: "task_name m = task_name n \<longleftrightarrow> m = n"
  by (simp add: task_name_def)

lemma strip_Nil [simp]: "strip [] = []"
  by (simp add: strip_def lstrip_def rstrip_def)

lemma item_ok_mono: "item_ok n x \<Longrightarrow> n \<le> m \<Longrightarrow> item_ok m x"
  by (auto simp: item_ok_def)

lemma update_item_ids: "(\<And>x. task_id (f x) = task_id x) \<Longrightarrow> map task_id (update_item i f xs) = map task_id xs"
  by (induction xs) auto

lemma update_item_all: "list_all P xs \<Longrightarrow> (\<And>x. P x \<Longrightarrow> P (f x)) \<Longrightarrow> list_all P (update_item i f xs)"
  by (induction xs) auto

lemma edit_item_id [simp]: "task_id (edit_item act x) = task_id x"
  by (simp add: edit_item_def)

lemma edit_item_ok: "action_wf act \<Longrightarrow> ta_kind act = Update \<Longrightarrow> item_ok n x \<Longrightarrow> item_ok n (edit_item act x)"
  by (auto simp: action_wf_def item_ok_def edit_item_def split: option.splits)

lemma store_ok_filter: "store_ok s \<Longrightarrow> store_ok (s\<lparr>items := filter P (items s)\<rparr>)"
  by (auto simp: store_ok_def list_all_iff distinct_map_filter)

lemma fresh_task:
  assumes "counter s = Some n" "list_all (item_ok n) (items s)"
  shows "task_name (Suc n) \<notin> task_id ` set (items s)"
  using assms by (auto simp: list_all_iff item_ok_def)

text \<open>An action of a well-formed list succeeds and keeps it well-formed; its new ids were never used before.\<close>

lemma apply_action_ok:
  assumes "store_ok s" "action_wf act"
  shows "\<exists>s' out. apply_action act s = Some (s', out) \<and> store_ok s' \<and> the (counter s) \<le> the (counter s') \<and>
    (\<forall>x \<in> set (items s'). task_id x \<in> task_id ` set (items s) \<or>
      (\<exists>k. the (counter s) < k \<and> k \<le> the (counter s') \<and> task_id x = task_name k))"
proof -
  obtain n where n: "counter s = Some n" "list_all (item_ok n) (items s)" using assms(1) by (auto simp: store_ok_def)
  show ?thesis
  proof (cases "ta_kind act")
    case Create
    then obtain c st where c: "ta_content act = Some c" "strip c \<noteq> []" "ta_status act = Some st" "st \<in> set item_statuses"
      using assms(2) by (auto simp: action_wf_def)
    have ne: "c \<noteq> []" "st \<noteq> []" using c by (auto simp: item_statuses_def)
    let ?x = "\<lparr>task_id = task_name (Suc n), content = c, status = st\<rparr>"
    have "item_ok (Suc n) ?x" using c by (auto simp: item_ok_def)
    moreover have "list_all (item_ok (Suc n)) (items s)" using n(2) item_ok_mono by (fastforce simp: list_all_iff)
    ultimately have "store_ok (s\<lparr>counter := Some (Suc n), items := items s @ [?x]\<rparr>)"
      using assms(1) fresh_task [OF n] by (auto simp: store_ok_def)
    moreover have "apply_action act s = Some (s\<lparr>counter := Some (Suc n), items := items s @ [?x]\<rparr>, [''created '' @ task_name (Suc n)])"
      using Create c ne n by (auto simp: apply_action_def split: list.split)
    ultimately show ?thesis using n by auto
  next
    case Update
    then obtain a i where i: "ta_task act = Some (a # i)" using assms(2) by (auto simp: action_wf_def neq_Nil_conv)
    have ids: "map task_id (update_item (a # i) (edit_item act) (items s)) = map task_id (items s)" by (rule update_item_ids) simp
    have "list_all (item_ok n) (update_item (a # i) (edit_item act) (items s))"
      using update_item_all [OF n(2)] edit_item_ok [OF assms(2) Update] by blast
    then have "store_ok (s\<lparr>items := update_item (a # i) (edit_item act) (items s)\<rparr>)"
      using assms(1) n ids by (simp add: store_ok_def)
    moreover have "task_id ` set (update_item (a # i) (edit_item act) (items s)) = task_id ` set (items s)"
      using ids by (metis list.set_map)
    ultimately show ?thesis using Update i assms(1) by (auto simp: apply_action_def)
  next
    case Read
    then show ?thesis using assms(1) by (simp add: apply_action_def)
  next
    case Delete
    then obtain a i where "ta_task act = Some (a # i)" using assms(2) by (auto simp: action_wf_def neq_Nil_conv)
    then show ?thesis using Delete store_ok_filter [OF assms(1)] by (auto simp: apply_action_def Let_def)
  next
    case Clear
    then show ?thesis using store_ok_filter [OF assms(1)] by (auto simp: apply_action_def Let_def)
  qed
qed

lemma apply_all_ok:
  assumes "store_ok s" "list_all action_wf acts"
  shows "\<exists>s' out. apply_all acts s = Some (s', out) \<and> store_ok s' \<and> the (counter s) \<le> the (counter s') \<and>
    (\<forall>x \<in> set (items s'). task_id x \<in> task_id ` set (items s) \<or>
      (\<exists>k. the (counter s) < k \<and> k \<le> the (counter s') \<and> task_id x = task_name k))"
  using assms
proof (induction acts arbitrary: s)
  case (Cons act acts)
  obtain s1 out1 where s1: "apply_action act s = Some (s1, out1)" "store_ok s1" "the (counter s) \<le> the (counter s1)"
    "\<forall>x \<in> set (items s1). task_id x \<in> task_id ` set (items s) \<or> (\<exists>k. the (counter s) < k \<and> k \<le> the (counter s1) \<and> task_id x = task_name k)"
    using apply_action_ok [OF Cons.prems(1), of act] Cons.prems(2) by auto
  obtain s2 out2 where s2: "apply_all acts s1 = Some (s2, out2)" "store_ok s2" "the (counter s1) \<le> the (counter s2)"
    "\<forall>x \<in> set (items s2). task_id x \<in> task_id ` set (items s1) \<or> (\<exists>k. the (counter s1) < k \<and> k \<le> the (counter s2) \<and> task_id x = task_name k)"
    using Cons.IH [OF s1(2)] Cons.prems(2) by auto
  have "task_id x \<in> task_id ` set (items s) \<or> (\<exists>k. the (counter s) < k \<and> k \<le> the (counter s2) \<and> task_id x = task_name k)"
    if x: "x \<in> set (items s2)" for x
  proof (cases "task_id x \<in> task_id ` set (items s1)")
    case True
    then show ?thesis using s1(4) s2(3) by (metis imageE le_trans)
  next
    case False
    then show ?thesis using s2(4) x s1(3) by (metis order_le_less_trans)
  qed
  then show ?case using s1 s2 by auto
qed simp

section \<open>A map of tasks\<close>

text \<open>The specification: a counter and a map from task ids to their text and status.\<close>

type_synonym task_map = "string \<rightharpoonup> string \<times> string"

fun spec_action :: "todo_action \<Rightarrow> nat \<times> task_map \<Rightarrow> nat \<times> task_map" where
  "spec_action act (n, m) =
     (case ta_kind act of
        Create \<Rightarrow> (n + 1, m(task_name (n + 1) \<mapsto> (the (ta_content act), the (ta_status act))))
      | Update \<Rightarrow>
          (n, \<lambda>i. if Some i = ta_task act
               then map_option (\<lambda>(c, st). (case ta_content act of None \<Rightarrow> c | Some c' \<Rightarrow> c', case ta_status act of None \<Rightarrow> st | Some s' \<Rightarrow> s')) (m i)
               else m i)
      | Delete \<Rightarrow> (n, m(the (ta_task act) := None))
      | Clear \<Rightarrow>
          (n, \<lambda>i. case m i of
                 Some (c, st) \<Rightarrow> if st \<in> (if the (ta_status act) = ''finished'' then {''completed'', ''cancelled''} else {the (ta_status act)})
                                then None else Some (c, st)
               | None \<Rightarrow> None)
      | Read \<Rightarrow> (n, m))"

definition tasks :: "todo_item list \<Rightarrow> task_map" where
  "tasks xs = map_of (map (\<lambda>x. (task_id x, (content x, status x))) xs)"

definition abs_store :: "todo_store \<Rightarrow> nat \<times> task_map" where
  "abs_store s = (the (counter s), tasks (items s))"

lemma tasks_simps [simp]:
  "tasks [] = Map.empty" "tasks (x # xs) = (tasks xs)(task_id x \<mapsto> (content x, status x))"
  by (simp_all add: tasks_def)

lemma tasks_None: "tasks xs i = None \<longleftrightarrow> i \<notin> task_id ` set xs"
  by (induction xs) auto

lemma tasks_snoc: "task_id x \<notin> task_id ` set xs \<Longrightarrow> tasks (xs @ [x]) = (tasks xs)(task_id x \<mapsto> (content x, status x))"
  by (induction xs) (auto simp: fun_upd_twist)

lemma tasks_filter:
  assumes "distinct (map task_id xs)" "\<And>x y. x \<in> set xs \<Longrightarrow> P x = Q (task_id x) (content x, status x)"
  shows "tasks (filter P xs) = (\<lambda>i. case tasks xs i of Some v \<Rightarrow> if Q i v then Some v else None | None \<Rightarrow> None)"
  using assms
proof (induction xs)
  case (Cons x xs)
  have "tasks xs (task_id x) = None" using Cons.prems(1) by (simp add: tasks_None)
  then show ?case using Cons by (auto simp: fun_eq_iff)
qed (simp add: fun_eq_iff)

lemma tasks_update:
  assumes "distinct (map task_id xs)"
  shows "tasks (update_item i (edit_item act) xs) = (\<lambda>j. if j = i
    then map_option (\<lambda>(c, st). (case ta_content act of None \<Rightarrow> c | Some c' \<Rightarrow> c', case ta_status act of None \<Rightarrow> st | Some s' \<Rightarrow> s')) (tasks xs j)
    else tasks xs j)"
  using assms
proof (induction xs)
  case (Cons x xs)
  have "tasks xs (task_id x) = None" using Cons.prems by (simp add: tasks_None)
  then show ?case using Cons by (auto simp: fun_eq_iff edit_item_def)
qed (simp add: fun_eq_iff)

lemma validated_status: "todo_args loads v = Some acts \<Longrightarrow> act \<in> set acts \<Longrightarrow> ta_kind act = Clear \<Longrightarrow> ta_status act \<noteq> None \<and> ta_status act \<noteq> Some []"
proof -
  assume a: "todo_args loads v = Some acts" "act \<in> set acts" "ta_kind act = Clear"
  have val: "ta_status act \<noteq> None \<and> ta_status act \<noteq> Some []" if "validate_action k t c st = Some act" for k t c st
    using that a(3) unfolding validate_action_def by (cases k) (auto split: if_splits)
  obtain js where "collect (map parse_action js) = Some acts"
    using a(1) by (auto simp: todo_args_def Let_def split: option.splits json.splits)
  then obtain j where "parse_action j = Some act" using collect_Some a(2) by fastforce
  then show ?thesis using val by (auto simp: parse_action_def split: option.splits json.splits Option.bind_splits)
qed

definition clear_wf :: "todo_action \<Rightarrow> bool" where
  "clear_wf act \<longleftrightarrow> (ta_kind act = Clear \<longrightarrow> ta_status act \<noteq> None \<and> ta_status act \<noteq> Some [])"

lemma apply_action_refines:
  assumes "store_ok s" "action_wf act" "clear_wf act" "apply_action act s = Some (s', out)"
  shows "abs_store s' = spec_action act (abs_store s)"
proof -
  obtain n where n: "counter s = Some n" "list_all (item_ok n) (items s)" using assms(1) by (auto simp: store_ok_def)
  have d: "distinct (map task_id (items s))" using assms(1) by (simp add: store_ok_def)
  show ?thesis
  proof (cases "ta_kind act")
    case Create
    then obtain c st where c: "ta_content act = Some c" "strip c \<noteq> []" "ta_status act = Some st" "st \<in> set item_statuses"
      using assms(2) by (auto simp: action_wf_def)
    have "c \<noteq> []" "st \<noteq> []" using c by (auto simp: item_statuses_def)
    then have "s' = s\<lparr>counter := Some (Suc n), items := items s @ [\<lparr>task_id = task_name (Suc n), content = c, status = st\<rparr>]\<rparr>"
      using Create c n assms(4) by (auto simp: apply_action_def split: list.splits)
    then show ?thesis using Create c n fresh_task [OF n] by (simp add: abs_store_def tasks_snoc)
  next
    case Update
    then obtain a i where i: "ta_task act = Some (a # i)" using assms(2) by (auto simp: action_wf_def neq_Nil_conv)
    have "tasks (items s) (a # i) = None" if "a # i \<notin> task_id ` set (items s)" using that by (simp add: tasks_None)
    then show ?thesis
      using Update i assms(4) tasks_update [OF d] by (auto simp: apply_action_def abs_store_def fun_eq_iff split: if_splits)
  next
    case Read
    then show ?thesis using assms(4) by (simp add: apply_action_def abs_store_def)
  next
    case Delete
    then obtain a i where i: "ta_task act = Some (a # i)" using assms(2) by (auto simp: action_wf_def neq_Nil_conv)
    then show ?thesis
      using Delete assms(4) tasks_filter [OF d, where P = "\<lambda>x. task_id x \<noteq> a # i" and Q = "\<lambda>j v. j \<noteq> a # i"]
      by (auto simp: apply_action_def Let_def abs_store_def fun_eq_iff split: option.split)
  next
    case Clear
    then obtain a st where st: "ta_status act = Some (a # st)" using assms(3) by (auto simp: clear_wf_def neq_Nil_conv)
    have f: "tasks (filter (\<lambda>x. \<not> cleared_by (a # st) x) (items s)) =
        (\<lambda>i. case tasks (items s) i of Some v \<Rightarrow> if snd v \<notin> (if a # st = ''finished'' then {''completed'', ''cancelled''} else {a # st}) then Some v else None | None \<Rightarrow> None)"
      by (rule tasks_filter [OF d]) (simp add: cleared_by_def)
    have "s' = s\<lparr>items := filter (\<lambda>x. \<not> cleared_by (a # st) x) (items s)\<rparr>"
      using Clear st assms(4) by (simp add: apply_action_def Let_def)
    then show ?thesis using Clear st by (auto simp: abs_store_def f fun_eq_iff split: option.split)
  qed
qed

section \<open>Properties\<close>

definition open_store :: "todo_file \<Rightarrow> todo_store" where
  "open_store f = normalize_store (load_store f)"

lemma open_save [simp]: "open_store (save_store s) = s"
  by (simp add: open_store_def save_store_def load_store_def normalize_store_def)

lemma apply_actions_Some:
  "apply_actions acts f = Some (reply, f') \<longleftrightarrow>
     (\<exists>s logged. apply_all acts (open_store f) = Some (s, logged) \<and> f' = save_store s \<and>
        reply = (if list_ex (\<lambda>a. ta_kind a = Read) acts \<or> consolidate_outcomes logged = [] then format_items (items s)
                 else join ''; '' (consolidate_outcomes logged)))"
  by (auto simp: apply_actions_def open_store_def Let_def split: option.split)

text \<open>
  C39. The stored task list stays well-formed: a call whose arguments validate always succeeds on a
  well-formed list, and afterwards every item has a non-blank text, one of the four statuses and a
  numbered id of its own not above the counter. An id that was ever given out is never given out
  again: the ids that are new lie above the counter of the old list.
\<close>

theorem todo_list_well_formed:
  assumes "todo_args loads args = Some acts" "store_ok (open_store f)"
  shows "\<exists>reply f'. apply_actions acts f = Some (reply, f') \<and> store_ok (open_store f') \<and>
    the (counter (open_store f)) \<le> the (counter (open_store f')) \<and>
    (\<forall>x \<in> set (items (open_store f')). task_id x \<in> task_id ` set (items (open_store f)) \<or>
      (\<exists>k > the (counter (open_store f)). task_id x = task_name k))"
proof -
  obtain s' out where s': "apply_all acts (open_store f) = Some (s', out)" "store_ok s'" "the (counter (open_store f)) \<le> the (counter s')"
    "\<forall>x \<in> set (items s'). task_id x \<in> task_id ` set (items (open_store f)) \<or>
      (\<exists>k. the (counter (open_store f)) < k \<and> k \<le> the (counter s') \<and> task_id x = task_name k)"
    using apply_all_ok [OF assms(2) todo_args_wf [OF assms(1)]] by blast
  have "\<forall>x \<in> set (items s'). task_id x \<in> task_id ` set (items (open_store f)) \<or> (\<exists>k > the (counter (open_store f)). task_id x = task_name k)"
    using s'(4) by blast
  then show ?thesis using s'(1-3) by (auto simp: apply_actions_Some)
qed

definition example_args :: json where
  "example_args = JObj [(''action'', JStr ''add''), (''content'', JStr ''x'')]"

lemma example_acts: "todo_args loads example_args = Some [\<lparr>ta_kind = Create, ta_task = None, ta_content = Some ''x'', ta_status = Some ''pending''\<rparr>]"
  by (simp add: todo_args_def example_args_def coerce_actions_def parse_action_def normalize_action_def action_kind_of_def opt_field_def
      validate_action_def item_statuses_def lower_def lower_char_def strip_def lstrip_def rstrip_def is_space_def Let_def)

lemma empty_list_ok: "store_ok (open_store Missing)"
  by (simp add: store_ok_def open_store_def load_store_def normalize_store_def)

theorem todo_list_well_formed_witness:
  "\<exists>reply f'. apply_actions [\<lparr>ta_kind = Create, ta_task = None, ta_content = Some ''x'', ta_status = Some ''pending''\<rparr>] Missing = Some (reply, f') \<and>
    store_ok (open_store f')"
  using todo_list_well_formed [OF example_acts empty_list_ok] by blast

text \<open>
  C40. The list implements a map of tasks: the actions of a validated call, carried out in order on
  the stored list, have the effect that the map specification gives them. In particular clearing
  keeps every pending and running task, and an update or a deletion touches the named task alone.
\<close>

theorem todo_refines_map:
  assumes "todo_args loads args = Some acts" "store_ok (open_store f)" "apply_actions acts f = Some (reply, f')"
  shows "abs_store (open_store f') = fold spec_action acts (abs_store (open_store f))"
proof -
  obtain s out where s: "apply_all acts (open_store f) = Some (s, out)" "f' = save_store s" using assms(3) by (auto simp: apply_actions_Some)
  have wf: "list_all action_wf acts" "list_all clear_wf acts"
    using todo_args_wf [OF assms(1)] validated_status [OF assms(1)] by (auto simp: clear_wf_def list_all_iff)
  have "abs_store s = fold spec_action acts (abs_store t)" if "apply_all acts t = Some (s, out)" "store_ok t" "list_all action_wf acts" "list_all clear_wf acts"
    for acts t out
    using that
  proof (induction acts arbitrary: t out)
    case (Cons act acts)
    obtain t1 o1 where t1: "apply_action act t = Some (t1, o1)" "store_ok t1" using apply_action_ok [OF Cons.prems(2), of act] Cons.prems(3) by auto
    then obtain o2 where "apply_all acts t1 = Some (s, o2)" using Cons.prems(1) by auto
    then have "abs_store s = fold spec_action acts (abs_store t1)" using Cons.IH [OF _ t1(2)] Cons.prems(3,4) by simp
    then show ?case using apply_action_refines [OF Cons.prems(2) _ _ t1(1)] Cons.prems(3,4) by simp
  qed simp
  then show ?thesis using s assms(2) wf by simp
qed

theorem todo_refines_map_witness:
  "abs_store (open_store (snd (the (apply_actions [\<lparr>ta_kind = Create, ta_task = None, ta_content = Some ''x'', ta_status = Some ''pending''\<rparr>] Missing)))) =
     fold spec_action [\<lparr>ta_kind = Create, ta_task = None, ta_content = Some ''x'', ta_status = Some ''pending''\<rparr>] (abs_store (open_store Missing))"
proof -
  have "apply_actions [\<lparr>ta_kind = Create, ta_task = None, ta_content = Some ''x'', ta_status = Some ''pending''\<rparr>] Missing \<noteq> None"
    by (simp add: apply_actions_def load_store_def normalize_store_def apply_action_def Let_def)
  then obtain reply f' where "apply_actions [\<lparr>ta_kind = Create, ta_task = None, ta_content = Some ''x'', ta_status = Some ''pending''\<rparr>] Missing = Some (reply, f')"
    by auto
  from todo_refines_map [OF example_acts empty_list_ok this] this show ?thesis by simp
qed

text \<open>
  A call that changes the list and reads it replies with the listing alone: the code that would join
  the outcomes and the listing is never reached.
\<close>

theorem read_hides_outcomes:
  "map_option fst (apply_actions [\<lparr>ta_kind = Delete, ta_task = Some ''task_9'', ta_content = None, ta_status = None\<rparr>,
     \<lparr>ta_kind = Read, ta_task = None, ta_content = None, ta_status = None\<rparr>] Missing) = Some ''No todos.''"
  by (simp add: apply_actions_def load_store_def normalize_store_def apply_action_def Let_def format_items_def)

end
