(* ===== verification/History.thy ===== *)
theory History
  imports Prelude "HOL-Library.Product_Lexorder"
begin

text \<open>
  The persisted conversation: message rows with their sparse positions and kinds, the window that is
  derived from them for the model, undo and redo by a boundary, compaction, the queue of user
  messages, the healing of unanswered tool calls and the durable \<open>ask_user\<close> questions
  (\<open>app/services/chat_service.py\<close>, \<open>chat_service_revert.py\<close>, \<open>chat_service_queue.py\<close>,
  \<open>question_service.py\<close>). The database is a value; a statement reads or replaces its rows, and
  \<open>ORDER BY\<close> sorts by \<open>(seq, id)\<close>. Ids are UUIDv7, numbered here in creation order. Timestamps are
  display metadata and are left out; attachment files are a list of paths that get unlinked. The
  snapshots of the workspace belong to another service and enter as the functions \<open>track\<close> and \<open>restore\<close>.
\<close>

section \<open>Rows\<close>

datatype role = User | Assistant | ToolRole | SystemRole
datatype kind = Chat | Note | Queued | Summary | Reverted

record tool_call =
  call_id :: string
  call_name :: string
  call_arguments :: string
  call_thought :: "string option"
  call_signature :: "string option"

text \<open>What \<open>extra\<close> keeps of a response of the model; blocks of a provider are kept as decoded JSON, the rest as text.\<close>

record reply_extra =
  ex_signature :: "string option"
  ex_redacted :: "json list"
  ex_raw :: "json list option"
  ex_items :: "string list option"
  ex_usage :: "string option"
  ex_finish :: "string option"

definition no_extra :: reply_extra where
  "no_extra = \<lparr>ex_signature = None, ex_redacted = [], ex_raw = None, ex_items = None, ex_usage = None, ex_finish = None\<rparr>"

record row =
  row_id :: nat
  row_session :: string
  role :: role
  kind :: kind
  seq :: int
  pinned :: bool
  body :: string
  tool_calls :: "tool_call list"
  tool_call_id :: "string option"
  from_agent :: "string option"
  snapshot :: "string option"
  queue_meta :: bool
  pending_flag :: bool
  attachment_for :: "nat option"
  attachments :: "string list"
  row_name :: "string option"
  reasoning_content :: "string option"
  hidden_summary :: bool
  hidden_user :: bool
  mention_context :: bool
  row_reply :: reply_extra

record session =
  revert :: "(nat \<times> string option) option" \<comment> \<open>boundary row and redo anchor\<close>
  history_revision :: nat
  structure_revision :: nat

datatype question_status = QPending | Answered | Dismissed | Superseded | Expired

record question =
  q_id :: nat
  q_session :: string
  q_call :: string
  q_texts :: "string list"
  q_status :: question_status
  q_answers :: "string list list option"

record db =
  rows :: "row list"
  sessions :: "(string \<times> session) list"
  questions :: "question list"
  next_id :: nat

definition SEQ_STEP :: int where "SEQ_STEP = 1024"

definition pos :: "row \<Rightarrow> int \<times> nat" where
  "pos r = (seq r, row_id r)"

definition session_rows :: "string \<Rightarrow> db \<Rightarrow> row list" where
  "session_rows sid d = filter (\<lambda>r. row_session r = sid) (rows d)"

definition get_row :: "nat \<Rightarrow> db \<Rightarrow> row option" where
  "get_row i d = find (\<lambda>r. row_id r = i) (rows d)"

definition put_row :: "row \<Rightarrow> db \<Rightarrow> db" where
  "put_row r d = d\<lparr>rows := map (\<lambda>x. if row_id x = row_id r then r else x) (rows d)\<rparr>"

text \<open>\<open>SELECT max(seq) ... or 0\<close> over some rows.\<close>

definition max_seq :: "row list \<Rightarrow> int" where
  "max_seq rs = (if rs = [] then 0 else Max (seq ` set rs))"

definition next_seq :: "string \<Rightarrow> db \<Rightarrow> int" where
  "next_seq sid d = max_seq (session_rows sid d) + SEQ_STEP"

definition seq_between :: "int \<Rightarrow> int \<Rightarrow> int" where
  "seq_between prev nxt = (let gap = nxt - prev in if gap \<ge> 2 then prev + gap div 2 else prev)"

definition seq_before_row :: "string \<Rightarrow> row \<Rightarrow> db \<Rightarrow> int" where
  "seq_before_row sid anchor d = seq_between (max_seq (filter (\<lambda>r. seq r < seq anchor) (session_rows sid d))) (seq anchor)"

definition bump_history_revision :: "string \<Rightarrow> bool \<Rightarrow> db \<Rightarrow> db" where
  "bump_history_revision sid structural d =
     d\<lparr>sessions := map (\<lambda>(i, s). if i = sid
          then (i, s\<lparr>history_revision := history_revision s + 1,
                     structure_revision := (if structural then structure_revision s + 1 else structure_revision s)\<rparr>)
          else (i, s)) (sessions d)\<rparr>"

definition get_history_revision :: "string \<Rightarrow> db \<Rightarrow> nat \<times> nat" where
  "get_history_revision sid d =
     (case map_of (sessions d) sid of None \<Rightarrow> (0, 0) | Some s \<Rightarrow> (history_revision s, structure_revision s))"

definition get_history_cursor :: "string \<Rightarrow> db \<Rightarrow> (int \<times> nat) option" where
  "get_history_cursor sid d = (let rs = session_rows sid d in if rs = [] then None else Some (Max (pos ` set rs)))"

text \<open>A message to be saved, with the parts of \<open>extra\<close> the rows use.\<close>

record draft =
  dr_role :: role
  dr_body :: string
  dr_calls :: "tool_call list"
  dr_call_id :: "string option"
  dr_hidden_user :: bool
  dr_hidden_summary :: bool
  dr_from_agent :: "string option"
  dr_snapshot :: "string option"
  dr_queued :: bool
  dr_pending :: bool
  dr_attachment_for :: "nat option"
  dr_attachments :: "string list"
  dr_name :: "string option"
  dr_reasoning :: "string option"
  dr_mention :: bool
  dr_reply :: reply_extra

definition draft_kind :: "draft \<Rightarrow> bool \<Rightarrow> bool \<Rightarrow> kind option \<Rightarrow> kind" where
  "draft_kind m is_summary is_hidden k =
     (case k of Some k \<Rightarrow> k
      | None \<Rightarrow> if is_summary then Summary else if is_hidden \<or> dr_hidden_user m then Note else Chat)"

definition save_message :: "string \<Rightarrow> draft \<Rightarrow> bool \<Rightarrow> bool \<Rightarrow> kind option \<Rightarrow> bool option \<Rightarrow> int option \<Rightarrow> bool \<Rightarrow> db \<Rightarrow> row \<times> db" where
  "save_message sid m is_summary is_hidden k pin at flushes d =
     (let k = draft_kind m is_summary is_hidden k;
          r = \<lparr>row_id = next_id d, row_session = sid, role = dr_role m, kind = k,
               seq = (case at of None \<Rightarrow> next_seq sid d | Some s \<Rightarrow> s),
               pinned = (case pin of None \<Rightarrow> k = Note \<and> dr_hidden_summary m | Some p \<Rightarrow> p),
               body = dr_body m, tool_calls = (if dr_role m = Assistant then dr_calls m else []),
               tool_call_id = (if dr_role m = ToolRole then dr_call_id m else None),
               from_agent = dr_from_agent m, snapshot = dr_snapshot m, queue_meta = dr_queued m, pending_flag = dr_pending m,
               attachment_for = dr_attachment_for m, attachments = dr_attachments m,
               row_name = (if dr_role m = ToolRole then dr_name m else None),
               reasoning_content = (if dr_role m = Assistant then dr_reasoning m else None),
               hidden_summary = dr_hidden_summary m, hidden_user = dr_hidden_user m, mention_context = dr_mention m, row_reply = dr_reply m\<rparr>;
          d = d\<lparr>rows := rows d @ [r], next_id := next_id d + 1\<rparr>
      in (r, if flushes \<and> k = Summary then bump_history_revision sid True d else d))"

section \<open>The derived window\<close>

definition revert_boundary :: "string \<Rightarrow> db \<Rightarrow> row option" where
  "revert_boundary sid d =
     (case map_of (sessions d) sid of
        None \<Rightarrow> None
      | Some s \<Rightarrow>
          (case revert s of
             None \<Rightarrow> None
           | Some (i, anchor) \<Rightarrow>
               (case get_row i d of
                  None \<Rightarrow> None
                | Some r \<Rightarrow> if row_session r = sid then Some r else None)))"

definition before_boundary :: "row option \<Rightarrow> row \<Rightarrow> bool" where
  "before_boundary b r \<longleftrightarrow> (case b of None \<Rightarrow> True | Some b \<Rightarrow> pos r < pos b)"

definition get_active_summary :: "string \<Rightarrow> row option \<Rightarrow> db \<Rightarrow> row option" where
  "get_active_summary sid b d =
     (let rs = filter (\<lambda>r. kind r = Summary \<and> before_boundary b r) (session_rows sid d) in
      if rs = [] then None else Some (last (sort_key row_id rs)))"

definition history_messages :: "string \<Rightarrow> row option \<Rightarrow> db \<Rightarrow> row list" where
  "history_messages sid b d = sort_key pos (filter (before_boundary b) (session_rows sid d))"

definition in_window :: "row option \<Rightarrow> row option \<Rightarrow> bool \<Rightarrow> row \<Rightarrow> bool" where
  "in_window summary b exclude_queued r \<longleftrightarrow>
     kind r \<noteq> Reverted \<and> (exclude_queued \<longrightarrow> kind r \<noteq> Queued) \<and>
     (case summary of
        Some s \<Rightarrow> (pinned r \<or> pos s \<le> pos r) \<and> (kind r \<noteq> Summary \<or> row_id r = row_id s)
      | None \<Rightarrow> kind r \<noteq> Summary) \<and>
     before_boundary b r"

definition llm_window :: "string \<Rightarrow> row option \<Rightarrow> row option \<Rightarrow> bool \<Rightarrow> db \<Rightarrow> row list" where
  "llm_window sid summary b exclude_queued d = sort_key pos (filter (in_window summary b exclude_queued) (session_rows sid d))"

definition llm_window_rows :: "string \<Rightarrow> bool \<Rightarrow> db \<Rightarrow> row list" where
  "llm_window_rows sid exclude_queued d =
     (let b = revert_boundary sid d; summary = get_active_summary sid b d in llm_window sid summary b exclude_queued d)"

definition get_messages :: "string \<Rightarrow> db \<Rightarrow> row list" where
  "get_messages sid d = filter (\<lambda>r. kind r \<noteq> Note) (llm_window_rows sid False d)"

definition get_messages_for_llm :: "string \<Rightarrow> db \<Rightarrow> row list" where
  "get_messages_for_llm sid d = llm_window_rows sid True d"

definition get_messages_for_llm_after :: "string \<Rightarrow> int \<times> nat \<Rightarrow> db \<Rightarrow> row list" where
  "get_messages_for_llm_after sid cursor d = filter (\<lambda>r. cursor < pos r) (llm_window_rows sid True d)"

section \<open>Undo and redo\<close>

definition real_user :: "row \<Rightarrow> bool" where
  "real_user r \<longleftrightarrow> role r = User \<and> (from_agent r = None \<or> from_agent r = Some ''user'')"

definition is_undo_target :: "row \<Rightarrow> bool" where
  "is_undo_target r \<longleftrightarrow> kind r \<in> {Chat, Summary} \<and> (from_agent r = None \<or> from_agent r = Some ''user'')"

definition nonempty_text :: "string option \<Rightarrow> string option" where
  "nonempty_text v = (if v = Some [] then None else v)"

definition redo_anchor :: "session \<Rightarrow> string option" where
  "redo_anchor s = nonempty_text (Option.bind (revert s) snd)"

definition message_snapshot :: "row \<Rightarrow> string option" where
  "message_snapshot r = nonempty_text (snapshot r)"

definition set_revert :: "string \<Rightarrow> (nat \<times> string option) option \<Rightarrow> db \<Rightarrow> db" where
  "set_revert sid v d = d\<lparr>sessions := map (\<lambda>(i, s). if i = sid then (i, s\<lparr>revert := v\<rparr>) else (i, s)) (sessions d)\<rparr>"

definition undo_candidates :: "string \<Rightarrow> db \<Rightarrow> row list" where
  "undo_candidates sid d =
     (let active = get_active_summary sid None d; b = revert_boundary sid d in
      filter (\<lambda>r. real_user r \<and> kind r \<in> {Chat, Summary} \<and>
        (case active of None \<Rightarrow> True | Some a \<Rightarrow> kind r = Summary \<or> pos a \<le> pos r) \<and> before_boundary b r) (session_rows sid d))"

definition newest :: "row list \<Rightarrow> row option" where
  "newest rs = (if rs = [] then None else Some (last (sort_key pos rs)))"

definition oldest :: "row list \<Rightarrow> row option" where
  "oldest rs = (if rs = [] then None else Some (hd (sort_key pos rs)))"

text \<open>
  The result says whether the boundary was moved and to which row. \<open>track\<close> records the workspace,
  \<open>restore\<close> brings a recorded one back.
\<close>

definition undo_session_messages ::
    "('w \<Rightarrow> string option) \<Rightarrow> (string \<Rightarrow> 'w \<Rightarrow> 'w) \<Rightarrow> string \<Rightarrow> 'w \<times> db \<Rightarrow> (bool \<times> row option) \<times> 'w \<times> db" where
  "undo_session_messages track restore sid = (\<lambda>(w, d).
     case map_of (sessions d) sid of
       None \<Rightarrow> ((False, None), w, d)
     | Some s \<Rightarrow>
         (case newest (undo_candidates sid d) of
            None \<Rightarrow> ((False, None), w, d)
          | Some target \<Rightarrow>
              if \<not> is_undo_target target then ((False, None), w, d)
              else
                let anchor = (case redo_anchor s of None \<Rightarrow> nonempty_text (track w) | Some a \<Rightarrow> Some a);
                    w = (case message_snapshot target of None \<Rightarrow> w | Some t \<Rightarrow> restore t w);
                    d = bump_history_revision sid True (set_revert sid (Some (row_id target, anchor)) d) in
                ((True, Some target), w, d)))"

definition redo_candidates :: "string \<Rightarrow> row \<Rightarrow> db \<Rightarrow> row list" where
  "redo_candidates sid b d = filter (\<lambda>r. real_user r \<and> kind r = Chat \<and> pos b < pos r) (session_rows sid d)"

definition redo_session_messages :: "(string \<Rightarrow> 'w \<Rightarrow> 'w) \<Rightarrow> string \<Rightarrow> 'w \<times> db \<Rightarrow> (bool \<times> row option) \<times> 'w \<times> db" where
  "redo_session_messages restore sid = (\<lambda>(w, d).
     case (map_of (sessions d) sid, revert_boundary sid d) of
       (Some s, Some b) \<Rightarrow>
         let anchor = redo_anchor s in
         (case oldest (redo_candidates sid b d) of
            None \<Rightarrow> ((True, None), (case anchor of None \<Rightarrow> w | Some a \<Rightarrow> restore a w),
                     bump_history_revision sid True (set_revert sid None d))
          | Some r \<Rightarrow> ((True, Some r), (case message_snapshot r of None \<Rightarrow> w | Some t \<Rightarrow> restore t w),
                       bump_history_revision sid True (set_revert sid (Some (row_id r, anchor)) d)))
     | _ \<Rightarrow> ((False, None), w, d))"

definition redo_all_session_messages :: "(string \<Rightarrow> 'w \<Rightarrow> 'w) \<Rightarrow> string \<Rightarrow> 'w \<times> db \<Rightarrow> (bool \<times> row option) \<times> 'w \<times> db" where
  "redo_all_session_messages restore sid = (\<lambda>(w, d).
     case (map_of (sessions d) sid, revert_boundary sid d) of
       (Some s, Some b) \<Rightarrow> ((True, None), (case redo_anchor s of None \<Rightarrow> w | Some a \<Rightarrow> restore a w),
          bump_history_revision sid True (set_revert sid None d))
     | _ \<Rightarrow> ((False, None), w, d))"

definition revert_from :: "string \<Rightarrow> row \<Rightarrow> row \<Rightarrow> row" where
  "revert_from sid b r = (if row_session r = sid \<and> pos b \<le> pos r \<and> kind r \<noteq> Queued then r\<lparr>kind := Reverted\<rparr> else r)"

definition cleanup_reverted_tail :: "string \<Rightarrow> db \<Rightarrow> nat \<times> db" where
  "cleanup_reverted_tail sid d =
     (case (map_of (sessions d) sid, revert_boundary sid d) of
        (Some s, Some b) \<Rightarrow>
          let cleaned = length (filter (\<lambda>r. row_session r = sid \<and> pos b \<le> pos r \<and> kind r \<noteq> Queued) (rows d));
              d = set_revert sid None (d\<lparr>rows := map (revert_from sid b) (rows d)\<rparr>) in
          (cleaned, if cleaned > 0 then bump_history_revision sid True d else d)
      | _ \<Rightarrow> (0, d))"

section \<open>Compaction\<close>

definition compaction_candidates :: "string \<Rightarrow> row \<Rightarrow> db \<Rightarrow> row list" where
  "compaction_candidates sid summary d =
     (let previous = get_active_summary sid None d in
      filter (\<lambda>r. kind r \<in> {Chat, Note} \<and> pos r < pos summary \<and>
        (case previous of None \<Rightarrow> True | Some p \<Rightarrow> row_id p = row_id summary \<or> pinned r \<or> pos p \<le> pos r)) (session_rows sid d))"

definition unpin_below :: "string \<Rightarrow> row \<Rightarrow> row \<Rightarrow> row" where
  "unpin_below sid summary r = (if row_session r = sid \<and> pinned r \<and> pos r < pos summary then r\<lparr>pinned := False\<rparr> else r)"

definition exclude_messages_before_summary :: "string \<Rightarrow> nat \<Rightarrow> int \<Rightarrow> db \<Rightarrow> int \<times> db" where
  "exclude_messages_before_summary sid summary_id keep_last_n d =
     (case get_row summary_id d of
        None \<Rightarrow> (0, d)
      | Some summary \<Rightarrow>
          if row_session summary \<noteq> sid then (0, d)
          else
            let cs = sort_key pos (compaction_candidates sid summary d);
                total = int (length cs);
                first_kept = (if keep_last_n > 0 \<and> total > 0 then Some (rev cs ! nat (min keep_last_n total - 1)) else None);
                covered = (if keep_last_n \<le> 0 then total else max 0 (total - keep_last_n));
                summary = (case first_kept of None \<Rightarrow> summary | Some f \<Rightarrow> summary\<lparr>seq := seq_before_row sid f d\<rparr>);
                d = put_row summary d;
                d = d\<lparr>rows := map (unpin_below sid summary) (rows d)\<rparr>
            in (covered, if covered \<noteq> 0 then bump_history_revision sid True d else d))"

section \<open>Queued messages\<close>

definition user_draft :: "string \<Rightarrow> draft" where
  "user_draft s = \<lparr>dr_role = User, dr_body = s, dr_calls = [], dr_call_id = None, dr_hidden_user = False, dr_hidden_summary = False,
     dr_from_agent = None, dr_snapshot = None, dr_queued = False, dr_pending = False, dr_attachment_for = None, dr_attachments = [],
     dr_name = None, dr_reasoning = None, dr_mention = False, dr_reply = no_extra\<rparr>"

definition save_queued_user_message :: "string \<Rightarrow> draft \<Rightarrow> db \<Rightarrow> row \<times> db" where
  "save_queued_user_message sid m d = save_message sid (m\<lparr>dr_role := User, dr_queued := True\<rparr>) False False (Some Queued) None None True d"

definition queued_rows :: "string \<Rightarrow> db \<Rightarrow> row list" where
  "queued_rows sid d = sort_key pos (filter (\<lambda>r. role r = User \<and> kind r = Queued) (session_rows sid d))"

definition promote_row :: "int \<Rightarrow> nat \<Rightarrow> row \<Rightarrow> row" where
  "promote_row base i r = r\<lparr>queue_meta := False, kind := Chat, seq := base + int i * SEQ_STEP\<rparr>"

definition promote_queued :: "string \<Rightarrow> row list \<Rightarrow> db \<Rightarrow> db" where
  "promote_queued sid queued d =
     (let base = next_seq sid d in fold (\<lambda>(i, r). put_row (promote_row base i r)) (enumerate 0 queued) d)"

definition release_queued_user_messages :: "string \<Rightarrow> db \<Rightarrow> row list \<times> db" where
  "release_queued_user_messages sid d =
     (let queued = queued_rows sid d; base = next_seq sid d; d' = promote_queued sid queued d in
      (map (\<lambda>(i, r). promote_row base i r) (enumerate 0 queued), if queued \<noteq> [] then bump_history_revision sid True d' else d'))"

definition pop_queued_user_messages :: "string \<Rightarrow> db \<Rightarrow> row list \<times> db" where
  "pop_queued_user_messages sid d =
     (let queued = queued_rows sid d; base = next_seq sid d; d' = promote_queued sid queued d in
      (map (\<lambda>(i, r). promote_row base i r) (enumerate 0 queued), if queued \<noteq> [] then bump_history_revision sid True d' else d'))"

definition cancel_queued_user_message :: "string \<Rightarrow> nat \<Rightarrow> db \<Rightarrow> (bool \<times> string list) \<times> db" where
  "cancel_queued_user_message sid i d =
     (case get_row i d of
        None \<Rightarrow> ((False, []), d)
      | Some r \<Rightarrow>
          if row_session r \<noteq> sid \<or> kind r \<noteq> Queued then ((False, []), d)
          else ((True, filter (\<lambda>p. p \<noteq> []) (attachments r)),
                bump_history_revision sid True
                  (d\<lparr>rows := filter (\<lambda>x. row_id x \<noteq> i \<and> \<not> (row_session x = sid \<and> attachment_for x = Some i)) (rows d)\<rparr>)))"

section \<open>Tool calls without a result\<close>

definition stub_draft :: "tool_call \<Rightarrow> draft" where
  "stub_draft tc = (user_draft ''Tool execution was interrupted before a result could be recorded.'')
     \<lparr>dr_role := ToolRole, dr_call_id := Some (call_id tc), dr_name := Some (call_name tc)\<rparr>"

definition tool_pair_rows :: "string \<Rightarrow> db \<Rightarrow> row list" where
  "tool_pair_rows sid d =
     filter (\<lambda>r. role r = Assistant \<and> tool_calls r \<noteq> [] \<or> role r = ToolRole \<and> tool_call_id r \<noteq> None)
       (llm_window_rows sid False d)"

definition expected_ids :: "row list \<Rightarrow> string list" where
  "expected_ids rs = concat (map (\<lambda>r. filter (\<lambda>i. i \<noteq> []) (map call_id (tool_calls r))) rs)"

definition matched_ids :: "string list \<Rightarrow> row list \<Rightarrow> string list" where
  "matched_ids expected rs = filter (\<lambda>i. i \<in> set expected) (List.map_filter tool_call_id rs)"

fun insert_stubs :: "string \<Rightarrow> int \<Rightarrow> int \<Rightarrow> tool_call list \<Rightarrow> db \<Rightarrow> db" where
  "insert_stubs sid upper anchor [] d = d"
| "insert_stubs sid upper anchor (tc # tcs) d =
     (let anchor = max (seq_between anchor upper) anchor in
      insert_stubs sid upper anchor tcs (snd (save_message sid (stub_draft tc) False False None None (Some anchor) True d)))"

definition seq_above :: "string \<Rightarrow> row \<Rightarrow> db \<Rightarrow> int" where
  "seq_above sid r d =
     (let above = filter (\<lambda>x. seq r < seq x) (session_rows sid d) in
      if above = [] then seq r + 2 * SEQ_STEP else Min (seq ` set above))"

definition missing_calls :: "string list \<Rightarrow> row \<Rightarrow> tool_call list" where
  "missing_calls matched r = filter (\<lambda>tc. call_id tc \<notin> set matched) (tool_calls r)"

definition heal_orphaned_tool_calls :: "string \<Rightarrow> db \<Rightarrow> nat \<times> db" where
  "heal_orphaned_tool_calls sid d =
     (let pairs = tool_pair_rows sid d;
          assistants = filter (\<lambda>r. tool_calls r \<noteq> []) pairs in
      if expected_ids assistants = [] then (0, d)
      else
        let matched = matched_ids (expected_ids assistants) pairs;
            missing = filter (\<lambda>(r, tcs). tcs \<noteq> []) (map (\<lambda>r. (r, missing_calls matched r)) assistants) in
        (sum_list (map (length \<circ> snd) missing),
         fold (\<lambda>(r, tcs) d. insert_stubs sid (seq_above sid r d) (seq r) tcs d) missing d))"

section \<open>Questions\<close>

definition PLACEHOLDER_RESULT :: string where
  "PLACEHOLDER_RESULT = ''Waiting for the user to answer. Do not continue until their reply arrives.''"

definition format_answers_for_model :: "string list \<Rightarrow> string list list option \<Rightarrow> string" where
  "format_answers_for_model texts answers =
     (let answers = (case answers of None \<Rightarrow> [] | Some a \<Rightarrow> a);
          part = (\<lambda>(i, q). let selected = (if i < length answers then answers ! i else []) in
                  [CHR 0x22] @ q @ [CHR 0x22] @ ''='' @ [CHR 0x22] @ (if selected \<noteq> [] then join '', '' selected else ''Unanswered'') @ [CHR 0x22]) in
      ''User has answered your questions: '' @ join '', '' (map part (enumerate 0 texts)) @ [CHR ''.''] @
      '' Continue with the user'' @ [CHR 0x27] @ ''s answers in mind.'')"

definition create_pending_question :: "string \<Rightarrow> string \<Rightarrow> string list \<Rightarrow> db \<Rightarrow> question \<times> db" where
  "create_pending_question sid call texts d =
     (let q = \<lparr>q_id = next_id d, q_session = sid, q_call = call, q_texts = texts, q_status = QPending, q_answers = None\<rparr>;
          d = d\<lparr>questions := questions d @ [q], next_id := next_id d + 1\<rparr>;
          m = (user_draft PLACEHOLDER_RESULT)\<lparr>dr_role := ToolRole, dr_call_id := Some call, dr_name := Some ''ask_user'', dr_pending := True\<rparr>
      in (q, snd (save_message sid m False False None None None True d)))"

definition get_pending_question :: "string \<Rightarrow> db \<Rightarrow> question option" where
  "get_pending_question sid d = find (\<lambda>q. q_session q = sid \<and> q_status q = QPending) (questions d)"

definition sessions_awaiting_input :: "db \<Rightarrow> string list" where
  "sessions_awaiting_input d = remdups (map q_session (filter (\<lambda>q. q_status q = QPending) (questions d)))"

definition rewrite_placeholder :: "string \<Rightarrow> string \<Rightarrow> string \<Rightarrow> db \<Rightarrow> db" where
  "rewrite_placeholder sid call outcome d =
     (case find (\<lambda>r. row_session r = sid \<and> tool_call_id r = Some call) (rows d) of
        None \<Rightarrow> d
      | Some r \<Rightarrow> bump_history_revision sid True (put_row (r\<lparr>body := outcome, pending_flag := False\<rparr>) d))"

text \<open>The texts of \<open>_RESOLUTION_TEXT\<close>, with a colon for the dash, which is no character of type \<^typ>\<open>char\<close>.\<close>

definition resolution_text :: "question_status \<Rightarrow> string" where
  "resolution_text st =
     (case st of
        Dismissed \<Rightarrow> ''Question(s) being dismissed.''
      | Superseded \<Rightarrow> ''Superseded: the user sent a new instruction instead of answering.''
      | _ \<Rightarrow> ''This question is no longer relevant and was discarded.'')"

definition resolve_pending_question :: "nat \<Rightarrow> question_status \<Rightarrow> string list list option \<Rightarrow> db \<Rightarrow> question option \<times> db" where
  "resolve_pending_question i st answers d =
     (case find (\<lambda>q. q_id q = i \<and> q_status q = QPending) (questions d) of
        None \<Rightarrow> (None, d)
      | Some q \<Rightarrow>
          let q = q\<lparr>q_status := st, q_answers := (if answers = Some [] then None else answers)\<rparr>;
              d = d\<lparr>questions := map (\<lambda>x. if q_id x = i \<and> q_status x = QPending then q else x) (questions d)\<rparr>;
              outcome = (if st = Answered then format_answers_for_model (q_texts q) (q_answers q) else resolution_text st)
          in (Some q, rewrite_placeholder (q_session q) (q_call q) outcome d))"

end
