(* ===== verification/HistoryProps.thy ===== *)
theory HistoryProps
  imports History "HOL-Library.Multiset"
begin

text \<open>
  Facts and properties of the persisted conversation: the window under a staged undo is the window
  after it has been made permanent, undo and redo are inverse, unanswered tool calls are healed once,
  a suspended question is neither healed nor resolved twice, and released messages go to the end of
  the window in the order they were queued.
\<close>

section \<open>Sessions and rows\<close>

lemma map_of_on_key:
  "map_of (map (\<lambda>(i, s). if i = k then (i, f s) else (i, s)) xs) j = (if j = k then map_option f (map_of xs k) else map_of xs j)"
  by (induction xs) auto

lemma sessions_set_revert [simp]:
  "map_of (sessions (set_revert sid v d)) sid = map_option (revert_update (\<lambda>_. v)) (map_of (sessions d) sid)"
  by (simp add: set_revert_def map_of_on_key)

lemma sessions_bump [simp]:
  "map_option revert (map_of (sessions (bump_history_revision sid st d)) k) = map_option revert (map_of (sessions d) k)"
  by (simp add: bump_history_revision_def map_of_on_key option.map_comp comp_def)

lemma rows_bump [simp]: "rows (bump_history_revision sid st d) = rows d" "rows (set_revert sid v d) = rows d"
  "questions (bump_history_revision sid st d) = questions d" "next_id (bump_history_revision sid st d) = next_id d"
  by (simp_all add: bump_history_revision_def set_revert_def)

lemma session_rows_cong [simp]:
  "session_rows sid (bump_history_revision k st d) = session_rows sid d" "session_rows sid (set_revert k v d) = session_rows sid d"
  by (simp_all add: session_rows_def)

lemma get_row_cong [simp]:
  "get_row i (bump_history_revision k st d) = get_row i d" "get_row i (set_revert k v d) = get_row i d"
  by (simp_all add: get_row_def)

text \<open>The boundary depends on the recorded id and the rows only.\<close>

definition revert_of :: "string \<Rightarrow> db \<Rightarrow> (nat \<times> string option) option" where
  "revert_of sid d = Option.bind (map_of (sessions d) sid) revert"

lemma revert_boundary_alt:
  "revert_boundary sid d = Option.bind (revert_of sid d) (\<lambda>(i, a). Option.bind (get_row i d) (\<lambda>r. if row_session r = sid then Some r else None))"
  by (simp add: revert_boundary_def revert_of_def split: option.split prod.split)

lemma revert_of_bump [simp]: "revert_of sid (bump_history_revision k st d) = revert_of sid d"
proof -
  have "Option.bind (map_of (sessions x) sid) revert = Option.bind (map_option revert (map_of (sessions x) sid)) id" for x
    by (cases "map_of (sessions x) sid") simp_all
  then show ?thesis unfolding revert_of_def by (metis sessions_bump)
qed

lemma revert_of_set [simp]: "revert_of sid (set_revert sid v d) = (if map_of (sessions d) sid = None then None else v)"
  by (cases "map_of (sessions d) sid") (simp_all add: revert_of_def)

lemma revert_boundary_bump [simp]: "revert_boundary sid (bump_history_revision k st d) = revert_boundary sid d"
  by (simp add: revert_boundary_alt)

lemma window_cong:
  "session_rows sid d = session_rows sid d' \<Longrightarrow> revert_boundary sid d = revert_boundary sid d' \<Longrightarrow>
     llm_window_rows sid q d = llm_window_rows sid q d'"
  by (simp add: llm_window_rows_def llm_window_def get_active_summary_def)

lemma filter_map_fix: "(\<And>r. r \<in> set rs \<Longrightarrow> P (f r) = Q r) \<Longrightarrow> (\<And>r. r \<in> set rs \<Longrightarrow> Q r \<Longrightarrow> f r = r) \<Longrightarrow> filter P (map f rs) = filter Q rs"
  by (induction rs) auto

lemma revert_from_simps [simp]: "pos (revert_from sid b r) = pos r" "row_session (revert_from sid b r) = row_session r" "row_id (revert_from sid b r) = row_id r"
  by (simp_all add: revert_from_def pos_def)

text \<open>
  C36. Making an undo permanent does not change what the model sees: the window computed under a
  staged boundary (with the summary that is active before it) is the window after
  \<open>cleanup_reverted_tail\<close> has turned the tail into reverted rows, dropped the boundary and so
  reactivated the previous summary.
\<close>

theorem cleanup_materialises_undo:
  "get_messages_for_llm sid (snd (cleanup_reverted_tail sid d)) = get_messages_for_llm sid d"
proof (cases "map_of (sessions d) sid = None \<or> revert_boundary sid d = None")
  case True
  then show ?thesis by (auto simp: cleanup_reverted_tail_def split: option.split)
next
  case False
  then obtain s b where s: "map_of (sessions d) sid = Some s" and b: "revert_boundary sid d = Some b" by auto
  let ?rs = "session_rows sid d" and ?f = "revert_from sid b"
  let ?d = "set_revert sid None (d\<lparr>rows := map ?f (rows d)\<rparr>)"
  have rows: "session_rows sid (d\<lparr>rows := map ?f (rows d)\<rparr>) = map ?f ?rs"
    by (simp add: session_rows_def filter_map comp_def)
  have none: "revert_boundary sid ?d = None"
    using revert_of_set [of sid None "d\<lparr>rows := map ?f (rows d)\<rparr>"] s by (simp add: revert_boundary_alt)
  have win: "llm_window_rows sid True (snd (cleanup_reverted_tail sid d)) = llm_window_rows sid True ?d"
    using s b by (auto simp: cleanup_reverted_tail_def Let_def intro!: window_cong)
  have f: "row_session r = sid" if "r \<in> set ?rs" for r using that by (simp add: session_rows_def)
  have sum: "filter (\<lambda>r. kind r = Summary \<and> before_boundary None r) (map ?f ?rs) =
      filter (\<lambda>r. kind r = Summary \<and> before_boundary (Some b) r) ?rs"
    by (rule filter_map_fix) (auto simp: f before_boundary_def revert_from_def not_le)
  then have act: "get_active_summary sid None ?d = get_active_summary sid (Some b) d"
    by (simp add: get_active_summary_def rows)
  have "filter (in_window x None True) (map ?f ?rs) = filter (in_window x (Some b) True) ?rs" for x
    by (rule filter_map_fix) (auto simp: f in_window_def before_boundary_def revert_from_def not_le pos_def split: option.splits)
  then show ?thesis
    using win by (simp add: get_messages_for_llm_def llm_window_rows_def none act b llm_window_def rows Let_def)
qed

section \<open>Undo and redo\<close>

lemma newest_Some:
  assumes "newest rs = Some r"
  shows "r \<in> set rs" "x \<in> set rs \<Longrightarrow> pos x \<le> pos r"
proof -
  have ne: "rs \<noteq> []" and r: "r = last (sort_key pos rs)" using assms by (auto simp: newest_def split: if_splits)
  have ne': "sort_key pos rs \<noteq> []" using ne by (metis length_0_conv length_sort)
  show "r \<in> set rs" using r last_in_set [OF ne'] by simp
  obtain i where i: "i < length rs" "sort_key pos rs ! i = x" if "x \<in> set rs" using in_set_conv_nth [of x "sort_key pos rs"] by auto
  show "pos x \<le> pos r" if "x \<in> set rs"
  proof -
    have "sorted (map pos (sort_key pos rs))" by simp
    then have "map pos (sort_key pos rs) ! i \<le> map pos (sort_key pos rs) ! (length rs - 1)"
      using i [OF that] by (intro sorted_nth_mono) simp_all
    then show ?thesis using i [OF that] r ne' by (simp add: last_conv_nth)
  qed
qed

lemma oldest_None: "oldest rs = None \<longleftrightarrow> rs = []"
  by (simp add: oldest_def)

definition ids_ok :: "db \<Rightarrow> bool" where
  "ids_ok d \<longleftrightarrow> distinct (map row_id (rows d)) \<and> (\<forall>r \<in> set (rows d). row_id r < next_id d)"

lemma get_row_mem:
  assumes "ids_ok d" "r \<in> set (rows d)"
  shows "get_row (row_id r) d = Some r"
proof (cases "get_row (row_id r) d")
  case None
  then show ?thesis using assms(2) by (auto simp: get_row_def find_None_iff)
next
  case (Some x)
  then have "x \<in> set (rows d)" "row_id x = row_id r" by (auto simp: get_row_def find_Some_iff)
  then have "x = r" using assms by (auto simp: ids_ok_def distinct_map dest: inj_onD)
  then show ?thesis using Some by simp
qed

lemma active_summary_mem:
  assumes "get_active_summary sid b d = Some a"
  shows "a \<in> set (session_rows sid d)" "kind a = Summary" "before_boundary b a"
proof -
  let ?rs = "filter (\<lambda>r. kind r = Summary \<and> before_boundary b r) (session_rows sid d)"
  have a: "?rs \<noteq> []" "a = last (sort_key row_id ?rs)" using assms by (auto simp: get_active_summary_def Let_def split: if_splits)
  then have "sort_key row_id ?rs \<noteq> []" by (metis length_0_conv length_sort)
  then have "a \<in> set ?rs" using a last_in_set by (metis set_sort)
  then show "a \<in> set (session_rows sid d)" "kind a = Summary" "before_boundary b a" by simp_all
qed


section \<open>Healing\<close>

definition stub_row :: "string \<Rightarrow> int \<Rightarrow> tool_call \<Rightarrow> db \<Rightarrow> row" where
  "stub_row sid a tc d = fst (save_message sid (stub_draft tc) False False None None (Some a) True d)"

lemma stub_row_fields [simp]:
  "row_id (stub_row sid a tc d) = next_id d" "row_session (stub_row sid a tc d) = sid" "role (stub_row sid a tc d) = ToolRole"
  "kind (stub_row sid a tc d) = Chat" "seq (stub_row sid a tc d) = a" "\<not> pinned (stub_row sid a tc d)"
  "tool_calls (stub_row sid a tc d) = []" "tool_call_id (stub_row sid a tc d) = Some (call_id tc)"
  by (simp_all add: stub_row_def save_message_def stub_draft_def user_draft_def draft_kind_def Let_def)

lemma save_stub:
  "snd (save_message sid (stub_draft tc) False False None None (Some a) True d) =
     d\<lparr>rows := rows d @ [stub_row sid a tc d], next_id := next_id d + 1\<rparr>"
  by (simp add: stub_row_def save_message_def stub_draft_def user_draft_def draft_kind_def Let_def)

text \<open>What inserted stubs look like: new tool rows behind the anchor, one per call.\<close>

definition stubs :: "string \<Rightarrow> db \<Rightarrow> db \<Rightarrow> row list \<Rightarrow> bool" where
  "stubs sid d d' new \<longleftrightarrow> rows d' = rows d @ new \<and> sessions d' = sessions d \<and> next_id d \<le> next_id d' \<and> (ids_ok d \<longrightarrow> ids_ok d') \<and>
     (\<forall>r \<in> set new. row_session r = sid \<and> role r = ToolRole \<and> kind r = Chat \<and> \<not> pinned r \<and> tool_calls r = [] \<and> next_id d \<le> row_id r)"

lemma stubs_refl: "stubs sid d d []"
  by (simp add: stubs_def)

lemma stubs_trans: "stubs sid d d1 n1 \<Longrightarrow> stubs sid d1 d2 n2 \<Longrightarrow> stubs sid d d2 (n1 @ n2)"
  by (auto simp: stubs_def)

lemma stubs_one: "stubs sid d (d\<lparr>rows := rows d @ [stub_row sid a tc d], next_id := next_id d + 1\<rparr>) [stub_row sid a tc d]"
  by (auto simp: stubs_def ids_ok_def)

lemma insert_stubs_new:
  "\<exists>new. stubs sid d (insert_stubs sid upper anchor tcs d) new \<and> map tool_call_id new = map (Some \<circ> call_id) tcs \<and> (\<forall>r \<in> set new. anchor \<le> seq r)"
proof (induction tcs arbitrary: anchor d)
  case Nil
  then show ?case using stubs_refl by (intro exI [where x = "[]"]) simp
next
  case (Cons tc tcs)
  let ?a = "max (seq_between anchor upper) anchor"
  let ?d = "d\<lparr>rows := rows d @ [stub_row sid ?a tc d], next_id := next_id d + 1\<rparr>"
  obtain new where new: "stubs sid ?d (insert_stubs sid upper ?a tcs ?d) new" "map tool_call_id new = map (Some \<circ> call_id) tcs"
    "\<forall>r \<in> set new. ?a \<le> seq r" using Cons.IH by blast
  have "stubs sid d (insert_stubs sid upper ?a tcs ?d) ([stub_row sid ?a tc d] @ new)" using stubs_trans [OF stubs_one new(1)] .
  moreover have "\<forall>r \<in> set ([stub_row sid ?a tc d] @ new). anchor \<le> seq r" using new(3) by auto
  ultimately show ?case using new(2) by (intro exI [where x = "[stub_row sid ?a tc d] @ new"]) (simp add: Let_def save_stub)
qed

abbreviation insert_all :: "string \<Rightarrow> (row \<times> tool_call list) list \<Rightarrow> db \<Rightarrow> db" where
  "insert_all sid missing d \<equiv> fold (\<lambda>(r, tcs) d. insert_stubs sid (seq_above sid r d) (seq r) tcs d) missing d"

lemma insert_all_new:
  "\<exists>new. stubs sid d (insert_all sid missing d) new \<and> length new = sum_list (map (length \<circ> snd) missing) \<and>
     (\<forall>(r, tcs) \<in> set missing. \<forall>tc \<in> set tcs. \<exists>x \<in> set new. tool_call_id x = Some (call_id tc) \<and> seq r \<le> seq x) \<and>
     (\<forall>x \<in> set new. \<exists>(r, tcs) \<in> set missing. \<exists>tc \<in> set tcs. tool_call_id x = Some (call_id tc))"
proof (induction missing arbitrary: d)
  case Nil
  then show ?case using stubs_refl by (intro exI [where x = "[]"]) simp
next
  case (Cons p missing)
  obtain r tcs where p: "p = (r, tcs)" by (cases p)
  let ?d = "insert_stubs sid (seq_above sid r d) (seq r) tcs d"
  obtain n1 where n1: "stubs sid d ?d n1" "map tool_call_id n1 = map (Some \<circ> call_id) tcs" "\<forall>x \<in> set n1. seq r \<le> seq x"
    using insert_stubs_new by blast
  obtain n2 where n2: "stubs sid ?d (insert_all sid missing ?d) n2" "length n2 = sum_list (map (length \<circ> snd) missing)"
    "\<forall>(r, tcs) \<in> set missing. \<forall>tc \<in> set tcs. \<exists>x \<in> set n2. tool_call_id x = Some (call_id tc) \<and> seq r \<le> seq x"
    "\<forall>x \<in> set n2. \<exists>(r, tcs) \<in> set missing. \<exists>tc \<in> set tcs. tool_call_id x = Some (call_id tc)"
    using Cons.IH [of ?d] by blast
  have len: "length n1 = length tcs" using n1(2) by (metis length_map)
  have img: "tool_call_id ` set n1 = (Some \<circ> call_id) ` set tcs" using n1(2) by (metis set_map)
  have a: "\<exists>x \<in> set n1. tool_call_id x = Some (call_id tc) \<and> seq r \<le> seq x" if "tc \<in> set tcs" for tc
  proof -
    have "Some (call_id tc) \<in> tool_call_id ` set n1" using that img by auto
    then show ?thesis using n1(3) by auto
  qed
  have b: "\<exists>tc \<in> set tcs. tool_call_id x = Some (call_id tc)" if "x \<in> set n1" for x
  proof -
    have "tool_call_id x \<in> (Some \<circ> call_id) ` set tcs" using that img by auto
    then show ?thesis by auto
  qed
  show ?case
  proof (intro exI [where x = "n1 @ n2"] conjI)
    show "stubs sid d (insert_all sid (p # missing) d) (n1 @ n2)" using stubs_trans [OF n1(1) n2(1)] by (simp add: p)
    show "length (n1 @ n2) = sum_list (map (length \<circ> snd) (p # missing))" using len n2(2) by (simp add: p)
    show "\<forall>(r, tcs) \<in> set (p # missing). \<forall>tc \<in> set tcs. \<exists>x \<in> set (n1 @ n2). tool_call_id x = Some (call_id tc) \<and> seq r \<le> seq x"
      using a n2(3) unfolding p by fastforce
    show "\<forall>x \<in> set (n1 @ n2). \<exists>(r, tcs) \<in> set (p # missing). \<exists>tc \<in> set tcs. tool_call_id x = Some (call_id tc)"
      using b n2(4) unfolding p by fastforce
  qed
qed

lemma window_mem:
  "r \<in> set (llm_window_rows sid q d) \<longleftrightarrow>
     r \<in> set (session_rows sid d) \<and> in_window (get_active_summary sid (revert_boundary sid d) d) (revert_boundary sid d) q r"
  by (auto simp: llm_window_rows_def llm_window_def Let_def)

lemma stubs_window:
  assumes "stubs sid d d' new" "revert_of sid d = None"
  shows "revert_boundary sid d' = None" "session_rows sid d' = session_rows sid d @ new"
    "get_active_summary sid None d' = get_active_summary sid None d"
proof -
  show "revert_boundary sid d' = None" using assms by (simp add: stubs_def revert_boundary_alt revert_of_def)
  show rs: "session_rows sid d' = session_rows sid d @ new" using assms(1) by (auto simp: stubs_def session_rows_def filter_id_conv)
  have "filter (\<lambda>r. kind r = Summary \<and> before_boundary None r) new = []" using assms(1) by (auto simp: stubs_def filter_empty_conv)
  then show "get_active_summary sid None d' = get_active_summary sid None d" by (simp add: get_active_summary_def rs)
qed

lemma heal_unfold:
  "heal_orphaned_tool_calls sid d =
     (let pairs = tool_pair_rows sid d; assistants = filter (\<lambda>r. tool_calls r \<noteq> []) pairs; expected = expected_ids assistants;
          missing = (if expected = [] then [] else
            filter (\<lambda>(r, tcs). tcs \<noteq> []) (map (\<lambda>r. (r, missing_calls (matched_ids expected pairs) r)) assistants)) in
      (sum_list (map (length \<circ> snd) missing), insert_all sid missing d))"
  by (simp add: heal_orphaned_tool_calls_def Let_def)

lemma expected_mem: "i \<in> set (expected_ids rs) \<longleftrightarrow> i \<noteq> [] \<and> (\<exists>r \<in> set rs. \<exists>tc \<in> set (tool_calls r). call_id tc = i)"
  by (auto simp: expected_ids_def)

lemma matched_mem: "i \<in> set (matched_ids e rs) \<longleftrightarrow> i \<in> set e \<and> (\<exists>r \<in> set rs. tool_call_id r = Some i)"
  by (force simp: matched_ids_def List.map_filter_def)

definition answered :: "string \<Rightarrow> db \<Rightarrow> string \<Rightarrow> bool" where
  "answered sid d i \<longleftrightarrow> (\<exists>x \<in> set (llm_window_rows sid False d). role x = ToolRole \<and> tool_call_id x = Some i)"

lemma heal_none:
  assumes "\<forall>r \<in> set (llm_window_rows sid False d). role r = Assistant \<longrightarrow> (\<forall>tc \<in> set (tool_calls r). answered sid d (call_id tc) \<and> call_id tc \<noteq> [])"
    and "\<forall>r \<in> set (llm_window_rows sid False d). role r \<noteq> Assistant \<longrightarrow> tool_calls r = []"
  shows "heal_orphaned_tool_calls sid d = (0, d)"
proof -
  let ?pairs = "tool_pair_rows sid d"
  let ?as = "filter (\<lambda>r. tool_calls r \<noteq> []) ?pairs"
  have "missing_calls (matched_ids (expected_ids ?as) ?pairs) r = []" if r: "r \<in> set ?as" for r
  proof -
    have w: "r \<in> set (llm_window_rows sid False d)" "role r = Assistant" using r assms(2) by (auto simp: tool_pair_rows_def)
    have "call_id tc \<in> set (matched_ids (expected_ids ?as) ?pairs)" if "tc \<in> set (tool_calls r)" for tc
    proof -
      have "answered sid d (call_id tc)" "call_id tc \<noteq> []" using assms(1) w that by blast+
      then show ?thesis using r that by (auto simp: matched_mem expected_mem answered_def tool_pair_rows_def)
    qed
    then show ?thesis by (auto simp: missing_calls_def filter_empty_conv)
  qed
  then have "filter (\<lambda>(r, tcs). tcs \<noteq> []) (map (\<lambda>r. (r, missing_calls (matched_ids (expected_ids ?as) ?pairs) r)) ?as) = []"
    by (auto simp: filter_empty_conv)
  then show ?thesis by (simp add: heal_unfold Let_def)
qed

definition calls_ok :: "string \<Rightarrow> db \<Rightarrow> bool" where
  "calls_ok sid d \<longleftrightarrow> (\<forall>r \<in> set (session_rows sid d).
     (role r = Assistant \<longrightarrow> \<not> pinned r \<and> tool_call_id r = None \<and> (\<forall>tc \<in> set (tool_calls r). call_id tc \<noteq> [])) \<and> (role r \<noteq> Assistant \<longrightarrow> tool_calls r = []))"

text \<open>
  C38. Every unanswered tool call is healed, once: after \<open>heal_orphaned_tool_calls\<close> each tool call
  of a visible assistant message has a visible tool result, the rows that were there are unchanged,
  as many rows are added as the function reports, and a second run adds nothing. This holds for a
  session without a staged undo whose assistant rows are not pinned and whose calls have ids.
\<close>

theorem heal_pairs_calls:
  assumes "ids_ok d" "revert_of sid d = None" "calls_ok sid d" "heal_orphaned_tool_calls sid d = (n, d')"
  shows "(\<forall>r \<in> set (llm_window_rows sid False d'). role r = Assistant \<longrightarrow> (\<forall>tc \<in> set (tool_calls r). answered sid d' (call_id tc))) \<and>
    (\<exists>new. rows d' = rows d @ new \<and> length new = n) \<and> heal_orphaned_tool_calls sid d' = (0, d')"
proof -
  let ?pairs = "tool_pair_rows sid d"
  let ?as = "filter (\<lambda>r. tool_calls r \<noteq> []) ?pairs"
  let ?m = "if expected_ids ?as = [] then [] else
    filter (\<lambda>(r, tcs). tcs \<noteq> []) (map (\<lambda>r. (r, missing_calls (matched_ids (expected_ids ?as) ?pairs) r)) ?as)"
  have h: "n = sum_list (map (length \<circ> snd) ?m)" "d' = insert_all sid ?m d" using assms(4) by (auto simp: heal_unfold Let_def)
  obtain new where new: "stubs sid d d' new" "length new = n"
    "\<forall>(r, tcs) \<in> set ?m. \<forall>tc \<in> set tcs. \<exists>x \<in> set new. tool_call_id x = Some (call_id tc) \<and> seq r \<le> seq x"
    using insert_all_new [of sid d ?m] h by auto
  note W = stubs_window [OF new(1) assms(2)]
  have nb: "revert_boundary sid d = None" using assms(2) by (simp add: revert_boundary_alt)
  let ?w = "in_window (get_active_summary sid None d) None False"
  have mem: "r \<in> set (llm_window_rows sid False d') \<longleftrightarrow> r \<in> set (session_rows sid d) \<union> set new \<and> ?w r" for r
    by (simp add: window_mem W)
  have old: "r \<in> set (llm_window_rows sid False d) \<longleftrightarrow> r \<in> set (session_rows sid d) \<and> ?w r" for r
    by (simp add: window_mem nb)
  have newrow: "row_session x = sid" "role x = ToolRole" "kind x = Chat" "tool_calls x = []" "next_id d \<le> row_id x" if "x \<in> set new" for x
    using new(1) that by (auto simp: stubs_def)
  have ans: "answered sid d' (call_id tc)" if r: "r \<in> set (llm_window_rows sid False d')" "role r = Assistant" "tc \<in> set (tool_calls r)" for r tc
  proof -
    have rs: "r \<in> set (session_rows sid d)" "?w r" using r newrow mem by auto
    have ra: "r \<in> set ?as" using rs r old by (auto simp: tool_pair_rows_def)
    have id: "call_id tc \<noteq> []" and np: "\<not> pinned r" using assms(3) rs(1) r by (auto simp: calls_ok_def)
    then have e: "call_id tc \<in> set (expected_ids ?as)" using ra r(3) by (auto simp: expected_mem)
    show ?thesis
    proof (cases "call_id tc \<in> set (matched_ids (expected_ids ?as) ?pairs)")
      case True
      then obtain x where x: "x \<in> set ?pairs" "tool_call_id x = Some (call_id tc)" by (auto simp: matched_mem)
      then have "x \<in> set (session_rows sid d)" "?w x" using old by (auto simp: tool_pair_rows_def)
      moreover from this have "role x = ToolRole" using x assms(3) by (auto simp: calls_ok_def tool_pair_rows_def)
      ultimately show ?thesis using mem x(2) by (auto simp: answered_def)
    next
      case False
      then have "tc \<in> set (missing_calls (matched_ids (expected_ids ?as) ?pairs) r)" using r(3) by (simp add: missing_calls_def)
      then have "(r, missing_calls (matched_ids (expected_ids ?as) ?pairs) r) \<in> set ?m" using ra e by auto
      then obtain x where x: "x \<in> set new" "tool_call_id x = Some (call_id tc)" "seq r \<le> seq x"
        using new(3) \<open>tc \<in> set (missing_calls _ r)\<close> by fastforce
      have "row_id r < next_id d" using assms(1) rs(1) by (auto simp: ids_ok_def session_rows_def)
      then have "pos r \<le> pos x" using x(3) newrow(5) [OF x(1)] by (auto simp: pos_def less_eq_prod_def)
      then have "?w x" using rs(2) np newrow(3) [OF x(1)] by (auto simp: in_window_def before_boundary_def split: option.splits)
      then show ?thesis using x newrow mem by (auto simp: answered_def)
    qed
  qed
  have "heal_orphaned_tool_calls sid d' = (0, d')"
  proof (rule heal_none)
    show "\<forall>r \<in> set (llm_window_rows sid False d'). role r = Assistant \<longrightarrow>
        (\<forall>tc \<in> set (tool_calls r). answered sid d' (call_id tc) \<and> call_id tc \<noteq> [])"
      using ans assms(3) mem newrow by (auto simp: calls_ok_def)
    show "\<forall>r \<in> set (llm_window_rows sid False d'). role r \<noteq> Assistant \<longrightarrow> tool_calls r = []"
      using assms(3) mem newrow by (auto simp: calls_ok_def)
  qed
  then show ?thesis using ans new(1,2) by (auto simp: stubs_def)
qed

section \<open>Releasing queued messages\<close>

lemma sort_key_unique:
  assumes "mset ys = mset xs" "inj_on f (set xs)" "sorted (map f ys)"
  shows "sort_key f xs = ys"
proof -
  have "map f (sort_key f xs) = sort (map f xs)"
    by (rule properties_for_sort [symmetric]) simp_all
  also have "\<dots> = map f ys"
    by (rule properties_for_sort) (use assms(1,3) in simp_all)
  finally show ?thesis
    using assms(1,2) by (metis inj_on_map_eq_map set_mset_mset set_sort Un_absorb)
qed

lemma put_rows:
  assumes "distinct (map row_id qs)"
  shows "rows (fold put_row qs d) = map (\<lambda>x. case find (\<lambda>q. row_id q = row_id x) qs of Some q \<Rightarrow> q | None \<Rightarrow> x) (rows d)"
    and "sessions (fold put_row qs d) = sessions d"
proof -
  show "sessions (fold put_row qs d) = sessions d" by (induction qs arbitrary: d) (simp_all add: put_row_def)
  show "rows (fold put_row qs d) = map (\<lambda>x. case find (\<lambda>q. row_id q = row_id x) qs of Some q \<Rightarrow> q | None \<Rightarrow> x) (rows d)"
    using assms
  proof (induction qs arbitrary: d)
    case (Cons q qs)
    have "find (\<lambda>y. row_id y = row_id q) qs = None"
      using Cons.prems imageI [of _ "set qs" row_id] by (auto simp: find_None_iff) (metis imageI)
    then show ?case using Cons by (auto simp: put_row_def comp_def split: option.split)
  qed simp
qed

lemma put_enumerate: "fold (\<lambda>(i, r). put_row (f i r)) (enumerate n qs) d = fold put_row (map (\<lambda>(i, r). f i r) (enumerate n qs)) d"
  by (induction qs arbitrary: n d) simp_all

lemma promote_row_simps [simp]:
  "row_id (promote_row b i r) = row_id r" "row_session (promote_row b i r) = row_session r" "kind (promote_row b i r) = Chat"
  "seq (promote_row b i r) = b + int i * SEQ_STEP" "role (promote_row b i r) = role r"
  by (simp_all add: promote_row_def)

definition promoted :: "string \<Rightarrow> db \<Rightarrow> row list" where
  "promoted sid d = map (\<lambda>(i, r). promote_row (next_seq sid d) i r) (enumerate 0 (queued_rows sid d))"

lemma promoted_ids: "map row_id (promoted sid d) = map row_id (queued_rows sid d)"
proof -
  have "map row_id (map (\<lambda>(i, r). promote_row b i r) (enumerate n qs)) = map row_id qs" for b n qs
    by (induction qs arbitrary: n) simp_all
  then show ?thesis by (simp only: promoted_def)
qed

lemma seq_bound: "r \<in> set (session_rows sid d) \<Longrightarrow> seq r < next_seq sid d"
proof -
  assume r: "r \<in> set (session_rows sid d)"
  then have "seq r \<le> Max (seq ` set (session_rows sid d))" by simp
  moreover have "session_rows sid d \<noteq> []" using r by auto
  ultimately show ?thesis by (simp add: next_seq_def max_seq_def SEQ_STEP_def)
qed

lemma queued_rows_distinct: "ids_ok d \<Longrightarrow> distinct (map row_id (queued_rows sid d))"
proof -
  assume "ids_ok d"
  then have "distinct (map row_id (filter (\<lambda>r. role r = User \<and> kind r = Queued) (session_rows sid d)))"
    by (auto simp: ids_ok_def session_rows_def intro: distinct_map_filter)
  then show ?thesis
    unfolding queued_rows_def by (metis (no_types, lifting) distinct_map distinct_sort set_sort)
qed

text \<open>The row that takes the place of \<open>x\<close>.\<close>

definition replaced :: "string \<Rightarrow> db \<Rightarrow> row \<Rightarrow> row" where
  "replaced sid d x = (case find (\<lambda>q. row_id q = row_id x) (promoted sid d) of Some q \<Rightarrow> q | None \<Rightarrow> x)"

lemma release_rows:
  assumes "ids_ok d"
  shows "rows (snd (release_queued_user_messages sid d)) = map (replaced sid d) (rows d)"
    and "fst (release_queued_user_messages sid d) = promoted sid d"
    and "revert_of sid (snd (release_queued_user_messages sid d)) = revert_of sid d"
proof -
  have dist: "distinct (map row_id (promoted sid d))" using queued_rows_distinct [OF assms] by (simp add: promoted_ids)
  have p: "promote_queued sid (queued_rows sid d) d = fold put_row (promoted sid d) d"
    by (simp add: promote_queued_def promoted_def Let_def put_enumerate)
  have r: "rows (snd (release_queued_user_messages sid d)) = rows (promote_queued sid (queued_rows sid d) d)"
    "revert_of sid (snd (release_queued_user_messages sid d)) = revert_of sid (promote_queued sid (queued_rows sid d) d)"
    by (auto simp: release_queued_user_messages_def Let_def)
  show "rows (snd (release_queued_user_messages sid d)) = map (replaced sid d) (rows d)"
    unfolding r p put_rows(1) [OF dist] replaced_def by simp
  show "fst (release_queued_user_messages sid d) = promoted sid d"
    by (simp add: release_queued_user_messages_def Let_def promoted_def)
  show "revert_of sid (snd (release_queued_user_messages sid d)) = revert_of sid d"
    unfolding r p by (simp add: revert_of_def put_rows(2) [OF dist])
qed

lemma promoted_mem:
  assumes "q \<in> set (promoted sid d)"
  shows "\<exists>x \<in> set (session_rows sid d). role x = User \<and> kind x = Queued \<and> row_id x = row_id q"
    "kind q = Chat" "role q = User" "row_session q = sid" "next_seq sid d \<le> seq q"
proof -
  obtain i x where x: "(i, x) \<in> set (enumerate 0 (queued_rows sid d))" "q = promote_row (next_seq sid d) i x"
    using assms by (auto simp: promoted_def)
  then have "x \<in> set (queued_rows sid d)" by (auto simp: in_set_enumerate_eq)
  then have m: "x \<in> set (session_rows sid d)" "role x = User" "kind x = Queued" by (simp_all add: queued_rows_def)
  then show "\<exists>x \<in> set (session_rows sid d). role x = User \<and> kind x = Queued \<and> row_id x = row_id q" using x(2) by auto
  show "kind q = Chat" "role q = User" "next_seq sid d \<le> seq q" using x m by (simp_all add: SEQ_STEP_def)
  show "row_session q = sid" using x m by (simp add: session_rows_def)
qed

lemma replaced_cases:
  assumes "ids_ok d" "x \<in> set (rows d)"
  shows "row_session x = sid \<and> role x = User \<and> kind x = Queued \<and> replaced sid d x \<in> set (promoted sid d) \<and> row_id (replaced sid d x) = row_id x \<or>
    \<not> (row_session x = sid \<and> role x = User \<and> kind x = Queued) \<and> replaced sid d x = x"
proof (cases "find (\<lambda>q. row_id q = row_id x) (promoted sid d)")
  case None
  have "x \<notin> set (queued_rows sid d)"
  proof
    assume "x \<in> set (queued_rows sid d)"
    then have "row_id x \<in> set (map row_id (promoted sid d))" unfolding promoted_ids by simp
    then show False using None by (auto simp: find_None_iff)
  qed
  then show ?thesis using None assms(2) by (auto simp: replaced_def queued_rows_def session_rows_def)
next
  case (Some q)
  then have q: "q \<in> set (promoted sid d)" "row_id q = row_id x" by (auto simp: find_Some_iff)
  then obtain y where y: "y \<in> set (session_rows sid d)" "role y = User" "kind y = Queued" "row_id y = row_id x" using promoted_mem(1) by metis
  then have "y = x" using assms by (auto simp: ids_ok_def session_rows_def distinct_map dest: inj_onD)
  then show ?thesis using Some q y by (auto simp: replaced_def session_rows_def)
qed

lemma replaced_queued:
  assumes "ids_ok d"
  shows "map (replaced sid d) (queued_rows sid d) = promoted sid d"
proof (rule nth_equalityI)
  show len: "length (map (replaced sid d) (queued_rows sid d)) = length (promoted sid d)" by (simp add: promoted_def)
  fix i
  assume "i < length (map (replaced sid d) (queued_rows sid d))"
  then have i: "i < length (queued_rows sid d)" "i < length (promoted sid d)" using len by simp_all
  let ?x = "queued_rows sid d ! i" and ?q = "promoted sid d ! i"
  have x: "?x \<in> set (queued_rows sid d)" using i by simp
  have id: "row_id ?q = row_id ?x" using arg_cong [OF promoted_ids [of sid d], of "\<lambda>l. l ! i"] i by simp
  have "replaced sid d ?x \<in> set (promoted sid d)" "row_id (replaced sid d ?x) = row_id ?q"
    using replaced_cases [OF assms, of ?x sid] x id by (auto simp: queued_rows_def session_rows_def)
  moreover have "distinct (map row_id (promoted sid d))" using queued_rows_distinct [OF assms] by (simp add: promoted_ids)
  ultimately show "map (replaced sid d) (queued_rows sid d) ! i = ?q"
    using i by (auto simp: distinct_map dest: inj_onD)
qed

lemma promoted_sorted: "sorted (map pos (promoted sid d))"
proof -
  have "sorted (map pos (map (\<lambda>(i, r). promote_row b i r) (enumerate n qs)))" for b n qs
  proof (induction qs arbitrary: n)
    case (Cons q qs)
    have "pos (promote_row b n q) \<le> pos (promote_row b i r)" if "(i, r) \<in> set (enumerate (Suc n) qs)" for i r
      using that by (auto simp: in_set_enumerate_eq pos_def less_eq_prod_def SEQ_STEP_def)
    then show ?case using Cons by auto
  qed simp
  then show ?thesis by (simp only: promoted_def)
qed

text \<open>
  Released messages join the end of the conversation in the order they were queued: after
  \<open>release_queued_user_messages\<close> the window for the model is the previous window followed by the
  promoted rows, which are ordinary chat rows now, and the queue of the session is empty.
\<close>

theorem release_appends_queue:
  assumes "ids_ok d" "revert_of sid d = None" "release_queued_user_messages sid d = (released, d')"
  shows "get_messages_for_llm sid d' = get_messages_for_llm sid d @ released \<and> queued_rows sid d' = [] \<and>
    map row_id released = map row_id (queued_rows sid d) \<and> (\<forall>r \<in> set released. kind r = Chat)"
proof -
  let ?rs = "session_rows sid d" and ?g = "replaced sid d" and ?q = "\<lambda>r. role r = User \<and> kind r = Queued"
  let ?s = "get_active_summary sid None d"
  have R: "rows d' = map ?g (rows d)" "released = promoted sid d" "revert_of sid d' = None"
    using release_rows [OF assms(1), of sid] assms(2,3) by simp_all
  have c: "?q x \<and> ?g x \<in> set (promoted sid d) \<or> \<not> ?q x \<and> ?g x = x" if "x \<in> set ?rs" for x
    using replaced_cases [OF assms(1), of x sid] that by (auto simp: session_rows_def)
  have sess: "row_session (?g x) = row_session x" if "x \<in> set (rows d)" for x
    using replaced_cases [OF assms(1) that, of sid] promoted_mem(4) [of "?g x" sid d] by auto
  have rows: "session_rows sid d' = map ?g ?rs"
    unfolding session_rows_def R(1) filter_map comp_def using sess by (auto intro!: arg_cong [of _ _ "map ?g"] filter_cong)
  have nb: "revert_boundary sid d = None" "revert_boundary sid d' = None" using assms(2) R(3) by (simp_all add: revert_boundary_alt)
  have "filter (\<lambda>r. kind r = Summary \<and> before_boundary None r) (map ?g ?rs) = filter (\<lambda>r. kind r = Summary \<and> before_boundary None r) ?rs"
    by (rule filter_map_fix) (use c promoted_mem(2) in \<open>force simp: before_boundary_def\<close>)+
  then have act: "get_active_summary sid None d' = ?s" by (simp add: get_active_summary_def rows)
  let ?w = "in_window ?s None True"
  have wq: "?w (?g x)" if "x \<in> set ?rs" "?q x" for x
  proof -
    have p: "?g x \<in> set (promoted sid d)" using c [OF that(1)] that(2) by auto
    have "pos a \<le> pos (?g x)" if "?s = Some a" for a
      using seq_bound [OF active_summary_mem(1) [OF that]] promoted_mem(5) [OF p] by (auto simp: pos_def less_eq_prod_def)
    then show ?thesis using promoted_mem(2) [OF p] by (auto simp: in_window_def before_boundary_def split: option.split)
  qed
  have nw: "\<not> ?w x" if "?q x" for x using that by (simp add: in_window_def)
  have filt: "mset (filter ?w (map ?g xs)) = mset (filter ?w xs) + mset (map ?g (filter ?q xs))" if "set xs \<subseteq> set ?rs" for xs
    using that
  proof (induction xs)
    case (Cons x xs)
    then show ?case using c [of x] wq [of x] nw [of x] by (cases "?q x") auto
  qed simp
  have "mset (map ?g (filter ?q ?rs)) = mset (map ?g (queued_rows sid d))" by (simp add: queued_rows_def)
  then have ms: "mset (sort_key pos (filter ?w ?rs) @ promoted sid d) = mset (filter ?w (map ?g ?rs))"
    using filt [of ?rs] replaced_queued [OF assms(1), of sid] by simp
  have rid: "row_id (?g x) = row_id x" if "x \<in> set ?rs" for x
    using replaced_cases [OF assms(1), of x sid] that by (auto simp: session_rows_def)
  have ids: "map row_id (map ?g ?rs) = map row_id ?rs" using rid by simp
  have "distinct (map row_id ?rs)" using assms(1) by (auto simp: ids_ok_def session_rows_def intro: distinct_map_filter)
  then have "inj_on row_id (set (map ?g ?rs))" using ids by (metis distinct_map)
  then have inj: "inj_on pos (set (filter ?w (map ?g ?rs)))" by (auto simp: inj_on_def pos_def)
  have "sorted (map pos (sort_key pos (filter ?w ?rs) @ promoted sid d))"
  proof -
    have "pos x \<le> pos y" if "x \<in> set (filter ?w ?rs)" "y \<in> set (promoted sid d)" for x y
      using that seq_bound [of x sid d] promoted_mem(5) [of y sid d] by (auto simp: pos_def less_eq_prod_def)
    then show ?thesis using promoted_sorted by (auto simp: sorted_append)
  qed
  from sort_key_unique [OF ms inj this]
  have win: "get_messages_for_llm sid d' = get_messages_for_llm sid d @ released"
    by (simp add: get_messages_for_llm_def llm_window_rows_def llm_window_def Let_def nb act rows R(2))
  have "\<not> ?q (?g x)" if "x \<in> set ?rs" for x using c [OF that] promoted_mem(2) [of "?g x" sid d] by auto
  then have "filter ?q (map ?g ?rs) = []" by (auto simp: filter_empty_conv)
  then have "queued_rows sid d' = []" by (simp add: queued_rows_def rows)
  then show ?thesis using win R(2) promoted_ids promoted_mem(2) by auto
qed

section \<open>Questions\<close>

lemma rewrite_placeholder_questions [simp]: "questions (rewrite_placeholder sid call outcome d) = questions d"
  by (simp add: rewrite_placeholder_def put_row_def split: option.split)

lemma rewrite_placeholder_ids: "map row_id (rows (rewrite_placeholder sid call outcome d)) = map row_id (rows d)"
  by (auto simp: rewrite_placeholder_def put_row_def split: option.split)

text \<open>
  A question is resolved once: the first resolution of an open question closes it and rewrites the
  first row that holds the result of its call, in place and with no other row touched; every later
  attempt, with whatever status and answers, is refused and changes nothing, so a turn is never
  resumed twice.
\<close>

theorem question_resolved_once:
  assumes "st \<noteq> QPending" "resolve_pending_question i st answers d = (Some q, d1)"
  shows "resolve_pending_question i st' answers' d1 = (None, d1) \<and> q_id q = i \<and> q_status q = st \<and>
    map row_id (rows d1) = map row_id (rows d) \<and>
    (\<forall>r \<in> set (rows d1). r \<in> set (rows d) \<or>
      row_session r = q_session q \<and> tool_call_id r = Some (q_call q) \<and> \<not> pending_flag r \<and>
      body r = (if st = Answered then format_answers_for_model (q_texts q) (q_answers q) else resolution_text st))"
proof -
  let ?P = "\<lambda>q. q_id q = i \<and> q_status q = QPending"
  obtain q0 where q0: "find ?P (questions d) = Some q0"
    using assms(2) by (auto simp: resolve_pending_question_def split: option.splits)
  let ?q = "q0\<lparr>q_status := st, q_answers := (if answers = Some [] then None else answers)\<rparr>"
  let ?d = "d\<lparr>questions := map (\<lambda>x. if ?P x then ?q else x) (questions d)\<rparr>"
  let ?o = "if st = Answered then format_answers_for_model (q_texts ?q) (q_answers ?q) else resolution_text st"
  have q: "q = ?q" "d1 = rewrite_placeholder (q_session ?q) (q_call ?q) ?o ?d"
    using assms(2) q0 by (auto simp: resolve_pending_question_def Let_def)
  have id: "q_id q0 = i" using q0 by (auto simp: find_Some_iff)
  have "\<not> ?P x" if "x \<in> set (questions d1)" for x using that assms(1) by (auto simp: q(2) split: if_splits)
  then have "find ?P (questions d1) = None" by (auto simp: find_None_iff)
  then have again: "resolve_pending_question i st' answers' d1 = (None, d1)" by (simp add: resolve_pending_question_def)
  have ids: "map row_id (rows d1) = map row_id (rows d)" unfolding q(2) by (simp add: rewrite_placeholder_ids)
  have "r \<in> set (rows d) \<or> row_session r = q_session ?q \<and> tool_call_id r = Some (q_call ?q) \<and> \<not> pending_flag r \<and> body r = ?o"
    if "r \<in> set (rows d1)" for r
  proof (cases "find (\<lambda>r. row_session r = q_session ?q \<and> tool_call_id r = Some (q_call ?q)) (rows ?d)")
    case None
    then show ?thesis using that by (simp add: q(2) rewrite_placeholder_def)
  next
    case (Some x)
    then have "row_session x = q_session ?q \<and> tool_call_id x = Some (q_call ?q)" by (auto simp: find_Some_iff)
    then show ?thesis using that Some by (auto simp: q(2) rewrite_placeholder_def put_row_def split: if_splits)
  qed
  then have "\<forall>r \<in> set (rows d1). r \<in> set (rows d) \<or>
      row_session r = q_session ?q \<and> tool_call_id r = Some (q_call ?q) \<and> \<not> pending_flag r \<and> body r = ?o" by blast
  then show ?thesis unfolding q(1) using again ids id by simp
qed

text \<open>
  A suspended call is not healed: after \<open>create_pending_question\<close> the healing pass adds no
  result for the call that is waiting for the user, even though it has none but the placeholder.
\<close>

theorem suspended_call_not_healed:
  assumes "ids_ok d" "revert_of sid d = None" "call \<noteq> []"
    and "create_pending_question sid call texts d = (q, d1)" "heal_orphaned_tool_calls sid d1 = (n, d2)"
  shows "\<exists>new. rows d2 = rows d1 @ new \<and> (\<forall>r \<in> set new. tool_call_id r \<noteq> Some call)"
proof -
  let ?pairs = "tool_pair_rows sid d1"
  let ?as = "filter (\<lambda>r. tool_calls r \<noteq> []) ?pairs"
  let ?m = "if expected_ids ?as = [] then [] else
    filter (\<lambda>(r, tcs). tcs \<noteq> []) (map (\<lambda>r. (r, missing_calls (matched_ids (expected_ids ?as) ?pairs) r)) ?as)"
  let ?ph = "last (rows d1)"
  have d1: "rows d1 = rows d @ [?ph]" "sessions d1 = sessions d" "row_session ?ph = sid" "role ?ph = ToolRole" "kind ?ph = Chat"
    "tool_call_id ?ph = Some call" "seq ?ph = next_seq sid d"
    using assms(4) by (auto simp: create_pending_question_def save_message_def Let_def draft_kind_def user_draft_def next_seq_def session_rows_def)
  have nb: "revert_boundary sid d1 = None" using assms(2) d1(2) by (simp add: revert_boundary_alt revert_of_def)
  have rs: "session_rows sid d1 = session_rows sid d @ [?ph]" unfolding session_rows_def by (subst d1(1)) (simp add: d1(3))
  have "pos a \<le> pos ?ph" if "get_active_summary sid None d1 = Some a" for a
  proof -
    have "a \<in> set (session_rows sid d) \<or> a = ?ph" using active_summary_mem(1) [OF that] rs by auto
    then show ?thesis using seq_bound [of a sid d] d1(7) by (auto simp: pos_def less_eq_prod_def)
  qed
  then have "?ph \<in> set (llm_window_rows sid False d1)"
    using rs d1(5) by (auto simp: window_mem nb in_window_def before_boundary_def split: option.split)
  then have ph: "?ph \<in> set ?pairs" using d1(4,6) by (simp add: tool_pair_rows_def)
  have not: "call_id tc \<noteq> call" if m: "(r, tcs) \<in> set ?m" "tc \<in> set tcs" for r tcs tc
  proof
    assume e: "call_id tc = call"
    have r: "r \<in> set ?as" "tcs = missing_calls (matched_ids (expected_ids ?as) ?pairs) r" using m(1) by (auto split: if_splits)
    have tc: "tc \<in> set (tool_calls r)" "call_id tc \<notin> set (matched_ids (expected_ids ?as) ?pairs)"
      using m(2) r(2) by (auto simp: missing_calls_def)
    moreover have "call \<in> set (expected_ids ?as)" using r(1) tc(1) e assms(3) by (auto simp: expected_mem)
    ultimately show False using ph d1(6) e by (auto simp: matched_mem)
  qed
  have "d2 = insert_all sid ?m d1" using assms(5) by (auto simp: heal_unfold Let_def)
  then obtain new where new: "stubs sid d1 d2 new" "\<forall>x \<in> set new. \<exists>(r, tcs) \<in> set ?m. \<exists>tc \<in> set tcs. tool_call_id x = Some (call_id tc)"
    using insert_all_new [of sid d1 ?m] by auto
  then have "\<forall>r \<in> set new. tool_call_id r \<noteq> Some call" using not by fastforce
  then show ?thesis using new(1) by (auto simp: stubs_def)
qed

section \<open>Witnesses\<close>

definition example_row :: "nat \<Rightarrow> role \<Rightarrow> kind \<Rightarrow> int \<Rightarrow> tool_call list \<Rightarrow> string option \<Rightarrow> row" where
  "example_row i ro k s tcs call = \<lparr>row_id = i, row_session = ''s'', role = ro, kind = k, seq = s, pinned = False, body = ''text'',
     tool_calls = tcs, tool_call_id = call, from_agent = None, snapshot = None, queue_meta = k = Queued, pending_flag = False,
     attachment_for = None, attachments = [], row_name = None, reasoning_content = None, hidden_summary = False, hidden_user = False, mention_context = False,
     row_reply = no_extra\<rparr>"

definition example_db :: "row list \<Rightarrow> db" where
  "example_db rs = \<lparr>rows = rs, sessions = [(''s'', \<lparr>revert = None, history_revision = 0, structure_revision = 0\<rparr>)], questions = [],
     next_id = 10\<rparr>"

definition call1 :: tool_call where "call1 = \<lparr>call_id = ''c1'', call_name = ''bash'', call_arguments = ''{}'', call_thought = None, call_signature = None\<rparr>"

abbreviation asking_db :: db where
  "asking_db \<equiv> example_db [example_row 0 User Chat 1024 [] None, example_row 1 Assistant Chat 2048 [call1] None, example_row 2 User Queued 3072 [] None]"

lemma example_simps [simp]:
  "row_id (example_row i ro k s tcs c) = i" "row_session (example_row i ro k s tcs c) = ''s''" "role (example_row i ro k s tcs c) = ro"
  "kind (example_row i ro k s tcs c) = k" "seq (example_row i ro k s tcs c) = s" "\<not> pinned (example_row i ro k s tcs c)"
  "tool_calls (example_row i ro k s tcs c) = tcs" "tool_call_id (example_row i ro k s tcs c) = c" "from_agent (example_row i ro k s tcs c) = None"
  "snapshot (example_row i ro k s tcs c) = None" "rows (example_db rs) = rs" "next_id (example_db rs) = 10" "questions (example_db rs) = []"
  "map_of (sessions (example_db rs)) ''s'' = Some \<lparr>revert = None, history_revision = 0, structure_revision = 0\<rparr>"
  "revert_of ''s'' (example_db rs) = None" "call_id call1 = ''c1''"
  by (simp_all add: example_row_def example_db_def revert_of_def call1_def)


theorem heal_pairs_calls_witness:
  "\<exists>n d'. heal_orphaned_tool_calls ''s'' asking_db = (n, d') \<and> heal_orphaned_tool_calls ''s'' d' = (0, d')"
proof -
  obtain n d' where h: "heal_orphaned_tool_calls ''s'' asking_db = (n, d')" by (cases "heal_orphaned_tool_calls ''s'' asking_db")
  have "heal_orphaned_tool_calls ''s'' d' = (0, d')"
    using heal_pairs_calls [OF _ _ _ h] by (simp add: ids_ok_def calls_ok_def session_rows_def)
  then show ?thesis using h by blast
qed

theorem release_appends_queue_witness:
  "\<exists>released d'. release_queued_user_messages ''s'' asking_db = (released, d') \<and>
    get_messages_for_llm ''s'' d' = get_messages_for_llm ''s'' asking_db @ released \<and> map row_id released = [2]"
proof -
  obtain released d' where r: "release_queued_user_messages ''s'' asking_db = (released, d')"
    by (cases "release_queued_user_messages ''s'' asking_db")
  have "map row_id (queued_rows ''s'' asking_db) = [2]" by (simp add: queued_rows_def session_rows_def)
  then show ?thesis using release_appends_queue [OF _ _ r] r by (simp add: ids_ok_def)
qed

theorem question_resolved_once_witness:
  "\<exists>q d1. resolve_pending_question 10 Dismissed None (snd (create_pending_question ''s'' ''c1'' [''why''] asking_db)) = (Some q, d1) \<and>
    resolve_pending_question 10 Answered (Some [[''x'']]) d1 = (None, d1)"
proof -
  let ?r = "resolve_pending_question 10 Dismissed None (snd (create_pending_question ''s'' ''c1'' [''why''] asking_db))"
  have "fst ?r \<noteq> None" by (simp add: resolve_pending_question_def create_pending_question_def save_message_def Let_def draft_kind_def user_draft_def)
  then obtain q where "fst ?r = Some q" by auto
  then have r: "?r = (Some q, snd ?r)" by (metis prod.collapse)
  from question_resolved_once [OF _ r, of Answered "Some [[''x'']]"] show ?thesis using r by (metis question_status.distinct(3))
qed

theorem suspended_call_not_healed_witness:
  "\<exists>q d1 n d2. create_pending_question ''s'' ''c1'' [''why''] asking_db = (q, d1) \<and> heal_orphaned_tool_calls ''s'' d1 = (n, d2) \<and>
    (\<exists>new. rows d2 = rows d1 @ new \<and> (\<forall>r \<in> set new. tool_call_id r \<noteq> Some ''c1''))"
proof -
  obtain q d1 where c: "create_pending_question ''s'' ''c1'' [''why''] asking_db = (q, d1)" by (cases "create_pending_question ''s'' ''c1'' [''why''] asking_db")
  obtain n d2 where h: "heal_orphaned_tool_calls ''s'' d1 = (n, d2)" by (cases "heal_orphaned_tool_calls ''s'' d1")
  from suspended_call_not_healed [OF _ _ _ c h] show ?thesis using c h by (simp add: ids_ok_def)
qed

lemma plain_window:
  assumes "revert_of sid d = None" "\<forall>r \<in> set (rows d). row_session r = sid \<and> kind r = Chat"
  shows "llm_window_rows sid q d = sort_key pos (rows d)"
proof -
  have rs: "session_rows sid d = rows d" using assms(2) by (simp add: session_rows_def)
  have "get_active_summary sid None d = None" using assms(2) by (auto simp: get_active_summary_def rs filter_empty_conv)
  moreover have "filter (in_window None None q) (rows d) = rows d" using assms(2) by (auto simp: filter_id_conv in_window_def before_boundary_def)
  ultimately show ?thesis using assms(1) by (simp add: llm_window_rows_def llm_window_def rs revert_boundary_alt)
qed

definition nameless_db :: db where
  "nameless_db = example_db [example_row 0 Assistant Chat 1024 [call1, call1\<lparr>call_id := []\<rparr>] None, example_row 1 ToolRole Chat 2048 [] (Some ''c1'')]"

lemma nameless_heal:
  "heal_orphaned_tool_calls ''s'' nameless_db =
     (1, nameless_db\<lparr>rows := rows nameless_db @ [stub_row ''s'' 1536 (call1\<lparr>call_id := []\<rparr>) nameless_db], next_id := 11\<rparr>)"
proof -
  have "llm_window_rows ''s'' False nameless_db = rows nameless_db"
    using plain_window [of "''s''" nameless_db False] by (simp add: nameless_db_def pos_def less_eq_prod_def)
  then have pairs: "tool_pair_rows ''s'' nameless_db = rows nameless_db" by (simp add: tool_pair_rows_def nameless_db_def)
  have above: "seq_above ''s'' (example_row 0 Assistant Chat 1024 [call1, call1\<lparr>call_id := []\<rparr>] None) nameless_db = 2048"
    by (simp add: seq_above_def session_rows_def nameless_db_def)
  have e: "expected_ids [example_row 0 Assistant Chat 1024 [call1, call1\<lparr>call_id := []\<rparr>] None] = [''c1'']" by (simp add: expected_ids_def)
  have m: "matched_ids [''c1''] (rows nameless_db) = [''c1'']" by (simp add: matched_ids_def List.map_filter_def nameless_db_def)
  have n: "next_id nameless_db = 10" by (simp add: nameless_db_def)
  have f: "filter (\<lambda>r. tool_calls r \<noteq> []) (rows nameless_db) = [example_row 0 Assistant Chat 1024 [call1, call1\<lparr>call_id := []\<rparr>] None]"
    by (simp add: nameless_db_def)
  show ?thesis
    unfolding heal_unfold Let_def pairs f e m by (simp add: missing_calls_def above seq_between_def save_stub n)
qed

text \<open>
  Healing is not idempotent for a call without an id: the stub that is added for it is never counted
  as its answer, so the next pass adds another one, as long as some other call of the window has an id.
\<close>

theorem heal_repeats_for_empty_id:
  "fst (heal_orphaned_tool_calls ''s'' nameless_db) = 1 \<and>
   fst (heal_orphaned_tool_calls ''s'' (snd (heal_orphaned_tool_calls ''s'' nameless_db))) = 1"
proof -
  let ?d = "nameless_db\<lparr>rows := rows nameless_db @ [stub_row ''s'' 1536 (call1\<lparr>call_id := []\<rparr>) nameless_db], next_id := 11\<rparr>"
  let ?a = "example_row 0 Assistant Chat 1024 [call1, call1\<lparr>call_id := []\<rparr>] None"
  let ?w = "[?a, stub_row ''s'' 1536 (call1\<lparr>call_id := []\<rparr>) nameless_db, example_row 1 ToolRole Chat 2048 [] (Some ''c1'')]"
  have rows: "rows ?d = [?a, example_row 1 ToolRole Chat 2048 [] (Some ''c1''), stub_row ''s'' 1536 (call1\<lparr>call_id := []\<rparr>) nameless_db]"
    by (simp add: nameless_db_def)
  have "llm_window_rows ''s'' False ?d = ?w"
    using plain_window [of "''s''" ?d False] unfolding rows by (simp add: pos_def less_eq_prod_def nameless_db_def revert_of_def example_db_def)
  then have pairs: "tool_pair_rows ''s'' ?d = ?w" by (simp add: tool_pair_rows_def)
  have "fst (heal_orphaned_tool_calls ''s'' ?d) = 1"
    unfolding heal_unfold Let_def pairs by (simp add: expected_ids_def matched_ids_def missing_calls_def List.map_filter_def)
  then show ?thesis using nameless_heal by simp
qed

end
