(* ===== verification/Transcript.thy ===== *)
theory Transcript
  imports Assemble
begin

text \<open>
  The in-memory conversation of one run: the message classes of \<open>app/agent/schemas/chat.py\<close> and the
  view of them that is sent to the model (\<open>AgentState.messages_for_llm\<close> of \<open>app/agent/state.py\<close>).
  An assistant message is the assembled response; the \<open>extra\<close> dictionary is represented by the keys
  that some code reads. The identity of a message object is its index in the list.
\<close>

datatype chat_body = SystemMsg | HumanMsg | AssistantMsg message | ToolMsg string "string option"

record chat_msg =
  c_body :: chat_body
  c_content :: "string option"
  exclude_from_context :: bool
  is_summary :: bool
  c_pinned :: bool
  hidden_from_summary :: bool
  c_from_agent :: "string option"
  hidden_from_user :: bool
  attachment_row :: bool \<comment> \<open>\<open>attachment_for_message_id\<close> without \<open>mention_context\<close>\<close>
  db_id :: "nat option"

definition new_msg :: "chat_body \<Rightarrow> string option \<Rightarrow> chat_msg" where
  "new_msg b c = \<lparr>c_body = b, c_content = c, exclude_from_context = False, is_summary = False, c_pinned = False,
     hidden_from_summary = False, c_from_agent = None, hidden_from_user = False, attachment_row = False, db_id = None\<rparr>"

definition is_system :: "chat_msg \<Rightarrow> bool" where
  "is_system m \<longleftrightarrow> (case c_body m of SystemMsg \<Rightarrow> True | _ \<Rightarrow> False)"

definition is_assistant :: "chat_msg \<Rightarrow> bool" where
  "is_assistant m \<longleftrightarrow> (case c_body m of AssistantMsg _ \<Rightarrow> True | _ \<Rightarrow> False)"

definition calls_of :: "chat_msg \<Rightarrow> call_buffer list" where
  "calls_of m = (case c_body m of AssistantMsg a \<Rightarrow> (case m_tool_calls a of None \<Rightarrow> [] | Some cs \<Rightarrow> cs) | _ \<Rightarrow> [])"

text \<open>The call a tool message answers.\<close>

definition answers :: "chat_msg \<Rightarrow> string option" where
  "answers m = (case c_body m of ToolMsg t _ \<Rightarrow> Some t | _ \<Rightarrow> None)"

abbreviation call_ids_of :: "chat_msg \<Rightarrow> string set" where
  "call_ids_of m \<equiv> cb_id ` set (calls_of m)"

definition in_view :: "chat_msg \<Rightarrow> bool" where
  "in_view m \<longleftrightarrow> \<not> exclude_from_context m \<and> \<not> is_system m"

definition messages_for_llm :: "chat_msg list \<Rightarrow> chat_msg list" where
  "messages_for_llm ms = filter in_view ms"

text \<open>
  What a provider rejects: a visible result without its call, and a visible call without its result.
  Empty ids pair nothing.
\<close>

definition orphan_results :: "chat_msg list \<Rightarrow> string set" where
  "orphan_results ms = {t. t \<noteq> [] \<and> (\<exists>m \<in> set (messages_for_llm ms). answers m = Some t) \<and>
     \<not> (\<exists>m \<in> set (messages_for_llm ms). t \<in> call_ids_of m)}"

definition open_calls :: "chat_msg list \<Rightarrow> string set" where
  "open_calls ms = {t. t \<noteq> [] \<and> (\<exists>m \<in> set (messages_for_llm ms). t \<in> call_ids_of m) \<and>
     \<not> (\<exists>m \<in> set (messages_for_llm ms). answers m = Some t)}"

lemma answers_call_free: "answers m = Some t \<Longrightarrow> calls_of m = []"
  by (auto simp: answers_def calls_of_def split: chat_body.splits)

lemma calls_answer_free: "x \<in> set (calls_of m) \<Longrightarrow> answers m = None"
  by (auto simp: answers_def calls_of_def split: chat_body.splits)

lemma answers_system_free: "answers m = Some t \<Longrightarrow> \<not> is_system m"
  by (auto simp: answers_def is_system_def split: chat_body.splits)

lemma calls_system_free: "x \<in> set (calls_of m) \<Longrightarrow> \<not> is_system m"
  by (auto simp: calls_of_def is_system_def split: chat_body.splits)

lemma mem_for_llm: "m \<in> set (messages_for_llm ms) \<longleftrightarrow> (\<exists>i < length ms. ms ! i = m \<and> in_view m)"
  by (auto simp: messages_for_llm_def in_set_conv_nth)

lemma bex_view: "(\<exists>m \<in> set (messages_for_llm ms). P m) \<longleftrightarrow> (\<exists>i < length ms. in_view (ms ! i) \<and> P (ms ! i))"
  unfolding Bex_def mem_for_llm by blast

end
