(* ===== verification/ToolExec.thy ===== *)
theory ToolExec
  imports Transcript
begin

text \<open>
  Running the tool calls of one response: the innermost executor of
  \<open>app/agent/agent_loop/tool_executor.py\<close>, the guarded chain around it (\<open>Agent._run_tool\<close>), the
  parallel dispatch with interrupts of \<open>tool_dispatch.py\<close> and the batch logic of \<open>Agent\<close>
  (\<open>_dispatch_tools\<close>, \<open>_dispatch_question\<close>, \<open>_append_tool_results\<close>,
  \<open>_skip_tool_dispatch_for_interrupt\<close> of \<open>core.py\<close>). The tools themselves are parameters; the wording
  of error messages is the parameter \<open>describe\<close>; attachments of a tool message (blocks, durations)
  and log lines are left out.
\<close>

section \<open>One call\<close>

datatype content_block = TextBlock string | MediaBlock
datatype tool_value = PartsValue "content_block list" | JsonValue json | TextValue string

datatype tool_error =
    BadArguments string string
  | ToolNotFound string
  | MissingArguments string "string list"
  | ToolTimeout string
  | ToolFailure string

datatype tool_end = ToolReturns tool_value | ToolRaises tool_error | ToolSuspends nat

record tool =
  required_args :: "string list"
  arun :: "json \<Rightarrow> tool_end"

datatype chain_end = ChainReturns string | ChainRaises tool_error | ChainSuspends nat

definition value_text :: "(json \<Rightarrow> string) \<Rightarrow> tool_value \<Rightarrow> string" where
  "value_text dumps v =
     (case v of
        PartsValue ps \<Rightarrow> join '' '' (concat (map (\<lambda>p. case p of TextBlock t \<Rightarrow> [t] | MediaBlock \<Rightarrow> []) ps))
      | JsonValue j \<Rightarrow> dumps j
      | TextValue t \<Rightarrow> t)"

definition error_text :: "(tool_error \<Rightarrow> string) \<Rightarrow> tool_error \<Rightarrow> string" where
  "error_text describe e = ''Error: '' @ describe e"

text \<open>What the body of \<open>execute\<close> does before the error handlers.\<close>

definition execute_body :: "(string \<Rightarrow> json option) \<Rightarrow> (string \<times> tool) list \<Rightarrow> call_buffer \<Rightarrow> tool_end" where
  "execute_body loads run_tools tc =
     (case if cb_arguments tc = [] then Some (JObj []) else loads (cb_arguments tc) of
        None \<Rightarrow> ToolRaises (BadArguments (cb_name tc) (cb_arguments tc))
      | Some args \<Rightarrow>
          (case map_of run_tools (cb_name tc) of
             None \<Rightarrow> ToolRaises (ToolNotFound (cb_name tc))
           | Some t \<Rightarrow>
               if cb_arguments tc = [] \<and> required_args t \<noteq> [] then ToolRaises (MissingArguments (cb_name tc) (required_args t))
               else case args of JObj d \<Rightarrow> arun t args | _ \<Rightarrow> ToolRaises (ToolFailure ''argument after ** must be a mapping'')))"

definition execute :: "(string \<Rightarrow> json option) \<Rightarrow> (json \<Rightarrow> string) \<Rightarrow> (tool_error \<Rightarrow> string) \<Rightarrow> (string \<times> tool) list \<Rightarrow> call_buffer \<Rightarrow> chain_end" where
  "execute loads dumps describe run_tools tc =
     (case execute_body loads run_tools tc of
        ToolReturns v \<Rightarrow> ChainReturns (value_text dumps v)
      | ToolRaises e \<Rightarrow> ChainReturns (error_text describe e)
      | ToolSuspends q \<Rightarrow> ChainSuspends q)"

text \<open>The chain with the hooks' wrappers outside; what they raise becomes a result, a suspension goes on.\<close>

definition run_tool :: "(tool_error \<Rightarrow> string) \<Rightarrow> (call_buffer \<Rightarrow> chain_end) \<Rightarrow> call_buffer \<Rightarrow> nat + string" where
  "run_tool describe chain tc =
     (case chain tc of
        ChainReturns r \<Rightarrow> Inr r
      | ChainRaises e \<Rightarrow> Inr (error_text describe e)
      | ChainSuspends q \<Rightarrow> Inl q)"

section \<open>A batch of calls\<close>

text \<open>
  How a dispatch meets an interrupt: it does not; the event fires and each task has finished, is
  cancelled in time or does not stop; or the task of the run itself is cancelled.
\<close>

datatype task_fate = FinishedTask | CancelledTask | StoppingTask
datatype gather_mode = Uninterrupted | InterruptedBy "nat \<Rightarrow> task_fate" | TaskCancelled

datatype gathered = Got call_buffer string | GatherError

definition task_result :: "(call_buffer \<Rightarrow> nat + string) \<Rightarrow> call_buffer \<Rightarrow> gathered" where
  "task_result run tc = (case run tc of Inr r \<Rightarrow> Got tc r | Inl _ \<Rightarrow> GatherError)"

definition gather_or_cancel :: "gather_mode \<Rightarrow> (call_buffer \<Rightarrow> nat + string) \<Rightarrow> call_buffer list \<Rightarrow> gathered list" where
  "gather_or_cancel mode run tcs =
     (case mode of
        Uninterrupted \<Rightarrow> map (task_result run) tcs
      | InterruptedBy fate \<Rightarrow>
          map (\<lambda>(i, tc). case fate i of
                 FinishedTask \<Rightarrow> task_result run tc
               | CancelledTask \<Rightarrow> Got tc ''Cancelled by user.''
               | StoppingTask \<Rightarrow> Got tc ''Cancellation requested; tool is still stopping.'') (enumerate 0 tcs)
      | TaskCancelled \<Rightarrow> map (\<lambda>tc. Got tc ''Cancelled by user.'') tcs)"

definition tool_message :: "call_buffer \<Rightarrow> string \<Rightarrow> chat_msg" where
  "tool_message tc r = new_msg (ToolMsg (cb_id tc) (Some (cb_name tc))) (Some r)"

definition append_tool_results :: "gathered list \<Rightarrow> chat_msg list \<Rightarrow> chat_msg list" where
  "append_tool_results results ms =
     ms @ concat (map (\<lambda>g. case g of Got tc r \<Rightarrow> [tool_message tc r] | GatherError \<Rightarrow> []) results)"

definition skip_tool_dispatch :: "call_buffer list \<Rightarrow> chat_msg list \<Rightarrow> chat_msg list" where
  "skip_tool_dispatch tcs ms = ms @ map (\<lambda>tc. tool_message tc ''Cancelled by user.'') tcs"

section \<open>Questions\<close>

definition ASK_USER :: string where "ASK_USER = ''ask_user''"

text \<open>The dash of the original text, which is outside the character set of the model, is a colon here.\<close>

definition ASK_MERGED_INTO_PRIMARY :: string where
  "ASK_MERGED_INTO_PRIMARY = ''Merged into your other ask_user call: the user sees a single card with every question.''"

text \<open>\<open>list(d.get("questions") or [])\<close>; a value that cannot be iterated raises, a falsy one is empty.\<close>

definition questions_of :: "json \<Rightarrow> json list option" where
  "questions_of j =
     (case j of
        JObj d \<Rightarrow> (case map_of d ''questions'' of
            None \<Rightarrow> Some [] | Some JNull \<Rightarrow> Some [] | Some (JBool b) \<Rightarrow> (if b then None else Some [])
          | Some (JNum n) \<Rightarrow> (if n = 0 then Some [] else None)
          | Some (JArr xs) \<Rightarrow> Some xs
          | Some (JStr s) \<Rightarrow> Some (map (\<lambda>c. JStr [c]) s)
          | Some (JObj e) \<Rightarrow> Some (map (JStr \<circ> fst) e))
      | _ \<Rightarrow> None)"

definition call_json :: "(string \<Rightarrow> json option) \<Rightarrow> call_buffer \<Rightarrow> json option" where
  "call_json loads tc = loads (if cb_arguments tc = [] then ''{}'' else cb_arguments tc)"

definition set_key :: "string \<Rightarrow> json \<Rightarrow> json \<Rightarrow> json" where
  "set_key k v j = (case j of JObj d \<Rightarrow> JObj (AList.update k v d) | _ \<Rightarrow> j)"

definition all_questions :: "(string \<Rightarrow> json option) \<Rightarrow> call_buffer list \<Rightarrow> json list option" where
  "all_questions loads tcs = map_option concat (those (map (\<lambda>tc. Option.bind (call_json loads tc) questions_of) tcs))"

definition merge_question_calls :: "(string \<Rightarrow> json option) \<Rightarrow> (json \<Rightarrow> string) \<Rightarrow> call_buffer \<Rightarrow> call_buffer list \<Rightarrow> call_buffer" where
  "merge_question_calls loads dumps primary duplicates =
     (case (call_json loads primary, all_questions loads (primary # duplicates)) of
        (Some merged, Some qs) \<Rightarrow> primary\<lparr>cb_arguments := dumps (set_key ''questions'' (JArr (take 4 qs)) merged)\<rparr>
      | _ \<Rightarrow> primary)"

text \<open>The merged call is the object inside the assistant message, which therefore changes too.\<close>

fun replace_first :: "('a \<Rightarrow> bool) \<Rightarrow> 'a \<Rightarrow> 'a list \<Rightarrow> 'a list" where
  "replace_first P y [] = []"
| "replace_first P y (x # xs) = (if P x then y # xs else x # replace_first P y xs)"

definition rewrite_call :: "call_buffer \<Rightarrow> chat_msg \<Rightarrow> chat_msg" where
  "rewrite_call primary m =
     (case c_body m of
        AssistantMsg a \<Rightarrow> m\<lparr>c_body := AssistantMsg (a\<lparr>m_tool_calls := map_option (replace_first (\<lambda>c. cb_name c = ASK_USER) primary) (m_tool_calls a)\<rparr>)\<rparr>
      | _ \<Rightarrow> m)"

datatype dispatch_end = DispatchOk | DispatchCancelled | DispatchSuspended nat string

text \<open>The assistant message of the batch is at index \<open>idx\<close>; \<open>sync\<close> is the checkpoint before the question.\<close>

definition dispatch_question :: "(string \<Rightarrow> json option) \<Rightarrow> (json \<Rightarrow> string) \<Rightarrow> (call_buffer \<Rightarrow> nat + string) \<Rightarrow> nat \<Rightarrow>
    call_buffer list \<Rightarrow> chat_msg list \<Rightarrow> dispatch_end \<times> chat_msg list \<times> chat_msg list option" where
  "dispatch_question loads dumps run idx ask_calls ms =
     (case ask_calls of
        [] \<Rightarrow> (DispatchOk, ms, None)
      | first # duplicates \<Rightarrow>
          let primary = (if duplicates = [] then first else merge_question_calls loads dumps first duplicates);
              ms = ms[idx := rewrite_call primary (ms ! idx)] @ map (\<lambda>tc. tool_message tc ASK_MERGED_INTO_PRIMARY) duplicates in
          case run primary of
            Inl q \<Rightarrow> (DispatchSuspended q (cb_id primary), ms, Some ms)
          | Inr r \<Rightarrow> (DispatchOk, ms @ [tool_message primary r], Some ms))"

definition dispatch_tools :: "(string \<Rightarrow> json option) \<Rightarrow> (json \<Rightarrow> string) \<Rightarrow> (call_buffer \<Rightarrow> nat + string) \<Rightarrow> gather_mode \<Rightarrow> bool \<Rightarrow> nat \<Rightarrow>
    call_buffer list \<Rightarrow> chat_msg list \<Rightarrow> dispatch_end \<times> chat_msg list \<times> chat_msg list option" where
  "dispatch_tools loads dumps run mode is_set idx tcs ms =
     (let ask_calls = filter (\<lambda>tc. cb_name tc = ASK_USER) tcs;
          other_calls = filter (\<lambda>tc. cb_name tc \<noteq> ASK_USER) tcs;
          ms = append_tool_results (gather_or_cancel mode run other_calls) ms;
          cancelled = (is_set \<or> (case mode of InterruptedBy _ \<Rightarrow> True | _ \<Rightarrow> False)) in
      if cancelled then (DispatchCancelled, ms, None)
      else if ask_calls = [] then (DispatchOk, ms, None)
      else dispatch_question loads dumps run idx ask_calls ms)"

end
