(* ===== verification/Summarize.thy ===== *)
theory Summarize
  imports Transcript StreamStore History
begin

text \<open>
  Compaction of a running conversation, \<open>app/agent/hooks/summarization.py\<close>: when the prompt of the
  last call reached the threshold, the older part of the visible messages is summarised by the model,
  marked as excluded and replaced by the summary. Pairs of tool calls and results stay together and
  loaded skills are retained. The summariser is the provider, as a function of the messages it is
  sent; the prompts are texts, spans and log lines are left out.
\<close>

section \<open>What is summarised\<close>

definition eligible :: "chat_msg list \<Rightarrow> nat list" where
  "eligible ms = filter (\<lambda>i. in_view (ms ! i) \<and> \<not> hidden_from_summary (ms ! i)) [0..<length ms]"

fun find_back :: "(nat \<times> bool) list \<Rightarrow> nat \<Rightarrow> nat" where
  "find_back [] remaining = 0"
| "find_back ((i, assistant) # rest) remaining =
     (if assistant then if remaining - 1 = 0 then i else find_back rest (remaining - 1)
      else find_back rest remaining)"

definition find_assistant_cutoff :: "chat_msg list \<Rightarrow> int \<Rightarrow> nat" where
  "find_assistant_cutoff ms keep_last =
     (if keep_last \<le> 0 then length ms else find_back (rev (enumerate 0 (map is_assistant ms))) (nat keep_last))"

text \<open>The messages of \<open>ids\<close> that belong to the same exchange as the message \<open>i\<close>.\<close>

definition pair_mates :: "chat_msg list \<Rightarrow> nat list \<Rightarrow> nat \<Rightarrow> nat set" where
  "pair_mates ms ids i =
     (case answers (ms ! i) of
        Some t \<Rightarrow> if t = [] then {} else set (filter (\<lambda>j. t \<in> call_ids_of (ms ! j)) ids)
      | None \<Rightarrow> set (filter (\<lambda>j. case answers (ms ! j) of None \<Rightarrow> False | Some t \<Rightarrow> t \<noteq> [] \<and> t \<in> call_ids_of (ms ! i)) ids))"

definition expand_step :: "chat_msg list \<Rightarrow> nat list \<Rightarrow> nat \<Rightarrow> nat set \<times> bool \<Rightarrow> nat set \<times> bool" where
  "expand_step ms ids i s = (case s of (expanded, changed) \<Rightarrow>
     if i \<notin> expanded then (expanded, changed)
     else let new_ids = pair_mates ms ids i - expanded in
       if new_ids = {} then (expanded, changed) else (expanded \<union> new_ids, True))"

definition expand_pass :: "chat_msg list \<Rightarrow> nat list \<Rightarrow> nat set \<Rightarrow> nat set \<times> bool" where
  "expand_pass ms ids expanded = fold (expand_step ms ids) ids (expanded, False)"

lemma pair_mates_subset: "pair_mates ms ids i \<subseteq> set ids"
  by (auto simp: pair_mates_def split: option.splits if_splits)

lemma expand_step_eq:
  "expand_step ms ids i (E, c) = (if i \<in> E \<and> pair_mates ms ids i - E \<noteq> {} then (E \<union> (pair_mates ms ids i - E), True) else (E, c))"
  by (simp add: expand_step_def Let_def)

lemma expand_steps:
  assumes "fold (expand_step ms ids) xs (E, c) = (E', c')"
  shows "E \<subseteq> E'" "E' \<subseteq> E \<union> set ids" "c' \<Longrightarrow> \<not> c \<Longrightarrow> E' \<noteq> E" "\<not> c' \<Longrightarrow> E' = E \<and> (\<forall>i \<in> set xs. i \<in> E \<longrightarrow> pair_mates ms ids i \<subseteq> E)"
    "c \<Longrightarrow> c'"
proof -
  have "E \<subseteq> E' \<and> E' \<subseteq> E \<union> set ids \<and> (c' \<longrightarrow> \<not> c \<longrightarrow> E' \<noteq> E) \<and>
    (\<not> c' \<longrightarrow> E' = E \<and> (\<forall>i \<in> set xs. i \<in> E \<longrightarrow> pair_mates ms ids i \<subseteq> E)) \<and> (c \<longrightarrow> c')"
    using assms
  proof (induction xs arbitrary: E c)
    case (Cons x xs)
    show ?case
    proof (cases "x \<in> E \<and> pair_mates ms ids x - E \<noteq> {}")
      case True
      then have "fold (expand_step ms ids) xs (E \<union> (pair_mates ms ids x - E), True) = (E', c')"
        using Cons.prems by (simp add: expand_step_eq del: Diff_eq_empty_iff Un_Diff_cancel)
      from Cons.IH [OF this] True pair_mates_subset [of ms ids x] show ?thesis by blast
    next
      case False
      then have "expand_step ms ids x (E, c) = (E, c)" by (auto simp: expand_step_eq)
      then have "fold (expand_step ms ids) xs (E, c) = (E', c')" using Cons.prems by simp
      from Cons.IH [OF this] False show ?thesis by auto
    qed
  qed simp
  then show "E \<subseteq> E'" "E' \<subseteq> E \<union> set ids" "c' \<Longrightarrow> \<not> c \<Longrightarrow> E' \<noteq> E"
    "\<not> c' \<Longrightarrow> E' = E \<and> (\<forall>i \<in> set xs. i \<in> E \<longrightarrow> pair_mates ms ids i \<subseteq> E)" "c \<Longrightarrow> c'" by blast+
qed

function expand_loop :: "chat_msg list \<Rightarrow> nat list \<Rightarrow> nat set \<Rightarrow> nat set" where
  "expand_loop ms ids expanded =
     (if snd (expand_pass ms ids expanded) then expand_loop ms ids (fst (expand_pass ms ids expanded))
      else fst (expand_pass ms ids expanded))"
  by pat_completeness auto

termination
proof (relation "measure (\<lambda>(ms, ids, expanded). card (set ids - expanded))")
  fix ms ids expanded
  assume "snd (expand_pass ms ids expanded)"
  then have "fold (expand_step ms ids) ids (expanded, False) = (fst (expand_pass ms ids expanded), True)"
    by (metis expand_pass_def prod.collapse)
  note s = expand_steps(1-3) [OF this, simplified]
  then have "set ids - fst (expand_pass ms ids expanded) \<subset> set ids - expanded" by blast
  then show "((ms, ids, fst (expand_pass ms ids expanded)), ms, ids, expanded)
      \<in> measure (\<lambda>(ms, ids, expanded). card (set ids - expanded))"
    by (simp add: psubset_card_mono)
qed simp

declare expand_loop.simps [simp del]

definition expand_tool_pair_ids :: "chat_msg list \<Rightarrow> nat list \<Rightarrow> nat set \<Rightarrow> nat set" where
  "expand_tool_pair_ids ms ids seed_ids = (if seed_ids = {} then {} else expand_loop ms ids seed_ids)"

section \<open>Loaded skills\<close>

text \<open>
  The skill a tool call loads. Decoded arguments that are not an object have no \<open>get\<close>: the
  \<open>AttributeError\<close> is the left value.
\<close>

definition skill_of_call :: "(string \<Rightarrow> json option) \<Rightarrow> call_buffer \<Rightarrow> unit + string option" where
  "skill_of_call loads tc =
     (if cb_id tc = [] \<or> cb_name tc \<noteq> ''skill'' then Inr None
      else case loads (if cb_arguments tc = [] then ''{}'' else cb_arguments tc) of
        None \<Rightarrow> Inr None
      | Some (JObj d) \<Rightarrow> (case map_of d ''skill_name'' of Some (JStr s) \<Rightarrow> Inr (if s = [] then None else Some s) | _ \<Rightarrow> Inr None)
      | Some _ \<Rightarrow> Inl ())"

record skill_scan =
  seen_skills :: "string set"
  skill_call_ids :: "string set"
  skill_message_ids :: "nat set"

definition skill_step :: "(string \<Rightarrow> json option) \<Rightarrow> skill_scan \<Rightarrow> nat \<times> call_buffer \<Rightarrow> unit + skill_scan" where
  "skill_step loads s x =
     (case skill_of_call loads (snd x) of
        Inl e \<Rightarrow> Inl e
      | Inr None \<Rightarrow> Inr s
      | Inr (Some name) \<Rightarrow>
          Inr (if name \<in> seen_skills s then s
               else \<lparr>seen_skills = insert name (seen_skills s), skill_call_ids = insert (cb_id (snd x)) (skill_call_ids s),
                     skill_message_ids = insert (fst x) (skill_message_ids s)\<rparr>))"

definition skill_tool_pair_ids :: "(string \<Rightarrow> json option) \<Rightarrow> chat_msg list \<Rightarrow> nat list \<Rightarrow> unit + nat set" where
  "skill_tool_pair_ids loads ms ids =
     (case fold_err (skill_step loads) \<lparr>seen_skills = {}, skill_call_ids = {}, skill_message_ids = {}\<rparr>
             (concat (map (\<lambda>i. map (Pair i) (calls_of (ms ! i))) ids)) of
        Inl e \<Rightarrow> Inl e
      | Inr s \<Rightarrow>
          Inr (if skill_call_ids s = {} then {}
               else expand_tool_pair_ids ms ids (skill_message_ids s \<union>
                 set (filter (\<lambda>i. case answers (ms ! i) of None \<Rightarrow> False | Some t \<Rightarrow> t \<in> skill_call_ids s) ids))))"

section \<open>Rewriting the conversation\<close>

definition mark_summarised :: "nat set \<Rightarrow> nat set \<Rightarrow> chat_msg list \<Rightarrow> chat_msg list" where
  "mark_summarised to_summarise retained ms =
     map (\<lambda>(i, m). if i \<in> to_summarise \<and> i \<notin> retained then m\<lparr>exclude_from_context := True, c_pinned := False\<rparr> else m)
       (enumerate 0 ms)"

definition drop_old_summaries :: "nat set \<Rightarrow> chat_msg list \<Rightarrow> chat_msg list" where
  "drop_old_summaries to_summarise ms =
     map (\<lambda>(i, m). if is_summary m \<and> i \<notin> to_summarise then m\<lparr>exclude_from_context := True\<rparr> else m) (enumerate 0 ms)"

text \<open>The anchor: after the retained exchanges, or at the first visible message, and after the last excluded one.\<close>

definition first_visible :: "chat_msg list \<Rightarrow> nat" where
  "first_visible ms = (case find (\<lambda>i. \<not> exclude_from_context (ms ! i)) [0..<length ms] of None \<Rightarrow> length ms | Some i \<Rightarrow> i)"

definition after_last_excluded :: "chat_msg list \<Rightarrow> nat" where
  "after_last_excluded ms = (case find (\<lambda>i. exclude_from_context (ms ! i)) (rev [0..<length ms]) of None \<Rightarrow> 0 | Some i \<Rightarrow> i + 1)"

definition first_kept_idx :: "nat set \<Rightarrow> chat_msg list \<Rightarrow> nat" where
  "first_kept_idx retained ms =
     (let indexes = filter (\<lambda>i. i \<in> retained) [0..<length ms];
          first = (if indexes \<noteq> [] then Max (set indexes) + 1 else first_visible ms) in
      max first (after_last_excluded ms))"

definition pin_below :: "nat \<Rightarrow> chat_msg list \<Rightarrow> chat_msg list" where
  "pin_below n ms = map (\<lambda>m. if in_view m then m\<lparr>c_pinned := True\<rparr> else m) (take n ms) @ drop n ms"

definition summary_msg :: "string \<Rightarrow> chat_msg" where
  "summary_msg t = (new_msg HumanMsg (Some t))\<lparr>is_summary := True\<rparr>"

definition compact :: "nat set \<Rightarrow> nat set \<Rightarrow> string \<Rightarrow> chat_msg list \<Rightarrow> chat_msg list" where
  "compact to_summarise retained t ms =
     (let ms = drop_old_summaries to_summarise (mark_summarised to_summarise retained ms);
          n = first_kept_idx retained ms;
          ms = pin_below n ms in
      take n ms @ [summary_msg t] @ drop n ms)"

section \<open>The summariser call\<close>

text \<open>Accumulated text, usage and the deltas that were forwarded; a restart drops the text only.\<close>

fun read_summary :: "stream_chunk stream_item \<Rightarrow> string \<times> string option \<times> string list \<Rightarrow> string \<times> string option \<times> string list" where
  "read_summary Restart (t, u, ds) = ([], u, ds)"
| "read_summary (Chunk c) (t, u, ds) =
     (let u = (case ch_usage c of None \<Rightarrow> u | Some x \<Rightarrow> Some x) in
      case ch_choice c of
        None \<Rightarrow> (t, u, ds)
      | Some (_, d) \<Rightarrow> (case d_content d of None \<Rightarrow> (t, u, ds) | Some [] \<Rightarrow> (t, u, ds) | Some x \<Rightarrow> (t @ x, u, ds @ [x])))"

text \<open>The call passes no interrupt event and no hooks. The deltas are forwarded even when it fails later.\<close>

definition call_llm :: "(string \<Rightarrow> json option) \<Rightarrow> stream_chunk provider \<Rightarrow> (provider_error + string \<times> string option) \<times> string list" where
  "call_llm loads p =
     (let run = stream_with_retry loads (p\<lparr>set_before := \<lambda>_. False, set_during_sleep := \<lambda>_. False, hooked := False\<rparr>);
          (t, u, ds) = fold read_summary (rr_items run) ([], None, []) in
      (case rr_result run of Raised e \<Rightarrow> Inl e | _ \<Rightarrow> Inr (strip t, u), ds))"

section \<open>The hook\<close>

record summarization_hook =
  prompt_token_threshold :: int
  keep_last_assistants :: int
  summary_prompt :: string
  min_messages_since :: int
  support_interrupt :: bool
  messages_at_last_summary :: nat
  pending_summary :: "nat option" \<comment> \<open>the run it was requested in\<close>

definition summariser_messages :: "string \<Rightarrow> string \<Rightarrow> chat_msg list \<Rightarrow> chat_msg list" where
  "summariser_messages system_prompt request ms =
     (if system_prompt = [] then [] else [new_msg SystemMsg (Some system_prompt)]) @ ms @ [new_msg HumanMsg (Some request)]"

definition summarise_request :: "bool \<Rightarrow> string \<Rightarrow> string" where
  "summarise_request has_prior_summary prompt =
     (if has_prior_summary
      then ''Update the anchored summary in the conversation above using the newer conversation history above. Preserve still-true details, remove stale details, and merge in the new facts.''
      else ''Please summarise the conversation above according to your instructions. Return only the requested summary, not the raw transcript.'')
     @ [NL, NL] @ prompt"

definition to_summarise_ids :: "int \<Rightarrow> chat_msg list \<Rightarrow> nat set" where
  "to_summarise_ids keep_last ms =
     (let el = eligible ms;
          cutoff = find_assistant_cutoff (map ((!) ms) el) keep_last in
      expand_tool_pair_ids ms el (set (if cutoff > 0 then take cutoff el else el)))"

text \<open>
  The new conversation and the events; \<open>sid\<close> says whether the run has a session to publish to.
\<close>

definition summarise_inner :: "(string \<Rightarrow> json option) \<Rightarrow> (chat_msg list \<Rightarrow> stream_chunk provider) \<Rightarrow> bool \<Rightarrow> string \<Rightarrow> string \<Rightarrow>
    summarization_hook \<Rightarrow> chat_msg list \<Rightarrow> unit + (summarization_hook \<times> chat_msg list \<times> event list)" where
  "summarise_inner loads summariser sid agent system_prompt h ms =
     (let el = eligible ms in
      if el = [] then Inr (h, ms, [])
      else let ids = to_summarise_ids (keep_last_assistants h) ms in
        case skill_tool_pair_ids loads ms el of
          Inl e \<Rightarrow> Inl e
        | Inr retained \<Rightarrow>
            let chosen = map ((!) ms) (filter (\<lambda>i. i \<in> ids) el) in
            if chosen = [] then Inr (h, ms, [])
            else
              let request = summarise_request (list_ex is_summary chosen) (summary_prompt h);
                  (reply, deltas) = call_llm loads (summariser (summariser_messages system_prompt request chosen));
                  publish = (\<lambda>evs. if sid then [SummarizationStart agent] @ map (SummarizationContent agent) deltas @ evs else []) in
              case reply of
                Inl _ \<Rightarrow> Inr (h, ms, publish [SummarizationEnd agent [] True])
              | Inr (t, u) \<Rightarrow>
                  if t = [] then Inr (h, ms, publish [SummarizationEnd agent [] True])
                  else let ms = compact ids retained t ms in
                    Inr (h\<lparr>messages_at_last_summary := length ms\<rparr>, ms,
                         publish ((case u of None \<Rightarrow> [] | Some x \<Rightarrow> [Usage x]) @ [SummarizationEnd agent t False])))"

definition at_user_turn_boundary :: "chat_msg list \<Rightarrow> bool" where
  "at_user_turn_boundary ms =
     (case rev (messages_for_llm ms) of
        [] \<Rightarrow> True
      | m # _ \<Rightarrow> c_body m = HumanMsg \<and> \<not> is_summary m \<and> \<not> hidden_from_summary m \<and>
          (c_from_agent m = None \<or> c_from_agent m = Some ''user''))"

definition summary_before_model :: "nat \<Rightarrow> bool \<Rightarrow> int \<Rightarrow> chat_msg list \<Rightarrow> summarization_hook \<Rightarrow> summarization_hook" where
  "summary_before_model run force last_prompt_tokens ms h =
     (if prompt_token_threshold h \<le> 0 \<and> \<not> force then h
      else if last_prompt_tokens < prompt_token_threshold h \<and> \<not> force then h
      else if min_messages_since h > 0 \<and> \<not> force \<and> messages_at_last_summary h > 0 \<and>
              int (length ms) - int (messages_at_last_summary h) < min_messages_since h then h
      else if \<not> support_interrupt h \<and> \<not> force \<and> \<not> at_user_turn_boundary ms then h
      else h\<lparr>pending_summary := Some run\<rparr>)"

definition summary_wrap_model_call :: "(string \<Rightarrow> json option) \<Rightarrow> (chat_msg list \<Rightarrow> stream_chunk provider) \<Rightarrow> bool \<Rightarrow> string \<Rightarrow> string \<Rightarrow>
    nat \<Rightarrow> summarization_hook \<Rightarrow> chat_msg list \<Rightarrow> unit + (summarization_hook \<times> chat_msg list \<times> event list)" where
  "summary_wrap_model_call loads summariser sid agent system_prompt run h ms =
     (if pending_summary h \<noteq> Some run then Inr (h, ms, [])
      else summarise_inner loads summariser sid agent system_prompt (h\<lparr>pending_summary := None\<rparr>) ms)"

end
