(* ===== verification/AgentLoop.thy ===== *)
theory AgentLoop
  imports ToolExec Summarize
begin

text \<open>
  The agent loop, \<open>Agent.run\<close> of \<open>app/agent/agent_loop/core.py\<close>: iterations of hooks, model call,
  bookkeeping and tool dispatch, with the resume budget for network failures, the retry budget for
  empty responses, interrupts at every point where the code looks for one, and the checkpoints. Two
  hooks that change the conversation are modelled, the injection of queued messages
  (\<open>app/agent/hooks/queued_injection.py\<close>) and compaction (\<open>Summarize\<close>); a hook is a function on the
  shared state. The provider, the tools and the moments of interrupts are parameters, indexed by the
  number of the pass through the loop. Token counts, statistics and log lines are left out.
\<close>

section \<open>State and hooks\<close>

datatype run_error = HookError | ProviderConnectionError | EmptyResponseError | ProviderFailed provider_error

record hook_state =
  hs_db :: db
  hs_summary :: summarization_hook
  hs_events :: "event list"

type_synonym hook_fun = "nat \<Rightarrow> hook_state \<times> chat_msg list \<Rightarrow> run_error + hook_state \<times> chat_msg list"

definition run_hooks :: "hook_fun list \<Rightarrow> hook_fun" where
  "run_hooks hooks k x = fold_err (\<lambda>x hook. hook k x) x hooks"

text \<open>\<open>BaseAgentHook\<close>: the default of both intercept points.\<close>

definition base_hook :: hook_fun where
  "base_hook k x = Inr x"

definition queued_message :: "row \<Rightarrow> chat_msg" where
  "queued_message r = (new_msg HumanMsg (Some (body r)))
     \<lparr>c_from_agent := from_agent r, hidden_from_summary := hidden_summary r, hidden_from_user := hidden_user r,
       attachment_row := (attachment_for r \<noteq> None \<and> \<not> mention_context r)\<rparr>"

definition queued_injection :: "string \<Rightarrow> (row list \<Rightarrow> string) \<Rightarrow> bool \<Rightarrow> hook_fun" where
  "queued_injection sid payload enabled k x =
     (case x of (h, ms) \<Rightarrow>
        if \<not> enabled then Inr x
        else case pop_queued_user_messages sid (hs_db h) of (queued, d) \<Rightarrow>
          if queued = [] then Inr (h\<lparr>hs_db := d\<rparr>, ms)
          else Inr (h\<lparr>hs_db := d, hs_events := hs_events h @ [QueuedTurn (payload queued)]\<rparr>, ms @ map queued_message queued))"

definition summary_trigger :: "nat \<Rightarrow> (nat \<Rightarrow> bool) \<Rightarrow> (nat \<Rightarrow> int) \<Rightarrow> hook_fun" where
  "summary_trigger run force tokens k x =
     (case x of (h, ms) \<Rightarrow> Inr (h\<lparr>hs_summary := summary_before_model run (force k) (tokens k) ms (hs_summary h)\<rparr>, ms))"

definition summary_wrapper :: "(string \<Rightarrow> json option) \<Rightarrow> (nat \<Rightarrow> chat_msg list \<Rightarrow> stream_chunk provider) \<Rightarrow> bool \<Rightarrow> string \<Rightarrow> string \<Rightarrow> nat \<Rightarrow> hook_fun" where
  "summary_wrapper loads summariser sess agent system_prompt run k x =
     (case x of (h, ms) \<Rightarrow>
        case summary_wrap_model_call loads (summariser k) sess agent system_prompt run (hs_summary h) ms of
          Inl _ \<Rightarrow> Inl HookError
        | Inr (sh, ms', evs) \<Rightarrow> Inr (h\<lparr>hs_summary := sh, hs_events := hs_events h @ evs\<rparr>, ms'))"

record loop_env =
  max_iterations :: nat
  le_loads :: "string \<Rightarrow> json option"
  le_dumps :: "json \<Rightarrow> string"
  le_describe :: "tool_error \<Rightarrow> string"
  le_tools :: "(string \<times> tool) list"
  le_wrap_tool :: "(call_buffer \<Rightarrow> chain_end) \<Rightarrow> call_buffer \<Rightarrow> chain_end"
  le_provider :: "nat \<Rightarrow> chat_msg list \<Rightarrow> stream_chunk provider"
  le_seen :: "nat \<Rightarrow> nat option"
  le_before_model :: "hook_fun list"
  le_wrap_model :: "hook_fun list"
  set_at_top :: "nat \<Rightarrow> bool" \<comment> \<open>an interrupt event was passed and is set when the pass starts\<close>
  set_in_backoff :: "nat \<Rightarrow> bool"
  set_before_tools :: "nat \<Rightarrow> bool"
  set_after_gather :: "nat \<Rightarrow> bool"
  le_gather :: "nat \<Rightarrow> gather_mode"
  le_end_turn :: "nat \<Rightarrow> bool" \<comment> \<open>a tool of the pass has set \<open>end_turn\<close>\<close>
  stop_after_before_model :: bool

record loop_state =
  ls_messages :: "chat_msg list"
  ls_synced :: "chat_msg list" \<comment> \<open>the messages at the last checkpoint\<close>
  ls_hooks :: hook_state
  iteration :: nat
  empty_response_retries :: nat
  provider_resume_attempts :: nat
  question_suspended :: "(nat \<times> string) option"
  last_assistant :: "message option"
  ls_requests :: "chat_msg list list" \<comment> \<open>every message list that was sent to the model\<close>

definition sync :: "loop_state \<Rightarrow> loop_state" where
  "sync s = s\<lparr>ls_synced := ls_messages s\<rparr>"

section \<open>The model call\<close>

definition MAX_PROVIDER_RESUME_ATTEMPTS :: nat where "MAX_PROVIDER_RESUME_ATTEMPTS = 3"
definition MAX_EMPTY_RESPONSE_RETRIES :: nat where "MAX_EMPTY_RESPONSE_RETRIES = 3"

datatype model_call = Reply message | Resume | BreakOff | CallRaises run_error

definition resumable :: "provider_error \<Rightarrow> bool" where
  "resumable e \<longleftrightarrow> (case e of Reraised (NetError n) \<Rightarrow> is_transient_network_error n | _ \<Rightarrow> False)"

definition call_model_with_resume :: "loop_env \<Rightarrow> nat \<Rightarrow> loop_state \<Rightarrow> model_call \<times> loop_state" where
  "call_model_with_resume env k s =
     (case run_hooks (le_wrap_model env) k (ls_hooks s, ls_messages s) of
        Inl e \<Rightarrow> (CallRaises e, s)
      | Inr (h, ms) \<Rightarrow>
          let req = messages_for_llm ms;
              s = s\<lparr>ls_hooks := h, ls_messages := ms, ls_requests := ls_requests s @ [req]\<rparr> in
          case stream_and_assemble (le_loads env) (le_seen env k) (le_provider env k req) of
            Inr (m, _) \<Rightarrow> (Reply m, s\<lparr>provider_resume_attempts := 0\<rparr>)
          | Inl e \<Rightarrow>
              if \<not> resumable e then (CallRaises (ProviderFailed e), s)
              else let s = s\<lparr>provider_resume_attempts := provider_resume_attempts s + 1\<rparr> in
                if provider_resume_attempts s > MAX_PROVIDER_RESUME_ATTEMPTS then (CallRaises ProviderConnectionError, s)
                else if set_in_backoff env k then (BreakOff, s)
                else (Resume, s))"

section \<open>After the model call\<close>

definition has_payload :: "message \<Rightarrow> bool" where
  "has_payload m \<longleftrightarrow> strip (or_empty (m_content m)) \<noteq> [] \<or> strip (or_empty (m_reasoning m)) \<noteq> [] \<or>
     (m_tool_calls m \<noteq> None \<and> m_tool_calls m \<noteq> Some [])"

definition aborted :: "message \<Rightarrow> bool" where
  "aborted m \<longleftrightarrow> if_truthy (x_finish_reason m) = None"

definition assistant_message :: "message \<Rightarrow> chat_msg" where
  "assistant_message m = new_msg (AssistantMsg m) (m_content m)"

datatype loop_action = Proceed | ContinueLoop | BreakLoop | RaiseError run_error

definition append_assistant :: "message \<Rightarrow> loop_state \<Rightarrow> loop_state" where
  "append_assistant m s = s\<lparr>ls_messages := ls_messages s @ [assistant_message m], last_assistant := Some m\<rparr>"

definition finish_model_iteration :: "message \<Rightarrow> loop_state \<Rightarrow> loop_action \<times> loop_state" where
  "finish_model_iteration m s =
     (if \<not> has_payload m \<and> x_dropped m = [] then
        let previous_was_tool = (ls_messages s \<noteq> [] \<and> answers (last (ls_messages s)) \<noteq> None) in
        if aborted m \<or> previous_was_tool then
          let s = s\<lparr>empty_response_retries := empty_response_retries s + 1\<rparr> in
          if empty_response_retries s \<le> MAX_EMPTY_RESPONSE_RETRIES then (ContinueLoop, s)
          else if aborted m then (RaiseError EmptyResponseError, s)
          else (Proceed, append_assistant m s)
        else (Proceed, append_assistant m s)
      else (Proceed, append_assistant m (if has_payload m then s\<lparr>empty_response_retries := 0\<rparr> else s)))"

definition recovery_text :: "bool \<Rightarrow> string" where
  "recovery_text truncated_call =
     (if truncated_call
      then ''Error: Your tool call was truncated and could not be executed because you exceeded the maximum output token limit (max_tokens). Please retry by breaking the task into smaller steps, or use a more precise tool (like edit/patch instead of writing/patching a huge block).''
      else ''Error: Your response was cut off because you exceeded the maximum output token limit (max_tokens). Please continue your response from where you left off.'')"

definition tool_call_list :: "message \<Rightarrow> call_buffer list" where
  "tool_call_list m = (case m_tool_calls m of None \<Rightarrow> [] | Some cs \<Rightarrow> cs)"

definition handle_finish_reason :: "message \<Rightarrow> loop_state \<Rightarrow> loop_action \<times> loop_state" where
  "handle_finish_reason m s =
     (if tool_call_list m \<noteq> [] then (Proceed, s)
      else if x_finish_reason m = Some ''pause_turn'' then (ContinueLoop, s)
      else if x_finish_reason m = Some ''max_tokens'' \<or> x_finish_reason m = Some ''length'' then
        (ContinueLoop, sync (s\<lparr>ls_messages := ls_messages s @ [(new_msg HumanMsg (Some (recovery_text (x_dropped m \<noteq> []))))\<lparr>hidden_from_user := True\<rparr>]\<rparr>))
      else (BreakLoop, s))"

definition is_sleep :: "message \<Rightarrow> bool" where
  "is_sleep m \<longleftrightarrow> strip (or_empty (m_content m)) \<in> {''<sleep>'', ''[sleep]''}"

definition tool_chain :: "loop_env \<Rightarrow> call_buffer \<Rightarrow> nat + string" where
  "tool_chain env =
     run_tool (le_describe env) (le_wrap_tool env (execute (le_loads env) (le_dumps env) (le_describe env) (le_tools env)))"

text \<open>Tool execution and the end-of-turn checks that follow it.\<close>

definition tool_phase :: "loop_env \<Rightarrow> nat \<Rightarrow> message \<Rightarrow> loop_state \<Rightarrow> loop_action \<times> loop_state" where
  "tool_phase env k m s =
     (if set_before_tools env k
      then (BreakLoop, s\<lparr>ls_messages := skip_tool_dispatch (tool_call_list m) (ls_messages s)\<rparr>)
      else case dispatch_tools (le_loads env) (le_dumps env) (tool_chain env) (le_gather env k) (set_after_gather env k)
                  (length (ls_messages s) - 1) (tool_call_list m) (ls_messages s) of
        (ended, ms, synced) \<Rightarrow>
          let s = s\<lparr>ls_messages := ms, ls_synced := (case synced of None \<Rightarrow> ls_synced s | Some x \<Rightarrow> x)\<rparr> in
          case ended of
            DispatchCancelled \<Rightarrow> (BreakLoop, s)
          | DispatchSuspended q tc \<Rightarrow> (BreakLoop, s\<lparr>question_suspended := Some (q, tc)\<rparr>)
          | DispatchOk \<Rightarrow> (if le_end_turn env k \<or> is_sleep m then BreakLoop else ContinueLoop, sync s))"

section \<open>The loop\<close>

definition after_reply :: "loop_env \<Rightarrow> nat \<Rightarrow> message \<Rightarrow> loop_state \<Rightarrow> loop_action \<times> loop_state" where
  "after_reply env k m s =
     (case finish_model_iteration m s of
        (Proceed, s) \<Rightarrow>
          (case handle_finish_reason m (sync s) of
             (Proceed, s) \<Rightarrow> tool_phase env k m s
           | other \<Rightarrow> other)
      | other \<Rightarrow> other)"

definition before_model_only :: "loop_env \<Rightarrow> nat \<Rightarrow> loop_state \<Rightarrow> loop_action \<times> loop_state" where
  "before_model_only env k s =
     (case run_hooks (le_wrap_model env) k (ls_hooks s, ls_messages s) of
        Inl e \<Rightarrow> (RaiseError e, s)
      | Inr (h, ms) \<Rightarrow> (BreakLoop, sync (s\<lparr>ls_hooks := h, ls_messages := ms\<rparr>)))"

definition loop_pass :: "loop_env \<Rightarrow> nat \<Rightarrow> loop_state \<Rightarrow> loop_action \<times> loop_state" where
  "loop_pass env k s =
     (if set_at_top env k then (BreakLoop, s)
      else let s = s\<lparr>iteration := iteration s + 1\<rparr> in
        case run_hooks (le_before_model env) k (ls_hooks s, ls_messages s) of
          Inl e \<Rightarrow> (RaiseError e, s)
        | Inr (h, ms) \<Rightarrow>
            let s = sync (s\<lparr>ls_hooks := h, ls_messages := ms\<rparr>) in
            if stop_after_before_model env then before_model_only env k s
            else case call_model_with_resume env k s of
              (Reply m, s) \<Rightarrow> after_reply env k m s
            | (BreakOff, s) \<Rightarrow> (BreakLoop, s)
            | (Resume, s) \<Rightarrow> (ContinueLoop, s\<lparr>iteration := iteration s - 1\<rparr>)
            | (CallRaises e, s) \<Rightarrow> (RaiseError e, s))"

text \<open>A pass that goes on has either used up an iteration or one of the resume attempts.\<close>

lemma loop_pass_progress:
  assumes "loop_pass env k s = (ContinueLoop, s')"
  shows "iteration s' = Suc (iteration s) \<and> provider_resume_attempts s' = 0 \<or>
    iteration s' = iteration s \<and> provider_resume_attempts s' = Suc (provider_resume_attempts s) \<and>
      provider_resume_attempts s' \<le> MAX_PROVIDER_RESUME_ATTEMPTS"
proof -
  have reply: "iteration t' = iteration t \<and> provider_resume_attempts t' = provider_resume_attempts t" if "after_reply env k m t = (ContinueLoop, t')" for m t t'
    using that
    by (auto simp: after_reply_def finish_model_iteration_def handle_finish_reason_def tool_phase_def append_assistant_def sync_def Let_def
        split: if_splits prod.splits loop_action.splits dispatch_end.splits)
  show ?thesis using assms reply
    by (auto simp: loop_pass_def before_model_only_def call_model_with_resume_def sync_def Let_def
        split: if_splits prod.splits loop_action.splits model_call.splits sum.splits)
qed

function agent_loop :: "loop_env \<Rightarrow> nat \<Rightarrow> loop_state \<Rightarrow> run_error option \<times> loop_state" where
  "agent_loop env k s =
     (if iteration s \<ge> max_iterations env then (None, s)
      else case loop_pass env k s of
        (ContinueLoop, s') \<Rightarrow> agent_loop env (k + 1) s'
      | (RaiseError e, s') \<Rightarrow> (Some e, s')
      | (_, s') \<Rightarrow> (None, s'))"
  by pat_completeness auto

termination
proof (relation "measures [\<lambda>(env, k, s). max_iterations env - iteration s,
    \<lambda>(env, k, s). Suc MAX_PROVIDER_RESUME_ATTEMPTS - provider_resume_attempts s]")
qed (auto dest!: loop_pass_progress [OF sym])

declare agent_loop.simps [simp del]

definition run_start_state :: "hook_state \<Rightarrow> chat_msg list \<Rightarrow> loop_state" where
  "run_start_state h ms =
     \<lparr>ls_messages = filter (\<lambda>m. \<not> is_system m) ms, ls_synced = [], ls_hooks = h, iteration = 0, empty_response_retries = 0,
      provider_resume_attempts = 0, question_suspended = None, last_assistant = None, ls_requests = []\<rparr>"

definition finalize_run :: "run_error option \<times> loop_state \<Rightarrow> run_error option \<times> loop_state" where
  "finalize_run r = (case r of (None, s) \<Rightarrow> (None, sync s) | (Some e, s) \<Rightarrow> (Some e, s))"

definition agent_run :: "loop_env \<Rightarrow> hook_state \<Rightarrow> chat_msg list \<Rightarrow> run_error option \<times> loop_state" where
  "agent_run env h ms = finalize_run (agent_loop env 0 (run_start_state h ms))"

end
