(* ===== verification/SummarizeProps.thy ===== *)
theory SummarizeProps
  imports Summarize
begin

text \<open>
  Facts and properties of compaction: the exchange expansion is the transitive closure of the pairing
  of calls and results, compaction hides no half of an exchange, and the rewritten conversation is
  what a reload of the persisted rows derives.
\<close>

section \<open>The closure of exchanges\<close>

definition exchange :: "chat_msg list \<Rightarrow> nat list \<Rightarrow> (nat \<times> nat) set" where
  "exchange ms ids = {(i, j). i \<in> set ids \<and> j \<in> pair_mates ms ids i}"

lemma mem_pair_mates:
  "j \<in> pair_mates ms ids i \<longleftrightarrow> j \<in> set ids \<and> (\<exists>t. t \<noteq> [] \<and>
     (answers (ms ! i) = Some t \<and> t \<in> call_ids_of (ms ! j) \<or> answers (ms ! j) = Some t \<and> t \<in> call_ids_of (ms ! i)))"
  by (auto simp: pair_mates_def split: option.splits dest: answers_call_free)

lemma exchange_sym: "(i, j) \<in> exchange ms ids \<Longrightarrow> (j, i) \<in> exchange ms ids"
  by (auto simp: exchange_def mem_pair_mates)

lemma closure_mono:
  assumes "F \<subseteq> r\<^sup>* `` E"
  shows "r\<^sup>* `` F \<subseteq> r\<^sup>* `` E"
proof
  fix y
  assume "y \<in> r\<^sup>* `` F"
  then obtain x where "(x, y) \<in> r\<^sup>*" "x \<in> r\<^sup>* `` E" using assms by blast
  then show "y \<in> r\<^sup>* `` E" using rtrancl_trans by fastforce
qed

lemma expand_steps_closure:
  "set xs \<subseteq> set ids \<Longrightarrow> fst (fold (expand_step ms ids) xs (E, c)) \<subseteq> (exchange ms ids)\<^sup>* `` E"
proof (induction xs arbitrary: E c)
  case (Cons x xs)
  obtain F d where F: "expand_step ms ids x (E, c) = (F, d)" by force
  have "F \<subseteq> (exchange ms ids)\<^sup>* `` E"
    using F Cons.prems by (auto simp: expand_step_eq exchange_def split: if_splits intro!: r_into_rtrancl)
  moreover have "fst (fold (expand_step ms ids) xs (F, d)) \<subseteq> (exchange ms ids)\<^sup>* `` F"
    using Cons.IH Cons.prems by simp
  ultimately show ?case using closure_mono [of F "exchange ms ids" E] F by (simp add: order_trans)
qed auto

lemma expand_loop_closure:
  "expand_loop ms ids E \<subseteq> (exchange ms ids)\<^sup>* `` E \<and> E \<subseteq> expand_loop ms ids E \<and>
   exchange ms ids `` expand_loop ms ids E \<subseteq> expand_loop ms ids E"
proof (induction ms ids E rule: expand_loop.induct)
  case (1 ms ids E)
  let ?p = "expand_pass ms ids E"
  have f: "fold (expand_step ms ids) ids (E, False) = (fst ?p, snd ?p)" by (simp add: expand_pass_def)
  have c: "fst ?p \<subseteq> (exchange ms ids)\<^sup>* `` E" using expand_steps_closure [of ids ids ms E False] by (simp add: expand_pass_def)
  note s = expand_steps(1,4) [OF f]
  show ?case
  proof (cases "snd ?p")
    case True
    then have "expand_loop ms ids E = expand_loop ms ids (fst ?p)" by (simp add: expand_loop.simps [of ms ids E])
    then show ?thesis using 1 [OF True] closure_mono [OF c] s(1) by (metis order_trans)
  next
    case False
    then have "expand_loop ms ids E = fst ?p" by (simp add: expand_loop.simps [of ms ids E])
    then show ?thesis using c s(1) s(2) [OF False] by (auto simp: exchange_def)
  qed
qed

lemma expand_eq_closure: "expand_tool_pair_ids ms ids seed_ids = (exchange ms ids)\<^sup>* `` seed_ids"
proof -
  have "(exchange ms ids)\<^sup>* `` seed_ids \<subseteq> expand_loop ms ids seed_ids"
    using expand_loop_closure [of ms ids seed_ids] Image_closed_trancl [of "exchange ms ids" "expand_loop ms ids seed_ids"]
    by blast
  then show ?thesis using expand_loop_closure [of ms ids seed_ids] by (auto simp: expand_tool_pair_ids_def)
qed

lemma expand_closed: "exchange ms ids `` expand_tool_pair_ids ms ids E \<subseteq> expand_tool_pair_ids ms ids E"
  using expand_loop_closure [of ms ids E] by (simp add: expand_tool_pair_ids_def)

lemma expand_subset: "E \<subseteq> set ids \<Longrightarrow> expand_tool_pair_ids ms ids E \<subseteq> set ids"
proof -
  assume E: "E \<subseteq> set ids"
  have "exchange ms ids `` set ids \<subseteq> set ids" using pair_mates_subset by (auto simp: exchange_def)
  then have "(exchange ms ids)\<^sup>* `` set ids = set ids" by (rule Image_closed_trancl)
  moreover have "(exchange ms ids)\<^sup>* `` E \<subseteq> (exchange ms ids)\<^sup>* `` set ids" using E by (rule Image_mono [OF order_refl])
  ultimately show ?thesis unfolding expand_eq_closure by simp
qed

section \<open>What compaction leaves visible\<close>

definition hidden_by :: "nat set \<Rightarrow> nat set \<Rightarrow> chat_msg list \<Rightarrow> nat \<Rightarrow> bool" where
  "hidden_by S R ms i \<longleftrightarrow> i \<in> S \<and> i \<notin> R \<or> is_summary (ms ! i) \<and> i \<notin> S"

definition marked :: "nat set \<Rightarrow> nat set \<Rightarrow> chat_msg list \<Rightarrow> chat_msg list" where
  "marked S R ms = drop_old_summaries S (mark_summarised S R ms)"

lemma length_marked [simp]: "length (marked S R ms) = length ms"
  by (simp add: marked_def drop_old_summaries_def mark_summarised_def)

lemma nth_marked:
  assumes "i < length ms"
  shows "exclude_from_context (marked S R ms ! i) \<longleftrightarrow> exclude_from_context (ms ! i) \<or> hidden_by S R ms i"
    and "c_pinned (marked S R ms ! i) \<longleftrightarrow> c_pinned (ms ! i) \<and> \<not> (i \<in> S \<and> i \<notin> R)"
    and "c_body (marked S R ms ! i) = c_body (ms ! i)" "is_summary (marked S R ms ! i) = is_summary (ms ! i)"
  using assms by (auto simp: marked_def drop_old_summaries_def mark_summarised_def hidden_by_def nth_enumerate_eq)

text \<open>The anchor lies behind every excluded and every retained message.\<close>

lemma find_last:
  assumes "find P (rev [0..<n]) = r"
  shows "r = None \<Longrightarrow> i < n \<Longrightarrow> \<not> P i" "r = Some k \<Longrightarrow> k < n" "r = Some k \<Longrightarrow> i < n \<Longrightarrow> P i \<Longrightarrow> i \<le> k"
  using assms
  by (induction n) (auto split: if_splits simp: less_Suc_eq)

lemma anchor_excluded:
  assumes "i < length ms" "exclude_from_context (ms ! i)"
  shows "i < first_kept_idx R ms"
proof (cases "find (\<lambda>i. exclude_from_context (ms ! i)) (rev [0..<length ms])")
  case None
  then show ?thesis using find_last(1) [OF None refl] assms by blast
next
  case (Some k)
  then have "i \<le> k" using find_last(3) [OF Some refl] assms by blast
  then show ?thesis using Some by (simp add: first_kept_idx_def after_last_excluded_def Let_def less_max_iff_disj)
qed

lemma first_visible_le: "first_visible ms \<le> length ms"
  by (auto simp: first_visible_def find_Some_iff split: option.split)

lemma anchor_le: "first_kept_idx R ms \<le> length ms"
proof -
  let ?ix = "filter (\<lambda>i. i \<in> R) [0..<length ms]"
  have "Max (set ?ix) + 1 \<le> length ms" if "?ix \<noteq> []"
  proof -
    have "set ?ix \<noteq> {}" using that by (metis set_empty)
    then have "Max (set ?ix) \<in> set ?ix" by (intro Max_in) auto
    then show ?thesis by auto
  qed
  moreover have "after_last_excluded ms \<le> length ms"
    using find_last(2) [OF refl] by (fastforce simp: after_last_excluded_def split: option.split)
  ultimately show ?thesis using first_visible_le [of ms] by (simp add: first_kept_idx_def Let_def)
qed

definition rewritten :: "nat set \<Rightarrow> nat set \<Rightarrow> chat_msg list \<Rightarrow> chat_msg list" where
  "rewritten S R ms = pin_below (first_kept_idx R (marked S R ms)) (marked S R ms)"

abbreviation anchor_of :: "nat set \<Rightarrow> nat set \<Rightarrow> chat_msg list \<Rightarrow> nat" where
  "anchor_of S R ms \<equiv> first_kept_idx R (marked S R ms)"

lemma compact_eq:
  "compact S R t ms = take (anchor_of S R ms) (rewritten S R ms) @ summary_msg t # drop (anchor_of S R ms) (rewritten S R ms)"
  by (simp add: compact_def rewritten_def marked_def Let_def)

lemma length_rewritten [simp]: "length (rewritten S R ms) = length ms"
  by (simp add: rewritten_def pin_below_def)

lemma anchor_of_le: "anchor_of S R ms \<le> length ms"
  using anchor_le [of R "marked S R ms"] by simp

lemma nth_rewritten:
  assumes "i < length ms"
  shows "rewritten S R ms ! i =
     (if i < anchor_of S R ms \<and> in_view (marked S R ms ! i) then (marked S R ms ! i)\<lparr>c_pinned := True\<rparr> else marked S R ms ! i)"
  using assms anchor_of_le [of R S ms] by (auto simp: rewritten_def pin_below_def nth_append)

lemma in_view_pinned [simp]: "in_view (m\<lparr>c_pinned := b\<rparr>) = in_view m" "answers (m\<lparr>c_pinned := b\<rparr>) = answers m"
  "calls_of (m\<lparr>c_pinned := b\<rparr>) = calls_of m"
  by (simp_all add: in_view_def is_system_def answers_def calls_of_def)

lemma body_cong:
  "c_body m = c_body m' \<Longrightarrow> answers m = answers m'" "c_body m = c_body m' \<Longrightarrow> calls_of m = calls_of m'"
  "c_body m = c_body m' \<Longrightarrow> is_system m = is_system m'"
  by (simp_all add: answers_def calls_of_def is_system_def)

lemma rewritten_fields:
  assumes "i < length ms"
  shows "in_view (rewritten S R ms ! i) \<longleftrightarrow> in_view (ms ! i) \<and> \<not> hidden_by S R ms i"
    and "answers (rewritten S R ms ! i) = answers (ms ! i)" "calls_of (rewritten S R ms ! i) = calls_of (ms ! i)"
    and "exclude_from_context (rewritten S R ms ! i) \<longleftrightarrow> exclude_from_context (ms ! i) \<or> hidden_by S R ms i"
    and "is_summary (rewritten S R ms ! i) = is_summary (ms ! i)" "c_body (rewritten S R ms ! i) = c_body (ms ! i)"
    and "is_system (rewritten S R ms ! i) = is_system (ms ! i)"
    and "c_pinned (rewritten S R ms ! i) \<longleftrightarrow>
       i < anchor_of S R ms \<and> in_view (rewritten S R ms ! i) \<or> c_pinned (ms ! i) \<and> \<not> (i \<in> S \<and> i \<notin> R)"
proof -
  note m = nth_marked [OF assms, of S R]
  have v: "in_view (marked S R ms ! i) \<longleftrightarrow> in_view (ms ! i) \<and> \<not> hidden_by S R ms i"
    using m(1) body_cong(3) [OF m(3)] by (auto simp: in_view_def)
  note e = nth_rewritten [OF assms, of S R]
  show "in_view (rewritten S R ms ! i) \<longleftrightarrow> in_view (ms ! i) \<and> \<not> hidden_by S R ms i" using v e by auto
  show b: "c_body (rewritten S R ms ! i) = c_body (ms ! i)" using m(3) e by simp
  show "answers (rewritten S R ms ! i) = answers (ms ! i)" "calls_of (rewritten S R ms ! i) = calls_of (ms ! i)"
    "is_system (rewritten S R ms ! i) = is_system (ms ! i)" using body_cong [OF b] by auto
  show "exclude_from_context (rewritten S R ms ! i) \<longleftrightarrow> exclude_from_context (ms ! i) \<or> hidden_by S R ms i" using m(1) e by simp
  show "is_summary (rewritten S R ms ! i) = is_summary (ms ! i)" using m(4) e by simp
  show "c_pinned (rewritten S R ms ! i) \<longleftrightarrow>
     i < anchor_of S R ms \<and> in_view (rewritten S R ms ! i) \<or> c_pinned (ms ! i) \<and> \<not> (i \<in> S \<and> i \<notin> R)"
    using m(2) e by auto
qed

lemma mem_compact_view:
  "m \<in> set (messages_for_llm (compact S R t ms)) \<longleftrightarrow>
     m = summary_msg t \<or> (\<exists>i < length ms. m = rewritten S R ms ! i \<and> in_view (ms ! i) \<and> \<not> hidden_by S R ms i)"
proof -
  have "set (compact S R t ms) = insert (summary_msg t) (set (rewritten S R ms))"
    unfolding compact_eq using set_append [of "take (anchor_of S R ms) (rewritten S R ms)" "drop (anchor_of S R ms) (rewritten S R ms)"] by auto
  moreover have "in_view (summary_msg t)" by (simp add: in_view_def is_system_def summary_msg_def new_msg_def)
  ultimately show ?thesis
    using rewritten_fields(1) [of _ ms S R] by (auto simp: messages_for_llm_def in_set_conv_nth)
qed

section \<open>Exchanges stay whole\<close>

text \<open>Tool calls and results are neither summaries nor hidden notes.\<close>

definition plain_exchange :: "chat_msg \<Rightarrow> bool" where
  "plain_exchange m \<longleftrightarrow> (answers m \<noteq> None \<or> calls_of m \<noteq> [] \<longrightarrow> \<not> is_summary m \<and> \<not> hidden_from_summary m)"

lemma summary_no_exchange [simp]: "answers (summary_msg t) = None" "calls_of (summary_msg t) = []"
  by (simp_all add: summary_msg_def new_msg_def answers_def calls_of_def)

text \<open>Both the summarised and the retained messages are closed under exchanges, and so is their difference.\<close>

lemma hidden_together:
  assumes plain: "\<forall>m \<in> set ms. plain_exchange m"
    and S: "exchange ms (eligible ms) `` S \<subseteq> S" and R: "exchange ms (eligible ms) `` R \<subseteq> R"
    and ij: "i < length ms" "j < length ms" "in_view (ms ! i)" "in_view (ms ! j)"
    and t: "t \<noteq> []" "answers (ms ! i) = Some t" "t \<in> call_ids_of (ms ! j)"
  shows "hidden_by S R ms i = hidden_by S R ms j"
proof -
  have p: "\<not> is_summary (ms ! i)" "\<not> hidden_from_summary (ms ! i)" "\<not> is_summary (ms ! j)" "\<not> hidden_from_summary (ms ! j)"
    using plain ij(1,2) t by (auto simp: plain_exchange_def dest!: nth_mem)
  then have "i \<in> set (eligible ms)" "j \<in> set (eligible ms)" using ij by (auto simp: eligible_def)
  then have "(i, j) \<in> exchange ms (eligible ms)" using t by (auto simp: exchange_def mem_pair_mates)
  then have "i \<in> X \<longleftrightarrow> j \<in> X" if "exchange ms (eligible ms) `` X \<subseteq> X" for X
    using that exchange_sym by blast
  then show ?thesis using S R p by (simp add: hidden_by_def)
qed

lemma compact_view_ids:
  "(\<exists>m \<in> set (messages_for_llm (compact S R t ms)). answers m = Some u) \<longleftrightarrow>
     (\<exists>i < length ms. in_view (ms ! i) \<and> \<not> hidden_by S R ms i \<and> answers (ms ! i) = Some u)"
  "(\<exists>m \<in> set (messages_for_llm (compact S R t ms)). u \<in> call_ids_of m) \<longleftrightarrow>
     (\<exists>i < length ms. in_view (ms ! i) \<and> \<not> hidden_by S R ms i \<and> u \<in> call_ids_of (ms ! i))"
  unfolding Bex_def mem_compact_view using rewritten_fields(2,3) [of _ ms S R] by auto

lemma compact_exchanges:
  assumes plain: "\<forall>m \<in> set ms. plain_exchange m"
    and S: "exchange ms (eligible ms) `` S \<subseteq> S" and R: "exchange ms (eligible ms) `` R \<subseteq> R"
  shows "orphan_results (compact S R t ms) \<subseteq> orphan_results ms" "open_calls (compact S R t ms) \<subseteq> open_calls ms"
proof -
  note together = hidden_together [OF plain S R]
  show "orphan_results (compact S R t ms) \<subseteq> orphan_results ms"
  proof
    fix u
    assume "u \<in> orphan_results (compact S R t ms)"
    then obtain i where u: "u \<noteq> []" and i: "i < length ms" "in_view (ms ! i)" "\<not> hidden_by S R ms i" "answers (ms ! i) = Some u"
      and no: "\<And>j. j < length ms \<Longrightarrow> in_view (ms ! j) \<Longrightarrow> \<not> hidden_by S R ms j \<Longrightarrow> u \<notin> call_ids_of (ms ! j)"
      unfolding orphan_results_def mem_Collect_eq compact_view_ids by blast
    have "u \<notin> call_ids_of (ms ! j)" if "j < length ms" "in_view (ms ! j)" for j
      using no [OF that] together [OF i(1) that(1) i(2) that(2) u i(4)] i(3) by blast
    then show "u \<in> orphan_results ms" using u i unfolding orphan_results_def mem_Collect_eq bex_view by blast
  qed
  show "open_calls (compact S R t ms) \<subseteq> open_calls ms"
  proof
    fix u
    assume "u \<in> open_calls (compact S R t ms)"
    then obtain j where u: "u \<noteq> []" and j: "j < length ms" "in_view (ms ! j)" "\<not> hidden_by S R ms j" "u \<in> call_ids_of (ms ! j)"
      and no: "\<And>i. i < length ms \<Longrightarrow> in_view (ms ! i) \<Longrightarrow> \<not> hidden_by S R ms i \<Longrightarrow> answers (ms ! i) \<noteq> Some u"
      unfolding open_calls_def mem_Collect_eq compact_view_ids by blast
    have "answers (ms ! i) \<noteq> Some u" if "i < length ms" "in_view (ms ! i)" for i
      using no [OF that] together [OF that(1) j(1) that(2) j(2) u _ j(4)] j(3) by blast
    then show "u \<in> open_calls ms" using u j unfolding open_calls_def mem_Collect_eq bex_view by blast
  qed
qed

section \<open>The chosen messages\<close>

lemma to_summarise_closed:
  "exchange ms (eligible ms) `` to_summarise_ids k ms \<subseteq> to_summarise_ids k ms" "to_summarise_ids k ms \<subseteq> set (eligible ms)"
  unfolding to_summarise_ids_def Let_def
  by (rule expand_closed) (rule expand_subset, auto dest: in_set_takeD)

lemma skill_step_ids:
  "skill_step loads s x = Inr s' \<Longrightarrow> skill_message_ids s' \<subseteq> insert (fst x) (skill_message_ids s)"
  by (auto simp: skill_step_def split: sum.splits option.splits if_splits)

lemma skill_scan_ids:
  "fold_err (skill_step loads) s xs = Inr s' \<Longrightarrow> skill_message_ids s' \<subseteq> skill_message_ids s \<union> fst ` set xs"
proof (induction xs arbitrary: s)
  case (Cons x xs)
  then obtain u where "skill_step loads s x = Inr u" "fold_err (skill_step loads) u xs = Inr s'" by (auto split: sum.splits)
  then show ?case using Cons.IH skill_step_ids by fastforce
qed simp

lemma retained_closed:
  assumes "skill_tool_pair_ids loads ms (eligible ms) = Inr R"
  shows "exchange ms (eligible ms) `` R \<subseteq> R" "R \<subseteq> set (eligible ms)"
proof -
  obtain s where s: "fold_err (skill_step loads) \<lparr>seen_skills = {}, skill_call_ids = {}, skill_message_ids = {}\<rparr>
      (concat (map (\<lambda>i. map (Pair i) (calls_of (ms ! i))) (eligible ms))) = Inr s"
    using assms by (auto simp: skill_tool_pair_ids_def split: sum.splits)
  have sub: "skill_message_ids s \<subseteq> set (eligible ms)" using skill_scan_ids [OF s] by auto
  have R: "R = (if skill_call_ids s = {} then {}
      else expand_tool_pair_ids ms (eligible ms) (skill_message_ids s \<union>
        set (filter (\<lambda>i. case answers (ms ! i) of None \<Rightarrow> False | Some t \<Rightarrow> t \<in> skill_call_ids s) (eligible ms))))"
    using assms s by (simp add: skill_tool_pair_ids_def split: if_splits)
  show "exchange ms (eligible ms) `` R \<subseteq> R" unfolding R using expand_closed by simp
  show "R \<subseteq> set (eligible ms)" unfolding R using expand_subset sub by auto
qed

lemma summarise_cases:
  assumes "summarise_inner loads f sid agent sp h ms = Inr (h', ms', evs)"
  obtains "ms' = ms" | R t where "ms' = compact (to_summarise_ids (keep_last_assistants h) ms) R t ms"
    "skill_tool_pair_ids loads ms (eligible ms) = Inr R" "t \<noteq> []" "length ms' = Suc (length ms)"
  using assms anchor_of_le
  by (auto simp: summarise_inner_def Let_def compact_eq split: if_splits sum.splits prod.splits)

text \<open>
  C18. Compaction hides no half of an exchange: when it turns the conversation into another one, every
  visible tool result whose call has become invisible was already without one, and every visible
  tool call without a visible result was already open.
\<close>

theorem compaction_keeps_exchanges:
  assumes "summarise_inner loads f sid agent sp h ms = Inr (h', ms', evs)" and "\<forall>m \<in> set ms. plain_exchange m"
  shows "orphan_results ms' \<subseteq> orphan_results ms \<and> open_calls ms' \<subseteq> open_calls ms"
  using assms(1)
proof (cases rule: summarise_cases)
  case (2 R t)
  then show ?thesis
    using compact_exchanges [OF assms(2) to_summarise_closed(1) retained_closed(1) [OF 2(2)]] by simp
qed simp

text \<open>
  C29. The expansion loop of compaction returns, and returns the messages that are connected to the
  given ones by pairs of a tool call and its result.
\<close>

theorem expand_is_closure: "expand_tool_pair_ids ms ids seed_ids = (exchange ms ids)\<^sup>* `` seed_ids"
  by (rule expand_eq_closure)

end
