(* ===== verification/SummaryReload.thy ===== *)
theory SummaryReload
  imports SummarizeProps
begin

text \<open>
  Compaction in memory and the window derived from the database agree: after a compaction the rows
  that a reload finds (\<open>get_messages_for_llm\<close>) are those of the messages the running agent sees.
\<close>

section \<open>Memory and database agree\<close>

text \<open>
  The conversation as the checkpointer leaves it: rows with increasing positions \<open>seqs\<close> in the order
  of the messages and with ids in the order of their creation.
\<close>

definition row_of :: "string \<Rightarrow> int \<times> nat \<Rightarrow> chat_msg \<Rightarrow> row" where
  "row_of sid p m =
     \<lparr>row_id = snd p, row_session = sid,
      role = (case c_body m of SystemMsg \<Rightarrow> SystemRole | HumanMsg \<Rightarrow> User | AssistantMsg _ \<Rightarrow> Assistant | ToolMsg _ _ \<Rightarrow> ToolRole),
      kind = (if is_summary m then Summary else Chat), seq = fst p, pinned = c_pinned m, body = or_empty (c_content m),
      tool_calls = map (\<lambda>c. \<lparr>call_id = cb_id c, call_name = cb_name c, call_arguments = cb_arguments c,
        call_thought = cb_thought c, call_signature = cb_signature c\<rparr>) (calls_of m), tool_call_id = answers m,
      from_agent = c_from_agent m, snapshot = None, queue_meta = False, pending_flag = False, attachment_for = None, attachments = [],
      row_name = None, reasoning_content = None, hidden_summary = hidden_from_summary m,
      hidden_user = hidden_from_user m, mention_context = False, row_reply = no_extra\<rparr>"

definition persisted :: "string \<Rightarrow> (int \<times> nat) list \<Rightarrow> chat_msg list \<Rightarrow> db" where
  "persisted sid ps ms =
     \<lparr>rows = map2 (row_of sid) ps ms, sessions = [(sid, \<lparr>revert = None, history_revision = 0, structure_revision = 0\<rparr>)],
      questions = [], next_id = Suc (Max (insert 0 (set (map snd ps))))\<rparr>"

definition conv_inv :: "chat_msg list \<Rightarrow> bool" where
  "conv_inv ms \<longleftrightarrow> (\<forall>m \<in> set ms. \<not> is_system m \<and> plain_exchange m \<and> (exclude_from_context m \<or> is_summary m \<longrightarrow> \<not> c_pinned m))"

text \<open>The shape of a compacted conversation around its summary.\<close>

definition anchored :: "nat \<Rightarrow> chat_msg list \<Rightarrow> bool" where
  "anchored a ms \<longleftrightarrow> a < length ms \<and> is_summary (ms ! a) \<and> in_view (ms ! a) \<and> \<not> c_pinned (ms ! a) \<and>
     (\<forall>i < length ms. \<not> is_system (ms ! i) \<and>
        (in_view (ms ! i) \<longrightarrow> (i < a \<longrightarrow> c_pinned (ms ! i)) \<and> (is_summary (ms ! i) \<longrightarrow> i = a)) \<and>
        (\<not> in_view (ms ! i) \<longrightarrow> i < a \<and> \<not> c_pinned (ms ! i)))"

lemma last_sort_key:
  fixes f :: "'a \<Rightarrow> nat"
  assumes "r \<in> set rs" "\<And>x. x \<in> set rs \<Longrightarrow> x \<noteq> r \<Longrightarrow> f x < f r"
  shows "last (sort_key f rs) = r"
proof -
  have ne: "sort_key f rs \<noteq> []" using assms(1) by (metis set_empty set_sort length_pos_if_in_set less_numeral_extra(3) list.size(3))
  obtain ys zs where split: "sort_key f rs = ys @ r # zs" using assms(1) by (metis in_set_conv_decomp set_sort)
  have "sorted (map f (ys @ r # zs))" using split sorted_sort_key [of f rs] by simp
  then have "f r \<le> f z" if "z \<in> set zs" for z using that by (auto simp: sorted_append)
  moreover have "z \<in> set rs" if "z \<in> set zs" for z using that split by (metis Un_iff list.set_intros(2) set_append set_sort)
  ultimately have "\<forall>z \<in> set zs. z = r" using assms(2) by fastforce
  then show ?thesis using split by (cases zs rule: rev_cases) auto
qed

lemma anchored_window:
  assumes a: "anchored a ms" and len: "length ps = length ms" and inc: "sorted_wrt (<) (map fst ps)"
    and old: "\<And>i. i < length ms \<Longrightarrow> is_summary (ms ! i) \<Longrightarrow> i \<noteq> a \<Longrightarrow> snd (ps ! i) < snd (ps ! a)"
  shows "get_messages_for_llm sid (persisted sid ps ms) = map (\<lambda>(p, m). row_of sid p m) (filter (in_view \<circ> snd) (zip ps ms))"
proof -
  let ?d = "persisted sid ps ms" and ?rs = "map2 (row_of sid) ps ms" and ?s = "row_of sid (ps ! a) (ms ! a)"
  have al: "a < length ms" using a by (simp add: anchored_def)
  have rows: "session_rows sid ?d = ?rs" by (auto simp: session_rows_def persisted_def row_of_def filter_id_conv set_zip)
  have b: "revert_boundary sid ?d = None" by (simp add: revert_boundary_def persisted_def)
  have nth: "x \<in> set ?rs \<longleftrightarrow> (\<exists>i < length ms. x = row_of sid (ps ! i) (ms ! i))" for x
    unfolding in_set_conv_nth using len by auto
  have kinds: "kind (row_of sid p m) = Summary \<longleftrightarrow> is_summary m" for p m by (simp add: row_of_def)
  have "get_active_summary sid None ?d = Some ?s"
  proof -
    let ?f = "filter (\<lambda>r. kind r = Summary \<and> before_boundary None r) ?rs"
    have "?s \<in> set ?rs" using nth al by blast
    then have mem: "?s \<in> set ?f" using a by (simp add: anchored_def before_boundary_def kinds)
    have "row_id x < row_id ?s" if x: "x \<in> set ?f" "x \<noteq> ?s" for x
    proof -
      obtain i where i: "i < length ms" "x = row_of sid (ps ! i) (ms ! i)" using x(1) nth by auto
      then have "is_summary (ms ! i)" using x(1) kinds by simp
      moreover have "i \<noteq> a" using i(2) x(2) by blast
      ultimately show ?thesis using old [OF i(1)] i(2) by (simp add: row_of_def)
    qed
    then have "last (sort_key row_id ?f) = ?s" by (rule last_sort_key [OF mem])
    moreover have "?f \<noteq> []" using mem by (metis empty_iff list.set(1))
    ultimately show ?thesis by (simp only: get_active_summary_def rows Let_def if_False)
  qed
  then have w: "get_messages_for_llm sid ?d = sort_key pos (filter (in_window (Some ?s) None True) ?rs)"
    by (simp add: get_messages_for_llm_def llm_window_rows_def llm_window_def b rows)
  have seqs: "fst (ps ! i) < fst (ps ! j)" if "i < j" "j < length ms" for i j
    using inc that len by (auto simp: sorted_wrt_iff_nth_less)
  have "in_window (Some ?s) None True (row_of sid (ps ! i) (ms ! i)) \<longleftrightarrow> in_view (ms ! i)" if i: "i < length ms" for i
  proof -
    have "pos ?s \<le> pos (row_of sid (ps ! i) (ms ! i)) \<longleftrightarrow> a \<le> i"
      using seqs [of i a] seqs [of a i] al i by (cases i a rule: linorder_cases) (auto simp: pos_def row_of_def less_eq_prod_def)
    moreover have "row_id (row_of sid (ps ! i) (ms ! i)) = row_id ?s \<longleftrightarrow> i = a" if "is_summary (ms ! i)"
      using old [OF i that] by (cases "i = a") (simp_all add: row_of_def)
    moreover have "pinned (row_of sid (ps ! i) (ms ! i)) = c_pinned (ms ! i)" "kind (row_of sid (ps ! i) (ms ! i)) \<noteq> Reverted"
      "kind (row_of sid (ps ! i) (ms ! i)) \<noteq> Queued" by (simp_all add: row_of_def)
    ultimately have "in_window (Some ?s) None True (row_of sid (ps ! i) (ms ! i)) \<longleftrightarrow>
        (c_pinned (ms ! i) \<or> a \<le> i) \<and> (is_summary (ms ! i) \<longrightarrow> i = a)"
      unfolding in_window_def before_boundary_def option.case kinds by blast
    moreover have "in_view (ms ! i) \<Longrightarrow> (i < a \<longrightarrow> c_pinned (ms ! i)) \<and> (is_summary (ms ! i) \<longrightarrow> i = a)"
      "\<not> in_view (ms ! i) \<Longrightarrow> i < a \<and> \<not> c_pinned (ms ! i)" using a i unfolding anchored_def by blast+
    ultimately show ?thesis by (cases "in_view (ms ! i)") auto
  qed
  then have "filter (in_window (Some ?s) None True) ?rs = map (\<lambda>(p, m). row_of sid p m) (filter (in_view \<circ> snd) (zip ps ms))"
    using len by (auto simp: filter_map comp_def set_zip intro!: arg_cong [where f = "map _"] filter_cong)
  moreover have "sorted (map pos (filter P ?rs))" for P
  proof -
    have "sorted_wrt (\<lambda>x y. pos x \<le> pos y) ?rs"
      using seqs len by (auto simp: sorted_wrt_iff_nth_less pos_def row_of_def less_eq_prod_def)
    then show ?thesis by (simp add: sorted_map sorted_wrt_filter)
  qed
  ultimately show ?thesis using w sort_key_id_if_sorted by metis
qed

section \<open>Compaction anchors its summary\<close>

lemma skill_step_calls:
  "skill_step loads s x = Inr s' \<Longrightarrow> P (fst x) \<Longrightarrow> (\<forall>i \<in> skill_message_ids s. P i) \<Longrightarrow> \<forall>i \<in> skill_message_ids s'. P i"
  using skill_step_ids [of loads s x s'] by blast

lemma retained_exchange:
  assumes "skill_tool_pair_ids loads ms (eligible ms) = Inr R" "i \<in> R"
  shows "answers (ms ! i) \<noteq> None \<or> calls_of (ms ! i) \<noteq> []"
proof -
  let ?P = "\<lambda>i. answers (ms ! i) \<noteq> None \<or> calls_of (ms ! i) \<noteq> []"
  obtain s where s: "fold_err (skill_step loads) \<lparr>seen_skills = {}, skill_call_ids = {}, skill_message_ids = {}\<rparr>
      (concat (map (\<lambda>i. map (Pair i) (calls_of (ms ! i))) (eligible ms))) = Inr s"
    using assms by (auto simp: skill_tool_pair_ids_def split: sum.splits)
  have seeds: "\<forall>i \<in> skill_message_ids s. ?P i" using skill_scan_ids [OF s] by auto
  have "R = (exchange ms (eligible ms))\<^sup>* `` {i. i \<in> R \<and> ?P i}" if "R \<noteq> {}"
  proof -
    let ?E = "skill_message_ids s \<union>
        set (filter (\<lambda>i. case answers (ms ! i) of None \<Rightarrow> False | Some t \<Rightarrow> t \<in> skill_call_ids s) (eligible ms))"
    have R: "R = (exchange ms (eligible ms))\<^sup>* `` ?E"
      using assms(1) s that by (simp add: skill_tool_pair_ids_def expand_eq_closure split: if_splits)
    have "?E \<subseteq> {i. i \<in> R \<and> ?P i}" using seeds unfolding R by (auto split: option.splits)
    moreover have "(exchange ms (eligible ms))\<^sup>* `` R \<subseteq> R" using closure_mono [of R "exchange ms (eligible ms)" ?E] R by simp
    ultimately show ?thesis using R by blast
  qed
  then obtain j where j: "(j, i) \<in> (exchange ms (eligible ms))\<^sup>*" "?P j" using assms(2) by blast
  then show ?thesis by (cases rule: rtranclE) (auto simp: exchange_def mem_pair_mates)
qed

lemma nth_compact:
  assumes "i < Suc (length ms)"
  shows "compact S R t ms ! i =
     (if i < anchor_of S R ms then rewritten S R ms ! i else if i = anchor_of S R ms then summary_msg t else rewritten S R ms ! (i - 1))"
  using assms anchor_of_le [of R S ms] by (auto simp: compact_eq nth_append nth_Cons' min_def)

lemma hidden_rewritten:
  "i < length ms \<Longrightarrow> hidden_from_summary (rewritten S R ms ! i) = hidden_from_summary (ms ! i)"
  by (auto simp: nth_rewritten marked_def drop_old_summaries_def mark_summarised_def nth_enumerate_eq)

lemma rewritten_shape:
  assumes inv: "conv_inv ms" and R: "skill_tool_pair_ids loads ms (eligible ms) = Inr R" and i: "i < length ms"
  shows "\<not> is_system (rewritten S R ms ! i)" "plain_exchange (rewritten S R ms ! i)"
    "in_view (rewritten S R ms ! i) \<Longrightarrow> \<not> is_summary (rewritten S R ms ! i) \<and> (i < anchor_of S R ms \<longrightarrow> c_pinned (rewritten S R ms ! i))"
    "\<not> in_view (rewritten S R ms ! i) \<Longrightarrow> i < anchor_of S R ms \<and> \<not> c_pinned (rewritten S R ms ! i)"
proof -
  note f = rewritten_fields [OF i, of S R]
  have m: "\<not> is_system (ms ! i)" "plain_exchange (ms ! i)" "exclude_from_context (ms ! i) \<or> is_summary (ms ! i) \<longrightarrow> \<not> c_pinned (ms ! i)"
    using inv i by (auto simp: conv_inv_def)
  have r: "i \<in> R \<Longrightarrow> \<not> is_summary (ms ! i)" using retained_exchange [OF R] m(2) by (auto simp: plain_exchange_def)
  show "\<not> is_system (rewritten S R ms ! i)" using f(7) m(1) by simp
  have "hidden_from_summary (rewritten S R ms ! i) = hidden_from_summary (ms ! i)" by (rule hidden_rewritten [OF i])
  then show "plain_exchange (rewritten S R ms ! i)" using f(2,3,5) m(2) by (simp add: plain_exchange_def)
  show "\<not> is_summary (rewritten S R ms ! i) \<and> (i < anchor_of S R ms \<longrightarrow> c_pinned (rewritten S R ms ! i))"
    if "in_view (rewritten S R ms ! i)" using that f(1,5,8) r by (auto simp: hidden_by_def)
  show "i < anchor_of S R ms \<and> \<not> c_pinned (rewritten S R ms ! i)" if v: "\<not> in_view (rewritten S R ms ! i)"
  proof -
    have e: "exclude_from_context (ms ! i) \<or> hidden_by S R ms i" using v f(1) m(1) by (auto simp: in_view_def)
    then have "i < anchor_of S R ms" using anchor_excluded [of i "marked S R ms" R] nth_marked(1) [OF i] i by simp
    moreover have "\<not> c_pinned (rewritten S R ms ! i)" using e v f(8) m(3) by (auto simp: hidden_by_def)
    ultimately show ?thesis ..
  qed
qed

lemma compact_anchored:
  assumes inv: "conv_inv ms" and R: "skill_tool_pair_ids loads ms (eligible ms) = Inr R"
  shows "anchored (anchor_of S R ms) (compact S R t ms)" "conv_inv (compact S R t ms)"
proof -
  have len: "length (compact S R t ms) = Suc (length ms)" using anchor_of_le [of R S ms] by (simp add: compact_eq)
  note sh = rewritten_shape [OF inv R]
  have s: "in_view (summary_msg t)" "is_summary (summary_msg t)" "\<not> c_pinned (summary_msg t)" "\<not> is_system (summary_msg t)"
    "plain_exchange (summary_msg t)"
    by (simp_all add: in_view_def is_system_def summary_msg_def new_msg_def plain_exchange_def answers_def calls_of_def)
  show "anchored (anchor_of S R ms) (compact S R t ms)"
    unfolding anchored_def len
  proof (intro conjI allI impI)
    fix i
    assume i: "i < Suc (length ms)"
    let ?a = "anchor_of S R ms"
    have pred: "i - 1 < length ms" "\<not> i - 1 < ?a" if "\<not> i < ?a" "i \<noteq> ?a" using that i by auto
    show "\<not> is_system (compact S R t ms ! i)" using s sh(1) pred i anchor_of_le [of R S ms] by (simp add: nth_compact)
    show "c_pinned (compact S R t ms ! i)" if "in_view (compact S R t ms ! i)" "i < ?a"
      using that sh(3) anchor_of_le [of R S ms] i by (simp add: nth_compact)
    show "i = ?a" if "in_view (compact S R t ms ! i)" "is_summary (compact S R t ms ! i)"
      using that sh(3) [of i] sh(3) [of "i - 1"] pred i anchor_of_le [of R S ms] by (auto simp: nth_compact split: if_splits)
    show below: "i < ?a" if "\<not> in_view (compact S R t ms ! i)"
      using that sh(4) [of i] sh(4) [of "i - 1"] pred s i anchor_of_le [of R S ms] by (auto simp: nth_compact split: if_splits)
    show "\<not> c_pinned (compact S R t ms ! i)" if v: "\<not> in_view (compact S R t ms ! i)"
    proof -
      have "compact S R t ms ! i = rewritten S R ms ! i" using below [OF v] i by (simp add: nth_compact)
      then show ?thesis using v sh(4) [of i S] below [OF v] anchor_of_le [of R S ms] by simp
    qed
  qed (use s anchor_of_le [of R S ms] in \<open>auto simp: nth_compact\<close>)
  have "\<not> is_system m \<and> plain_exchange m \<and> (exclude_from_context m \<or> is_summary m \<longrightarrow> \<not> c_pinned m)"
    if m: "m \<in> set (rewritten S R ms)" for m
  proof -
    obtain i where i: "i < length ms" "m = rewritten S R ms ! i" using m by (auto simp: in_set_conv_nth)
    have "\<not> in_view m" if "exclude_from_context m" using that by (simp add: in_view_def)
    then show ?thesis using sh [OF i(1), of S] i(2) by auto
  qed
  then show "conv_inv (compact S R t ms)" using s unfolding conv_inv_def compact_eq by (auto dest: in_set_takeD in_set_dropD)
qed


section \<open>A compacted conversation\<close>

definition listing_call :: message where
  "listing_call = \<lparr>m_content = None, m_reasoning = None, m_signature = None, m_items = None,
     m_tool_calls = Some [\<lparr>cb_id = ''c1'', cb_name = ''ls'', cb_arguments = [], cb_thought = None, cb_signature = None\<rparr>],
     m_redacted = [], m_raw_blocks = None, x_usage = None, x_finish_reason = None, x_dropped = []\<rparr>"

definition short_talk :: "chat_msg list" where
  "short_talk = [new_msg HumanMsg (Some ''hi''), new_msg (AssistantMsg listing_call) None, new_msg (ToolMsg ''c1'' None) (Some ''ok''),
     new_msg HumanMsg (Some ''go'')]"

definition keep_one :: summarization_hook where
  "keep_one = \<lparr>prompt_token_threshold = 10, keep_last_assistants = 1, summary_prompt = ''Sum up'', min_messages_since = 4,
     support_interrupt = True, messages_at_last_summary = 0, pending_summary = None\<rparr>"

definition brief_summariser :: "chat_msg list \<Rightarrow> stream_chunk provider" where
  "brief_summariser ms = \<lparr>attempts = \<lambda>_. ([say ''greeting''], None), set_before = \<lambda>_. False, set_during_sleep = \<lambda>_. False,
     draws = \<lambda>_. 0, label = [], hooked = False\<rparr>"

definition short_talk_compacted :: "chat_msg list" where
  "short_talk_compacted = [(new_msg HumanMsg (Some ''hi''))\<lparr>exclude_from_context := True\<rparr>, summary_msg ''greeting''] @ tl short_talk"

lemma summarise_short_talk:
  "summarise_inner (\<lambda>_. None) brief_summariser False [] [] keep_one short_talk =
     Inr (keep_one\<lparr>messages_at_last_summary := 5\<rparr>, short_talk_compacted, [])"
  by code_simp

lemma short_talk_inv: "conv_inv short_talk"
  by (auto simp: short_talk_def conv_inv_def plain_exchange_def is_system_def new_msg_def)

theorem compaction_keeps_exchanges_witness:
  "orphan_results short_talk_compacted \<subseteq> orphan_results short_talk \<and> open_calls short_talk_compacted \<subseteq> open_calls short_talk"
  by (rule compaction_keeps_exchanges [OF summarise_short_talk]) (use short_talk_inv in \<open>simp add: conv_inv_def\<close>)

definition talk_positions :: "(int \<times> nat) list" where
  "talk_positions = [(1024, 1), (1536, 5), (2048, 2), (3072, 3), (4096, 4)]"


text \<open>
  A \<open>skill\<close> call whose arguments decode to something other than an object makes every compaction of
  the conversation fail with an \<open>AttributeError\<close>, since \<open>args.get\<close> is called outside the guarded
  block; the call passes the filter of half-formed calls because its arguments are valid JSON.
\<close>

lemma list_arguments_break_compaction:
  assumes "i \<in> set (eligible ms)" "tc \<in> set (calls_of (ms ! i))" "cb_id tc \<noteq> []" "cb_name tc = ''skill''" "cb_arguments tc = ''[]''"
    and "loads ''[]'' = Some (JArr [])"
  shows "summarise_inner loads f sess agent sp h ms = Inl ()"
proof -
  have bad: "skill_step loads s (i, tc) = Inl ()" for s using assms by (simp add: skill_step_def skill_of_call_def)
  have "fold_err (skill_step loads) s xs = Inl ()" if "(i, tc) \<in> set xs" for s xs
    using that
  proof (induction xs arbitrary: s)
    case (Cons x xs)
    then show ?case using bad by (cases "skill_step loads s x") auto
  qed simp
  moreover have "(i, tc) \<in> set (concat (map (\<lambda>i. map (Pair i) (calls_of (ms ! i))) (eligible ms)))" using assms(1,2) by auto
  ultimately have "skill_tool_pair_ids loads ms (eligible ms) = Inl ()" by (simp add: skill_tool_pair_ids_def)
  moreover have "eligible ms \<noteq> []" using assms(1) by auto
  ultimately show ?thesis by (simp add: summarise_inner_def Let_def)
qed

end
