(* ===== verification/AgentLoopProps.thy ===== *)
theory AgentLoopProps
  imports AgentLoop SummaryReload
begin

text \<open>
  Properties of the agent loop: the number of model calls is bounded, every request the model is
  sent has its tool calls and results paired, and no aborted empty response passes for an answer.
\<close>

section \<open>The number of model calls\<close>

lemma after_reply_requests: "ls_requests (snd (after_reply env k m s)) = ls_requests s"
  by (simp add: after_reply_def finish_model_iteration_def handle_finish_reason_def tool_phase_def append_assistant_def sync_def Let_def
      split: loop_action.splits prod.splits dispatch_end.splits if_splits)

lemma loop_pass_requests: "length (ls_requests (snd (loop_pass env k s))) \<le> Suc (length (ls_requests s))"
  using after_reply_requests [of env k]
  by (auto simp: loop_pass_def before_model_only_def call_model_with_resume_def sync_def Let_def
      split: loop_action.splits prod.splits model_call.splits sum.splits)

lemma agent_loop_requests:
  "provider_resume_attempts s \<le> 3 \<Longrightarrow>
     length (ls_requests (snd (agent_loop env k s))) \<le>
       length (ls_requests s) + (4 * (max_iterations env - iteration s) - provider_resume_attempts s)"
proof (induction env k s rule: agent_loop.induct)
  case (1 env k s)
  show ?case
  proof (cases "iteration s \<ge> max_iterations env")
    case False
    obtain a s' where p: "loop_pass env k s = (a, s')" by force
    have r: "length (ls_requests s') \<le> Suc (length (ls_requests s))" using loop_pass_requests [of env k s] p by simp
    show ?thesis
    proof (cases "a = ContinueLoop")
      case True
      note pr = loop_pass_progress [of env k s s', unfolded MAX_PROVIDER_RESUME_ATTEMPTS_def]
      then have "length (ls_requests (snd (agent_loop env (k + 1) s'))) \<le>
          length (ls_requests s') + (4 * (max_iterations env - iteration s') - provider_resume_attempts s')"
        using 1(1) [OF False p [symmetric] True] p True by auto
      then show ?thesis using r pr p True False 1(2) by (auto simp: agent_loop.simps [of env k s])
    next
      case other: False
      then show ?thesis using r p False 1(2) by (cases a) (auto simp: agent_loop.simps [of env k s])
    qed
  qed (simp add: agent_loop.simps)
qed

text \<open>
  C14. The loop ends: a run sends at most four requests per iteration to the model, one and the three
  that resume it after a network failure, however the provider, the tools, the hooks and interrupts behave.
\<close>

theorem model_calls_bounded: "length (ls_requests (snd (agent_run env h ms))) \<le> 4 * max_iterations env"
  using agent_loop_requests [of "run_start_state h ms" env 0]
  by (auto simp: agent_run_def finalize_run_def run_start_state_def sync_def split: prod.split option.split)

section \<open>Calls and answers in a conversation\<close>

definition called_ids :: "chat_msg list \<Rightarrow> string set" where
  "called_ids ms = (\<Union>m \<in> set (messages_for_llm ms). call_ids_of m)"

definition answered_ids :: "chat_msg list \<Rightarrow> string set" where
  "answered_ids ms = {t. \<exists>m \<in> set (messages_for_llm ms). answers m = Some t}"

lemma open_orphan_eq:
  "open_calls ms = called_ids ms - answered_ids ms - {[]}" "orphan_results ms = answered_ids ms - called_ids ms - {[]}"
  by (auto simp: open_calls_def orphan_results_def called_ids_def answered_ids_def)

lemma messages_for_llm_append [simp]: "messages_for_llm (xs @ ys) = messages_for_llm xs @ messages_for_llm ys"
  by (simp add: messages_for_llm_def)

lemma messages_for_llm_idem [simp]: "messages_for_llm (messages_for_llm xs) = messages_for_llm xs"
  by (simp add: messages_for_llm_def)

lemma ids_append [simp]:
  "called_ids (xs @ ys) = called_ids xs \<union> called_ids ys" "answered_ids (xs @ ys) = answered_ids xs \<union> answered_ids ys"
  by (auto simp: called_ids_def answered_ids_def)

lemma ids_view [simp]: "called_ids (messages_for_llm ms) = called_ids ms" "answered_ids (messages_for_llm ms) = answered_ids ms"
  by (simp_all add: called_ids_def answered_ids_def)

lemma tool_message_simps [simp]:
  "answers (tool_message tc r) = Some (cb_id tc)" "calls_of (tool_message tc r) = []" "in_view (tool_message tc r)"
  "plain_exchange (tool_message tc r)"
  by (simp_all add: tool_message_def new_msg_def answers_def calls_of_def in_view_def is_system_def plain_exchange_def)

lemma ids_tool_messages [simp]:
  "called_ids (map (\<lambda>tc. tool_message tc (f tc)) tcs) = {}" "answered_ids (map (\<lambda>tc. tool_message tc (f tc)) tcs) = cb_id ` set tcs"
  "called_ids [tool_message tc r] = {}" "answered_ids [tool_message tc r] = {cb_id tc}"
  by (auto simp: called_ids_def answered_ids_def messages_for_llm_def)

lemma human_simps [simp]: "called_ids [m] = {}" "answered_ids [m] = {}" "plain_exchange m" if "c_body m = HumanMsg" for m
  using that by (auto simp: called_ids_def answered_ids_def messages_for_llm_def calls_of_def answers_def plain_exchange_def)

lemma assistant_simps [simp]:
  "calls_of (assistant_message m) = tool_call_list m" "in_view (assistant_message m)" "answers (assistant_message m) = None"
  "plain_exchange (assistant_message m)" "called_ids [assistant_message m] = cb_id ` set (tool_call_list m)" "answered_ids [assistant_message m] = {}"
  by (auto simp: assistant_message_def new_msg_def calls_of_def answers_def in_view_def is_system_def plain_exchange_def tool_call_list_def
      called_ids_def answered_ids_def messages_for_llm_def)

definition exchanges_whole :: "chat_msg list \<Rightarrow> bool" where
  "exchanges_whole ms \<longleftrightarrow> open_calls ms = {} \<and> orphan_results ms = {} \<and> (\<forall>m \<in> set ms. plain_exchange m)"

section \<open>The contract of a hook\<close>

text \<open>What the loop relies on: a hook that changes the conversation keeps the invariant of it.\<close>

locale conversation_hook =
  fixes hook :: hook_fun and good :: "chat_msg list \<Rightarrow> bool"
  assumes keeps: "good ms \<Longrightarrow> hook k (h, ms) = Inr (h', ms') \<Longrightarrow> good ms'"

lemma run_hooks_keep:
  assumes "\<And>hook. hook \<in> set hooks \<Longrightarrow> conversation_hook hook good" "good ms" "run_hooks hooks k (h, ms) = Inr (h', ms')"
  shows "good ms'"
  using assms unfolding run_hooks_def
proof (induction hooks arbitrary: h ms)
  case (Cons hook hooks)
  then obtain h1 ms1 where "hook k (h, ms) = Inr (h1, ms1)" "fold_err (\<lambda>x hook. hook k x) (h1, ms1) hooks = Inr (h', ms')"
    by (auto split: sum.splits)
  then show ?case using Cons.IH [of ms1 h1] Cons.prems conversation_hook.keeps [of hook good] by auto
qed simp

interpretation base: conversation_hook base_hook good for good
  by unfold_locales (simp add: base_hook_def)

interpretation trigger: conversation_hook "summary_trigger run force tokens" good for run force tokens good
  by unfold_locales (simp add: summary_trigger_def)

lemma queued_message_human [simp]: "c_body (queued_message r) = HumanMsg"
  by (simp add: queued_message_def new_msg_def)

lemma ids_humans: "(\<And>m. m \<in> set ms \<Longrightarrow> c_body m = HumanMsg) \<Longrightarrow> called_ids ms = {} \<and> answered_ids ms = {} \<and> (\<forall>m \<in> set ms. plain_exchange m)"
  by (auto simp: called_ids_def answered_ids_def messages_for_llm_def calls_of_def answers_def plain_exchange_def)

interpretation injection: conversation_hook "queued_injection sid payload enabled" exchanges_whole for sid payload enabled
proof unfold_locales
  fix ms k h h' ms'
  assume "exchanges_whole ms" "queued_injection sid payload enabled k (h, ms) = Inr (h', ms')"
  then show "exchanges_whole ms'"
    using ids_humans [of "map queued_message (fst (pop_queued_user_messages sid (hs_db h)))"]
    by (fastforce simp: queued_injection_def exchanges_whole_def open_orphan_eq split: if_splits prod.splits)
qed

lemma compact_plain: "\<forall>m \<in> set ms. plain_exchange m \<Longrightarrow> \<forall>m \<in> set (compact S R t ms). plain_exchange m"
proof -
  assume p: "\<forall>m \<in> set ms. plain_exchange m"
  have "plain_exchange (rewritten S R ms ! i)" if "i < length ms" for i
    using p that rewritten_fields(2,3,5) [OF that, of S R] hidden_rewritten [OF that, of S R] by (simp add: plain_exchange_def)
  then have "\<forall>m \<in> set (rewritten S R ms). plain_exchange m" by (auto simp: in_set_conv_nth)
  moreover have "plain_exchange (summary_msg t)" by (simp add: plain_exchange_def)
  ultimately show ?thesis unfolding compact_eq by (auto dest: in_set_takeD in_set_dropD)
qed

interpretation compaction: conversation_hook "summary_wrapper loads summariser sess agent sp run" exchanges_whole for loads summariser sess agent sp run
proof unfold_locales
  fix ms k h h' ms'
  assume w: "exchanges_whole ms" and "summary_wrapper loads summariser sess agent sp run k (h, ms) = Inr (h', ms')"
  then consider "ms' = ms" | sh sh' evs where "summarise_inner loads (summariser k) sess agent sp sh ms = Inr (sh', ms', evs)"
    by (auto simp: summary_wrapper_def summary_wrap_model_call_def split: if_splits sum.splits prod.splits)
  then show "exchanges_whole ms'"
  proof cases
    case (2 sh sh' evs)
    then show ?thesis
    proof (cases rule: summarise_cases)
      case (2 R t)
      then show ?thesis
        using compact_exchanges [of ms "to_summarise_ids (keep_last_assistants sh) ms" R t] to_summarise_closed(1) retained_closed(1) compact_plain w
        unfolding exchanges_whole_def by blast
    qed (use w in simp)
  qed (use w in simp)
qed

section \<open>Dispatch answers the calls\<close>

definition only_questions_suspend :: "(call_buffer \<Rightarrow> nat + string) \<Rightarrow> bool" where
  "only_questions_suspend run \<longleftrightarrow> (\<forall>tc q. cb_name tc \<noteq> ASK_USER \<longrightarrow> run tc \<noteq> Inl q)"

lemma task_result_got: "only_questions_suspend run \<Longrightarrow> cb_name tc \<noteq> ASK_USER \<Longrightarrow> \<exists>r. task_result run tc = Got tc r"
  by (auto simp: task_result_def only_questions_suspend_def split: sum.split)

lemma gather_got:
  assumes "only_questions_suspend run" "\<forall>tc \<in> set tcs. cb_name tc \<noteq> ASK_USER"
  shows "list_all2 (\<lambda>g tc. \<exists>r. g = Got tc r) (gather_or_cancel mode run tcs) tcs"
  using assms task_result_got [OF assms(1)]
  by (cases mode) (auto simp: gather_or_cancel_def list_all2_conv_all_nth nth_enumerate_eq split: task_fate.split)

lemma append_results:
  assumes "list_all2 (\<lambda>g tc. \<exists>r. g = Got tc r) gs tcs"
  shows "\<exists>rs. append_tool_results gs ms = ms @ map2 tool_message tcs rs \<and> length rs = length tcs"
  using assms
proof (induction gs tcs rule: list_all2_induct)
  case (Cons g gs tc tcs)
  then obtain r rs where "g = Got tc r" "append_tool_results gs ms = ms @ map2 tool_message tcs rs" "length rs = length tcs" by auto
  then show ?case by (intro exI [of _ "r # rs"]) (simp add: append_tool_results_def)
qed (simp add: append_tool_results_def)

lemma ids_map2 [simp]:
  assumes "length rs = length tcs"
  shows "called_ids (map2 tool_message tcs rs) = {}" "answered_ids (map2 tool_message tcs rs) = cb_id ` set tcs"
    "\<forall>m \<in> set (map2 tool_message tcs rs). plain_exchange m"
proof -
  have "set (map fst (zip tcs rs)) = set tcs" using assms by simp
  then show "answered_ids (map2 tool_message tcs rs) = cb_id ` set tcs"
    by (force simp: answered_ids_def messages_for_llm_def)
qed (auto simp: called_ids_def messages_for_llm_def)

text \<open>Merging questions changes the arguments of a call and nothing else.\<close>

lemma merge_keeps [simp]:
  "cb_id (merge_question_calls loads dumps p ds) = cb_id p" "cb_name (merge_question_calls loads dumps p ds) = cb_name p"
  by (simp_all add: merge_question_calls_def split: option.split)

lemma replace_first_ids:
  "filter P cs = c # ds \<Longrightarrow> cb_id c' = cb_id c \<Longrightarrow> map cb_id (replace_first P c' cs) = map cb_id cs"
  by (induction cs) (auto split: if_splits)

lemma rewrite_call_same:
  assumes "filter (\<lambda>c. cb_name c = ASK_USER) (calls_of m) = c # ds" "cb_id c' = cb_id c"
  shows "call_ids_of (rewrite_call c' m) = call_ids_of m" "answers (rewrite_call c' m) = answers m" "in_view (rewrite_call c' m) = in_view m"
    "plain_exchange m \<Longrightarrow> plain_exchange (rewrite_call c' m)"
proof -
  obtain a cs where a: "c_body m = AssistantMsg a" "m_tool_calls a = Some cs"
    using assms(1) by (auto simp: calls_of_def split: chat_body.splits option.splits)
  then have cs: "calls_of m = cs" by (simp add: calls_of_def)
  have r: "rewrite_call c' m = m\<lparr>c_body := AssistantMsg (a\<lparr>m_tool_calls := Some (replace_first (\<lambda>c. cb_name c = ASK_USER) c' cs)\<rparr>)\<rparr>"
    using a by (simp add: rewrite_call_def)
  then have c: "calls_of (rewrite_call c' m) = replace_first (\<lambda>c. cb_name c = ASK_USER) c' cs" by (simp add: calls_of_def)
  show "call_ids_of (rewrite_call c' m) = call_ids_of m"
    using arg_cong [OF replace_first_ids [OF assms(1) [unfolded cs] assms(2)], of set] c cs by simp
  show "answers (rewrite_call c' m) = answers m" "in_view (rewrite_call c' m) = in_view m" using r a by (simp_all add: answers_def in_view_def is_system_def)
  have "calls_of m \<noteq> []" using assms(1) by auto
  then show "plain_exchange (rewrite_call c' m)" if "plain_exchange m" using that r by (simp add: plain_exchange_def)
qed

lemma ids_single: "called_ids [m] = (if in_view m then call_ids_of m else {})" "answered_ids [m] = (if in_view m then set_option (answers m) else {})"
  by (auto simp: called_ids_def answered_ids_def messages_for_llm_def)

definition ask_ids :: "message option \<Rightarrow> string set" where
  "ask_ids mo = (case mo of None \<Rightarrow> {} | Some m \<Rightarrow> cb_id ` set (filter (\<lambda>tc. cb_name tc = ASK_USER) (tool_call_list m)))"

definition exchanges_but :: "string set \<Rightarrow> chat_msg list \<Rightarrow> bool" where
  "exchanges_but X ms \<longleftrightarrow> open_calls ms \<subseteq> X \<and> orphan_results ms = {} \<and> (\<forall>m \<in> set ms. plain_exchange m)"

lemma exchanges_but_empty: "exchanges_but {} ms \<longleftrightarrow> exchanges_whole ms"
  by (auto simp: exchanges_but_def exchanges_whole_def)

lemma exchanges_but_mono: "exchanges_whole ms \<Longrightarrow> exchanges_but X ms"
  by (auto simp: exchanges_but_def exchanges_whole_def)

text \<open>The conversation after the calls of a response have been answered up to \<open>X\<close>.\<close>

lemma answered_conversation:
  assumes us: "exchanges_whole us" and a: "in_view a" "call_ids_of a = C" "answers a = None" "plain_exchange a"
    and T: "called_ids T = {}" "answered_ids T = A" "A \<subseteq> C" "C - A \<subseteq> X" "\<forall>m \<in> set T. plain_exchange m"
  shows "exchanges_but X (us @ a # T)"
proof -
  have e: "us @ a # T = us @ [a] @ T" by simp
  have "called_ids (us @ a # T) = called_ids us \<union> C" "answered_ids (us @ a # T) = answered_ids us \<union> A"
    unfolding e ids_append ids_single using a T by auto
  then show ?thesis using us a T unfolding exchanges_but_def exchanges_whole_def open_orphan_eq by auto
qed

lemma dispatch_exchanges:
  assumes run: "only_questions_suspend run" and us: "exchanges_whole us"
    and d: "dispatch_tools loads dumps run mode is_set (length us) (tool_call_list m) (us @ [assistant_message m]) = (ended, ms', synced)"
  shows "exchanges_but (if ended = DispatchOk then {} else ask_ids (Some m)) ms'"
proof -
  let ?tcs = "tool_call_list m" and ?am = "assistant_message m"
  let ?ask = "filter (\<lambda>tc. cb_name tc = ASK_USER) ?tcs" and ?other = "filter (\<lambda>tc. cb_name tc \<noteq> ASK_USER) ?tcs"
  have tcs: "cb_id ` set ?tcs = cb_id ` set ?ask \<union> cb_id ` set ?other" by auto
  obtain rs where rs: "append_tool_results (gather_or_cancel mode run ?other) (us @ [?am]) = us @ ?am # map2 tool_message ?other rs"
    and len: "length rs = length ?other"
    using append_results [OF gather_got [OF run, of ?other mode], of "us @ [?am]"] by auto
  note T = ids_map2 [OF len]
  show ?thesis
  proof (cases "ms' = us @ ?am # map2 tool_message ?other rs")
    case True
    have "?ask = [] \<or> ended \<noteq> DispatchOk"
    proof (rule ccontr)
      assume "\<not> ?thesis"
      then obtain p ds where "?ask = p # ds" "ended = DispatchOk" by (cases ?ask) auto
      then have "length ms' \<noteq> length (us @ ?am # map2 tool_message ?other rs)"
        using d rs by (auto simp: dispatch_tools_def dispatch_question_def Let_def split: if_splits sum.splits gather_mode.splits)
      then show False using True by simp
    qed
    then show ?thesis unfolding True
      by (intro answered_conversation [OF us _ _ _ _ T(1,2)]) (use tcs T(3) in \<open>auto simp: ask_ids_def filter_empty_conv\<close>)
  next
    case False
    then obtain c ds where ask: "?ask = c # ds" using d rs by (cases ?ask) (auto simp: dispatch_tools_def Let_def split: if_splits)
    define p where "p = (if ds = [] then c else merge_question_calls loads dumps c ds)"
    have p: "cb_id p = cb_id c" by (simp add: p_def)
    let ?D = "map (\<lambda>tc. tool_message tc ASK_MERGED_INTO_PRIMARY) ds"
    have q: "dispatch_question loads dumps run (length us) (c # ds) (us @ ?am # map2 tool_message ?other rs) = (ended, ms', synced)"
      using d rs ask False by (auto simp: dispatch_tools_def Let_def split: if_splits)
    note w = rewrite_call_same [of ?am c ds p, simplified, OF ask p]
    have up: "(us @ ?am # map2 tool_message ?other rs)[length us := rewrite_call p ?am] = us @ rewrite_call p ?am # map2 tool_message ?other rs"
      by simp
    consider (susp) q where "ended = DispatchSuspended q (cb_id p)" "ms' = us @ rewrite_call p ?am # (map2 tool_message ?other rs @ ?D)"
      | (ok) r where "ended = DispatchOk" "ms' = us @ rewrite_call p ?am # (map2 tool_message ?other rs @ ?D @ [tool_message p r])"
      using q by (auto simp: dispatch_question_def Let_def p_def [symmetric] up split: sum.splits)
    then show ?thesis
    proof cases
      case susp
      let ?T = "map2 tool_message ?other rs @ ?D"
      have "called_ids ?T = {}" "answered_ids ?T = cb_id ` set ?other \<union> cb_id ` set ds" "\<forall>m \<in> set ?T. plain_exchange m" using T by auto
      moreover have "cb_id ` set ?other \<union> cb_id ` set ds \<subseteq> cb_id ` set ?tcs" "cb_id ` set ?tcs - (cb_id ` set ?other \<union> cb_id ` set ds) \<subseteq> ask_ids (Some m)"
        using tcs ask by (auto simp: ask_ids_def)
      ultimately show ?thesis unfolding susp using answered_conversation [OF us w(3) w(1) w(2) w(4), of ?T] by simp
    next
      case ok
      let ?T = "map2 tool_message ?other rs @ ?D @ [tool_message p r]"
      have "called_ids ?T = {}" "answered_ids ?T = cb_id ` set ?tcs" "\<forall>m \<in> set ?T. plain_exchange m" using T tcs ask p by auto
      then show ?thesis unfolding ok using answered_conversation [OF us w(3) w(1) w(2) w(4), of ?T] by simp
    qed
  qed
qed

section \<open>A pass of the loop\<close>

definition requests_whole :: "loop_state \<Rightarrow> bool" where
  "requests_whole s \<longleftrightarrow> (\<forall>r \<in> set (ls_requests s). open_calls r = {} \<and> orphan_results r = {})"

lemma whole_append:
  "exchanges_whole ms \<Longrightarrow> tool_call_list m = [] \<Longrightarrow> exchanges_whole (ms @ [assistant_message m])"
  "exchanges_whole ms \<Longrightarrow> c_body x = HumanMsg \<Longrightarrow> exchanges_whole (ms @ [x])"
  by (auto simp: exchanges_whole_def open_orphan_eq)

lemma skip_exchanges:
  "exchanges_whole us \<Longrightarrow> exchanges_whole (skip_tool_dispatch (tool_call_list m) (us @ [assistant_message m]))"
  using answered_conversation [of us "assistant_message m" _ "map (\<lambda>tc. tool_message tc ''Cancelled by user.'') (tool_call_list m)" _ "{}"]
  by (auto simp: skip_tool_dispatch_def exchanges_but_empty)

lemma tool_phase_exchanges:
  assumes "only_questions_suspend (tool_chain env)" "exchanges_whole us" "ls_messages s = us @ [assistant_message m]" "last_assistant s = Some m"
    and p: "tool_phase env k m s = (a, s')"
  shows "exchanges_but (if a = ContinueLoop then {} else ask_ids (last_assistant s')) (ls_messages s')" "ls_requests s' = ls_requests s"
proof -
  obtain ended ms synced where d: "dispatch_tools (le_loads env) (le_dumps env) (tool_chain env) (le_gather env k) (set_after_gather env k)
      (length us) (tool_call_list m) (us @ [assistant_message m]) = (ended, ms, synced)"
    by (metis prod_cases3)
  note x = dispatch_exchanges [OF assms(1,2) d]
  show "exchanges_but (if a = ContinueLoop then {} else ask_ids (last_assistant s')) (ls_messages s')"
    using p x d assms(3,4) skip_exchanges [OF assms(2), of m] exchanges_but_mono
    by (auto simp: tool_phase_def sync_def Let_def exchanges_but_empty split: if_splits dispatch_end.splits)
  show "ls_requests s' = ls_requests s"
    using p d assms(3) by (auto simp: tool_phase_def sync_def Let_def split: if_splits dispatch_end.splits)
qed

lemma finish_whole:
  assumes "exchanges_whole (ls_messages s)" "tool_call_list m = []" "finish_model_iteration m s = (a, s')"
  shows "exchanges_whole (ls_messages s')"
  using assms(1,3) whole_append(1) [OF assms(1,2)]
  by (auto simp: finish_model_iteration_def append_assistant_def Let_def split: if_splits)

lemma handle_whole:
  assumes "exchanges_whole (ls_messages s)" "handle_finish_reason m s = (a, s')"
  shows "exchanges_whole (ls_messages s')"
  using assms(2) assms(1) whole_append(2) [OF assms(1)]
  by (auto simp: handle_finish_reason_def sync_def new_msg_def split: if_splits)

lemma after_reply_exchanges:
  assumes "only_questions_suspend (tool_chain env)" "exchanges_whole (ls_messages s)" and p: "after_reply env k m s = (a, s')"
  shows "exchanges_but (if a = ContinueLoop then {} else ask_ids (last_assistant s')) (ls_messages s')"
proof (cases "tool_call_list m = []")
  case True
  obtain b t where f: "finish_model_iteration m s = (b, t)" by force
  have "exchanges_whole (ls_messages t)" by (rule finish_whole [OF assms(2) True f])
  then have t: "exchanges_whole (ls_messages t)" "exchanges_whole (ls_messages (sync t))" by (simp_all add: sync_def)
  obtain c u where g: "handle_finish_reason m (sync t) = (c, u)" by force
  have "exchanges_whole (ls_messages u)" by (rule handle_whole [OF t(2) g])
  moreover have "c \<noteq> Proceed" using g True by (auto simp: handle_finish_reason_def split: if_splits)
  ultimately have "exchanges_whole (ls_messages s')" using p f g t(1) by (auto simp: after_reply_def split: loop_action.splits)
  then show ?thesis by (rule exchanges_but_mono)
next
  case False
  then have pay: "has_payload m" by (auto simp: has_payload_def tool_call_list_def split: option.splits)
  define t where "t = sync (append_assistant m (s\<lparr>empty_response_retries := 0\<rparr>))"
  have "tool_phase env k m t = (a, s')"
    using p pay False by (simp add: after_reply_def finish_model_iteration_def handle_finish_reason_def t_def)
  from tool_phase_exchanges(1) [OF assms(1,2) _ _ this] show ?thesis by (simp add: t_def sync_def append_assistant_def)
qed

lemma call_model_keeps:
  assumes "\<And>hook. hook \<in> set (le_wrap_model env) \<Longrightarrow> conversation_hook hook good"
    and w: "good (ls_messages s)" and c: "call_model_with_resume env k s = (c, s')"
  shows "good (ls_messages s') \<and> (ls_requests s' = ls_requests s \<or> (\<exists>ms. good ms \<and> ls_requests s' = ls_requests s @ [messages_for_llm ms]))"
proof (cases "run_hooks (le_wrap_model env) k (ls_hooks s, ls_messages s)")
  case (Inl e)
  then show ?thesis using c w by (simp add: call_model_with_resume_def)
next
  case (Inr x)
  obtain h ms where x: "x = (h, ms)" by force
  have "good ms" by (rule run_hooks_keep [where good = good, OF assms(1) w Inr [unfolded x]])
  then show ?thesis using c Inr x
    by (auto simp: call_model_with_resume_def Let_def split: sum.splits prod.splits if_splits)
qed

text \<open>
  What a pass does to an invariant of the conversation that the hooks keep: it still holds, or the
  pass has gone on to a reply in a state where it held. A request is sent in such a state too.
\<close>

lemma loop_pass_keeps:
  assumes hooks: "\<And>hook. hook \<in> set (le_before_model env) \<union> set (le_wrap_model env) \<Longrightarrow> conversation_hook hook good"
    and w: "good (ls_messages s)" and p: "loop_pass env k s = (a, s')"
  shows "(good (ls_messages s') \<or> (\<exists>m v. good (ls_messages v) \<and> after_reply env k m v = (a, s'))) \<and>
    (ls_requests s' = ls_requests s \<or> (\<exists>ms. good ms \<and> ls_requests s' = ls_requests s @ [messages_for_llm ms]))"
proof (cases "set_at_top env k \<or> (\<exists>e. run_hooks (le_before_model env) k (ls_hooks s, ls_messages s) = Inl e)")
  case True
  then show ?thesis using p w by (auto simp: loop_pass_def Let_def split: if_splits)
next
  case False
  then obtain h ms where b: "\<not> set_at_top env k" "run_hooks (le_before_model env) k (ls_hooks s, ls_messages s) = Inr (h, ms)"
    by (metis surj_pair sum.exhaust)
  define u where "u = sync (s\<lparr>iteration := iteration s + 1, ls_hooks := h, ls_messages := ms\<rparr>)"
  have "good ms" by (rule run_hooks_keep [where good = good, OF _ w b(2)]) (use hooks in blast)
  then have u: "good (ls_messages u)" "ls_requests u = ls_requests s" by (simp_all add: u_def sync_def)
  show ?thesis
  proof (cases "stop_after_before_model env")
    case True
    have "good ms'" if "run_hooks (le_wrap_model env) k (ls_hooks u, ls_messages u) = Inr (h', ms')" for h' ms'
      by (rule run_hooks_keep [where good = good, OF _ u(1) that]) (use hooks in blast)
    moreover have "before_model_only env k u = (a, s')" using p b True by (simp add: loop_pass_def u_def Let_def)
    ultimately show ?thesis using u by (auto simp: before_model_only_def sync_def split: sum.splits prod.splits)
  next
    case False
    obtain c v where c: "call_model_with_resume env k u = (c, v)" by force
    have v: "good (ls_messages v) \<and> (ls_requests v = ls_requests u \<or> (\<exists>ms. good ms \<and> ls_requests v = ls_requests u @ [messages_for_llm ms]))"
      by (rule call_model_keeps [where good = good, OF _ u(1) c]) (use hooks in blast)
    have "(case c of Reply m \<Rightarrow> after_reply env k m v | BreakOff \<Rightarrow> (BreakLoop, v)
        | Resume \<Rightarrow> (ContinueLoop, v\<lparr>iteration := iteration v - 1\<rparr>) | CallRaises e \<Rightarrow> (RaiseError e, v)) = (a, s')"
      using p b False c by (simp add: loop_pass_def u_def Let_def)
    then show ?thesis using v u(2) after_reply_requests [of env k _ v]
      by (cases c) (auto, metis snd_conv, metis snd_conv)
  qed
qed

lemma loop_pass_exchanges:
  assumes hooks: "\<And>hook. hook \<in> set (le_before_model env) \<union> set (le_wrap_model env) \<Longrightarrow> conversation_hook hook exchanges_whole"
    and tools: "only_questions_suspend (tool_chain env)"
    and w: "exchanges_whole (ls_messages s)" "requests_whole s" and p: "loop_pass env k s = (a, s')"
  shows "requests_whole s'" "exchanges_but (if a = ContinueLoop then {} else ask_ids (last_assistant s')) (ls_messages s')"
proof -
  note k = loop_pass_keeps [where good = exchanges_whole, OF hooks w(1) p]
  have "open_calls (messages_for_llm ms) = {} \<and> orphan_results (messages_for_llm ms) = {}" if "exchanges_whole ms" for ms
    using that by (simp add: exchanges_whole_def open_orphan_eq)
  then show "requests_whole s'" using k w(2) by (auto simp: requests_whole_def)
  show "exchanges_but (if a = ContinueLoop then {} else ask_ids (last_assistant s')) (ls_messages s')"
    using k exchanges_but_mono after_reply_exchanges [OF tools] by blast
qed

lemma agent_loop_exchanges:
  assumes "\<And>hook. hook \<in> set (le_before_model env) \<union> set (le_wrap_model env) \<Longrightarrow> conversation_hook hook exchanges_whole"
    and "only_questions_suspend (tool_chain env)"
  shows "exchanges_whole (ls_messages s) \<Longrightarrow> requests_whole s \<Longrightarrow> agent_loop env k s = (e, s') \<Longrightarrow>
    requests_whole s' \<and> exchanges_but (ask_ids (last_assistant s')) (ls_messages s')"
  using assms
proof (induction env k s rule: agent_loop.induct)
  case (1 env k s)
  obtain a t where p: "loop_pass env k s = (a, t)" by force
  note x = loop_pass_exchanges [OF 1(5,6) 1(2,3) p]
  show ?case
  proof (cases "iteration s \<ge> max_iterations env")
    case True
    then show ?thesis using 1(2-4) exchanges_but_mono by (auto simp: agent_loop.simps [of env k s])
  next
    case False
    show ?thesis
    proof (cases "a = ContinueLoop")
      case True
      then have "agent_loop env (k + 1) t = (e, s')" using 1(4) False p by (simp add: agent_loop.simps [of env k s])
      then show ?thesis using 1(1) [OF False p [symmetric] True] x True 1(5,6) by (simp add: exchanges_but_empty)
    next
      case other: False
      then show ?thesis using 1(4) False p x by (cases a) (auto simp: agent_loop.simps [of env k s])
    qed
  qed
qed

text \<open>
  Every request the model is sent is well-paired: if the conversation starts without open tool
  calls and stray results, the hooks keep it so and only \<open>ask_user\<close> suspends, then in every message list
  sent to the provider each tool call has its result and each result its call; and when the run is
  over, however it ends, only \<open>ask_user\<close> calls of the last response can be without a result.
\<close>

lemma requests_paired:
  assumes "\<forall>hook \<in> set (le_before_model env) \<union> set (le_wrap_model env). conversation_hook hook exchanges_whole"
    and "only_questions_suspend (tool_chain env)" "exchanges_whole (filter (\<lambda>m. \<not> is_system m) ms)"
    and "agent_run env h ms = (e, s)"
  shows "(\<forall>r \<in> set (ls_requests s). open_calls r = {} \<and> orphan_results r = {}) \<and>
    open_calls (ls_messages s) \<subseteq> ask_ids (last_assistant s) \<and> orphan_results (ls_messages s) = {}"
proof -
  obtain e' t where l: "agent_loop env 0 (run_start_state h ms) = (e', t)" by force
  have "requests_whole t \<and> exchanges_but (ask_ids (last_assistant t)) (ls_messages t)"
    using agent_loop_exchanges [OF _ assms(2) _ _ l] assms(1,3) by (auto simp: run_start_state_def requests_whole_def)
  moreover have "ls_requests s = ls_requests t" "ls_messages s = ls_messages t" "last_assistant s = last_assistant t"
    using assms(4) l by (auto simp: agent_run_def finalize_run_def sync_def split: option.splits)
  ultimately show ?thesis by (simp add: requests_whole_def exchanges_but_def)
qed

section \<open>No silent answer\<close>

definition delivered :: "chat_msg \<Rightarrow> bool" where
  "delivered m \<longleftrightarrow> (case c_body m of AssistantMsg a \<Rightarrow> has_payload a \<or> x_dropped a \<noteq> [] \<or> \<not> aborted a | _ \<Rightarrow> True)"

definition all_delivered :: "chat_msg list \<Rightarrow> bool" where
  "all_delivered ms \<longleftrightarrow> (\<forall>m \<in> set ms. delivered m)"

lemma all_delivered_append [simp]: "all_delivered (xs @ ys) \<longleftrightarrow> all_delivered xs \<and> all_delivered ys"
  "all_delivered [] \<longleftrightarrow> True" "all_delivered (x # xs) \<longleftrightarrow> delivered x \<and> all_delivered xs"
  by (auto simp: all_delivered_def)

lemma delivered_simps [simp]:
  "delivered (tool_message tc r)" "delivered (new_msg HumanMsg c)" "delivered (queued_message q)" "delivered (summary_msg t)"
  "delivered ((new_msg HumanMsg c)\<lparr>hidden_from_user := b\<rparr>)"
  by (simp_all add: delivered_def tool_message_def new_msg_def queued_message_def summary_msg_def)

interpretation injection_delivered: conversation_hook "queued_injection sid payload enabled" all_delivered for sid payload enabled
proof unfold_locales
  fix ms k h h' ms'
  assume "all_delivered ms" "queued_injection sid payload enabled k (h, ms) = Inr (h', ms')"
  then show "all_delivered ms'" by (auto simp: queued_injection_def all_delivered_def split: if_splits prod.splits)
qed

interpretation compaction_delivered: conversation_hook "summary_wrapper loads summariser sess agent sp run" all_delivered for loads summariser sess agent sp run
proof unfold_locales
  fix ms k h h' ms'
  assume w: "all_delivered ms" and "summary_wrapper loads summariser sess agent sp run k (h, ms) = Inr (h', ms')"
  then consider "ms' = ms" | sh sh' evs where "summarise_inner loads (summariser k) sess agent sp sh ms = Inr (sh', ms', evs)"
    by (auto simp: summary_wrapper_def summary_wrap_model_call_def split: if_splits sum.splits prod.splits)
  then show "all_delivered ms'"
  proof cases
    case (2 sh sh' evs)
    then show ?thesis
    proof (cases rule: summarise_cases)
      case (2 R t)
      have "delivered (rewritten S R ms ! i)" if "i < length ms" for i S
        using w that rewritten_fields(6) [OF that, of S R] by (simp add: all_delivered_def delivered_def)
      then have "all_delivered (rewritten S R ms)" for S by (auto simp: all_delivered_def in_set_conv_nth)
      then show ?thesis unfolding 2(1) compact_eq by (auto simp: all_delivered_def dest: in_set_takeD in_set_dropD)
    qed (use w in simp)
  qed (use w in simp)
qed

lemma rewrite_call_delivered: "delivered m \<Longrightarrow> delivered (rewrite_call c m)"
proof -
  have "replace_first P c xs = [] \<longleftrightarrow> xs = []" for P xs by (cases xs) auto
  then show "delivered m \<Longrightarrow> delivered (rewrite_call c m)"
    by (auto simp: delivered_def rewrite_call_def has_payload_def aborted_def split: chat_body.splits)
qed

lemma dispatch_delivered:
  assumes "all_delivered ms" "ms \<noteq> []" "dispatch_tools loads dumps run mode is_set (length ms - 1) tcs ms = (ended, ms', synced)"
  shows "all_delivered ms'"
proof -
  let ?ms = "append_tool_results (gather_or_cancel mode run (filter (\<lambda>tc. cb_name tc \<noteq> ASK_USER) tcs)) ms"
  have a: "all_delivered ?ms" using assms(1) by (auto simp: append_tool_results_def all_delivered_def split: gathered.splits)
  have "0 < length ms" using assms(2) by simp
  then have "length ms - 1 < length ?ms" unfolding append_tool_results_def length_append by linarith
  note a = a this
  then have "all_delivered (?ms[length ms - 1 := rewrite_call p (?ms ! (length ms - 1))])" for p
    by (auto simp: all_delivered_def rewrite_call_delivered dest!: set_update_subset_insert [THEN subsetD])
  moreover have "all_delivered (map (\<lambda>tc. tool_message tc r) ds)" for ds r by (auto simp: all_delivered_def)
  ultimately show ?thesis using a assms(3)
    by (auto simp: dispatch_tools_def dispatch_question_def Let_def split: if_splits list.splits sum.splits)
qed

lemma after_reply_delivered:
  assumes d: "all_delivered (ls_messages s)" and r: "after_reply env k m s = (a, s')"
  shows "all_delivered (ls_messages s')"
proof -
  obtain b t where f: "finish_model_iteration m s = (b, t)" by force
  then have t: "all_delivered (ls_messages t)" "b = Proceed \<Longrightarrow> ls_messages t \<noteq> []"
    using d by (auto simp: finish_model_iteration_def append_assistant_def Let_def delivered_def assistant_message_def new_msg_def split: if_splits)
  show ?thesis
  proof (cases "b = Proceed")
    case False
    then show ?thesis using r f t by (auto simp: after_reply_def split: loop_action.splits)
  next
    case True
    obtain c u where g: "handle_finish_reason m (sync t) = (c, u)" by force
    have u: "all_delivered (ls_messages u)" "ls_messages u \<noteq> []"
      using g t True by (auto simp: handle_finish_reason_def sync_def split: if_splits)
    have skip: "all_delivered (skip_tool_dispatch tcs (ls_messages u))" for tcs using u(1) by (auto simp: skip_tool_dispatch_def all_delivered_def)
    show ?thesis
    proof (cases "c = Proceed")
      case False
      then show ?thesis using r f g True u by (auto simp: after_reply_def split: loop_action.splits)
    next
      case c: True
      then have "tool_phase env k m u = (a, s')" using r f g True by (simp add: after_reply_def)
      then show ?thesis using dispatch_delivered [OF u] skip
        by (auto simp: tool_phase_def sync_def Let_def split: if_splits prod.splits dispatch_end.splits)
    qed
  qed
qed

lemma agent_loop_delivered:
  assumes "\<And>hook. hook \<in> set (le_before_model env) \<union> set (le_wrap_model env) \<Longrightarrow> conversation_hook hook all_delivered"
  shows "all_delivered (ls_messages s) \<Longrightarrow> agent_loop env k s = (e, s') \<Longrightarrow> all_delivered (ls_messages s')"
  using assms
proof (induction env k s rule: agent_loop.induct)
  case (1 env k s)
  obtain a t where p: "loop_pass env k s = (a, t)" by force
  have "all_delivered (ls_messages t)"
    using loop_pass_keeps [where good = all_delivered, OF 1(4) 1(2) p] after_reply_delivered by blast
  then show ?case using 1 p
    by (cases a) (auto simp: agent_loop.simps [of env k s] split: if_splits)
qed

text \<open>
  C15. No aborted answer passes silently: every assistant message a run adds has text, reasoning or
  tool calls, or a dropped call, or the provider has signalled the end of the turn. A response that
  broke off without anything is asked for again or raised as an error, never kept.
\<close>

theorem no_silent_answer:
  assumes "\<forall>hook \<in> set (le_before_model env) \<union> set (le_wrap_model env). conversation_hook hook all_delivered"
    and "all_delivered ms" "agent_run env h ms = (e, s)"
  shows "all_delivered (ls_messages s)"
proof -
  obtain e' t where l: "agent_loop env 0 (run_start_state h ms) = (e', t)" by force
  have "all_delivered (ls_messages (run_start_state h ms))" using assms(2) by (auto simp: run_start_state_def all_delivered_def)
  then have "all_delivered (ls_messages t)" using agent_loop_delivered [OF _ _ l] assms(1) by blast
  then show ?thesis using assms(3) l by (auto simp: agent_run_def finalize_run_def sync_def split: option.splits)
qed

section \<open>A run with a tool call\<close>

definition ls_chunk :: stream_chunk where
  "ls_chunk = \<lparr>ch_usage = None, ch_choice = Some (Some ''tool_calls'', \<lparr>d_reasoning = None, d_signature = None, d_redacted = None,
     d_raw_blocks = None, d_reasoning_item = None, d_content = None,
     d_tool_calls = [\<lparr>td_index = Some 0, td_id = Some ''c1'',
       td_function = Some \<lparr>fd_name = Some ''ls'', fd_arguments = None, fd_thought = None, fd_signature = None\<rparr>\<rparr>]\<rparr>)\<rparr>"

definition ls_tool :: tool where
  "ls_tool = \<lparr>required_args = [], arun = \<lambda>_. ToolReturns (TextValue ''file'')\<rparr>"

text \<open>The first response calls the tool, the second fails on the network, the third answers.\<close>

definition ls_provider :: "nat \<Rightarrow> chat_msg list \<Rightarrow> stream_chunk provider" where
  "ls_provider k req = \<lparr>attempts = (\<lambda>_. if k = 0 then ([ls_chunk], None) else if k = 1 then ([], Some (NetError TimeoutErr)) else ([say ''done''], None)),
     set_before = \<lambda>_. False, set_during_sleep = \<lambda>_. False, draws = \<lambda>_. 0, label = [], hooked = False\<rparr>"

definition ls_env :: loop_env where
  "ls_env = \<lparr>max_iterations = 5, le_loads = (\<lambda>_. None), le_dumps = (\<lambda>_. []), le_describe = (\<lambda>_. []), le_tools = [(''ls'', ls_tool)],
     le_wrap_tool = (\<lambda>chain. chain), le_provider = ls_provider, le_seen = (\<lambda>_. None),
     le_before_model = [queued_injection ''s'' (\<lambda>_. []) True, summary_trigger 0 (\<lambda>_. False) (\<lambda>_. 0)],
     le_wrap_model = [summary_wrapper (\<lambda>_. None) (\<lambda>_. brief_summariser) True ''lead'' [] 0],
     set_at_top = (\<lambda>_. False), set_in_backoff = (\<lambda>_. False), set_before_tools = (\<lambda>_. False), set_after_gather = (\<lambda>_. False),
     le_gather = (\<lambda>_. Uninterrupted), le_end_turn = (\<lambda>_. False), stop_after_before_model = False\<rparr>"

definition ls_hook_state :: hook_state where
  "ls_hook_state = \<lparr>hs_db = persisted ''s'' [] [], hs_summary = keep_one, hs_events = []\<rparr>"

definition ls_talk :: "chat_msg list" where
  "ls_talk = [new_msg HumanMsg (Some ''hi'')]"

lemma ls_run:
  "map length (ls_requests (snd (agent_run ls_env ls_hook_state ls_talk))) = [1, 3, 3] \<and>
   map c_content (ls_messages (snd (agent_run ls_env ls_hook_state ls_talk))) = [Some ''hi'', None, Some ''file'', Some ''done'']"
  by code_simp

lemma ls_suspends: "only_questions_suspend (tool_chain ls_env)"
  by (auto simp: only_questions_suspend_def tool_chain_def run_tool_def ls_env_def execute_def execute_body_def ls_tool_def
      split: chain_end.splits tool_end.splits option.splits if_splits json.splits)

theorem no_silent_answer_witness: "all_delivered (ls_messages (snd (agent_run ls_env ls_hook_state ls_talk)))"
proof -
  have "\<forall>hook \<in> set (le_before_model ls_env) \<union> set (le_wrap_model ls_env). conversation_hook hook all_delivered"
    using injection_delivered.conversation_hook_axioms trigger.conversation_hook_axioms compaction_delivered.conversation_hook_axioms
    by (auto simp: ls_env_def)
  then show ?thesis
    using no_silent_answer [of ls_env ls_talk ls_hook_state "fst (agent_run ls_env ls_hook_state ls_talk)" "snd (agent_run ls_env ls_hook_state ls_talk)"]
    by (simp add: ls_talk_def)
qed

end
