(* ===== verification/MessageLoad.thy ===== *)
theory MessageLoad
  imports Transcript History
begin

text \<open>
  From rows to messages, \<open>app/services/chat_service_messages.py\<close>: the projection of one row, the
  removal of tool calls whose arguments are no JSON, the repair of the pairing of calls and results
  and the content overrides for the model. Rows are taken to have a known role and valid columns, so
  that no row is skipped by validation; the legacy form of the encrypted reasoning entries and the
  text of attachment hints (which are parts, not content) are left out, log lines too.
\<close>

section \<open>One row\<close>

definition call_of :: "tool_call \<Rightarrow> call_buffer" where
  "call_of tc = \<lparr>cb_id = call_id tc, cb_name = call_name tc, cb_arguments = call_arguments tc, cb_thought = call_thought tc,
     cb_signature = call_signature tc\<rparr>"

definition reply_of_row :: "row \<Rightarrow> message" where
  "reply_of_row r = \<lparr>m_content = Some (body r), m_reasoning = reasoning_content r, m_signature = if_truthy (ex_signature (row_reply r)),
     m_items = Option.bind (ex_items (row_reply r)) non_empty, m_tool_calls = non_empty (map call_of (tool_calls r)), m_redacted = ex_redacted (row_reply r),
     m_raw_blocks = Option.bind (ex_raw (row_reply r)) non_empty, x_usage = ex_usage (row_reply r), x_finish_reason = ex_finish (row_reply r), x_dropped = []\<rparr>"

definition chat_message_from_row :: "row \<Rightarrow> chat_msg" where
  "chat_message_from_row r =
     \<lparr>c_body = (case role r of
          SystemRole \<Rightarrow> SystemMsg
        | User \<Rightarrow> HumanMsg
        | Assistant \<Rightarrow> AssistantMsg (reply_of_row r)
        | ToolRole \<Rightarrow> ToolMsg (or_empty (tool_call_id r)) (row_name r)),
      c_content = Some (body r), exclude_from_context = False, is_summary = (kind r = Summary), c_pinned = pinned r,
      hidden_from_summary = hidden_summary r, c_from_agent = from_agent r, hidden_from_user = hidden_user r,
      attachment_row = (attachment_for r \<noteq> None \<and> \<not> mention_context r), db_id = Some (row_id r)\<rparr>"

section \<open>Calls with broken arguments\<close>

definition set_calls :: "call_buffer list option \<Rightarrow> chat_msg \<Rightarrow> chat_msg" where
  "set_calls cs m = (case c_body m of AssistantMsg a \<Rightarrow> m\<lparr>c_body := AssistantMsg (a\<lparr>m_tool_calls := cs\<rparr>)\<rparr> | _ \<Rightarrow> m)"

definition parses :: "(string \<Rightarrow> json option) \<Rightarrow> call_buffer \<Rightarrow> bool" where
  "parses loads tc \<longleftrightarrow> loads (cb_arguments tc) \<noteq> None"

definition clean_calls :: "(string \<Rightarrow> json option) \<Rightarrow> chat_msg \<Rightarrow> chat_msg" where
  "clean_calls loads m =
     (if list_all (parses loads) (calls_of m) then m else set_calls (non_empty (filter (parses loads) (calls_of m))) m)"

definition bad_tool_call_ids :: "(string \<Rightarrow> json option) \<Rightarrow> chat_msg list \<Rightarrow> string list" where
  "bad_tool_call_ids loads ms = map cb_id (filter (\<lambda>tc. \<not> parses loads tc) (concat (map calls_of ms)))"

definition drop_bad_calls :: "(string \<Rightarrow> json option) \<Rightarrow> chat_msg list \<Rightarrow> chat_msg list" where
  "drop_bad_calls loads ms =
     filter (\<lambda>m. case answers m of None \<Rightarrow> True | Some t \<Rightarrow> t \<notin> set (bad_tool_call_ids loads ms)) (map (clean_calls loads) ms)"

section \<open>Pairs of calls and results\<close>

text \<open>The ids that are answered by the tool messages directly behind an assistant message.\<close>

fun following_tool_ids :: "chat_msg list \<Rightarrow> string set" where
  "following_tool_ids [] = {}"
| "following_tool_ids (m # ms) =
     (case answers m of
        None \<Rightarrow> {}
      | Some t \<Rightarrow> (if t = [] then {} else {t}) \<union> following_tool_ids ms)"

definition named_ids :: "chat_msg \<Rightarrow> string set" where
  "named_ids m = {i \<in> call_ids_of m. i \<noteq> []}"

lemma named_ids_code [code]: "named_ids m = set (filter (\<lambda>i. i \<noteq> []) (map cb_id (calls_of m)))"
  by (auto simp: named_ids_def)

fun sanitize_from :: "string set \<Rightarrow> chat_msg list \<Rightarrow> chat_msg list" where
  "sanitize_from expected [] = []"
| "sanitize_from expected (m # ms) =
     (if is_assistant m then
        if calls_of m = [] then m # sanitize_from {} ms
        else if named_ids m \<noteq> {} \<and> named_ids m \<subseteq> following_tool_ids ms then m # sanitize_from (named_ids m) ms
        else (if or_empty (c_content m) \<noteq> [] then [set_calls None m] else []) @ sanitize_from {} ms
      else case answers m of
        Some t \<Rightarrow> if t \<noteq> [] \<and> t \<in> expected then m # sanitize_from (expected - {t}) ms else sanitize_from expected ms
      | None \<Rightarrow> m # sanitize_from {} ms)"

definition sanitize_tool_message_pairs :: "chat_msg list \<Rightarrow> chat_msg list" where
  "sanitize_tool_message_pairs ms = sanitize_from {} ms"

definition deserialize_messages :: "(string \<Rightarrow> json option) \<Rightarrow> bool \<Rightarrow> row list \<Rightarrow> chat_msg list" where
  "deserialize_messages loads sanitize rs =
     (let result = drop_bad_calls loads (map chat_message_from_row rs) in
      if sanitize then sanitize_tool_message_pairs result else result)"

section \<open>The history of a turn\<close>

text \<open>Synthetic attachment rows are not sent: the row of the user message carries the hint.\<close>

definition apply_llm_content_overrides :: "chat_msg list \<Rightarrow> chat_msg list" where
  "apply_llm_content_overrides ms = filter (\<lambda>m. \<not> (c_body m = HumanMsg \<and> attachment_row m)) ms"

definition load_history :: "(string \<Rightarrow> json option) \<Rightarrow> string \<Rightarrow> db \<Rightarrow> chat_msg list" where
  "load_history loads sid d = apply_llm_content_overrides (deserialize_messages loads True (get_messages_for_llm sid d))"

end
