(* ===== verification/MessageLoadProps.thy ===== *)
theory MessageLoadProps
  imports MessageLoad
begin

text \<open>
  A loaded conversation pairs tool calls and results whatever the rows are, loses no message of the
  user, and loading repairs nothing twice.
\<close>

section \<open>The repair of pairs\<close>

lemma calls_set_calls [simp]: "calls_of (set_calls None m) = []"
  by (auto simp: calls_of_def set_calls_def split: chat_body.splits)

lemma answers_set_calls [simp]: "answers (set_calls cs m) = answers m"
  by (auto simp: answers_def set_calls_def split: chat_body.splits)

lemma flags_set_calls [simp]:
  "exclude_from_context (set_calls cs m) = exclude_from_context m" "is_assistant (set_calls cs m) = is_assistant m"
  "c_content (set_calls cs m) = c_content m" "c_body (set_calls cs m) = HumanMsg \<longleftrightarrow> c_body m = HumanMsg"
  "is_system (set_calls cs m) = is_system m"
  by (auto simp: set_calls_def is_assistant_def is_system_def split: chat_body.splits)

lemma assistant_no_answer: "is_assistant m \<Longrightarrow> answers m = None"
  by (auto simp: is_assistant_def answers_def split: chat_body.splits)

lemma no_assistant_no_calls: "\<not> is_assistant m \<Longrightarrow> calls_of m = []"
  by (auto simp: is_assistant_def calls_of_def split: chat_body.splits)

text \<open>Among the kept messages, an expected result is the only one without a call in front of it.\<close>

lemma sanitize_answers:
  "m \<in> set (sanitize_from E ms) \<Longrightarrow> answers m = Some t \<Longrightarrow> t \<in> E \<or> (\<exists>m' \<in> set (sanitize_from E ms). t \<in> call_ids_of m')"
proof (induction E ms rule: sanitize_from.induct)
  case (2 E x ms)
  then show ?case
    by (auto simp: assistant_no_answer named_ids_def split: if_splits option.splits)
qed simp

lemma sanitize_expected:
  "t \<in> E \<Longrightarrow> t \<in> following_tool_ids ms \<Longrightarrow> \<exists>m \<in> set (sanitize_from E ms). answers m = Some t"
proof (induction E ms rule: sanitize_from.induct)
  case (2 E x ms)
  then show ?case
    by (auto simp: assistant_no_answer split: if_splits option.splits)
qed simp

lemma sanitize_calls:
  "m \<in> set (sanitize_from E ms) \<Longrightarrow> t \<in> call_ids_of m \<Longrightarrow> t \<noteq> [] \<Longrightarrow> \<exists>m' \<in> set (sanitize_from E ms). answers m' = Some t"
proof (induction E ms rule: sanitize_from.induct)
  case (2 E x ms)
  show ?case
  proof (cases "is_assistant x \<and> named_ids x \<noteq> {} \<and> named_ids x \<subseteq> following_tool_ids ms \<and> t \<in> named_ids x")
    case True
    then have "calls_of x \<noteq> []" by (auto simp: named_ids_def)
    then show ?thesis using True sanitize_expected [of t "named_ids x" ms] by auto
  next
    case False
    then show ?thesis using 2 no_assistant_no_calls [of x]
      by (auto simp: named_ids_def split: if_splits option.splits)
  qed
qed simp

lemma sanitize_following: "[] \<notin> E \<Longrightarrow> following_tool_ids (sanitize_from E ms) = E \<inter> following_tool_ids ms"
proof (induction E ms rule: sanitize_from.induct)
  case (2 E x ms)
  then show ?case
    by (auto simp: assistant_no_answer split: if_splits option.splits)
qed simp

lemma sanitize_again: "E \<subseteq> F \<Longrightarrow> [] \<notin> F \<Longrightarrow> sanitize_from F (sanitize_from E ms) = sanitize_from E ms"
proof (induction E ms arbitrary: F rule: sanitize_from.induct)
  case (2 E x ms)
  have n: "[] \<notin> named_ids x" by (simp add: named_ids_def)
  show ?case
  proof (cases "is_assistant x")
    case True
    then show ?thesis using 2 n sanitize_following [OF n, of ms] by (auto simp: assistant_no_answer)
  next
    case False
    then have "sanitize_from (F - {t}) (sanitize_from (E - {t}) ms) = sanitize_from (E - {t}) ms" if "answers x = Some t" "t \<noteq> []" "t \<in> E" for t
      using 2(5) [OF False that(1), of "F - {t}"] that 2(7,8) by blast
    then show ?thesis using False 2(4) [OF False] 2(6) [OF False] 2(7,8) by (auto split: option.split)
  qed
qed simp

lemma sanitize_humans: "filter (\<lambda>m. c_body m = HumanMsg) (sanitize_from E ms) = filter (\<lambda>m. c_body m = HumanMsg) ms"
proof (induction E ms rule: sanitize_from.induct)
  case (2 E x ms)
  have "answers x \<noteq> None \<Longrightarrow> c_body x \<noteq> HumanMsg" "is_assistant x \<Longrightarrow> c_body x \<noteq> HumanMsg"
    by (auto simp: answers_def is_assistant_def)
  then show ?case using 2 by (auto split: option.splits)
qed simp

lemma sanitize_visible: "\<forall>m \<in> set ms. \<not> exclude_from_context m \<Longrightarrow> m \<in> set (sanitize_from E ms) \<Longrightarrow> \<not> exclude_from_context m"
proof (induction E ms rule: sanitize_from.induct)
  case (2 E x ms)
  then show ?case by (auto split: if_splits option.splits)
qed simp

section \<open>Loading\<close>

lemma loaded_visible: "m \<in> set (drop_bad_calls loads (map chat_message_from_row rs)) \<Longrightarrow> \<not> exclude_from_context m"
  by (auto simp: drop_bad_calls_def clean_calls_def chat_message_from_row_def)

lemma clean_calls_human: "c_body (clean_calls loads m) = HumanMsg \<longleftrightarrow> c_body m = HumanMsg"
  by (simp add: clean_calls_def)

lemma clean_calls_same: "c_body m = HumanMsg \<Longrightarrow> clean_calls loads m = m"
  by (simp add: clean_calls_def calls_of_def)

lemma drop_bad_humans: "filter (\<lambda>m. c_body m = HumanMsg) (drop_bad_calls loads ms) = filter (\<lambda>m. c_body m = HumanMsg) ms"
proof -
  have "filter (\<lambda>m. c_body m = HumanMsg) (drop_bad_calls loads ms) = filter (\<lambda>m. c_body m = HumanMsg) (map (clean_calls loads) ms)"
    unfolding drop_bad_calls_def filter_filter by (rule filter_cong) (auto simp: answers_def)
  also have "\<dots> = filter (\<lambda>m. c_body m = HumanMsg) ms"
    by (induction ms) (auto simp: clean_calls_human clean_calls_same)
  finally show ?thesis .
qed

lemma mem_view: "m \<in> set (messages_for_llm ms) \<longleftrightarrow> m \<in> set ms \<and> in_view m"
  by (simp add: messages_for_llm_def)

lemma sanitized_pairs:
  assumes "\<forall>m \<in> set ms. \<not> exclude_from_context m"
  shows "open_calls (sanitize_tool_message_pairs ms) = {}" "orphan_results (sanitize_tool_message_pairs ms) = {}"
proof -
  have v: "in_view m" if "m \<in> set (sanitize_from {} ms)" "answers m = Some t \<or> t \<in> call_ids_of m" for m t
    using that sanitize_visible [OF assms that(1)] answers_system_free calls_system_free by (auto simp: in_view_def)
  show "open_calls (sanitize_tool_message_pairs ms) = {}"
    using sanitize_calls [of _ "{}" ms] v unfolding open_calls_def sanitize_tool_message_pairs_def mem_view Bex_def by blast
  show "orphan_results (sanitize_tool_message_pairs ms) = {}"
    using sanitize_answers [of _ "{}" ms] v unfolding orphan_results_def sanitize_tool_message_pairs_def mem_view Bex_def by blast
qed

lemma overrides_pairs:
  "open_calls (apply_llm_content_overrides ms) = open_calls ms" "orphan_results (apply_llm_content_overrides ms) = orphan_results ms"
proof -
  have h: "calls_of m = [] \<and> answers m = None" if "c_body m = HumanMsg" for m using that by (simp add: calls_of_def answers_def)
  have eq: "(\<exists>m \<in> set (messages_for_llm (apply_llm_content_overrides ms)). P m) \<longleftrightarrow> (\<exists>m \<in> set (messages_for_llm ms). P m)"
    if "\<And>m. c_body m = HumanMsg \<Longrightarrow> \<not> P m" for P
    unfolding Bex_def mem_view apply_llm_content_overrides_def using that by auto
  show "open_calls (apply_llm_content_overrides ms) = open_calls ms" "orphan_results (apply_llm_content_overrides ms) = orphan_results ms"
    using eq [of "\<lambda>m. t \<in> call_ids_of m" for t] eq [of "\<lambda>m. answers m = Some t" for t] h
    by (auto simp: open_calls_def orphan_results_def)
qed

lemma load_history_pairs: "open_calls (load_history loads sid d) = {}" "orphan_results (load_history loads sid d) = {}"
  using sanitized_pairs [of "drop_bad_calls loads (map chat_message_from_row (get_messages_for_llm sid d))"] loaded_visible
  by (auto simp: load_history_def overrides_pairs deserialize_messages_def)

text \<open>
  C19. Whatever the database holds, the history loaded for a turn pairs tool calls and results: every
  visible call has a visible result and every result its call. Nothing the user wrote is lost: the user
  messages are those of the window, in order, the synthetic attachment rows apart. A second repair
  changes nothing.
\<close>

theorem loaded_history_paired:
  "open_calls (load_history loads sid d) = {} \<and> orphan_results (load_history loads sid d) = {} \<and>
   filter (\<lambda>m. c_body m = HumanMsg) (load_history loads sid d) =
     map chat_message_from_row (filter (\<lambda>r. role r = User \<and> (attachment_for r = None \<or> mention_context r)) (get_messages_for_llm sid d)) \<and>
   (let ms = deserialize_messages loads True (get_messages_for_llm sid d) in sanitize_tool_message_pairs ms = ms)"
proof (intro conjI)
  let ?rs = "get_messages_for_llm sid d"
  show "open_calls (load_history loads sid d) = {}" "orphan_results (load_history loads sid d) = {}" by (rule load_history_pairs)+
  have "filter (\<lambda>m. c_body m = HumanMsg) (load_history loads sid d) =
      filter (\<lambda>m. \<not> attachment_row m) (filter (\<lambda>m. c_body m = HumanMsg) (deserialize_messages loads True ?rs))"
    unfolding load_history_def apply_llm_content_overrides_def filter_filter by (rule filter_cong) auto
  also have "\<dots> = filter (\<lambda>m. \<not> attachment_row m) (filter (\<lambda>m. c_body m = HumanMsg) (map chat_message_from_row ?rs))"
    by (simp add: deserialize_messages_def sanitize_tool_message_pairs_def sanitize_humans drop_bad_humans)
  also have "\<dots> = map chat_message_from_row (filter (\<lambda>r. role r = User \<and> (attachment_for r = None \<or> mention_context r)) ?rs)"
    unfolding filter_filter filter_map
    by (rule arg_cong [where f = "map _"], rule filter_cong) (auto simp: chat_message_from_row_def split: role.splits)
  finally show "filter (\<lambda>m. c_body m = HumanMsg) (load_history loads sid d) =
     map chat_message_from_row (filter (\<lambda>r. role r = User \<and> (attachment_for r = None \<or> mention_context r)) ?rs)" .
  show "let ms = deserialize_messages loads True ?rs in sanitize_tool_message_pairs ms = ms"
    by (simp add: deserialize_messages_def sanitize_tool_message_pairs_def sanitize_again)
qed

text \<open>
  A call without arguments is a valid call when the response is assembled (\<open>check_call\<close> keeps it) and
  when it is executed, but its empty text is no JSON: from the next turn on the call and its result are
  gone from the conversation.
\<close>

lemma call_without_arguments_forgotten:
  assumes "loads [] = None" "role a = Assistant" "tool_calls a = [tc]" "call_arguments tc = []"
    and "role t = ToolRole" "tool_call_id t = Some (call_id tc)" "call_name tc \<noteq> []"
  shows "check_call loads 0 (call_of tc) = Inr (call_of tc) \<and>
    deserialize_messages loads True [a, t] = [set_calls None (chat_message_from_row a)]"
proof -
  let ?a = "chat_message_from_row a" and ?t = "chat_message_from_row t"
  have c: "calls_of ?a = [call_of tc]" "calls_of ?t = []" "answers ?a = None" "answers ?t = Some (call_id tc)" "is_assistant ?a"
    using assms by (auto simp: calls_of_def answers_def is_assistant_def chat_message_from_row_def reply_of_row_def non_empty_def or_empty_def)
  have f: "cb_arguments (call_of tc) = []" "cb_name (call_of tc) \<noteq> []" "cb_id (call_of tc) = call_id tc" using assms by (simp_all add: call_of_def)
  have "drop_bad_calls loads [?a, ?t] = [set_calls None ?a]"
    using c f assms(1) by (simp add: drop_bad_calls_def clean_calls_def bad_tool_call_ids_def parses_def non_empty_def)
  then show ?thesis using c f by (simp add: deserialize_messages_def sanitize_tool_message_pairs_def check_call_def)
qed

end
