(* ===== verification/Checkpoint.thy ===== *)
theory Checkpoint
  imports MessageLoad Summarize
begin

text \<open>
  The checkpointer, \<open>SQLiteCheckpointer\<close> of \<open>app/agent/checkpointer.py\<close>: which messages of a running
  conversation are already rows, the flush of new messages and of changed pins, the position of a new
  summary, the cached load and the token count that seeds a resumed run. Membership of a message object
  in the set of persisted ids is a flag beside the message. The commit of the stream buffer at the end
  of a flush is an operation of the stream store and log lines are left out.
\<close>

type_synonym tracked = "bool \<times> chat_msg"

section \<open>Positions of new summaries\<close>

text \<open>The row a new summary must sort ahead of, among the messages behind it.\<close>

definition summary_anchor :: "tracked list \<Rightarrow> nat option" where
  "summary_anchor rest =
     Option.bind (find (\<lambda>(_, m). db_id m \<noteq> None \<and> \<not> exclude_from_context m \<and> \<not> c_pinned m) rest) (\<lambda>(_, m). db_id m)"

definition resolve_summary_seq :: "db \<Rightarrow> tracked \<Rightarrow> tracked list \<Rightarrow> int option" where
  "resolve_summary_seq d t rest =
     (if \<not> is_summary (snd t) \<or> fst t then None
      else case summary_anchor rest of
        None \<Rightarrow> None
      | Some i \<Rightarrow> (case get_row i d of None \<Rightarrow> None | Some r \<Rightarrow> Some (seq_before_row (row_session r) r d)))"

section \<open>Flushing\<close>

definition row_call :: "call_buffer \<Rightarrow> tool_call" where
  "row_call c = \<lparr>call_id = cb_id c, call_name = cb_name c, call_arguments = cb_arguments c, call_thought = cb_thought c, call_signature = cb_signature c\<rparr>"

definition reply_extra_of :: "message \<Rightarrow> reply_extra" where
  "reply_extra_of a = \<lparr>ex_signature = m_signature a, ex_redacted = m_redacted a, ex_raw = m_raw_blocks a, ex_items = m_items a,
     ex_usage = x_usage a, ex_finish = x_finish_reason a\<rparr>"

definition draft_of :: "chat_msg \<Rightarrow> draft" where
  "draft_of m =
     (let d = (user_draft (or_empty (c_content m)))\<lparr>dr_hidden_user := hidden_from_user m, dr_hidden_summary := hidden_from_summary m,
                dr_from_agent := c_from_agent m\<rparr> in
      case c_body m of
        SystemMsg \<Rightarrow> d\<lparr>dr_role := SystemRole\<rparr>
      | HumanMsg \<Rightarrow> d
      | AssistantMsg a \<Rightarrow> d\<lparr>dr_role := Assistant, dr_calls := map row_call (calls_of m), dr_reasoning := m_reasoning a, dr_reply := reply_extra_of a\<rparr>
      | ToolMsg t n \<Rightarrow> d\<lparr>dr_role := ToolRole, dr_call_id := Some t, dr_name := n\<rparr>)"

definition has_content :: "message \<Rightarrow> chat_msg \<Rightarrow> bool" where
  "has_content a m \<longleftrightarrow> strip (or_empty (c_content m)) \<noteq> [] \<or> strip (or_empty (m_reasoning a)) \<noteq> [] \<or> calls_of m \<noteq> [] \<or>
     (m_items a \<noteq> None \<and> m_items a \<noteq> Some []) \<or> is_summary m"

record flush_state =
  fl_db :: db
  fl_tail :: "int option"
  flushed_pinned :: "(nat \<times> bool) list"
  saved_summary :: bool

definition next_tail :: "string \<Rightarrow> flush_state \<Rightarrow> int" where
  "next_tail sid st = (case fl_tail st of None \<Rightarrow> next_seq sid (fl_db st) | Some t \<Rightarrow> t + SEQ_STEP)"

text \<open>One saved row; \<open>place\<close> is the anchored position of a summary.\<close>

definition flush_row :: "string \<Rightarrow> int option \<Rightarrow> bool \<Rightarrow> chat_msg \<Rightarrow> flush_state \<Rightarrow> tracked \<times> flush_state" where
  "flush_row sid place summary m st =
     (let p = (case place of Some s \<Rightarrow> s | None \<Rightarrow> next_tail sid st);
          (r, d) = save_message sid (draft_of m) summary False None (Some (c_pinned m)) (Some p) False (fl_db st) in
      ((True, m\<lparr>db_id := Some (row_id r)\<rparr>),
       \<lparr>fl_db = d, fl_tail = (case place of Some _ \<Rightarrow> fl_tail st | None \<Rightarrow> Some p),
        flushed_pinned = AList.update (row_id r) (c_pinned m) (flushed_pinned st), saved_summary = (saved_summary st \<or> summary)\<rparr>))"

definition flush_one :: "string \<Rightarrow> int option \<Rightarrow> tracked \<Rightarrow> flush_state \<Rightarrow> tracked \<times> flush_state" where
  "flush_one sid place t st =
     (let m = snd t in
      if fst t then (t, st)
      else case c_body m of
        AssistantMsg a \<Rightarrow> if has_content a m then flush_row sid place (is_summary m) m st else (t, st)
      | ToolMsg _ _ \<Rightarrow> flush_row sid None False m st
      | HumanMsg \<Rightarrow>
          if is_summary m \<or> hidden_from_user m then flush_row sid place (is_summary m) m st
          else ((True, m), (case db_id m of None \<Rightarrow> st | Some i \<Rightarrow> st\<lparr>flushed_pinned := AList.update i (c_pinned m) (flushed_pinned st)\<rparr>))
      | SystemMsg \<Rightarrow> (t, st))"

text \<open>The positions of summaries are those of the database before the flush.\<close>

fun flush_new :: "string \<Rightarrow> db \<Rightarrow> tracked list \<Rightarrow> flush_state \<Rightarrow> tracked list \<times> flush_state" where
  "flush_new sid d [] st = ([], st)"
| "flush_new sid d (t # rest) st =
     (let (t', st) = flush_one sid (resolve_summary_seq d t rest) t st;
          (rest', st) = flush_new sid d rest st in
      (t' # rest', st))"

definition pin_flag :: "(nat \<times> bool) list \<Rightarrow> nat \<Rightarrow> bool" where
  "pin_flag flushed i = (case map_of flushed i of None \<Rightarrow> False | Some b \<Rightarrow> b)"

definition pin_updates :: "(nat \<times> bool) list \<Rightarrow> tracked list \<Rightarrow> (nat \<times> bool) list" where
  "pin_updates flushed ts =
     fold (\<lambda>(seen, m) us. case db_id m of
         None \<Rightarrow> us
       | Some i \<Rightarrow>
           if \<not> seen \<or> is_system m \<or> pin_flag flushed i = c_pinned m then us
           else AList.update i (c_pinned m) us) ts []"

definition apply_pins :: "(nat \<times> bool) list \<Rightarrow> db \<Rightarrow> db" where
  "apply_pins us d = d\<lparr>rows := map (\<lambda>r. case map_of us (row_id r) of None \<Rightarrow> r | Some b \<Rightarrow> r\<lparr>pinned := b\<rparr>) (rows d)\<rparr>"

section \<open>The checkpointer\<close>

record checkpointer =
  cp_flushed :: "(nat \<times> bool) list"
  seeded_tokens :: int
  cp_loaded :: "((nat \<times> nat) \<times> (int \<times> nat) option \<times> chat_msg list) option" \<comment> \<open>revision, cursor and window\<close>

definition new_checkpointer :: checkpointer where
  "new_checkpointer = \<lparr>cp_flushed = [], seeded_tokens = 0, cp_loaded = None\<rparr>"

definition invalidate :: "checkpointer \<Rightarrow> checkpointer" where
  "invalidate c = c\<lparr>cp_loaded := None\<rparr>"

definition checkpoint_sync :: "string \<Rightarrow> tracked list \<Rightarrow> checkpointer \<Rightarrow> db \<Rightarrow> tracked list \<times> checkpointer \<times> db" where
  "checkpoint_sync sid ts c d =
     (let new = filter (\<lambda>t. \<not> fst t) ts;
          us = pin_updates (cp_flushed c) ts in
      if new = [] \<and> us = [] then (ts, c, d)
      else
        let (ts', st) = flush_new sid d ts
              \<lparr>fl_db = apply_pins us d, fl_tail = None, flushed_pinned = fold (\<lambda>(i, b). AList.update i b) us (cp_flushed c), saved_summary = False\<rparr>;
            d' = (if us \<noteq> [] \<or> saved_summary st then bump_history_revision sid True (fl_db st) else fl_db st) in
        (ts', invalidate (c\<lparr>cp_flushed := flushed_pinned st\<rparr>), d'))"

text \<open>The newest token count of the history; \<open>input_tokens\<close> reads it from a usage record.\<close>

definition last_prompt_tokens_from_history :: "(string \<Rightarrow> int option) \<Rightarrow> chat_msg list \<Rightarrow> int" where
  "last_prompt_tokens_from_history input_tokens ms =
     (let counts = List.map_filter (\<lambda>m. case c_body m of AssistantMsg a \<Rightarrow> Option.bind (x_usage a) input_tokens | _ \<Rightarrow> None)
            (filter (\<lambda>m. \<not> is_summary m) (rev ms)) in
      case counts of [] \<Rightarrow> 0 | n # _ \<Rightarrow> n)"

definition mark_loaded :: "(string \<Rightarrow> int option) \<Rightarrow> chat_msg list \<Rightarrow> checkpointer \<Rightarrow> tracked list \<times> checkpointer" where
  "mark_loaded input_tokens ms c =
     (let n = last_prompt_tokens_from_history input_tokens ms in
      (map (Pair True) ms,
       c\<lparr>cp_flushed := fold (\<lambda>m us. case db_id m of
             None \<Rightarrow> us
           | Some i \<Rightarrow> if map_of us i = None then us @ [(i, c_pinned m)] else us) ms (cp_flushed c),
         seeded_tokens := (if n > 0 then n else seeded_tokens c)\<rparr>))"

text \<open>The prompt size a resumed run starts with.\<close>

definition seed_state :: "checkpointer \<Rightarrow> int \<Rightarrow> int" where
  "seed_state c last_prompt_tokens = (if seeded_tokens c > 0 then seeded_tokens c else last_prompt_tokens)"

text \<open>The cached window is returned while revisions and cursor are unchanged; the copy is not registered as persisted.\<close>

definition checkpoint_load :: "(string \<Rightarrow> json option) \<Rightarrow> (string \<Rightarrow> int option) \<Rightarrow> string \<Rightarrow> db \<Rightarrow> checkpointer \<Rightarrow> tracked list option \<times> checkpointer" where
  "checkpoint_load loads input_tokens sid d c =
     (let revision = get_history_revision sid d; cursor = get_history_cursor sid d;
          fresh = (let ms = load_history loads sid d in
                   if ms = [] then (None, c)
                   else let (ts, c) = mark_loaded input_tokens ms c in (Some ts, c\<lparr>cp_loaded := Some (revision, cursor, ms)\<rparr>)) in
      case cp_loaded c of
        Some (r, cu, ms) \<Rightarrow> if r = revision \<and> cu = cursor then (Some (map (Pair False) ms), c) else fresh
      | None \<Rightarrow> fresh)"

end
