(* ===== verification/CheckpointProps.thy ===== *)
theory CheckpointProps
  imports Checkpoint SummaryReload MessageLoadProps HistoryProps
begin

text \<open>
  What a flush leaves in the database is what the running agent sees: the window derived from the
  rows has exactly the visible messages, in order, and the next flush starts from the same relation.
\<close>

section \<open>Rows of messages\<close>

abbreviation row_ids :: "chat_msg list \<Rightarrow> nat list" where
  "row_ids ms \<equiv> List.map_filter db_id ms"

definition the_row :: "db \<Rightarrow> nat \<Rightarrow> row" where
  "the_row d i = the (get_row i d)"

text \<open>Only a summary may share its \<open>seq\<close> with the row before it: its id is newer.\<close>

definition row_before :: "row \<Rightarrow> row \<Rightarrow> bool" where
  "row_before r r' \<longleftrightarrow> pos r < pos r' \<and> (kind r' \<noteq> Summary \<longrightarrow> seq r < seq r')"

definition well_keyed :: "string \<Rightarrow> db \<Rightarrow> bool" where
  "well_keyed sid d \<longleftrightarrow> distinct (map row_id (rows d)) \<and> (\<forall>r \<in> set (rows d). row_id r < next_id d) \<and>
     (\<forall>r \<in> set (session_rows sid d). seq r \<ge> 0 \<and> (kind r \<noteq> Summary \<longrightarrow> seq r > 0)) \<and> revert_of sid d = None"

text \<open>A row that is no message of the running conversation is reverted, queued or covered by a summary.\<close>

definition covered :: "db \<Rightarrow> nat list \<Rightarrow> row \<Rightarrow> bool" where
  "covered d is r \<longleftrightarrow> kind r = Reverted \<or> kind r = Queued \<or>
     (\<exists>i \<in> set is. kind (the_row d i) = Summary \<and> (if kind r = Summary then row_id r < i else \<not> pinned r \<and> pos r < pos (the_row d i)))"

definition represents :: "string \<Rightarrow> db \<Rightarrow> chat_msg \<Rightarrow> bool" where
  "represents sid d m \<longleftrightarrow> (\<forall>i. db_id m = Some i \<longrightarrow>
     (\<exists>r \<in> set (session_rows sid d). row_id r = i \<and> (kind r = Summary \<longleftrightarrow> is_summary m) \<and> kind r \<noteq> Reverted \<and> kind r \<noteq> Queued))"

definition matches :: "string \<Rightarrow> db \<Rightarrow> chat_msg list \<Rightarrow> bool" where
  "matches sid d ms \<longleftrightarrow> well_keyed sid d \<and> (\<forall>m \<in> set ms. represents sid d m) \<and>
     sorted_wrt row_before (map (the_row d) (row_ids ms)) \<and>
     (\<forall>r \<in> set (session_rows sid d). row_id r \<in> set (row_ids ms) \<or> covered d (row_ids ms) r)"

definition pins_match :: "db \<Rightarrow> chat_msg list \<Rightarrow> bool" where
  "pins_match d ms \<longleftrightarrow> (\<forall>m \<in> set ms. \<forall>i. db_id m = Some i \<longrightarrow> pinned (the_row d i) = c_pinned m)"

text \<open>The conversation is as it was loaded, or has one visible summary, the newest one.\<close>

definition view_shape :: "chat_msg list \<Rightarrow> bool" where
  "view_shape ms \<longleftrightarrow> (\<forall>m \<in> set ms. in_view m \<and> \<not> is_summary m) \<or>
     (\<exists>a. anchored a ms \<and> (\<forall>m \<in> set ms. \<forall>i j. is_summary m \<and> db_id m = Some i \<and> db_id (ms ! a) = Some j \<longrightarrow> i \<le> j))"

lemma the_row_mem:
  assumes "distinct (map row_id (rows d))" "r \<in> set (rows d)"
  shows "the_row d (row_id r) = r" "get_row (row_id r) d = Some r"
proof -
  show "get_row (row_id r) d = Some r"
  proof (cases "get_row (row_id r) d")
    case None
    then show ?thesis using assms(2) by (auto simp: get_row_def find_None_iff)
  next
    case (Some r')
    then have "r' \<in> set (rows d)" "row_id r' = row_id r" by (auto simp: get_row_def find_Some_iff)
    then show ?thesis using Some assms by (metis distinct_map inj_onD)
  qed
  then show "the_row d (row_id r) = r" by (simp add: the_row_def)
qed

lemma representsD:
  assumes "well_keyed sid d" "represents sid d m" "db_id m = Some i"
  shows "the_row d i \<in> set (session_rows sid d)" "row_id (the_row d i) = i" "kind (the_row d i) = Summary \<longleftrightarrow> is_summary m"
    "kind (the_row d i) \<noteq> Reverted" "kind (the_row d i) \<noteq> Queued" "get_row i d = Some (the_row d i)"
proof -
  obtain r where r: "r \<in> set (session_rows sid d)" "row_id r = i" "kind r = Summary \<longleftrightarrow> is_summary m" "kind r \<noteq> Reverted" "kind r \<noteq> Queued"
    using assms by (auto simp: represents_def)
  have "r \<in> set (rows d)" using r(1) by (simp add: session_rows_def)
  then have "the_row d i = r" "get_row i d = Some r" using the_row_mem [of d r] r(2) assms(1) by (auto simp: well_keyed_def)
  then show "the_row d i \<in> set (session_rows sid d)" "row_id (the_row d i) = i" "kind (the_row d i) = Summary \<longleftrightarrow> is_summary m"
    "kind (the_row d i) \<noteq> Reverted" "kind (the_row d i) \<noteq> Queued" "get_row i d = Some (the_row d i)" using r by simp_all
qed

lemma mem_row_ids: "i \<in> set (row_ids ms) \<longleftrightarrow> (\<exists>m \<in> set ms. db_id m = Some i)"
  by (force simp: List.map_filter_def)

lemma row_ids_append [simp]: "row_ids (xs @ ys) = row_ids xs @ row_ids ys"
  "row_ids (x # xs) = (case db_id x of None \<Rightarrow> row_ids xs | Some i \<Rightarrow> i # row_ids xs)" "row_ids [] = []"
  by (auto simp: List.map_filter_def split: option.split)

section \<open>The window\<close>

lemma row_before_pos: "sorted_wrt row_before rs \<Longrightarrow> sorted_wrt (\<lambda>r r'. pos r < pos r') rs"
  by (rule sorted_wrt_mono_rel) (auto simp: row_before_def)

lemma row_ids_nth:
  assumes "i \<in> set (row_ids ms)"
  obtains x where "x < length ms" "db_id (ms ! x) = Some i"
proof -
  obtain m where "m \<in> set ms" "db_id m = Some i" using assms by (auto simp: mem_row_ids)
  then show ?thesis using that by (auto simp: in_set_conv_nth)
qed

lemma row_ids_filter: "i \<in> set (row_ids (filter P ms)) \<Longrightarrow> i \<in> set (row_ids ms)"
  by (auto simp: mem_row_ids)

lemma strict_distinct: "sorted_wrt (\<lambda>r r'. pos r < pos r') rs \<Longrightarrow> distinct rs"
  by (induction rs) auto

lemma row_ids_nth_before:
  assumes "sorted_wrt row_before (map (the_row d) (row_ids ms))" "x < y" "y < length ms" "db_id (ms ! x) = Some i" "db_id (ms ! y) = Some j"
  shows "row_before (the_row d i) (the_row d j)"
proof -
  obtain us vs ws where ms: "ms = us @ ms ! x # vs @ ms ! y # ws"
  proof
    have "drop (Suc x) ms = take (y - Suc x) (drop (Suc x) ms) @ drop y ms"
      using assms(2) by (metis append_take_drop_id drop_drop le_add_diff_inverse2 Suc_leI)
    moreover have "drop y ms = ms ! y # drop (Suc y) ms" using assms(3) by (simp add: Cons_nth_drop_Suc)
    ultimately show "ms = take x ms @ ms ! x # take (y - Suc x) (drop (Suc x) ms) @ ms ! y # drop (Suc y) ms"
      using assms(2,3) id_take_nth_drop [of x ms] by simp
  qed
  have "row_ids ms = row_ids us @ i # row_ids vs @ j # row_ids ws"
    by (subst ms) (use assms(4,5) in simp)
  then show ?thesis using assms(1) by (simp add: sorted_wrt_append)
qed

lemma window_of_ids:
  assumes m: "matches sid d ms" and w: "\<And>m i. m \<in> set ms \<Longrightarrow> db_id m = Some i \<Longrightarrow> in_window s None True (the_row d i) \<longleftrightarrow> in_view m"
    and o: "\<And>r. r \<in> set (session_rows sid d) \<Longrightarrow> row_id r \<notin> set (row_ids ms) \<Longrightarrow> \<not> in_window s None True r"
    and act: "get_active_summary sid None d = s" and all: "\<forall>m \<in> set ms. in_view m \<longrightarrow> db_id m \<noteq> None"
  shows "get_messages_for_llm sid d = map (the_row d) (map (the \<circ> db_id) (messages_for_llm ms))"
proof -
  let ?vs = "map (the \<circ> db_id) (messages_for_llm ms)" and ?W = "filter (in_window s None True) (session_rows sid d)"
  have key: "well_keyed sid d" and rep: "\<And>m. m \<in> set ms \<Longrightarrow> represents sid d m"
    and srt: "sorted_wrt row_before (map (the_row d) (row_ids ms))" using m by (auto simp: matches_def)
  have di: "inj_on row_id (set (rows d))" "distinct (session_rows sid d)" using key by (auto simp: well_keyed_def distinct_map session_rows_def)
  have v: "row_ids (messages_for_llm ms) = ?vs"
    using all unfolding messages_for_llm_def by (induction ms) (auto split: option.split)
  have vsort: "sorted_wrt (\<lambda>r r'. pos r < pos r') (map (the_row d) ?vs)"
  proof -
    have "sorted_wrt (\<lambda>r r'. pos r < pos r') (map (the_row d) (row_ids (filter P xs)))"
      if "sorted_wrt (\<lambda>r r'. pos r < pos r') (map (the_row d) (row_ids xs))" for P xs
      using that by (induction xs) (auto dest: row_ids_filter split: option.splits)
    then show ?thesis using row_before_pos [OF srt] v unfolding messages_for_llm_def by metis
  qed
  have set_eq: "set ?W = set (map (the_row d) ?vs)"
  proof (intro equalityI subsetI)
    fix r assume r: "r \<in> set ?W"
    then have "row_id r \<in> set (row_ids ms)" using o by auto
    then obtain m' where m': "m' \<in> set ms" "db_id m' = Some (row_id r)" by (auto simp: mem_row_ids)
    have "the_row d (row_id r) = r" using the_row_mem(1) [of d r] r key by (auto simp: well_keyed_def session_rows_def)
    moreover have "in_view m'" using w [OF m'] r calculation by simp
    ultimately have "r = the_row d (the (db_id m'))" "m' \<in> set (messages_for_llm ms)" using m' by (auto simp: mem_view)
    then show "r \<in> set (map (the_row d) ?vs)" by auto
  next
    fix r assume "r \<in> set (map (the_row d) ?vs)"
    then obtain m' where m': "m' \<in> set ms" "in_view m'" "r = the_row d (the (db_id m'))" by (auto simp: mem_view)
    then obtain i where i: "db_id m' = Some i" using all by auto
    show "r \<in> set ?W" using representsD(1) [OF key rep [OF m'(1)] i] w [OF m'(1) i] m' i by simp
  qed
  have "mset (map (the_row d) ?vs) = mset ?W"
    by (rule set_eq_iff_mset_eq_distinct [THEN iffD1]) (use set_eq strict_distinct [OF vsort] di(2) in simp_all)
  moreover have "inj_on pos (set ?W)" using di(1) by (auto simp: inj_on_def pos_def session_rows_def)
  moreover have "sorted (map pos (map (the_row d) ?vs))"
    unfolding sorted_map by (rule sorted_wrt_mono_rel [OF _ vsort]) simp
  ultimately have "sort_key pos ?W = map (the_row d) ?vs" by (rule sort_key_unique)
  then show ?thesis using act key
    by (simp add: get_messages_for_llm_def llm_window_rows_def llm_window_def well_keyed_def revert_boundary_alt)
qed

lemma active_summary_None: "(\<And>r. r \<in> set (session_rows sid d) \<Longrightarrow> kind r \<noteq> Summary) \<Longrightarrow> get_active_summary sid None d = None"
  by (auto simp: get_active_summary_def Let_def filter_empty_conv)

lemma active_summary_newest:
  assumes "s \<in> set (session_rows sid d)" "kind s = Summary"
    and "\<And>r. r \<in> set (session_rows sid d) \<Longrightarrow> kind r = Summary \<Longrightarrow> r \<noteq> s \<Longrightarrow> row_id r < row_id s"
  shows "get_active_summary sid None d = Some s"
proof -
  let ?f = "filter (\<lambda>r. kind r = Summary \<and> before_boundary None r) (session_rows sid d)"
  have mem: "s \<in> set ?f" using assms(1,2) by (simp add: before_boundary_def)
  have "last (sort_key row_id ?f) = s" by (rule last_sort_key [OF mem]) (use assms(3) in auto)
  moreover have "?f \<noteq> []" using mem by (metis empty_iff list.set(1))
  ultimately show ?thesis by (simp only: get_active_summary_def Let_def if_False)
qed

lemma matched_window:
  assumes m: "matches sid d ms" and pins: "pins_match d ms" and sh: "view_shape ms" and all: "\<forall>m \<in> set ms. in_view m \<longrightarrow> db_id m \<noteq> None"
  shows "get_messages_for_llm sid d = map (the_row d) (map (the \<circ> db_id) (messages_for_llm ms))"
proof -
  have key: "well_keyed sid d" and rep: "\<And>m. m \<in> set ms \<Longrightarrow> represents sid d m"
    and out: "\<And>r. r \<in> set (session_rows sid d) \<Longrightarrow> row_id r \<notin> set (row_ids ms) \<Longrightarrow> covered d (row_ids ms) r"
    and srt: "sorted_wrt row_before (map (the_row d) (row_ids ms))"
    using m by (auto simp: matches_def)
  note D = representsD [OF key rep]
  consider (plain) "\<forall>m \<in> set ms. in_view m \<and> \<not> is_summary m"
    | (summary) a where "anchored a ms" "\<forall>m \<in> set ms. \<forall>i j. is_summary m \<and> db_id m = Some i \<and> db_id (ms ! a) = Some j \<longrightarrow> i \<le> j"
    using sh by (auto simp: view_shape_def)
  then show ?thesis
  proof cases
    case plain
    have none: "kind (the_row d i) \<noteq> Summary" if "i \<in> set (row_ids ms)" for i using that plain D(3) by (auto simp: mem_row_ids)
    have o: "kind r = Reverted \<or> kind r = Queued" if "r \<in> set (session_rows sid d)" "row_id r \<notin> set (row_ids ms)" for r
      using out [OF that] none by (auto simp: covered_def)
    have k: "kind r \<noteq> Summary" if "r \<in> set (session_rows sid d)" for r
    proof (cases "row_id r \<in> set (row_ids ms)")
      case True
      then show ?thesis using none [OF True] the_row_mem(1) [of d r] that key by (auto simp: well_keyed_def session_rows_def)
    qed (use o [OF that] in auto)
    show ?thesis
    proof (rule window_of_ids [OF m _ _ active_summary_None [OF k] all])
      show "in_window None None True (the_row d i) \<longleftrightarrow> in_view x" if "x \<in> set ms" "db_id x = Some i" for x i
        using D [OF that] plain that(1) by (auto simp: in_window_def before_boundary_def)
    qed (use o in \<open>auto simp: in_window_def\<close>)
  next
    case (summary a)
    have a: "a < length ms" "is_summary (ms ! a)" "in_view (ms ! a)" using summary(1) by (auto simp: anchored_def)
    then obtain j where j: "db_id (ms ! a) = Some j" using all by (metis nth_mem option.exhaust)
    let ?s = "the_row d j"
    note s = D [OF nth_mem [OF a(1)] j]
    have below: "x < a \<and> pos (the_row d i) < pos ?s \<or> x = a \<and> i = j \<or> x > a \<and> pos ?s < pos (the_row d i)"
      if "x < length ms" "db_id (ms ! x) = Some i" for x i
      using row_ids_nth_before [OF srt _ a(1) that(2) j] row_ids_nth_before [OF srt _ that(1) j that(2)] that j
      by (cases x a rule: linorder_cases) (auto simp: row_before_def)
    have old: "x < a" if "x < length ms" "is_summary (ms ! x)" "x \<noteq> a" for x
      using summary(1) that by (auto simp: anchored_def)
    have cov: "i \<le> j \<and> (i = j \<or> pos (the_row d i) < pos ?s)" if k: "i \<in> set (row_ids ms)" "kind (the_row d i) = Summary" for i
    proof -
      obtain x where x: "x < length ms" "db_id (ms ! x) = Some i" by (rule row_ids_nth [OF k(1)])
      then have "is_summary (ms ! x)" using D(3) [OF nth_mem x(2)] k(2) by simp
      then show ?thesis using summary(2) x j old [OF x(1)] below [OF x] nth_mem [OF x(1)] by (cases "x = a") auto
    qed
    have o: "kind r = Summary \<and> row_id r < j \<or> kind r \<noteq> Summary \<and> (kind r = Reverted \<or> kind r = Queued \<or> \<not> pinned r \<and> pos r < pos ?s)"
      if r: "r \<in> set (session_rows sid d)" "row_id r \<notin> set (row_ids ms)" for r
    proof (cases "kind r = Reverted \<or> kind r = Queued")
      case False
      then obtain i where i: "i \<in> set (row_ids ms)" "kind (the_row d i) = Summary"
        "if kind r = Summary then row_id r < i else \<not> pinned r \<and> pos r < pos (the_row d i)"
        using out [OF r] by (auto simp: covered_def)
      then show ?thesis using cov [OF i(1,2)] by (cases "kind r = Summary") auto
    qed auto
    have act: "get_active_summary sid None d = Some ?s"
    proof (rule active_summary_newest)
      fix r assume r: "r \<in> set (session_rows sid d)" "kind r = Summary" "r \<noteq> ?s"
      show "row_id r < row_id ?s"
      proof (cases "row_id r \<in> set (row_ids ms)")
        case True
        have "the_row d (row_id r) = r" using the_row_mem(1) [of d r] r(1) key by (auto simp: well_keyed_def session_rows_def)
        then show ?thesis using cov [OF True] r s(2) by (cases "row_id r = j") auto
      qed (use o r s(2) in auto)
    qed (use s a in auto)
    show ?thesis
    proof (rule window_of_ids [OF m _ _ act all])
      fix x i assume x: "x \<in> set ms" "db_id x = Some i"
      obtain n where n: "n < length ms" "x = ms ! n" using x(1) by (auto simp: in_set_conv_nth)
      have sh: "in_view x \<longrightarrow> (n < a \<longrightarrow> c_pinned x) \<and> (is_summary x \<longrightarrow> n = a)" "\<not> in_view x \<longrightarrow> n < a \<and> \<not> c_pinned x"
        using summary(1) n by (auto simp: anchored_def)
      have "n = a \<longleftrightarrow> i = j" using below [of n i] n x(2) by auto
      then show "in_window (Some ?s) None True (the_row d i) \<longleftrightarrow> in_view x"
        using sh below [of n i] n x(2) D [OF x] s(2) pins x(1) a(3)
        by (auto simp: in_window_def before_boundary_def pins_match_def)
    next
      fix r assume "r \<in> set (session_rows sid d)" "row_id r \<notin> set (row_ids ms)"
      then show "\<not> in_window (Some ?s) None True r" using o s(2) by (fastforce simp: in_window_def)
    qed
  qed
qed

section \<open>One new row\<close>

abbreviation add_row :: "row \<Rightarrow> db \<Rightarrow> db" where
  "add_row r d \<equiv> d\<lparr>rows := rows d @ [r], next_id := Suc (next_id d)\<rparr>"

lemma session_rows_add [simp]: "session_rows sid (add_row r d) = session_rows sid d @ (if row_session r = sid then [r] else [])"
  by (simp add: session_rows_def)

lemma get_row_add: "get_row i (add_row r d) = (case get_row i d of None \<Rightarrow> if row_id r = i then Some r else None | Some x \<Rightarrow> Some x)"
proof -
  have "find P (xs @ [y]) = (case find P xs of None \<Rightarrow> if P y then Some y else None | Some x \<Rightarrow> Some x)" for P and xs :: "row list" and y
    by (induction xs) auto
  then show ?thesis by (simp add: get_row_def)
qed

lemma the_row_add: "get_row i d \<noteq> None \<Longrightarrow> the_row (add_row r d) i = the_row d i"
  by (auto simp: the_row_def get_row_add)

lemma fresh_row: "well_keyed sid d \<Longrightarrow> get_row (next_id d) d = None"
  by (auto simp: well_keyed_def get_row_def find_None_iff)

text \<open>A saved message: the list of messages with its row between those of \<open>xs\<close> and of \<open>ys\<close>.\<close>

lemma matches_add:
  assumes m: "matches sid d (xs @ x # ys)" "db_id x = None"
    and r: "row_id r = next_id d" "row_session r = sid" "kind r = Summary \<longleftrightarrow> is_summary x" "kind r \<noteq> Reverted" "kind r \<noteq> Queued"
      "seq r \<ge> 0" "kind r \<noteq> Summary \<longrightarrow> seq r > 0"
    and bef: "\<And>i. i \<in> set (row_ids xs) \<Longrightarrow> row_before (the_row d i) r" and aft: "\<And>i. i \<in> set (row_ids ys) \<Longrightarrow> row_before r (the_row d i)"
  shows "matches sid (add_row r d) (xs @ x\<lparr>db_id := Some (next_id d)\<rparr> # ys)"
proof -
  let ?d = "add_row r d" and ?ms = "xs @ x\<lparr>db_id := Some (next_id d)\<rparr> # ys"
  have key: "well_keyed sid d" and rep: "\<And>m. m \<in> set (xs @ x # ys) \<Longrightarrow> represents sid d m" using m by (auto simp: matches_def)
  have old: "the_row ?d i = the_row d i" if i: "i \<in> set (row_ids xs) \<union> set (row_ids ys)" for i
  proof -
    obtain y where "y \<in> set (xs @ x # ys)" "db_id y = Some i" using i by (auto simp: mem_row_ids)
    then show ?thesis using representsD(6) [OF key rep] by (simp add: the_row_add)
  qed
  have new: "the_row ?d (next_id d) = r" using fresh_row [OF key] r(1) by (simp add: the_row_def get_row_add)
  have "well_keyed sid ?d" using key r(1,2,6,7) by (auto simp: well_keyed_def revert_of_def)
  moreover have "represents sid ?d y" if y: "y \<in> set ?ms" for y
  proof (cases "y \<in> set (xs @ x # ys)")
    case True
    then show ?thesis using rep [OF True] unfolding represents_def by fastforce
  next
    case False
    then show ?thesis using y r(1-5) by (auto simp: represents_def)
  qed
  moreover have "sorted_wrt row_before (map (the_row ?d) (row_ids ?ms))"
  proof -
    have "sorted_wrt row_before (map (the_row d) (row_ids xs) @ r # map (the_row d) (row_ids ys))"
      using m bef aft by (auto simp: matches_def sorted_wrt_append)
    moreover have "map (the_row ?d) (row_ids ?ms) = map (the_row d) (row_ids xs) @ r # map (the_row d) (row_ids ys)"
      using old new by simp
    ultimately show ?thesis by (simp only:)
  qed
  moreover have "row_id q \<in> set (row_ids ?ms) \<or> covered ?d (row_ids ?ms) q" if q: "q \<in> set (session_rows sid ?d)" for q
  proof (cases "q = r")
    case False
    then have "row_id q \<in> set (row_ids (xs @ x # ys)) \<or> covered d (row_ids (xs @ x # ys)) q"
      using q m r(2) by (auto simp: matches_def)
    then show ?thesis using old m(2) by (auto simp: covered_def)
  qed (simp add: r(1))
  ultimately show ?thesis by (simp add: matches_def)
qed

lemma pins_match_add:
  assumes m: "matches sid d (xs @ x # ys)" "db_id x = None" and "pins_match d (xs @ x # ys)" "row_id r = next_id d" "pinned r = c_pinned x"
  shows "pins_match (add_row r d) (xs @ x\<lparr>db_id := Some (next_id d)\<rparr> # ys)"
proof -
  have key: "well_keyed sid d" and rep: "\<And>m. m \<in> set (xs @ x # ys) \<Longrightarrow> represents sid d m" using m by (auto simp: matches_def)
  have "the_row (add_row r d) (next_id d) = r" using fresh_row [OF key] assms(4) by (simp add: the_row_def get_row_add)
  moreover have "the_row (add_row r d) i = the_row d i" if "y \<in> set xs \<union> set ys" "db_id y = Some i" for y i
    using representsD(6) [OF key rep that(2)] that(1) by (simp add: the_row_add)
  ultimately show ?thesis using assms(3,5) by (auto simp: pins_match_def)
qed

section \<open>Flushing the tail\<close>

text \<open>A message that the checkpointer saves when it is new.\<close>

definition storable :: "chat_msg \<Rightarrow> bool" where
  "storable m \<longleftrightarrow> (case c_body m of
     AssistantMsg a \<Rightarrow> has_content a m | ToolMsg _ _ \<Rightarrow> \<not> is_summary m | HumanMsg \<Rightarrow> is_summary m \<or> hidden_from_user m | SystemMsg \<Rightarrow> False)"

definition pins_noted :: "(nat \<times> bool) list \<Rightarrow> chat_msg list \<Rightarrow> bool" where
  "pins_noted flushed ms \<longleftrightarrow> (\<forall>m \<in> set ms. \<forall>i. db_id m = Some i \<longrightarrow> pin_flag flushed i = c_pinned m)"

text \<open>The state in the middle of a flush: every message with an id has its row, with its pin.\<close>

definition flushing :: "string \<Rightarrow> flush_state \<Rightarrow> chat_msg list \<Rightarrow> bool" where
  "flushing sid st ms \<longleftrightarrow> matches sid (fl_db st) ms \<and> pins_match (fl_db st) ms \<and> pins_noted (flushed_pinned st) ms \<and>
     (\<forall>t. fl_tail st = Some t \<longrightarrow> 0 \<le> t \<and> (\<forall>r \<in> set (session_rows sid (fl_db st)). seq r \<le> t))"

lemma pin_flag_update [simp]: "pin_flag (AList.update i b us) j = (if i = j then b else pin_flag us j)"
  by (simp add: pin_flag_def update_conv')

lemma saved_kind:
  "row_before r r' \<Longrightarrow> pos r < pos r'" "draft_kind (draft_of m) s False None = (if s then Summary else if hidden_from_user m then Note else Chat)"
  by (simp_all add: row_before_def draft_kind_def draft_of_def user_draft_def Let_def split: chat_body.split)

lemma flush_one_storable:
  "storable m \<Longrightarrow> (case c_body m of ToolMsg _ _ \<Rightarrow> place = None | _ \<Rightarrow> True) \<Longrightarrow> flush_one sid place (False, m) st = flush_row sid place (is_summary m) m st"
  by (auto simp: storable_def flush_one_def split: chat_body.splits)

lemma flush_row_eq:
  fixes st sid place m
  defines "p \<equiv> case place of Some s \<Rightarrow> s | None \<Rightarrow> next_tail sid st"
  obtains r where "flush_row sid place s m st =
      ((True, m\<lparr>db_id := Some (next_id (fl_db st))\<rparr>),
       \<lparr>fl_db = add_row r (fl_db st), fl_tail = (case place of Some _ \<Rightarrow> fl_tail st | None \<Rightarrow> Some p),
        flushed_pinned = AList.update (next_id (fl_db st)) (c_pinned m) (flushed_pinned st), saved_summary = (saved_summary st \<or> s)\<rparr>)"
    "row_id r = next_id (fl_db st)" "row_session r = sid" "kind r = (if s then Summary else if hidden_from_user m then Note else Chat)"
    "seq r = p" "pinned r = c_pinned m"
proof -
  obtain r d where s: "save_message sid (draft_of m) s False None (Some (c_pinned m)) (Some p) False (fl_db st) = (r, d)" by force
  have d: "d = add_row r (fl_db st)" and r: "row_id r = next_id (fl_db st)" "row_session r = sid" "seq r = p" "pinned r = c_pinned m"
      "kind r = (if s then Summary else if hidden_from_user m then Note else Chat)"
    using s saved_kind(2) [of m s] by (auto simp: save_message_def Let_def)
  have "flush_row sid place s m st =
      ((True, m\<lparr>db_id := Some (row_id r)\<rparr>),
       \<lparr>fl_db = d, fl_tail = (case place of Some _ \<Rightarrow> fl_tail st | None \<Rightarrow> Some p),
        flushed_pinned = AList.update (row_id r) (c_pinned m) (flushed_pinned st), saved_summary = (saved_summary st \<or> s)\<rparr>)"
    using s unfolding flush_row_def p_def by (simp add: Let_def)
  then show ?thesis using that [of r] d r by simp
qed

lemma max_seq_ge: "r \<in> set rs \<Longrightarrow> seq r \<le> max_seq rs"
  by (auto simp: max_seq_def)

lemma tail_above:
  assumes "flushing sid st ms" "r \<in> set (session_rows sid (fl_db st))"
  shows "seq r < next_tail sid st"
  using assms max_seq_ge [OF assms(2)] by (cases "fl_tail st") (auto simp: next_tail_def flushing_def next_seq_def SEQ_STEP_def)

lemma tail_positive:
  assumes "flushing sid st ms"
  shows "0 < next_tail sid st"
proof (cases "fl_tail st")
  case None
  have "0 \<le> max_seq (session_rows sid (fl_db st))"
  proof (cases "session_rows sid (fl_db st)")
    case (Cons r rs)
    then have "0 \<le> seq r" using assms by (auto simp: flushing_def matches_def well_keyed_def)
    then show ?thesis using max_seq_ge [of r "session_rows sid (fl_db st)"] Cons by simp
  qed (simp add: max_seq_def)
  then show ?thesis using None by (simp add: next_tail_def next_seq_def SEQ_STEP_def)
qed (use assms in \<open>auto simp: next_tail_def flushing_def SEQ_STEP_def\<close>)

lemma flush_placed:
  assumes f: "flushing sid st (xs @ m # ys)" and m: "db_id m = None" "storable m" "case c_body m of ToolMsg _ _ \<Rightarrow> place = None | _ \<Rightarrow> True"
    and q: "q = (case place of Some s \<Rightarrow> s | None \<Rightarrow> next_tail sid st)" "0 \<le> q" "\<not> is_summary m \<Longrightarrow> 0 < q"
      "place \<noteq> None \<Longrightarrow> fl_tail st = None"
    and bef: "\<And>i. i \<in> set (row_ids xs) \<Longrightarrow> seq (the_row (fl_db st) i) \<le> q \<and> (\<not> is_summary m \<longrightarrow> seq (the_row (fl_db st) i) < q)"
    and aft: "\<And>i. i \<in> set (row_ids ys) \<Longrightarrow> q < seq (the_row (fl_db st) i)"
  obtains i st' where "flush_one sid place (False, m) st = ((True, m\<lparr>db_id := Some i\<rparr>), st')" "flushing sid st' (xs @ m\<lparr>db_id := Some i\<rparr> # ys)"
    "i = next_id (fl_db st)"
proof -
  let ?d = "fl_db st"
  obtain r where fl: "flush_row sid place (is_summary m) m st =
      ((True, m\<lparr>db_id := Some (next_id ?d)\<rparr>),
       \<lparr>fl_db = add_row r ?d, fl_tail = (case place of Some _ \<Rightarrow> fl_tail st | None \<Rightarrow> Some q),
        flushed_pinned = AList.update (next_id ?d) (c_pinned m) (flushed_pinned st), saved_summary = (saved_summary st \<or> is_summary m)\<rparr>)"
    and r: "row_id r = next_id ?d" "row_session r = sid" "kind r = (if is_summary m then Summary else if hidden_from_user m then Note else Chat)"
      "seq r = q" "pinned r = c_pinned m"
    using flush_row_eq [of sid place "is_summary m" m st] q(1) by metis
  have mt: "matches sid ?d (xs @ m # ys)" and pm: "pins_match ?d (xs @ m # ys)" using f by (auto simp: flushing_def)
  have key: "well_keyed sid ?d" and rep: "\<And>x. x \<in> set (xs @ m # ys) \<Longrightarrow> represents sid ?d x" using mt by (auto simp: matches_def)
  have ids: "row_id (the_row ?d i) < next_id ?d" if i: "i \<in> set (row_ids (xs @ m # ys))" for i
  proof -
    obtain x where "x \<in> set (xs @ m # ys)" "db_id x = Some i" using i unfolding mem_row_ids by blast
    then show ?thesis using representsD(1) [OF key rep] key by (auto simp: well_keyed_def session_rows_def)
  qed
  have k: "kind r = Summary \<longleftrightarrow> is_summary m" "kind r \<noteq> Reverted" "kind r \<noteq> Queued" using r(3) by auto
  have "row_before (the_row ?d i) r" if "i \<in> set (row_ids xs)" for i
    using bef [OF that] ids [of i] that r k by (auto simp: row_before_def pos_def)
  moreover have "row_before r (the_row ?d i)" if "i \<in> set (row_ids ys)" for i
    using aft [OF that] r by (auto simp: row_before_def pos_def)
  ultimately have "matches sid (add_row r ?d) (xs @ m\<lparr>db_id := Some (next_id ?d)\<rparr> # ys)"
    using matches_add [OF mt m(1) r(1,2) k] q r by auto
  moreover have "pins_match (add_row r ?d) (xs @ m\<lparr>db_id := Some (next_id ?d)\<rparr> # ys)"
    by (rule pins_match_add [OF mt m(1) pm r(1,5)])
  moreover have "pins_noted (AList.update (next_id ?d) (c_pinned m) (flushed_pinned st)) (xs @ m\<lparr>db_id := Some (next_id ?d)\<rparr> # ys)"
  proof -
    have "i \<noteq> next_id ?d" if "x \<in> set xs \<union> set ys" "db_id x = Some i" for x i
      using representsD(1,2) [OF key rep that(2)] that(1) key by (auto simp: well_keyed_def session_rows_def)
    then show ?thesis using f by (auto simp: pins_noted_def flushing_def)
  qed
  moreover have "seq x \<le> q" if "place = None" "x \<in> set (session_rows sid (add_row r ?d))" for x
    using that tail_above [OF f] q(1) r by fastforce
  ultimately show ?thesis
    using that [OF _ _ refl] flush_one_storable [OF m(2,3)] fl q by (auto simp: flushing_def split: option.splits)
qed

lemma flush_seen: "list_all fst P \<Longrightarrow> flush_new sid d (P @ ts) st = apfst ((@) P) (flush_new sid d ts st)"
proof (induction P)
  case Nil
  then show ?case by (cases "flush_new sid d ts st") simp
next
  case (Cons t P)
  then show ?case by (cases "flush_new sid d ts st") (simp add: flush_one_def)
qed

text \<open>The messages of a flushed list are the old ones with their ids filled in.\<close>

definition filled :: "tracked \<Rightarrow> tracked \<Rightarrow> bool" where
  "filled t t' \<longleftrightarrow> fst t' \<and> (if fst t then t' = t else \<exists>i. snd t' = (snd t)\<lparr>db_id := Some i\<rparr>)"

lemma filled_seen: "list_all fst P \<Longrightarrow> list_all2 filled P P"
  by (induction P) (auto simp: filled_def)

lemma flush_tail:
  assumes "\<forall>t \<in> set N. \<not> fst t \<and> db_id (snd t) = None \<and> storable (snd t) \<and> \<not> is_summary (snd t)" "flushing sid st (xs @ map snd N)"
  obtains N' st' where "flush_new sid d N st = (N', st')" "flushing sid st' (xs @ map snd N')" "list_all2 filled N N'"
  using assms
proof (induction N arbitrary: st xs thesis)
  case Nil
  then show ?case by simp
next
  case (Cons t N)
  obtain m where t: "t = (False, m)" and m: "db_id m = None" "storable m" "\<not> is_summary m" using Cons.prems(2) by (cases t) auto
  have f: "flushing sid st (xs @ m # map snd N)" using Cons.prems(3) t by simp
  have "i \<notin> set (row_ids (map snd N))" for i using Cons.prems(2) by (force simp: mem_row_ids)
  moreover have "seq (the_row (fl_db st) i) < next_tail sid st" if i: "i \<in> set (row_ids xs)" for i
  proof -
    obtain x where "x \<in> set xs" "db_id x = Some i" using i by (auto simp: mem_row_ids)
    moreover have "well_keyed sid (fl_db st)" "\<forall>x \<in> set xs. represents sid (fl_db st) x" using f by (auto simp: flushing_def matches_def)
    ultimately show ?thesis using representsD(1) tail_above [OF f] by blast
  qed
  note calculation = calculation this
  obtain i st1 where o: "flush_one sid None (False, m) st = ((True, m\<lparr>db_id := Some i\<rparr>), st1)"
    "flushing sid st1 (xs @ m\<lparr>db_id := Some i\<rparr> # map snd N)"
  proof (rule flush_placed [OF f m(1,2), of None "next_tail sid st"])
    show "case c_body m of ToolMsg x _ \<Rightarrow> None = None | _ \<Rightarrow> True" by (simp split: chat_body.split)
  qed (use tail_positive [OF f] calculation in \<open>auto intro: less_imp_le\<close>)
  obtain N' st' where n: "flush_new sid d N st1 = (N', st')" "flushing sid st' ((xs @ [m\<lparr>db_id := Some i\<rparr>]) @ map snd N')" "list_all2 filled N N'"
  proof (rule Cons.IH)
    show "\<forall>t \<in> set N. \<not> fst t \<and> db_id (snd t) = None \<and> storable (snd t) \<and> \<not> is_summary (snd t)" using Cons.prems(2) by simp
    show "flushing sid st1 ((xs @ [m\<lparr>db_id := Some i\<rparr>]) @ map snd N)" using o(2) by simp
  qed blast
  show ?case
  proof (rule Cons.prems(1))
    show "flush_new sid d (t # N) st = ((True, m\<lparr>db_id := Some i\<rparr>) # N', st')" using o(1) n(1) t m(3) by (simp add: resolve_summary_seq_def)
    show "flushing sid st' (xs @ map snd ((True, m\<lparr>db_id := Some i\<rparr>) # N'))" using n(2) by simp
    show "list_all2 filled (t # N) ((True, m\<lparr>db_id := Some i\<rparr>) # N')" using n(3) t by (auto simp: filled_def)
  qed
qed

section \<open>Pins\<close>

lemma pin_updates_fold:
  "i \<notin> set (row_ids (map snd ts)) \<Longrightarrow>
   map_of (fold (\<lambda>(seen, m) us. case db_id m of
         None \<Rightarrow> us
       | Some i \<Rightarrow>
           if \<not> seen \<or> is_system m \<or> pin_flag flushed i = c_pinned m then us
           else AList.update i (c_pinned m) us) ts us) i = map_of us i"
  by (induction ts arbitrary: us) (auto simp: update_conv' split: option.splits)

lemma pin_updates_other: "i \<notin> set (row_ids (map snd ts)) \<Longrightarrow> map_of (pin_updates flushed ts) i = None"
  by (simp add: pin_updates_def pin_updates_fold)

lemma pin_updates_seen:
  assumes "distinct (row_ids (map snd ts))" "(True, m) \<in> set ts" "db_id m = Some i" "\<not> is_system m"
  shows "map_of (pin_updates flushed ts) i = (if pin_flag flushed i = c_pinned m then None else Some (c_pinned m))"
proof -
  obtain xs ys where ts: "ts = xs @ (True, m) # ys" using assms(2) by (metis in_set_conv_decomp)
  have n: "i \<notin> set (row_ids (map snd xs))" "i \<notin> set (row_ids (map snd ys))" using assms(1,3) by (auto simp: ts)
  show ?thesis unfolding pin_updates_def ts
    using assms(3,4) pin_updates_fold [OF n(1), of flushed "[]"] pin_updates_fold [OF n(2)] by (simp add: update_conv')
qed

lemma pin_flag_fold:
  "distinct (map fst us) \<Longrightarrow> pin_flag (fold (\<lambda>(i, b). AList.update i b) us flushed) j = (case map_of us j of None \<Rightarrow> pin_flag flushed j | Some b \<Rightarrow> b)"
proof (induction us arbitrary: flushed)
  case (Cons u us)
  obtain i b where u: "u = (i, b)" by force
  have n: "map_of us i = None" using Cons.prems u by (simp add: map_of_eq_None_iff)
  have "pin_flag (fold (\<lambda>(i, b). AList.update i b) us (AList.update i b flushed)) j =
      (case map_of us j of None \<Rightarrow> pin_flag (AList.update i b flushed) j | Some b \<Rightarrow> b)"
    using Cons.IH Cons.prems by simp
  then show ?case using n u by (cases "i = j") (simp_all split: option.split)
qed simp

lemma pin_updates_distinct: "distinct (map fst (pin_updates flushed ts))"
proof -
  have "distinct (map fst us) \<Longrightarrow> distinct (map fst (fold (\<lambda>(seen, m) us. case db_id m of
         None \<Rightarrow> us
       | Some i \<Rightarrow>
           if \<not> seen \<or> is_system m \<or> pin_flag flushed i = c_pinned m then us
           else AList.update i (c_pinned m) us) ts us))" for us
    by (induction ts arbitrary: us) (auto simp: distinct_update split: option.split)
  then show ?thesis by (simp add: pin_updates_def)
qed

definition set_pin :: "(nat \<times> bool) list \<Rightarrow> row \<Rightarrow> row" where
  "set_pin us r = (case map_of us (row_id r) of None \<Rightarrow> r | Some b \<Rightarrow> r\<lparr>pinned := b\<rparr>)"

lemma set_pin_simps [simp]:
  "row_id (set_pin us r) = row_id r" "row_session (set_pin us r) = row_session r" "kind (set_pin us r) = kind r" "seq (set_pin us r) = seq r"
  "pos (set_pin us r) = pos r" "pinned (set_pin us r) = (case map_of us (row_id r) of None \<Rightarrow> pinned r | Some b \<Rightarrow> b)"
  by (simp_all add: set_pin_def pos_def split: option.split)

lemma apply_pins_rows: "rows (apply_pins us d) = map (set_pin us) (rows d)" "next_id (apply_pins us d) = next_id d" "sessions (apply_pins us d) = sessions d"
  by (simp_all add: apply_pins_def set_pin_def)

lemma apply_pins_session: "session_rows sid (apply_pins us d) = map (set_pin us) (session_rows sid d)"
  by (simp add: session_rows_def apply_pins_rows filter_map comp_def)

lemma apply_pins_get: "get_row i (apply_pins us d) = map_option (set_pin us) (get_row i d)"
proof -
  have "find (\<lambda>r. row_id r = i) (map (set_pin us) rs) = map_option (set_pin us) (find (\<lambda>r. row_id r = i) rs)" for rs
    by (induction rs) auto
  then show ?thesis by (simp add: get_row_def apply_pins_rows)
qed

lemma apply_pins_matches:
  assumes m: "matches sid d ms" and us: "\<And>i. map_of us i \<noteq> None \<Longrightarrow> i \<in> set (row_ids ms)"
  shows "matches sid (apply_pins us d) ms" "i \<in> set (row_ids ms) \<Longrightarrow> the_row (apply_pins us d) i = set_pin us (the_row d i)"
proof -
  let ?d = "apply_pins us d"
  have key: "well_keyed sid d" and rep: "\<And>m. m \<in> set ms \<Longrightarrow> represents sid d m" using m by (auto simp: matches_def)
  show tr: "the_row ?d i = set_pin us (the_row d i)" if i: "i \<in> set (row_ids ms)" for i
  proof -
    obtain x where "x \<in> set ms" "db_id x = Some i" using i by (auto simp: mem_row_ids)
    then have "get_row i d = Some (the_row d i)" by (rule representsD(6) [OF key rep])
    then show ?thesis by (simp add: the_row_def [of ?d] apply_pins_get)
  qed
  have "well_keyed sid ?d" using key by (auto simp: well_keyed_def apply_pins_rows apply_pins_session comp_def revert_of_def)
  moreover have "represents sid ?d x" if "x \<in> set ms" for x
    using rep [OF that] by (fastforce simp: represents_def apply_pins_session)
  moreover have "sorted_wrt row_before (map (the_row ?d) (row_ids ms))"
  proof -
    have "map (the_row ?d) (row_ids ms) = map (set_pin us) (map (the_row d) (row_ids ms))" using tr by simp
    moreover have "sorted_wrt row_before (map (set_pin us) rs) \<longleftrightarrow> sorted_wrt row_before rs" for rs
      by (simp add: sorted_wrt_map row_before_def [abs_def])
    moreover have "sorted_wrt row_before (map (the_row d) (row_ids ms))" using m by (simp add: matches_def)
    ultimately show ?thesis by (simp only:)
  qed
  moreover have "row_id r \<in> set (row_ids ms) \<or> covered ?d (row_ids ms) r" if r: "r \<in> set (session_rows sid ?d)" for r
  proof (cases "row_id r \<in> set (row_ids ms)")
    case False
    obtain r0 where r0: "r0 \<in> set (session_rows sid d)" "r = set_pin us r0" using r by (auto simp: apply_pins_session)
    then have "r = r0" using us [of "row_id r0"] False by (auto simp: set_pin_def split: option.splits)
    moreover have "covered d (row_ids ms) r0" using m r0 False by (auto simp: matches_def)
    ultimately show ?thesis using tr by (auto simp: covered_def)
  qed simp
  ultimately show "matches sid ?d ms" by (simp add: matches_def)
qed

section \<open>A flush\<close>

text \<open>The relation between flushes: rows match the messages, and the remembered pins are those of the rows.\<close>

definition in_step :: "string \<Rightarrow> db \<Rightarrow> (nat \<times> bool) list \<Rightarrow> tracked list \<Rightarrow> bool" where
  "in_step sid d flushed ts \<longleftrightarrow> matches sid d (map snd ts) \<and>
     (\<forall>(seen, m) \<in> set ts. \<not> is_system m \<and> (\<forall>i. db_id m = Some i \<longrightarrow> seen \<and> pin_flag flushed i = pinned (the_row d i)))"

text \<open>
  What a run does between two flushes: it appends messages \<open>N\<close> that are going to be stored and may
  have compacted, which places one new summary in front of the stored tail \<open>P2\<close>.
\<close>

definition grown :: "tracked list \<Rightarrow> tracked list \<Rightarrow> tracked list \<Rightarrow> tracked list \<Rightarrow> bool" where
  "grown P1 S P2 N \<longleftrightarrow> list_all fst P1 \<and> list_all fst P2 \<and>
     (\<forall>t \<in> set N. \<not> fst t \<and> db_id (snd t) = None \<and> storable (snd t) \<and> \<not> is_summary (snd t)) \<and>
     (S = [] \<or> (\<exists>s. S = [(False, s)] \<and> c_body s = HumanMsg \<and> is_summary s \<and> in_view s \<and> db_id s = None \<and>
        (\<forall>t \<in> set P2. db_id (snd t) \<noteq> None \<and> in_view (snd t) \<and> \<not> c_pinned (snd t) \<and> \<not> is_summary (snd t))))"

lemma distinct_row_ids:
  assumes "matches sid d ms"
  shows "distinct (row_ids ms)"
proof -
  have "distinct (map (the_row d) (row_ids ms))"
    using assms strict_distinct [OF row_before_pos] by (simp add: matches_def)
  then show ?thesis by (simp add: distinct_map)
qed

lemma start_flushing:
  assumes "in_step sid d flushed ts" "us = pin_updates flushed ts"
  shows "flushing sid \<lparr>fl_db = apply_pins us d, fl_tail = None, flushed_pinned = fold (\<lambda>(i, b). AList.update i b) us flushed, saved_summary = False\<rparr>
    (map snd ts)"
proof -
  let ?ms = "map snd ts"
  have m: "matches sid d ?ms" using assms(1) by (simp add: in_step_def)
  note dis = distinct_row_ids [OF m]
  have us: "i \<in> set (row_ids ?ms)" if "map_of us i \<noteq> None" for i
    by (rule ccontr) (use that pin_updates_other [of i ts flushed] assms(2) in simp)
  note am = apply_pins_matches [OF m us]
  have key: "well_keyed sid d" and rep: "\<And>m. m \<in> set ?ms \<Longrightarrow> represents sid d m" using m by (auto simp: matches_def)
  have seen: "(case map_of us i of None \<Rightarrow> pinned (the_row d i) | Some b \<Rightarrow> b) = c_pinned x \<and> pin_flag (fold (\<lambda>(i, b). AList.update i b) us flushed) i = c_pinned x"
    "row_id (the_row d i) = i" "i \<in> set (row_ids ?ms)" if x: "x \<in> set ?ms" "db_id x = Some i" for x i
  proof -
    have t: "(True, x) \<in> set ts" "\<not> is_system x" "pin_flag flushed i = pinned (the_row d i)" using x assms(1) by (auto simp: in_step_def)
    have "map_of us i = (if pin_flag flushed i = c_pinned x then None else Some (c_pinned x))"
      unfolding assms(2) by (rule pin_updates_seen [OF dis t(1) x(2) t(2)])
    moreover have "distinct (map fst us)" unfolding assms(2) by (rule pin_updates_distinct)
    ultimately show "(case map_of us i of None \<Rightarrow> pinned (the_row d i) | Some b \<Rightarrow> b) = c_pinned x \<and> pin_flag (fold (\<lambda>(i, b). AList.update i b) us flushed) i = c_pinned x"
      using t(3) by (simp add: pin_flag_fold)
    show "row_id (the_row d i) = i" by (rule representsD(2) [OF key rep [OF x(1)] x(2)])
    show "i \<in> set (row_ids ?ms)" using x by (auto simp: mem_row_ids)
  qed
  have "pins_match (apply_pins us d) ?ms"
    unfolding pins_match_def using seen am(2) by simp
  moreover have "pins_noted (fold (\<lambda>(i, b). AList.update i b) us flushed) ?ms" using seen(1) by (simp add: pins_noted_def)
  ultimately show ?thesis using am(1) by (simp add: flushing_def)
qed

lemma seq_before_bounds:
  assumes "well_keyed sid d" "r \<in> set (session_rows sid d)" "kind r \<noteq> Summary"
  shows "0 \<le> seq_before_row sid r d" "seq_before_row sid r d < seq r"
    "x \<in> set (session_rows sid d) \<Longrightarrow> seq x < seq r \<Longrightarrow> seq x \<le> seq_before_row sid r d"
proof -
  let ?below = "filter (\<lambda>x. seq x < seq r) (session_rows sid d)"
  have pos: "0 < seq r" using assms by (auto simp: well_keyed_def)
  have m: "max_seq ?below < seq r" "0 \<le> max_seq ?below"
  proof -
    show "max_seq ?below < seq r"
    proof (cases "?below = []")
      case False
      then have "seq ` set ?below \<noteq> {}" by (metis image_is_empty set_empty)
      then have "Max (seq ` set ?below) \<in> seq ` set ?below" by (intro Max_in) auto
      then show ?thesis using False by (auto simp: max_seq_def)
    qed (use pos in \<open>simp add: max_seq_def\<close>)
    show "0 \<le> max_seq ?below"
    proof (cases "?below = []")
      case False
      then obtain x where x: "x \<in> set ?below" by (metis list.set_sel(1))
      then have "0 \<le> seq x" using assms(1) by (auto simp: well_keyed_def)
      then show ?thesis using max_seq_ge [OF x] by simp
    qed (simp add: max_seq_def)
  qed
  have q: "max_seq ?below \<le> seq_before_row sid r d" "seq_before_row sid r d < seq r"
    using m(1) by (auto simp: seq_before_row_def seq_between_def Let_def)
  show "0 \<le> seq_before_row sid r d" "seq_before_row sid r d < seq r" using m(2) q by auto
  show "seq x \<le> seq_before_row sid r d" if "x \<in> set (session_rows sid d)" "seq x < seq r"
    using max_seq_ge [of x ?below] that q(1) by auto
qed

lemma summary_anchor_None: "\<forall>t \<in> set ts. db_id (snd t) = None \<Longrightarrow> summary_anchor ts = None"
  by (induction ts) (auto simp: summary_anchor_def)

text \<open>The new summary gets its place between the rows in front of it and the stored tail.\<close>

lemma flush_summary:
  assumes f: "flushing sid st (map snd (P1 @ (False, s) # P2 @ N))" and g: "grown P1 [(False, s)] P2 N" and m: "matches sid d (map snd (P1 @ (False, s) # P2 @ N))"
    and st: "fl_db st = apply_pins us d" "fl_tail st = None" "\<And>i. map_of us i \<noteq> None \<Longrightarrow> i \<in> set (row_ids (map snd (P1 @ (False, s) # P2 @ N)))"
  obtains i st' where "flush_one sid (resolve_summary_seq d (False, s) (P2 @ N)) (False, s) st = ((True, s\<lparr>db_id := Some i\<rparr>), st')"
    "flushing sid st' (map snd P1 @ s\<lparr>db_id := Some i\<rparr> # map snd (P2 @ N))" "i = next_id d"
proof -
  let ?ts = "P1 @ (False, s) # P2 @ N" and ?place = "resolve_summary_seq d (False, s) (P2 @ N)"
  have s: "db_id s = None" "storable s" "is_summary s" "c_body s = HumanMsg" using g by (auto simp: grown_def storable_def)
  have f': "flushing sid st (map snd P1 @ s # map snd (P2 @ N))" using f by simp
  have newN: "\<forall>t \<in> set N. db_id (snd t) = None" using g by (auto simp: grown_def)
  have key: "well_keyed sid d" and rep: "\<And>x. x \<in> set (map snd ?ts) \<Longrightarrow> represents sid d x"
    and srt: "sorted_wrt row_before (map (the_row d) (row_ids (map snd ?ts)))" using m unfolding matches_def by blast+
  have tr: "seq (the_row (fl_db st) i) = seq (the_row d i)" if "i \<in> set (row_ids (map snd ?ts))" for i
    unfolding st(1) by (subst apply_pins_matches(2) [OF m st(3) that]) simp_all
  have idN: "row_ids (map snd N) = []" using newN by (induction N) auto
  have next_id: "next_id (fl_db st) = next_id d" using st(1) by (simp add: apply_pins_rows)
  have inS: "the_row d i \<in> set (session_rows sid d)" if i: "i \<in> set (row_ids (map snd ?ts))" for i
  proof -
    obtain x where "x \<in> set (map snd ?ts)" "db_id x = Some i" using i unfolding mem_row_ids by blast
    then show ?thesis using representsD(1) [OF key rep] by blast
  qed
  show ?thesis
  proof (cases P2)
    case Nil
    then have "?place = None" using newN s by (simp add: resolve_summary_seq_def summary_anchor_None)
    moreover have "seq (the_row (fl_db st) i) < next_tail sid st" if "i \<in> set (row_ids (map snd P1))" for i
    proof -
      have that': "i \<in> set (row_ids (map snd ?ts))" using that by simp
      have "the_row (fl_db st) i \<in> set (session_rows sid (fl_db st))"
        using apply_pins_matches(2) [OF m st(3) that'] inS [OF that'] by (simp add: st(1) apply_pins_session)
      then show ?thesis by (rule tail_above [OF f])
    qed
    ultimately have "\<And>i. i \<in> set (row_ids (map snd P1)) \<Longrightarrow> seq (the_row (fl_db st) i) \<le> next_tail sid st" and place: "?place = None"
      by (auto intro: less_imp_le)
    then obtain i st' where "flush_one sid None (False, s) st = ((True, s\<lparr>db_id := Some i\<rparr>), st')"
      "flushing sid st' (map snd P1 @ s\<lparr>db_id := Some i\<rparr> # map snd (P2 @ N))" "i = next_id (fl_db st)"
      using flush_placed [OF f' s(1,2), of None "next_tail sid st"] tail_positive [OF f] s Nil idN by auto
    then show ?thesis using that place next_id by simp
  next
    case (Cons t P)
    obtain j where j: "db_id (snd t) = Some j" "in_view (snd t)" "\<not> c_pinned (snd t)" "\<not> is_summary (snd t)" using g Cons by (auto simp: grown_def)
    let ?r = "the_row d j" and ?q = "seq_before_row sid (the_row d j) d"
    have jm: "snd t \<in> set (map snd ?ts)" using Cons by simp
    note r = representsD [OF key rep [OF jm] j(1)]
    have sess: "row_session ?r = sid" using r(1) by (simp add: session_rows_def)
    have "?place = Some ?q"
      using s j Cons r(6) sess by (auto simp: resolve_summary_seq_def summary_anchor_def in_view_def split: prod.splits)
    note b = seq_before_bounds [OF key r(1)]
    have k: "kind ?r \<noteq> Summary" using r(3) j(4) by simp
    have ids: "row_ids (map snd ?ts) = row_ids (map snd P1) @ j # row_ids (map snd P)" using s(1) j(1) Cons idN by simp
    have before: "seq (the_row (fl_db st) i) \<le> ?q" if i: "i \<in> set (row_ids (map snd P1))" for i
    proof -
      have "row_before (the_row d i) ?r" using srt i unfolding ids by (auto simp: sorted_wrt_append)
      then have "seq (the_row d i) < seq ?r" using k by (simp add: row_before_def)
      then show ?thesis using b(3) [OF k] inS [of i] tr [of i] i by simp
    qed
    have after: "?q < seq (the_row (fl_db st) i)" if i: "i \<in> set (row_ids (map snd (P2 @ N)))" for i
    proof -
      have i': "i = j \<or> i \<in> set (row_ids (map snd P))" using i Cons j(1) idN by auto
      have "seq ?r \<le> seq (the_row d i)"
      proof (cases "i = j")
        case False
        then have ip: "i \<in> set (row_ids (map snd P))" using i' by simp
        then obtain x where x: "x \<in> set (map snd P)" "db_id x = Some i" by (auto simp: mem_row_ids)
        then have "\<not> is_summary x" using g Cons by (auto simp: grown_def)
        moreover have "x \<in> set (map snd ?ts)" using x(1) Cons by auto
        ultimately have "kind (the_row d i) \<noteq> Summary" using representsD(3) [OF key rep x(2)] by blast
        moreover have "row_before ?r (the_row d i)" using srt ip unfolding ids by (auto simp: sorted_wrt_append)
        ultimately show ?thesis by (simp add: row_before_def)
      qed simp
      then show ?thesis using b(2) [OF k] tr [of i] i s(1) by simp
    qed
    show ?thesis
      using flush_placed [OF f' s(1,2), of "Some ?q" ?q] \<open>?place = Some ?q\<close> b(1) [OF k] before after s st(2) that next_id by auto
  qed
qed

lemma flush_all:
  assumes step: "in_step sid d flushed ts" and ts: "ts = P1 @ S @ P2 @ N" and g: "grown P1 S P2 N"
    and st: "st = \<lparr>fl_db = apply_pins (pin_updates flushed ts) d, fl_tail = None,
      flushed_pinned = fold (\<lambda>(i, b). AList.update i b) (pin_updates flushed ts) flushed, saved_summary = False\<rparr>"
  obtains ts' st' where "flush_new sid d ts st = (ts', st')" "flushing sid st' (map snd ts')" "list_all2 filled ts ts'"
    "S \<noteq> [] \<Longrightarrow> db_id (snd (ts' ! length P1)) = Some (next_id d)"
proof -
  have m: "matches sid d (map snd ts)" using step by (simp add: in_step_def)
  have f: "flushing sid st (map snd ts)" unfolding st by (rule start_flushing [OF step refl])
  have seen: "list_all fst P1" "list_all fst P2" and N: "\<forall>t \<in> set N. \<not> fst t \<and> db_id (snd t) = None \<and> storable (snd t) \<and> \<not> is_summary (snd t)"
    using g by (auto simp: grown_def)
  show ?thesis
  proof (cases S)
    case Nil
    then have "flushing sid st (map snd (P1 @ P2) @ map snd N)" using f ts by simp
    then obtain N' st' where n: "flush_new sid d N st = (N', st')" "flushing sid st' (map snd (P1 @ P2) @ map snd N')" "list_all2 filled N N'"
      using flush_tail [OF N] by metis
    have "flush_new sid d ts st = ((P1 @ P2) @ N', st')" using flush_seen [of "P1 @ P2" sid d N st] seen n(1) ts Nil by simp
    moreover have "list_all2 filled ts ((P1 @ P2) @ N')"
      unfolding ts Nil using filled_seen seen n(3) by (simp add: list_all2_appendI)
    ultimately show ?thesis using that [OF _ _ _] n(2) Nil by simp
  next
    case (Cons t S')
    then obtain s where S: "S = [(False, s)]" using g by (auto simp: grown_def)
    have ts': "ts = P1 @ (False, s) # P2 @ N" using ts S by simp
    have us: "i \<in> set (row_ids (map snd ts))" if "map_of (pin_updates flushed ts) i \<noteq> None" for i
      by (rule ccontr) (use that pin_updates_other [of i ts flushed] in simp)
    obtain i st1 where o: "flush_one sid (resolve_summary_seq d (False, s) (P2 @ N)) (False, s) st = ((True, s\<lparr>db_id := Some i\<rparr>), st1)"
      "flushing sid st1 (map snd P1 @ s\<lparr>db_id := Some i\<rparr> # map snd (P2 @ N))" "i = next_id d"
      using flush_summary [OF f [unfolded ts'] g [unfolded S] m [unfolded ts'], of "pin_updates flushed ts"] us st unfolding ts' by auto
    let ?s = "(True, s\<lparr>db_id := Some i\<rparr>)"
    have "flushing sid st1 (map snd (P1 @ ?s # P2) @ map snd N)" using o(2) by simp
    then obtain N' st' where n: "flush_new sid d N st1 = (N', st')" "flushing sid st' (map snd (P1 @ ?s # P2) @ map snd N')" "list_all2 filled N N'"
      using flush_tail [OF N] by metis
    have "flush_new sid d ts st = (P1 @ ?s # P2 @ N', st')"
      unfolding ts' using flush_seen [OF seen(1)] flush_seen [OF seen(2)] o(1) n(1) by simp
    moreover have "list_all2 filled ts (P1 @ ?s # P2 @ N')"
      unfolding ts' using filled_seen seen n(3) by (auto intro!: list_all2_appendI simp: filled_def)
    ultimately show ?thesis using that [of "P1 @ ?s # P2 @ N'" st'] n(2) o(3) by simp
  qed
qed

text \<open>Filling in ids changes no flag.\<close>

lemma filled_flags:
  assumes "filled t t'"
  shows "in_view (snd t') = in_view (snd t)" "is_summary (snd t') = is_summary (snd t)" "c_pinned (snd t') = c_pinned (snd t)"
    "is_system (snd t') = is_system (snd t)" "fst t'" "fst t \<Longrightarrow> t' = t" "\<not> fst t \<Longrightarrow> db_id (snd t') \<noteq> None"
  using assms by (auto simp: filled_def in_view_def is_system_def split: if_splits)

lemma anchoredD:
  assumes "anchored a ms"
  shows "a < length ms" "is_summary (ms ! a)" "in_view (ms ! a)" "\<not> c_pinned (ms ! a)"
    "i < length ms \<Longrightarrow> \<not> is_system (ms ! i)" "i < length ms \<Longrightarrow> in_view (ms ! i) \<Longrightarrow> i < a \<Longrightarrow> c_pinned (ms ! i)"
    "i < length ms \<Longrightarrow> in_view (ms ! i) \<Longrightarrow> is_summary (ms ! i) \<Longrightarrow> i = a" "i < length ms \<Longrightarrow> \<not> in_view (ms ! i) \<Longrightarrow> i < a"
    "i < length ms \<Longrightarrow> \<not> in_view (ms ! i) \<Longrightarrow> \<not> c_pinned (ms ! i)"
  using assms unfolding anchored_def by blast+

lemma filled_anchored:
  assumes "list_all2 filled ts ts'" "anchored a (map snd ts)"
  shows "anchored a (map snd ts')"
proof -
  have len: "length ts' = length ts" and f: "\<And>i. i < length ts \<Longrightarrow> filled (ts ! i) (ts' ! i)" using assms(1) by (auto simp: list_all2_conv_all_nth)
  have v: "in_view (snd (ts' ! i)) = in_view (snd (ts ! i))" "is_summary (snd (ts' ! i)) = is_summary (snd (ts ! i))"
    "c_pinned (snd (ts' ! i)) = c_pinned (snd (ts ! i))" "is_system (snd (ts' ! i)) = is_system (snd (ts ! i))" if "i < length ts" for i
    using filled_flags [OF f [OF that]] by blast+
  note d = anchoredD [OF assms(2)]
  have a: "a < length ts" using d(1) by simp
  show ?thesis unfolding anchored_def length_map len
  proof (intro conjI allI impI)
    fix i assume i: "i < length ts"
    have n: "map snd ts ! i = snd (ts ! i)" "map snd ts' ! i = snd (ts' ! i)" using i len by simp_all
    note d = d(5-9) [of i, unfolded length_map, OF i, unfolded n(1)]
    show "\<not> is_system (map snd ts' ! i)" using d(1) v(4) [OF i] n(2) by simp
    show "c_pinned (map snd ts' ! i)" if "in_view (map snd ts' ! i)" "i < a" using d(2) v [OF i] n(2) that by simp
    show "i = a" if "in_view (map snd ts' ! i)" "is_summary (map snd ts' ! i)" using d(3) v [OF i] n(2) that by simp
    show "i < a" if "\<not> in_view (map snd ts' ! i)" using d(4) v [OF i] n(2) that by simp
    show "\<not> c_pinned (map snd ts' ! i)" if "\<not> in_view (map snd ts' ! i)" using d(5) v [OF i] n(2) that by simp
  qed (use a d(2-4) v [OF a] len in simp_all)
qed

lemma filled_shape:
  assumes f: "list_all2 filled ts ts'" and ts: "ts = P1 @ S @ P2 @ N" and g: "grown P1 S P2 N" and step: "in_step sid d flushed ts"
    and sh: "view_shape (map snd ts)" and new: "S \<noteq> [] \<Longrightarrow> db_id (snd (ts' ! length P1)) = Some (next_id d)"
  shows "view_shape (map snd ts')"
proof -
  have len: "length ts' = length ts" and nth: "\<And>i. i < length ts \<Longrightarrow> filled (ts ! i) (ts' ! i)" using f by (auto simp: list_all2_conv_all_nth)
  note fl = filled_flags [OF nth]
  consider (plain) "\<forall>m \<in> set (map snd ts). in_view m \<and> \<not> is_summary m"
    | (summary) a where "anchored a (map snd ts)" "\<forall>m \<in> set (map snd ts). \<forall>i j. is_summary m \<and> db_id m = Some i \<and> db_id (map snd ts ! a) = Some j \<longrightarrow> i \<le> j"
    using sh by (auto simp: view_shape_def)
  then show ?thesis
  proof cases
    case plain
    have "in_view m \<and> \<not> is_summary m" if m: "m \<in> set (map snd ts')" for m
    proof -
      obtain i where "i < length ts" "m = snd (ts' ! i)" using m len by (auto simp: in_set_conv_nth)
      moreover have "snd (ts ! i) \<in> set (map snd ts)" using calculation(1) by simp
      ultimately show ?thesis using fl(1,2) [of i] plain by metis
    qed
    then show ?thesis by (simp add: view_shape_def)
  next
    case (summary a)
    have a: "a < length ts" "is_summary (snd (ts ! a))" "in_view (snd (ts ! a))" using anchoredD(1-3) [OF summary(1)] by simp_all
    have only: "x = a" if "x < length ts" "is_summary (snd (ts ! x))" "in_view (snd (ts ! x))" for x
      using anchoredD(7) [OF summary(1), of x] that by simp
    have N: "\<not> is_summary (snd t)" if "t \<in> set N" for t using g that by (auto simp: grown_def)
    have id_le: "i < next_id d" if "(True, m) \<in> set ts" "db_id m = Some i" for m i
    proof -
      have "well_keyed sid d" "represents sid d m" using step that by (force simp: in_step_def matches_def)+
      then have "the_row d i \<in> set (rows d)" "row_id (the_row d i) = i" using representsD(1,2) [OF _ _ that(2)] by (auto simp: session_rows_def)
      then show ?thesis using \<open>well_keyed sid d\<close> by (metis well_keyed_def)
    qed
    have "i \<le> j" if m: "m \<in> set (map snd ts')" "is_summary m" "db_id m = Some i" "db_id (snd (ts' ! a)) = Some j" for m i j
    proof -
      obtain x where x: "x < length ts" "m = snd (ts' ! x)" using m(1) len by (auto simp: in_set_conv_nth)
      have sx: "is_summary (snd (ts ! x))" using fl(2) [OF x(1)] x(2) m(2) by simp
      show ?thesis
      proof (cases "x = a")
        case False
        have cases: "fst (ts ! y) \<or> S \<noteq> [] \<and> y = length P1" if "y < length ts" "is_summary (snd (ts ! y))" for y
        proof -
          have "ts ! y \<in> set P1 \<union> set P2 \<union> set N \<or> S \<noteq> [] \<and> y = length P1"
            using that(1) g unfolding ts grown_def by (auto simp: nth_append nth_Cons' split: if_splits)
          moreover have "ts ! y \<notin> set N" using N that(2) by blast
          ultimately show ?thesis using g by (auto simp: grown_def list_all_iff)
        qed
        have vis: "S \<noteq> [] \<Longrightarrow> length P1 = a" using only [of "length P1"] g unfolding ts grown_def by auto
        then have seen: "fst (ts ! x)" using cases [OF x(1) sx] False by blast
        then have mx: "m = snd (ts ! x)" using fl(6) [OF x(1)] x(2) by simp
        then have mem: "(True, m) \<in> set ts" using seen x(1) by (metis nth_mem prod.collapse)
        show ?thesis
        proof (cases "S = []")
          case True
          then have "fst (ts ! a)" using cases [OF a(1,2)] by blast
          then have "snd (ts' ! a) = snd (ts ! a)" using fl(6) [OF a(1)] by simp
          then show ?thesis using summary(2) mem m(2-4) a(1) by force
        next
          case False
          then show ?thesis using new [OF False] vis [OF False] id_le [OF mem m(3)] m(4) by simp
        qed
      qed (use x m in simp)
    qed
    then have "\<forall>m \<in> set (map snd ts'). \<forall>i j. is_summary m \<and> db_id m = Some i \<and> db_id (map snd ts' ! a) = Some j \<longrightarrow> i \<le> j"
      using a(1) len by simp
    then show ?thesis unfolding view_shape_def using filled_anchored [OF f summary(1)] by blast
  qed
qed

lemma bump_frame:
  "matches sid (bump_history_revision k b d) ms = matches sid d ms" "the_row (bump_history_revision k b d) = the_row d"
proof -
  show tr: "the_row (bump_history_revision k b d) = the_row d" by (rule ext) (simp add: the_row_def get_row_def)
  have "next_id (bump_history_revision k b d) = next_id d" by (simp add: bump_history_revision_def)
  then show "matches sid (bump_history_revision k b d) ms = matches sid d ms"
    by (simp add: matches_def well_keyed_def represents_def covered_def session_rows_def tr)
qed

lemma pin_updates_Nil:
  assumes "pins_noted flushed (map snd ts)"
  shows "pin_updates flushed ts = []"
proof -
  have "fold (\<lambda>(seen, m) us. case db_id m of
         None \<Rightarrow> us
       | Some i \<Rightarrow>
           if \<not> seen \<or> is_system m \<or> pin_flag flushed i = c_pinned m then us
           else AList.update i (c_pinned m) us) ts us = us" for us
    using assms by (induction ts arbitrary: us) (auto simp: pins_noted_def split: option.split)
  then show ?thesis by (simp add: pin_updates_def)
qed

lemma settled:
  assumes "matches sid d (map snd ts)" "pins_match d (map snd ts)" "pins_noted flushed (map snd ts)"
    and "\<forall>t \<in> set ts. fst t \<and> \<not> is_system (snd t)"
  shows "in_step sid d flushed ts" "cp_flushed c = flushed \<Longrightarrow> checkpoint_sync sid ts c d = (ts, c, d)"
proof -
  show "in_step sid d flushed ts" using assms by (fastforce simp: in_step_def pins_match_def pins_noted_def)
  show "checkpoint_sync sid ts c d = (ts, c, d)" if "cp_flushed c = flushed"
    using assms(4) pin_updates_Nil [OF assms(3)] that by (auto simp: checkpoint_sync_def Let_def filter_empty_conv)
qed


section \<open>Contents\<close>

text \<open>What a stored message is after a reload: no content is the empty text, and the transient fields are gone.\<close>

definition reloaded :: "nat \<Rightarrow> chat_msg \<Rightarrow> chat_msg" where
  "reloaded i m =
     m\<lparr>c_body := (case c_body m of
          AssistantMsg a \<Rightarrow> AssistantMsg (a\<lparr>m_content := Some (or_empty (c_content m)), m_signature := if_truthy (m_signature a),
            m_items := Option.bind (m_items a) non_empty, m_raw_blocks := Option.bind (m_raw_blocks a) non_empty,
            m_tool_calls := non_empty (calls_of m), x_dropped := []\<rparr>)
        | b \<Rightarrow> b),
       c_content := Some (or_empty (c_content m)), exclude_from_context := False, attachment_row := False, db_id := Some i\<rparr>"

lemma call_of_row_call [simp]: "call_of (row_call c) = c"
  by (simp add: call_of_def row_call_def)


section \<open>A stored conversation\<close>

lemma represents_code [code]:
  "represents sid d m \<longleftrightarrow> (case db_id m of None \<Rightarrow> True | Some i \<Rightarrow>
     (\<exists>r \<in> set (session_rows sid d). row_id r = i \<and> (kind r = Summary \<longleftrightarrow> is_summary m) \<and> kind r \<noteq> Reverted \<and> kind r \<noteq> Queued))"
  by (auto simp: represents_def split: option.split)

lemma in_step_code [code]:
  "in_step sid d flushed ts \<longleftrightarrow> matches sid d (map snd ts) \<and>
     (\<forall>(seen, m) \<in> set ts. \<not> is_system m \<and> (case db_id m of None \<Rightarrow> True | Some i \<Rightarrow> seen \<and> pin_flag flushed i = pinned (the_row d i)))"
  by (auto simp: in_step_def split: option.split)

definition with_id :: "nat \<Rightarrow> chat_msg \<Rightarrow> chat_msg" where
  "with_id i m = m\<lparr>db_id := Some i\<rparr>"

definition talk_db :: db where
  "talk_db = persisted ''s'' [(1024, 1), (2048, 2), (3072, 3), (4096, 4)] short_talk"

definition covered_part :: "tracked list" where
  "covered_part = [(True, with_id 1 ((hd short_talk)\<lparr>exclude_from_context := True\<rparr>))]"

definition kept_part :: "tracked list" where
  "kept_part = map2 (\<lambda>i m. (True, with_id i m)) [2, 3, 4] (tl short_talk)"

definition new_part :: "tracked list" where
  "new_part = [(False, new_msg (AssistantMsg listing_call) (Some ''done''))]"

abbreviation compacted_talk :: "tracked list" where
  "compacted_talk \<equiv> covered_part @ [(False, summary_msg ''greeting'')] @ kept_part @ new_part"

lemma talk_sync:
  "row_ids (messages_for_llm (map snd (fst (checkpoint_sync ''s'' compacted_talk new_checkpointer talk_db)))) = [5, 2, 3, 4, 6]"
  by code_simp

lemma talk_anchored: "anchored 1 (map snd compacted_talk)"
  by code_simp



section \<open>Where memory and database part\<close>

text \<open>
  A message that was queued while the agent worked is injected without the id of its row. When a
  compaction retains a loaded skill in front of it, the new summary is anchored behind it: the running
  agent sees the message, a reload does not.
\<close>

definition skill_call :: message where
  "skill_call = listing_call\<lparr>m_tool_calls := Some [\<lparr>cb_id = ''k1'', cb_name = ''skill'', cb_arguments = ''{}'', cb_thought = None, cb_signature = None\<rparr>]\<rparr>"

definition skill_loads :: "string \<Rightarrow> json option" where
  "skill_loads x = Some (JObj [(''skill_name'', JStr ''web'')])"

definition skill_talk :: "chat_msg list" where
  "skill_talk = [with_id 1 (new_msg HumanMsg (Some ''hi'')), with_id 2 (new_msg (AssistantMsg skill_call) None),
     with_id 3 (new_msg (ToolMsg ''k1'' None) (Some ''how to'')), new_msg HumanMsg (Some ''also do this''),
     with_id 5 (new_msg (AssistantMsg (listing_call\<lparr>m_tool_calls := None\<rparr>)) (Some ''working''))]"

definition skill_talk_compacted :: "chat_msg list" where
  "skill_talk_compacted = (case summarise_inner skill_loads brief_summariser False [] [] (keep_one\<lparr>keep_last_assistants := 2\<rparr>) skill_talk of
     Inr (h, ms, _) \<Rightarrow> ms | Inl _ \<Rightarrow> [])"

lemma injected_message_forgotten:
  "map c_content (messages_for_llm skill_talk_compacted) = [None, Some ''how to'', Some ''greeting'', Some ''also do this'', Some ''working''] \<and>
   map body (get_messages_for_llm ''s'' (snd (snd (checkpoint_sync ''s'' (map (\<lambda>m. (\<not> is_summary m, m)) skill_talk_compacted) new_checkpointer
     (persisted ''s'' [(1024, 1), (2048, 2), (3072, 3), (4096, 4), (5120, 5)] skill_talk))))) = ['''', ''how to'', ''greeting'', ''working'']"
  by code_simp

text \<open>
  A pinned note behind the summary is passed over when the summary gets its place, so that a reload
  has the note in front of the summary and the running agent behind it.
\<close>

definition note_talk :: "chat_msg list" where
  "note_talk = [with_id 1 (new_msg HumanMsg (Some ''hi'')), with_id 2 ((new_msg HumanMsg (Some ''note''))\<lparr>hidden_from_summary := True, c_pinned := True\<rparr>)]"

definition note_talk_compacted :: "chat_msg list" where
  "note_talk_compacted = (case summarise_inner skill_loads brief_summariser False [] [] (keep_one\<lparr>keep_last_assistants := 0\<rparr>) note_talk of
     Inr (h, ms, _) \<Rightarrow> ms | Inl _ \<Rightarrow> [])"

lemma pinned_note_moves:
  "map c_content (messages_for_llm note_talk_compacted) = [Some ''greeting'', Some ''note''] \<and>
   map body (get_messages_for_llm ''s'' (snd (snd (checkpoint_sync ''s'' (map (\<lambda>m. (\<not> is_summary m, m)) note_talk_compacted)
     (new_checkpointer\<lparr>cp_flushed := [(2, True)]\<rparr>) (persisted ''s'' [(1024, 1), (2048, 2)] note_talk))))) = [''note'', ''greeting'']"
  by code_simp

text \<open>A second load returns copies that are not registered as persisted: the next flush stores them again.\<close>

definition reply_db :: db where
  "reply_db = persisted ''s'' [(1024, 1), (2048, 2)] [new_msg HumanMsg (Some ''hi''), new_msg (AssistantMsg (listing_call\<lparr>m_tool_calls := None\<rparr>)) (Some ''hello'')]"

lemma cached_load_duplicates:
  "(case checkpoint_load skill_loads (\<lambda>_. None) ''s'' reply_db new_checkpointer of
      (Some _, c) \<Rightarrow>
        (case checkpoint_load skill_loads (\<lambda>_. None) ''s'' reply_db c of
           (Some ts, c) \<Rightarrow> map body (rows (snd (snd (checkpoint_sync ''s'' ts c reply_db))))
         | _ \<Rightarrow> [])
    | _ \<Rightarrow> []) = [''hi'', ''hello'', ''hello'']"
  by code_simp

end
