(* ===== verification/Turn.thy ===== *)
theory Turn
  imports AgentLoopProps MessageLoadProps CheckpointProps
begin

text \<open>
  One turn of a session, \<open>AgentSession._execute_turn\<close> of \<open>app/agent/session.py\<close>: an undone tail becomes
  permanent, the history is loaded from the database, the agent runs on it, and a question that
  suspended the run is handed back. The hooks that are installed are those of the environment; the
  choice of the provider, the sandbox and the permission service, which are context variables of the
  run, and the mark on an interrupted response are left out.
\<close>

definition turn_history :: "(string \<Rightarrow> json option) \<Rightarrow> string \<Rightarrow> db \<Rightarrow> chat_msg list \<times> db" where
  "turn_history loads sid d = (let d = snd (cleanup_reverted_tail sid d) in (load_history loads sid d, d))"

definition execute_turn :: "loop_env \<Rightarrow> string \<Rightarrow> hook_state \<Rightarrow> run_error option \<times> loop_state" where
  "execute_turn env sid h =
     (case turn_history (le_loads env) sid (hs_db h) of (history, d) \<Rightarrow> agent_run env (h\<lparr>hs_db := d\<rparr>) history)"

definition turn_suspended :: "run_error option \<times> loop_state \<Rightarrow> (nat \<times> string) option" where
  "turn_suspended r = (case r of (None, s) \<Rightarrow> question_suspended s | (Some _, _) \<Rightarrow> None)"

section \<open>A loaded conversation is whole\<close>

text \<open>Rows of an exchange are no summaries and not hidden from one.\<close>

definition plain_row :: "row \<Rightarrow> bool" where
  "plain_row r \<longleftrightarrow> (role r = ToolRole \<or> tool_calls r \<noteq> [] \<longrightarrow> kind r \<noteq> Summary \<and> \<not> hidden_summary r)"

lemma plain_from_row: "plain_row r \<Longrightarrow> plain_exchange (chat_message_from_row r)"
  by (auto simp: plain_row_def plain_exchange_def answers_def calls_of_def chat_message_from_row_def reply_of_row_def non_empty_def
      split: role.splits)

lemma plain_set_calls: "plain_exchange m \<Longrightarrow> calls_of m \<noteq> [] \<Longrightarrow> plain_exchange (set_calls cs m)"
  by (auto simp: plain_exchange_def set_calls_def split: chat_body.splits)

lemma sanitize_plain: "\<forall>m \<in> set ms. plain_exchange m \<Longrightarrow> m \<in> set (sanitize_from E ms) \<Longrightarrow> plain_exchange m"
proof (induction E ms rule: sanitize_from.induct)
  case (2 E x ms)
  then show ?case by (auto simp: plain_set_calls split: if_splits option.splits)
qed simp

lemma loaded_plain:
  assumes "\<forall>r \<in> set rs. plain_row r" "m \<in> set (deserialize_messages loads True rs)"
  shows "plain_exchange m"
proof -
  have "plain_exchange x" if "x \<in> set (drop_bad_calls loads (map chat_message_from_row rs))" for x
    using that assms(1) plain_from_row plain_set_calls
    by (force simp: drop_bad_calls_def clean_calls_def list_all_iff)
  then show ?thesis using assms(2) sanitize_plain [of "drop_bad_calls loads (map chat_message_from_row rs)" m "{}"]
    by (auto simp: deserialize_messages_def sanitize_tool_message_pairs_def)
qed

lemma loaded_whole:
  assumes "\<forall>r \<in> set (get_messages_for_llm sid d). plain_row r"
  shows "exchanges_whole (filter (\<lambda>m. \<not> is_system m) (load_history loads sid d))"
proof -
  let ?ms = "load_history loads sid d"
  have "messages_for_llm (filter (\<lambda>m. \<not> is_system m) ?ms) = messages_for_llm ?ms"
    by (auto simp: messages_for_llm_def in_view_def intro: filter_cong)
  then have "open_calls (filter (\<lambda>m. \<not> is_system m) ?ms) = {}" "orphan_results (filter (\<lambda>m. \<not> is_system m) ?ms) = {}"
    using load_history_pairs [of loads sid d] by (simp_all add: open_calls_def orphan_results_def)
  moreover have "\<forall>m \<in> set ?ms. plain_exchange m" using loaded_plain [OF assms] by (auto simp: load_history_def apply_llm_content_overrides_def)
  ultimately show ?thesis by (simp add: exchanges_whole_def)
qed



end
