(* ===== verification/Session.thy ===== *)
theory Session
  imports HistoryProps StreamReplay
begin

text \<open>
  The life cycle of a session, \<open>AgentSession\<close> of \<open>app/agent/session.py\<close> with the requests that reach
  it: \<open>POST /agent/chat\<close> and \<open>/agent/commands\<close> (\<open>api/routes/agent/chat.py\<close>, \<open>_helpers.py\<close>), the routes of
  \<open>questions.py\<close>, \<open>interrupt_agent\<close> (\<open>services/agent_service.py\<close>) and eviction
  (\<open>services/agent_manager.py\<close>). The session works on the database of \<open>History\<close> and on the store of
  \<open>StreamStore\<close>. A turn is an asyncio task; the operations of the stream store and of the broadcaster
  never suspend, so a task gives up control while it waits for its first step, inside the run of the
  agent, while it pops the queue and while it looks up the text of the notification. Those are the
  phases of \<open>turn_phase\<close>, and a cancellation is delivered at the phase the task is in. A request is one
  step. The writes of a running agent are those of the loop, the checkpointer and the hooks
  (\<open>loop_write\<close>). The settings of the model, the scheduler flag and the refresh of the agent from disk
  are left out.
\<close>

section \<open>State\<close>

datatype session_state = IdleState | WorkingState | WaitingInput | OfflineState | ErrorState

fun state_text :: "session_state \<Rightarrow> string" where
  "state_text IdleState = ''idle''"
| "state_text WorkingState = ''working''"
| "state_text WaitingInput = ''waiting_input''"
| "state_text OfflineState = ''offline''"
| "state_text ErrorState = ''error''"

datatype turn_phase =
    Created
  | Running "nat option" \<comment> \<open>the question the run has asked\<close>
  | Popping
  | Notifying

record turn_args =
  force_compaction :: bool
  question_resume :: bool
  queued_activation :: "nat list option"

definition plain_turn :: turn_args where
  "plain_turn = \<lparr>force_compaction = False, question_resume = False, queued_activation = None\<rparr>"

record turn_task =
  task_id :: nat
  task_phase :: turn_phase
  cancel_requested :: bool
  task_args :: turn_args

datatype turn_end = Completed | Failed | Stopped
datatype broadcast = AssistantDone string | InputNeeded string | TurnCompleted string turn_end

record agent_session =
  session_id :: string
  agent_name :: string
  state :: session_state
  cancel_event :: bool
  has_active_turn :: bool
  active_task :: "nat option"
  suspended_question :: "nat option"
  turn_tasks :: "turn_task list" \<comment> \<open>the tasks that are not done\<close>
  next_task :: nat
  sdb :: db
  stream :: store
  broadcasts :: "broadcast list"

definition is_busy :: "agent_session \<Rightarrow> bool" where
  "is_busy s \<longleftrightarrow> state s \<in> {WorkingState, WaitingInput} \<or> has_active_turn s"

definition has_active_user_turn :: "agent_session \<Rightarrow> bool" where
  "has_active_user_turn s \<longleftrightarrow> has_active_turn s \<or> is_busy s"

definition is_awaiting_question_answer :: "agent_session \<Rightarrow> bool" where
  "is_awaiting_question_answer s \<longleftrightarrow> state s = WaitingInput"

definition push :: "event \<Rightarrow> agent_session \<Rightarrow> agent_session" where
  "push ev s = s\<lparr>stream := push_event (session_id s) ev False (stream s)\<rparr>"

definition emit :: "session_state \<Rightarrow> string \<Rightarrow> agent_session \<Rightarrow> agent_session" where
  "emit st extra s = push (AgentStatus (agent_name s) (state_text st) extra) s"

definition with_db :: "(db \<Rightarrow> 'a \<times> db) \<Rightarrow> agent_session \<Rightarrow> 'a \<times> agent_session" where
  "with_db f s = (case f (sdb s) of (r, d) \<Rightarrow> (r, s\<lparr>sdb := d\<rparr>))"

text \<open>A session that has just been built: \<open>__init__\<close> on the database and the stream store of the process.\<close>

definition new_session :: "string \<Rightarrow> string \<Rightarrow> db \<Rightarrow> store \<Rightarrow> agent_session" where
  "new_session sid name d st =
     \<lparr>session_id = sid, agent_name = name, state = IdleState, cancel_event = False, has_active_turn = False, active_task = None,
      suspended_question = None, turn_tasks = [], next_task = 0, sdb = d, stream = st, broadcasts = []\<rparr>"

section \<open>Tasks\<close>

definition spawn_turn :: "turn_args \<Rightarrow> agent_session \<Rightarrow> agent_session" where
  "spawn_turn a s =
     s\<lparr>turn_tasks := turn_tasks s @ [\<lparr>task_id = next_task s, task_phase = Created, cancel_requested = False, task_args = a\<rparr>],
       active_task := Some (next_task s), next_task := next_task s + 1\<rparr>"

definition set_phase :: "nat \<Rightarrow> turn_phase \<Rightarrow> agent_session \<Rightarrow> agent_session" where
  "set_phase i p s = s\<lparr>turn_tasks := map (\<lambda>t. if task_id t = i then t\<lparr>task_phase := p\<rparr> else t) (turn_tasks s)\<rparr>"

definition set_cancel :: "nat \<Rightarrow> bool \<Rightarrow> agent_session \<Rightarrow> agent_session" where
  "set_cancel i b s = s\<lparr>turn_tasks := map (\<lambda>t. if task_id t = i then t\<lparr>cancel_requested := b\<rparr> else t) (turn_tasks s)\<rparr>"

definition task_done :: "nat \<Rightarrow> agent_session \<Rightarrow> agent_session" where
  "task_done i s = s\<lparr>turn_tasks := filter (\<lambda>t. task_id t \<noteq> i) (turn_tasks s)\<rparr>"

text \<open>What \<open>handle_user_message\<close>, \<open>handle_continue\<close> and \<open>handle_compact\<close> end with.\<close>

definition begin_turn :: "turn_args \<Rightarrow> agent_session \<Rightarrow> agent_session" where
  "begin_turn a s =
     spawn_turn a (s\<lparr>stream := init_turn (session_id s) True (stream s), state := WorkingState, cancel_event := False, has_active_turn := True\<rparr>)"

section \<open>Requests\<close>

datatype session_error = QuestionPending | ContinuePrecondition | QuestionNotOpen | QuestionOther | AnswerRejected

definition has_open_question :: "agent_session \<Rightarrow> bool" where
  "has_open_question s \<longleftrightarrow> get_pending_question (session_id s) (sdb s) \<noteq> None"

definition dismiss_pending_question :: "question_status \<Rightarrow> agent_session \<Rightarrow> agent_session" where
  "dismiss_pending_question reason s =
     (case get_pending_question (session_id s) (sdb s) of
        None \<Rightarrow> s
      | Some q \<Rightarrow> snd (with_db (resolve_pending_question (q_id q) reason None) s))"

text \<open>The hidden note with the files a message mentions.\<close>

definition mention_note :: "string list \<Rightarrow> draft" where
  "mention_note blocks = (user_draft (join [CHR 0x0A, CHR 0x0A] blocks))\<lparr>dr_hidden_summary := True\<rparr>"

definition handle_user_message :: "bool \<Rightarrow> bool \<Rightarrow> draft \<Rightarrow> string list \<Rightarrow> agent_session \<Rightarrow> (session_error + nat) \<times> agent_session" where
  "handle_user_message from_user interrupt m blocks s =
     (if has_open_question s \<and> \<not> from_user then (Inl QuestionPending, s)
      else
        let s = (if has_open_question s then dismiss_pending_question Superseded s else s);
            s = (if interrupt \<and> is_busy s then dismiss_pending_question Dismissed (s\<lparr>cancel_event := True\<rparr>) else s);
            s = snd (with_db (heal_orphaned_tool_calls (session_id s)) s);
            (r, s) = with_db (save_message (session_id s) m False False None None None True) s;
            s = (if blocks = [] then s
                 else snd (with_db (save_message (session_id s) (mention_note blocks) False False (Some Note) (Some True) None True) s))
        in (Inr (row_id r), begin_turn plain_turn s))"

definition cancel_active_task :: "agent_session \<Rightarrow> agent_session" where
  "cancel_active_task s = (case active_task s of None \<Rightarrow> s | Some i \<Rightarrow> set_cancel i True s)"

definition handle_stop :: "agent_session \<Rightarrow> bool \<times> agent_session" where
  "handle_stop s =
     (if \<not> is_busy s then (False, s)
      else
        let s = cancel_active_task (s\<lparr>cancel_event := True\<rparr>);
            s = (dismiss_pending_question Dismissed s)\<lparr>state := IdleState\<rparr>
        in (True, emit IdleState [] s))"

definition handle_continue :: "agent_session \<Rightarrow> (session_error + unit) \<times> agent_session" where
  "handle_continue s = (if is_busy s then (Inl ContinuePrecondition, s) else (Inr (), begin_turn plain_turn s))"

definition handle_compact :: "agent_session \<Rightarrow> (session_error + unit) \<times> agent_session" where
  "handle_compact s =
     (if is_busy s then (Inl ContinuePrecondition, s) else (Inr (), begin_turn (plain_turn\<lparr>force_compaction := True\<rparr>) s))"

text \<open>The files of the workspace, as the snapshot service sees them.\<close>

type_synonym files = "(string \<times> string) list"

definition move_boundary ::
    "(files \<times> db \<Rightarrow> (bool \<times> row option) \<times> files \<times> db) \<Rightarrow> files \<Rightarrow> agent_session \<Rightarrow>
     (session_error + bool \<times> row option) \<times> files \<times> agent_session" where
  "move_boundary f w s =
     (if is_busy s then (Inl ContinuePrecondition, w, s)
      else case f (w, sdb s) of (r, w, d) \<Rightarrow> (Inr r, w, s\<lparr>sdb := d\<rparr>))"

definition handle_undo where
  "handle_undo track restore w s = move_boundary (undo_session_messages track restore (session_id s)) w s"

definition handle_redo where
  "handle_redo restore w s = move_boundary (redo_session_messages restore (session_id s)) w s"

definition handle_redo_all where
  "handle_redo_all restore w s = move_boundary (redo_all_session_messages restore (session_id s)) w s"

definition activate_queued_user_messages :: "agent_session \<Rightarrow> bool \<times> agent_session" where
  "activate_queued_user_messages s =
     (case with_db (pop_queued_user_messages (session_id s)) s of
        ([], s) \<Rightarrow> (False, s)
      | (queued, s) \<Rightarrow>
          (True, spawn_turn (plain_turn\<lparr>queued_activation := Some (map row_id queued)\<rparr>)
                   (s\<lparr>cancel_event := False, has_active_turn := True\<rparr>)))"

text \<open>\<open>_close_turn\<close> up to the lookup of the notification, and what follows it.\<close>

definition release_subscribers :: "agent_session \<Rightarrow> agent_session" where
  "release_subscribers s = s\<lparr>stream := mark_done (session_id s) (push_event (session_id s) DoneEv True (stream s))\<rparr>"

definition publish_completed :: "turn_end \<Rightarrow> agent_session \<Rightarrow> agent_session" where
  "publish_completed st s =
     s\<lparr>broadcasts := broadcasts s @ (if st = Completed then [AssistantDone (session_id s)] else []) @ [TurnCompleted (session_id s) st]\<rparr>"

definition close_turn :: "turn_end \<Rightarrow> agent_session \<Rightarrow> agent_session" where
  "close_turn st s = publish_completed st (release_subscribers s)"

definition resume_after_question_answer :: "agent_session \<Rightarrow> agent_session" where
  "resume_after_question_answer s =
     (let s = emit WorkingState [] (s\<lparr>suspended_question := None, state := WorkingState\<rparr>)
      in spawn_turn (plain_turn\<lparr>question_resume := True\<rparr>) (s\<lparr>cancel_event := False, has_active_turn := True\<rparr>))"

definition end_turn_after_question_dismissed :: "agent_session \<Rightarrow> agent_session" where
  "end_turn_after_question_dismissed s =
     (let s = s\<lparr>suspended_question := None\<rparr>;
          s = emit IdleState [] (if state s = WaitingInput then s\<lparr>state := IdleState\<rparr> else s);
          (activated, s) = (if cancel_event s then (False, s) else activate_queued_user_messages s)
      in if activated then s else close_turn Completed (s\<lparr>has_active_turn := False\<rparr>))"

section \<open>Routes\<close>

text \<open>\<open>persist_queued_user_message\<close>: the message and the hidden rows of the files it mentions.\<close>

definition mention_row :: "nat \<Rightarrow> string \<Rightarrow> draft" where
  "mention_row i block = (user_draft block)\<lparr>dr_hidden_user := True, dr_hidden_summary := True, dr_attachment_for := Some i, dr_mention := True\<rparr>"

definition persist_queued_user_message :: "string \<Rightarrow> draft \<Rightarrow> string list \<Rightarrow> db \<Rightarrow> nat \<times> db" where
  "persist_queued_user_message sid m blocks d =
     (case save_queued_user_message sid m d of (r, d) \<Rightarrow>
        (row_id r, fold (\<lambda>b d. snd (save_message sid (mention_row (row_id r) b) False False None None None True d)) blocks d))"

datatype chat_status = Accepted | QueuedStatus

text \<open>\<open>agent_chat\<close> behind the lock on user messages.\<close>

definition agent_chat :: "draft \<Rightarrow> string list \<Rightarrow> agent_session \<Rightarrow> (session_error + chat_status \<times> nat) \<times> agent_session" where
  "agent_chat m blocks s =
     (let s = snd (with_db (cleanup_reverted_tail (session_id s)) s) in
      if has_active_user_turn s \<and> \<not> is_awaiting_question_answer s
      then
        let (i, s) = with_db (persist_queued_user_message (session_id s) m blocks) s;
            s = (if has_active_user_turn s then s else snd (activate_queued_user_messages s))
        in (Inr (QueuedStatus, i), s)
      else case handle_user_message True False m blocks s of
          (Inl e, s) \<Rightarrow> (Inl e, s)
        | (Inr i, s) \<Rightarrow> (Inr (Accepted, i), s))"

text \<open>A firing of the scheduler (\<open>_fire_task_locked\<close>): an active turn is left alone.\<close>

definition scheduled_message :: "draft \<Rightarrow> agent_session \<Rightarrow> (session_error + nat) option \<times> agent_session" where
  "scheduled_message m s =
     (if has_active_user_turn s then (None, s)
      else case handle_user_message False False m [] s of (r, s) \<Rightarrow> (Some r, s))"

definition interrupt_agent :: "agent_session \<Rightarrow> agent_session" where
  "interrupt_agent s =
     (let s = snd (with_db (release_queued_user_messages (session_id s)) s);
          s = dismiss_pending_question Dismissed s;
          s = (if is_busy s then snd (handle_stop s) else s)
      in publish_completed Stopped (release_subscribers s))"

record question_form =
  qf_labels :: "string list"
  qf_multiple :: bool
  qf_custom :: bool

definition MAX_ANSWER_CHARS :: nat where "MAX_ANSWER_CHARS = 2000"

definition answer_ok :: "question_form \<Rightarrow> string list \<Rightarrow> bool" where
  "answer_ok q selected \<longleftrightarrow>
     (length selected > 1 \<longrightarrow> qf_multiple q) \<and>
     length selected \<le> card (set (qf_labels q)) + (if qf_custom q then 1 else 0) \<and>
     list_all (\<lambda>v. length v \<le> MAX_ANSWER_CHARS \<and> (v \<in> set (qf_labels q) \<or> qf_custom q)) selected"

definition validate_answers :: "question_form list \<Rightarrow> string list list \<Rightarrow> bool" where
  "validate_answers qs answers \<longleftrightarrow> length answers \<le> length qs \<and> list_all (\<lambda>(q, a). answer_ok q a) (zip qs answers)"

text \<open>\<open>_open_question_or_conflict\<close> and \<open>_resolve_or_conflict\<close>.\<close>

definition resolve_open_question ::
    "nat \<Rightarrow> question_status \<Rightarrow> string list list option \<Rightarrow> agent_session \<Rightarrow> session_error option \<times> agent_session" where
  "resolve_open_question i st answers s =
     (case get_pending_question (session_id s) (sdb s) of
        None \<Rightarrow> (Some QuestionNotOpen, s)
      | Some q \<Rightarrow>
          if q_id q \<noteq> i then (Some QuestionOther, s)
          else (case with_db (resolve_pending_question i st answers) s of
              (None, s) \<Rightarrow> (Some QuestionNotOpen, s)
            | (Some _, s) \<Rightarrow> (None, s)))"

definition announce_resolution :: "string \<Rightarrow> agent_session \<Rightarrow> agent_session" where
  "announce_resolution what s = s\<lparr>stream := push_event (session_id s) (OtherEvent what []) True (stream s)\<rparr>"

definition answer_question :: "question_form list \<Rightarrow> nat \<Rightarrow> string list list \<Rightarrow> agent_session \<Rightarrow> session_error option \<times> agent_session" where
  "answer_question forms i answers s =
     (case get_pending_question (session_id s) (sdb s) of
        None \<Rightarrow> (Some QuestionNotOpen, s)
      | Some q \<Rightarrow>
          if q_id q \<noteq> i then (Some QuestionOther, s)
          else if \<not> validate_answers forms answers then (Some AnswerRejected, s)
          else (case resolve_open_question i Answered (Some answers) s of
              (Some e, s) \<Rightarrow> (Some e, s)
            | (None, s) \<Rightarrow> (None, resume_after_question_answer (announce_resolution ''question_answered'' s))))"

definition dismiss_question :: "nat \<Rightarrow> agent_session \<Rightarrow> session_error option \<times> agent_session" where
  "dismiss_question i s =
     (case resolve_open_question i Dismissed None s of
        (Some e, s) \<Rightarrow> (Some e, s)
      | (None, s) \<Rightarrow> (None, end_turn_after_question_dismissed (announce_resolution ''question_dismissed'' s)))"

definition ensure_turn_for_open_question :: "agent_session \<Rightarrow> agent_session" where
  "ensure_turn_for_open_question s = (if has_open_question s then s\<lparr>stream := ensure_turn (session_id s) (stream s)\<rparr> else s)"

definition session_is_evictable :: "agent_session \<Rightarrow> bool" where
  "session_is_evictable s \<longleftrightarrow> state s \<notin> {WorkingState, WaitingInput} \<and> \<not> is_busy s"

section \<open>A turn\<close>

text \<open>\<open>_run_turn\<close> up to the run of the agent.\<close>

definition start_turn :: "turn_task \<Rightarrow> agent_session \<Rightarrow> agent_session" where
  "start_turn t s =
     (let s = s\<lparr>stream := init_turn (session_id s) True (stream s), state := WorkingState, suspended_question := None\<rparr>;
          s = emit WorkingState [] s;
          s = (case queued_activation (task_args t) of None \<Rightarrow> s | Some ids \<Rightarrow> push (QueuedTurn (join '','' (map show_nat ids))) s)
      in set_phase (task_id t) (Running None) s)"

text \<open>The \<open>ask_user\<close> tool stores its question and announces it; the run then only winds up.\<close>

definition ask_question :: "turn_task \<Rightarrow> string \<Rightarrow> string list \<Rightarrow> agent_session \<Rightarrow> agent_session" where
  "ask_question t call texts s =
     (case with_db (create_pending_question (session_id s) call texts) s of (q, s) \<Rightarrow>
        let s = push (OtherEvent ''question_asked'' []) s in
        set_phase (task_id t) (Running (Some (q_id q))) (s\<lparr>broadcasts := broadcasts s @ [InputNeeded (session_id s)]\<rparr>))"

text \<open>The \<open>finally\<close> block of \<open>_run_turn\<close> up to the first point where it waits.\<close>

definition close_idle :: "turn_task \<Rightarrow> agent_session \<Rightarrow> agent_session" where
  "close_idle t s = set_phase (task_id t) Notifying (release_subscribers (emit IdleState [] (s\<lparr>state := IdleState\<rparr>)))"

definition finish_turn :: "turn_task \<Rightarrow> agent_session \<Rightarrow> agent_session" where
  "finish_turn t s =
     (if state s \<noteq> ErrorState \<and> suspended_question s \<noteq> None
      then task_done (task_id t) ((emit WaitingInput (show_nat (the (suspended_question s))) (s\<lparr>state := WaitingInput\<rparr>))\<lparr>has_active_turn := False\<rparr>)
      else if state s \<noteq> ErrorState
      then if cancel_event s then close_idle t s else set_phase (task_id t) Popping s
      else task_done (task_id t) ((close_turn Failed s)\<lparr>has_active_turn := False\<rparr>))"

text \<open>The run returns; \<open>_execute_turn\<close> hands the question over unless one is recorded already.\<close>

definition run_returns :: "turn_task \<Rightarrow> nat option \<Rightarrow> agent_session \<Rightarrow> agent_session" where
  "run_returns t asked s = finish_turn t (if suspended_question s = None then s\<lparr>suspended_question := asked\<rparr> else s)"

definition run_raises :: "turn_task \<Rightarrow> string \<Rightarrow> agent_session \<Rightarrow> agent_session" where
  "run_raises t message s = finish_turn t (emit ErrorState message (s\<lparr>state := ErrorState\<rparr>))"

definition pop_and_close :: "turn_task \<Rightarrow> agent_session \<Rightarrow> agent_session" where
  "pop_and_close t s =
     (case activate_queued_user_messages s of
        (True, s) \<Rightarrow> task_done (task_id t) s
      | (False, s) \<Rightarrow> close_idle t s)"

definition notify_and_end :: "turn_task \<Rightarrow> agent_session \<Rightarrow> agent_session" where
  "notify_and_end t s = task_done (task_id t) ((publish_completed Completed s)\<lparr>has_active_turn := False\<rparr>)"

text \<open>
  A cancellation arrives. A task that has not started never runs; the run of the agent is left through
  the \<open>finally\<close> block; a wait inside that block is left for good, without the statements behind it.
\<close>

definition deliver_cancel :: "turn_task \<Rightarrow> agent_session \<Rightarrow> agent_session" where
  "deliver_cancel t s =
     (case task_phase t of
        Running asked \<Rightarrow> finish_turn t (set_cancel (task_id t) False s)
      | _ \<Rightarrow> task_done (task_id t) s)"

section \<open>Steps\<close>

text \<open>What a running agent writes: rows, never questions.\<close>

inductive loop_write :: "string \<Rightarrow> db \<Rightarrow> db \<Rightarrow> bool" for sid where
  write_cleanup: "loop_write sid d (snd (cleanup_reverted_tail sid d))"
| write_save: "loop_write sid d (snd (save_message sid m summary hidden k pin at_seq flushes d))"
| write_update: "loop_write sid d (put_row r d)"
| write_pop: "loop_write sid d (snd (pop_queued_user_messages sid d))"
| write_exclude: "loop_write sid d (snd (exclude_messages_before_summary sid i n d))"

text \<open>What clients and the clock do to the stream store.\<close>

inductive client_step :: "store \<Rightarrow> store \<Rightarrow> bool" where
  client_attach: "client_step s (attach_open sid s)"
| client_replay: "clients s c = Some cl \<Longrightarrow> cl_open cl \<Longrightarrow> cl_phase cl \<noteq> LivePhase \<Longrightarrow> client_step s (attach_replay c s)"
| client_get: "clients s c = Some cl \<Longrightarrow> cl_open cl \<Longrightarrow> cl_phase cl = LivePhase \<Longrightarrow> client_step s (attach_get c s)"
| client_disconnect: "clients s c = Some cl \<Longrightarrow> cl_open cl \<Longrightarrow> client_step s (attach_close c s)"
| client_fire: "timers s h = Some t \<Longrightarrow> tm_due t \<le> now s \<Longrightarrow> client_step s (fire h s)"
| client_time: "now s \<le> t \<Longrightarrow> (\<And>h tm. timers s h = Some tm \<Longrightarrow> t \<le> tm_due tm) \<Longrightarrow> client_step s (s\<lparr>now := t\<rparr>)"

datatype session_event =
    ChatMessage | ScheduledMessage | Interrupt | Continue | Compact | MoveBoundary | AnswerQuestion | DismissQuestion
  | OpenStream | ClientMove | Evict | StartTurn | Write | Ask | Return | Raise | Pop | Notify | Cancel

definition can_run :: "turn_task \<Rightarrow> agent_session \<Rightarrow> bool" where
  "can_run t s \<longleftrightarrow> t \<in> set (turn_tasks s) \<and> \<not> cancel_requested t"

inductive session_step :: "session_event \<Rightarrow> agent_session \<Rightarrow> agent_session \<Rightarrow> bool" where
  on_chat: "session_step ChatMessage s (snd (agent_chat m blocks s))"
| on_scheduled: "session_step ScheduledMessage s (snd (scheduled_message m s))"
| on_interrupt: "session_step Interrupt s (interrupt_agent s)"
| on_continue: "session_step Continue s (snd (handle_continue s))"
| on_compact: "session_step Compact s (snd (handle_compact s))"
| on_undo: "session_step MoveBoundary s (snd (snd (handle_undo track restore w s)))"
| on_redo: "session_step MoveBoundary s (snd (snd (handle_redo restore w s)))"
| on_redo_all: "session_step MoveBoundary s (snd (snd (handle_redo_all restore w s)))"
| on_answer: "session_step AnswerQuestion s (snd (answer_question forms i answers s))"
| on_dismiss: "session_step DismissQuestion s (snd (dismiss_question i s))"
| on_open_stream: "session_step OpenStream s (ensure_turn_for_open_question s)"
| on_client: "client_step (stream s) st \<Longrightarrow> session_step ClientMove s (s\<lparr>stream := st\<rparr>)"
| on_evict: "session_is_evictable s \<Longrightarrow> turn_tasks s = [] \<Longrightarrow>
    session_step Evict s ((new_session (session_id s) (agent_name s) (sdb s) (stream s))\<lparr>broadcasts := broadcasts s\<rparr>)"
| on_start: "can_run t s \<Longrightarrow> task_phase t = Created \<Longrightarrow> session_step StartTurn s (start_turn t s)"
| on_write: "can_run t s \<Longrightarrow> task_phase t = Running None \<Longrightarrow> loop_write (session_id s) (sdb s) d \<Longrightarrow> session_step Write s (s\<lparr>sdb := d\<rparr>)"
| on_ask: "can_run t s \<Longrightarrow> task_phase t = Running None \<Longrightarrow> \<not> cancel_event s \<Longrightarrow> session_step Ask s (ask_question t call texts s)"
| on_run_return: "can_run t s \<Longrightarrow> task_phase t = Running asked \<Longrightarrow> session_step Return s (run_returns t asked s)"
| on_run_raise: "can_run t s \<Longrightarrow> task_phase t = Running asked \<Longrightarrow> session_step Raise s (run_raises t message s)"
| on_pop: "can_run t s \<Longrightarrow> task_phase t = Popping \<Longrightarrow> session_step Pop s (pop_and_close t s)"
| on_notify: "can_run t s \<Longrightarrow> task_phase t = Notifying \<Longrightarrow> session_step Notify s (notify_and_end t s)"
| on_cancel: "t \<in> set (turn_tasks s) \<Longrightarrow> cancel_requested t \<Longrightarrow> session_step Cancel s (deliver_cancel t s)"
| on_cancel_swallowed: "t \<in> set (turn_tasks s) \<Longrightarrow> cancel_requested t \<Longrightarrow> task_phase t = Running None \<Longrightarrow>
    session_step Cancel s (set_cancel (task_id t) False s)"

inductive_simps session_step_simps: "session_step e s s'"

text \<open>The runs in which the requests respect a rule.\<close>

definition session_move :: "(session_event \<Rightarrow> agent_session \<Rightarrow> bool) \<Rightarrow> agent_session \<Rightarrow> agent_session \<Rightarrow> bool" where
  "session_move P s s' \<longleftrightarrow> (\<exists>e. P e s \<and> session_step e s s')"

end
