(* ===== verification/SessionProps.thy ===== *)
theory SessionProps
  imports Session
begin

text \<open>
  What the life cycle of a session guarantees. Requests that respect two rules (a question is resolved
  once its turn has parked, and a stop reaches a turn inside the run of the agent) keep one turn at a
  time, never interfere with a running turn and leave no session that looks busy with nothing running.
  The examples at the end show what happens to requests that arrive in between.
\<close>

section \<open>The stream of a session\<close>

definition streaming :: "string \<Rightarrow> store \<Rightarrow> bool" where
  "streaming sid st \<longleftrightarrow> (case map_of (turns st) sid of None \<Rightarrow> False | Some a \<Rightarrow> is_streaming (states st a))"

lemma streaming_routing: "routing s = routing s' \<Longrightarrow> streaming sid s = streaming sid s'"
  using routing_eqD(1) [of s s'] routing_eqD(3) [of s s'] by (simp add: streaming_def split: option.split)

lemma streaming_running: "route_inv st \<Longrightarrow> sid \<in> set (running_session_ids st) \<longleftrightarrow> streaming sid st"
proof -
  assume "route_inv st"
  then have "(sid, a) \<in> set (turns st) \<longleftrightarrow> map_of (turns st) sid = Some a" for a by (simp add: route_inv_def)
  then show ?thesis by (auto simp: running_session_ids_def streaming_def image_iff split: option.split)
qed

lemma streaming_init [simp]: "streaming sid (init_turn sid True st)"
proof (cases "map_of (turns st) sid")
  case None
  let ?n = "st\<lparr>states := (states st)(next_addr st := new_turn_state), turns := AList.update sid (next_addr st) (turns st), next_addr := Suc (next_addr st)\<rparr>"
  have "streaming sid (schedule_cleanup sid (next_addr st) ?n) = streaming sid ?n" by (rule streaming_routing) simp
  then show ?thesis using None by (simp add: init_turn_def fresh_turn_def streaming_def new_turn_state_def update_conv)
next
  case (Some a)
  let ?n = "upd_state a reset_for_next_turn (cancel_cleanup a st)"
  have "streaming sid (schedule_cleanup sid a ?n) = streaming sid ?n" by (rule streaming_routing) simp
  then show ?thesis using Some by (simp add: init_turn_def Let_def streaming_def upd_state_def)
qed

lemma fan_out_is_streaming: "is_streaming (states (fan_out ev a s) b) = is_streaming (states s b)"
proof -
  have "is_streaming (states (fold (fan_out_one ev a) qs s) b) = is_streaming (states s b)" for qs
    by (induction qs arbitrary: s) (simp_all add: fan_out_one_def upd_state_def upd_queue_def)
  then show ?thesis by (simp add: fan_out_def)
qed

lemma streaming_fan_out [simp]: "streaming sid (fan_out ev a s) = streaming sid s"
  by (simp add: streaming_def fan_out_is_streaming split: option.splits)

lemma streaming_refresh [simp]: "streaming sid (refresh_cleanup sd a s) = streaming sid s"
  by (rule streaming_routing) simp

lemma streaming_upd: "(\<And>st. is_streaming (f st) = is_streaming st) \<Longrightarrow> streaming sid (upd_state a f s) = streaming sid s"
  by (simp add: streaming_def upd_state_def split: option.splits)

lemma streaming_push [simp]: "ev \<noteq> DoneEv \<Longrightarrow> streaming sid (push_event sd ev False st) = streaming sid st"
  by (simp add: push_event_def push_existing_def streaming_upd update_state_streaming split: option.splits)

lemma streaming_mark_done [simp]: "\<not> streaming sid (mark_done sid st)"
proof (cases "map_of (turns st) sid")
  case None
  then show ?thesis by (simp add: mark_done_def streaming_def)
next
  case (Some a)
  let ?n = "upd_state a (is_streaming_update (\<lambda>_. False)) st"
  have "streaming sid (refresh_cleanup sid a ?n) = streaming sid ?n" by simp
  then show ?thesis using Some by (simp add: mark_done_def streaming_def upd_state_def split: option.splits)
qed

lemma streaming_client: "client_step st st' \<Longrightarrow> streaming sid st' \<Longrightarrow> streaming sid st"
proof (induction rule: client_step.induct)
  case (client_fire s h t)
  have routed: "streaming sid (call_later d sd a u) = streaming sid u" "streaming sid (schedule_cleanup sd a u) = streaming sid u" for d sd a u
    by (rule streaming_routing; simp)+
  have kept: "streaming sid (upd_state a (cleanup_handle_update f) u) = streaming sid u" "streaming sid (upd_state a clear_replay_payload u) = streaming sid u" for a f u
    by (rule streaming_upd; simp)+
  have gone: "streaming sid (u\<lparr>turns := AList.delete sd (turns u)\<rparr>) \<Longrightarrow> streaming sid u" for sd u
    by (simp add: streaming_def delete_conv split: option.splits if_splits)
  have timer: "streaming sid (u\<lparr>timers := x\<rparr>) = streaming sid u" for u x by (simp add: streaming_def split: option.split)
  from client_fire show ?case
    by (auto simp: fire_def expire_turn_def Let_def routed kept timer dest!: gone split: if_splits)
qed (auto simp: streaming_def attach_open_def attach_replay_def attach_get_def attach_close_def upd_state_def upd_queue_def Let_def
    split: option.splits list.splits item.splits if_splits)

section \<open>Questions of the database\<close>

lemma pending_questions: "questions d = questions d' \<Longrightarrow> get_pending_question sid d = get_pending_question sid d'"
  by (simp add: get_pending_question_def)

lemma save_message_questions [simp]: "questions (snd (save_message sid m su h k p a fl d)) = questions d"
  by (simp add: save_message_def Let_def)

lemma put_row_questions [simp]: "questions (put_row r d) = questions d"
  by (simp add: put_row_def)

lemma set_revert_questions [simp]: "questions (set_revert sid v d) = questions d"
  by (simp add: set_revert_def)

lemma fold_questions: "(\<And>x d. questions (f x d) = questions d) \<Longrightarrow> questions (fold f xs d) = questions d"
  by (induction xs arbitrary: d) simp_all

lemma pop_questions [simp]: "questions (snd (pop_queued_user_messages sid d)) = questions d"
  "questions (snd (release_queued_user_messages sid d)) = questions d"
proof -
  have "questions (promote_queued sid q d) = questions d" for q
    by (simp add: promote_queued_def Let_def fold_questions case_prod_beta)
  then show "questions (snd (pop_queued_user_messages sid d)) = questions d" "questions (snd (release_queued_user_messages sid d)) = questions d"
    by (simp_all add: pop_queued_user_messages_def release_queued_user_messages_def Let_def)
qed

lemma insert_stubs_questions [simp]: "questions (insert_stubs sid u a tcs d) = questions d"
  by (induction tcs arbitrary: a d) (simp_all add: Let_def)

lemma heal_questions [simp]: "questions (snd (heal_orphaned_tool_calls sid d)) = questions d"
  by (simp add: heal_orphaned_tool_calls_def Let_def fold_questions case_prod_beta)

lemma cleanup_questions [simp]: "questions (snd (cleanup_reverted_tail sid d)) = questions d"
  by (simp add: cleanup_reverted_tail_def Let_def split: option.splits)

lemma exclude_questions [simp]: "questions (snd (exclude_messages_before_summary sid i n d)) = questions d"
  by (simp add: exclude_messages_before_summary_def Let_def split: option.splits)

lemma boundary_questions [simp]:
  "questions (snd (snd (undo_session_messages track restore sid (w, d)))) = questions d"
  "questions (snd (snd (redo_session_messages restore sid (w, d)))) = questions d"
  "questions (snd (snd (redo_all_session_messages restore sid (w, d)))) = questions d"
  by (auto simp: undo_session_messages_def redo_session_messages_def redo_all_session_messages_def Let_def split: option.splits)

lemma persist_questions [simp]: "questions (snd (persist_queued_user_message sid m blocks d)) = questions d"
  by (simp add: persist_queued_user_message_def save_queued_user_message_def fold_questions case_prod_beta)

lemma loop_write_questions: "loop_write sid d d' \<Longrightarrow> questions d' = questions d"
  by (induction rule: loop_write.induct) simp_all

lemma created_is_pending: "get_pending_question sid (snd (create_pending_question sid call texts d)) \<noteq> None"
  by (simp add: create_pending_question_def Let_def get_pending_question_def find_None_iff)
    (metis (mono_tags) question.select_convs(2,5))

section \<open>Frames\<close>

text \<open>What a helper leaves of the fields that drive a turn.\<close>

definition control :: "agent_session \<Rightarrow> session_state \<times> bool \<times> bool \<times> nat option \<times> nat option \<times> turn_task list \<times> nat" where
  "control s = (state s, cancel_event s, has_active_turn s, active_task s, suspended_question s, turn_tasks s, next_task s)"

lemma controlD:
  assumes "control s = control s'"
  shows "state s = state s'" "cancel_event s = cancel_event s'" "has_active_turn s = has_active_turn s'"
    "active_task s = active_task s'" "suspended_question s = suspended_question s'" "turn_tasks s = turn_tasks s'" "next_task s = next_task s'"
    "is_busy s = is_busy s'" "has_active_user_turn s = has_active_user_turn s'"
  using assms by (auto simp: control_def is_busy_def has_active_user_turn_def)

lemma control_simps [simp]:
  "control (s\<lparr>sdb := d\<rparr>) = control s" "control (s\<lparr>stream := st\<rparr>) = control s" "control (s\<lparr>broadcasts := bs\<rparr>) = control s"
  by (simp_all add: control_def)

lemma push_simps [simp]:
  "control (push ev s) = control s" "session_id (push ev s) = session_id s" "sdb (push ev s) = sdb s"
  "ev \<noteq> DoneEv \<Longrightarrow> streaming (session_id s) (stream (push ev s)) = streaming (session_id s) (stream s)"
  by (simp_all add: push_def)

lemma emit_simps [simp]:
  "control (emit st x s) = control s" "session_id (emit st x s) = session_id s" "sdb (emit st x s) = sdb s"
  "streaming (session_id s) (stream (emit st x s)) = streaming (session_id s) (stream s)"
  by (simp_all add: emit_def)

lemma with_db_simps [simp]:
  "control (snd (with_db f s)) = control s" "session_id (snd (with_db f s)) = session_id s" "stream (snd (with_db f s)) = stream s"
  "sdb (snd (with_db f s)) = snd (f (sdb s))" "fst (with_db f s) = fst (f (sdb s))"
  by (simp_all add: with_db_def case_prod_beta)

lemma dismiss_pending_simps [simp]:
  "control (dismiss_pending_question r s) = control s" "session_id (dismiss_pending_question r s) = session_id s"
  "stream (dismiss_pending_question r s) = stream s"
  by (simp_all add: dismiss_pending_question_def split: option.split)

lemma release_simps [simp]:
  "control (release_subscribers s) = control s" "session_id (release_subscribers s) = session_id s" "sdb (release_subscribers s) = sdb s"
  "\<not> streaming (session_id s) (stream (release_subscribers s))"
  by (simp_all add: release_subscribers_def)

lemma publish_simps [simp]:
  "control (publish_completed e s) = control s" "session_id (publish_completed e s) = session_id s" "sdb (publish_completed e s) = sdb s"
  "stream (publish_completed e s) = stream s"
  by (simp_all add: publish_completed_def)

lemma announce_simps [simp]:
  "control (announce_resolution w s) = control s" "session_id (announce_resolution w s) = session_id s" "sdb (announce_resolution w s) = sdb s"
  by (simp_all add: announce_resolution_def)

lemma open_question_sdb: "questions (sdb s) = questions (sdb s') \<Longrightarrow> session_id s = session_id s' \<Longrightarrow> has_open_question s = has_open_question s'"
  by (simp add: has_open_question_def get_pending_question_def)

lemmas frame_controls [simp] =
  push_simps(1) [THEN controlD(7)] release_simps(1) [THEN controlD(7)] publish_simps(1) [THEN controlD(7)]
  push_simps(1) [THEN controlD(1)] push_simps(1) [THEN controlD(3)] push_simps(1) [THEN controlD(4)] push_simps(1) [THEN controlD(5)] push_simps(1) [THEN controlD(6)]
  emit_simps(1) [THEN controlD(1)] emit_simps(1) [THEN controlD(2)] emit_simps(1) [THEN controlD(3)] emit_simps(1) [THEN controlD(4)] emit_simps(1) [THEN controlD(5)]
  emit_simps(1) [THEN controlD(6)] emit_simps(1) [THEN controlD(7)]
  with_db_simps(1) [THEN controlD(1)] with_db_simps(1) [THEN controlD(3)] with_db_simps(1) [THEN controlD(4)] with_db_simps(1) [THEN controlD(5)]
  with_db_simps(1) [THEN controlD(6)] with_db_simps(1) [THEN controlD(7)] with_db_simps(1) [THEN controlD(8)] with_db_simps(1) [THEN controlD(9)]
  dismiss_pending_simps(1) [THEN controlD(1)] dismiss_pending_simps(1) [THEN controlD(3)] dismiss_pending_simps(1) [THEN controlD(4)]
  dismiss_pending_simps(1) [THEN controlD(5)] dismiss_pending_simps(1) [THEN controlD(6)] dismiss_pending_simps(1) [THEN controlD(7)] dismiss_pending_simps(1) [THEN controlD(8)]
  release_simps(1) [THEN controlD(1)] release_simps(1) [THEN controlD(3)] release_simps(1) [THEN controlD(4)] release_simps(1) [THEN controlD(5)] release_simps(1) [THEN controlD(6)]
  publish_simps(1) [THEN controlD(1)] publish_simps(1) [THEN controlD(3)] publish_simps(1) [THEN controlD(4)] publish_simps(1) [THEN controlD(5)] publish_simps(1) [THEN controlD(6)]
  announce_simps(1) [THEN controlD(1)] announce_simps(1) [THEN controlD(2)] announce_simps(1) [THEN controlD(4)] announce_simps(1) [THEN controlD(6)] announce_simps(1) [THEN controlD(7)]

section \<open>One turn at a time\<close>

definition settled :: "agent_session \<Rightarrow> bool" where
  "settled s \<longleftrightarrow> \<not> has_active_turn s \<and> state s \<noteq> WorkingState \<and> (streaming (session_id s) (stream s) \<longrightarrow> has_open_question s) \<and>
     (state s = WaitingInput \<longrightarrow> has_open_question s)"

definition driven :: "turn_task \<Rightarrow> agent_session \<Rightarrow> bool" where
  "driven t s \<longleftrightarrow> has_active_turn s \<and> active_task s = Some (task_id t) \<and> task_id t < next_task s \<and> state s \<noteq> WaitingInput \<and>
     (task_phase t \<noteq> Created \<longrightarrow> state s \<noteq> ErrorState \<and> suspended_question s = None) \<and>
     (task_phase t = Notifying \<longrightarrow> state s \<noteq> WorkingState \<and> (streaming (session_id s) (stream s) \<longrightarrow> has_open_question s)) \<and>
     (cancel_requested t \<longrightarrow> (\<exists>a. task_phase t = Running a)) \<and>
     (\<forall>q. task_phase t = Running (Some q) \<longrightarrow> \<not> cancel_requested t \<longrightarrow> has_open_question s)"

definition session_inv :: "agent_session \<Rightarrow> bool" where
  "session_inv s \<longleftrightarrow> (case turn_tasks s of [] \<Rightarrow> settled s | [t] \<Rightarrow> driven t s | _ \<Rightarrow> False)"

lemma session_invE:
  assumes "session_inv s"
  obtains (settled) "turn_tasks s = []" "settled s" | (driven) t where "turn_tasks s = [t]" "driven t s"
  using assms that by (auto simp: session_inv_def split: list.splits)

text \<open>Every request and every step of a task, on the two shapes of the invariant.\<close>

lemma invI_settled: "turn_tasks s = [] \<Longrightarrow> settled s \<Longrightarrow> session_inv s"
  by (simp add: session_inv_def)

lemma invI_driven: "turn_tasks s = [t] \<Longrightarrow> driven t s \<Longrightarrow> session_inv s"
  by (simp add: session_inv_def)

lemma spawn_turn_inv:
  assumes "turn_tasks s = []" "has_active_turn s" "state s \<noteq> WaitingInput"
  shows "session_inv (spawn_turn a s)"
  using assms by (auto simp: spawn_turn_def session_inv_def driven_def)

lemma begin_turn_inv: "turn_tasks s = [] \<Longrightarrow> session_inv (begin_turn a s)"
  by (simp add: begin_turn_def spawn_turn_inv)

lemma settled_frame:
  assumes "settled s" "control s' = control s" "session_id s' = session_id s" "questions (sdb s') = questions (sdb s)"
    "streaming (session_id s) (stream s') \<Longrightarrow> streaming (session_id s) (stream s) \<or> has_open_question s"
  shows "settled s'"
  using assms controlD [OF assms(2)] open_question_sdb [OF assms(4,3)] by (auto simp: settled_def)

lemma driven_frame:
  assumes "driven t s" "control s' = control s" "session_id s' = session_id s" "questions (sdb s') = questions (sdb s)"
    "streaming (session_id s) (stream s') \<Longrightarrow> streaming (session_id s) (stream s) \<or> has_open_question s"
  shows "driven t s'"
  using assms controlD [OF assms(2)] open_question_sdb [OF assms(4,3)] by (auto simp: driven_def)

lemma inv_frame:
  assumes "session_inv s" "control s' = control s" "session_id s' = session_id s" "questions (sdb s') = questions (sdb s)"
    "streaming (session_id s) (stream s') \<Longrightarrow> streaming (session_id s) (stream s) \<or> has_open_question s"
  shows "session_inv s'"
  using assms(1)
proof (cases rule: session_invE)
  case settled
  then show ?thesis using settled_frame [OF _ assms(2-5)] controlD(6) [OF assms(2)] invI_settled by simp
next
  case (driven t)
  then show ?thesis using driven_frame [OF _ assms(2-5)] controlD(6) [OF assms(2)] invI_driven by simp
qed

lemma driven_busy: "driven t s \<Longrightarrow> is_busy s" "driven t s \<Longrightarrow> has_active_user_turn s" "driven t s \<Longrightarrow> \<not> is_awaiting_question_answer s"
  by (simp_all add: driven_def is_busy_def has_active_user_turn_def is_awaiting_question_answer_def)

lemma user_message_inv: "turn_tasks s = [] \<Longrightarrow> session_inv s \<Longrightarrow> session_inv (snd (handle_user_message u False m blocks s))"
  by (auto simp: handle_user_message_def Let_def case_prod_beta begin_turn_inv)

lemma busy_chat:
  assumes "has_active_user_turn s" "\<not> is_awaiting_question_answer s"
  shows "snd (agent_chat m blocks s) =
    s\<lparr>sdb := snd (persist_queued_user_message (session_id s) m blocks (snd (cleanup_reverted_tail (session_id s) (sdb s))))\<rparr>"
  using assms by (simp add: agent_chat_def Let_def with_db_def case_prod_beta has_active_user_turn_def is_busy_def is_awaiting_question_answer_def)

lemma busy_chat_queues:
  assumes "has_active_user_turn s" "\<not> is_awaiting_question_answer s"
  shows "\<exists>i d. agent_chat m blocks s = (Inr (QueuedStatus, i), s\<lparr>sdb := d\<rparr>)"
proof -
  have "\<exists>i. fst (agent_chat m blocks s) = Inr (QueuedStatus, i)"
    using assms by (simp add: agent_chat_def Let_def with_db_def case_prod_beta has_active_user_turn_def is_busy_def is_awaiting_question_answer_def)
  then show ?thesis using busy_chat [OF assms, of m blocks] by (metis prod.collapse)
qed

lemma idle_chat:
  assumes "\<not> has_active_user_turn s \<or> is_awaiting_question_answer s"
  shows "snd (agent_chat m blocks s) = snd (handle_user_message True False m blocks (s\<lparr>sdb := snd (cleanup_reverted_tail (session_id s) (sdb s))\<rparr>))"
  using assms by (auto simp: agent_chat_def Let_def with_db_def case_prod_beta has_active_user_turn_def is_busy_def is_awaiting_question_answer_def split: sum.splits prod.splits)

lemma chat_inv:
  assumes "session_inv s"
  shows "session_inv (snd (agent_chat m blocks s))"
  using assms
proof (cases rule: session_invE)
  case settled
  let ?c = "s\<lparr>sdb := snd (cleanup_reverted_tail (session_id s) (sdb s))\<rparr>"
  have "\<not> has_active_user_turn s \<or> is_awaiting_question_answer s"
    using settled by (auto simp: settled_def has_active_user_turn_def is_busy_def is_awaiting_question_answer_def)
  moreover have "session_inv ?c" using inv_frame [OF assms, of ?c] by simp
  ultimately show ?thesis using settled(1) user_message_inv [of ?c] idle_chat by simp
next
  case (driven t)
  then show ?thesis using busy_chat [of s m blocks] driven_busy [of t s] by (auto intro!: inv_frame [OF assms])
qed

lemma scheduled_inv: "session_inv s \<Longrightarrow> session_inv (snd (scheduled_message m s))"
proof (cases "has_active_user_turn s")
  case False
  assume inv: "session_inv s"
  from inv have "turn_tasks s = []" by (cases rule: session_invE) (use False driven_busy in auto)
  then show ?thesis using inv False user_message_inv by (simp add: scheduled_message_def case_prod_beta)
qed (simp add: scheduled_message_def)

lemma command_inv:
  assumes "session_inv s"
  shows "session_inv (snd (handle_continue s))" "session_inv (snd (handle_compact s))"
    "session_inv (snd (snd (handle_undo track restore w s)))" "session_inv (snd (snd (handle_redo restore w s)))"
    "session_inv (snd (snd (handle_redo_all restore w s)))"
proof -
  have none: "turn_tasks s = []" if "\<not> is_busy s"
    using assms by (cases rule: session_invE) (use that driven_busy in auto)
  show "session_inv (snd (handle_continue s))" "session_inv (snd (handle_compact s))"
    using assms none begin_turn_inv by (simp_all add: handle_continue_def handle_compact_def)
  show "session_inv (snd (snd (handle_undo track restore w s)))" "session_inv (snd (snd (handle_redo restore w s)))"
    "session_inv (snd (snd (handle_redo_all restore w s)))"
    using assms by (auto simp: handle_undo_def handle_redo_def handle_redo_all_def move_boundary_def case_prod_beta intro!: inv_frame [OF assms])
qed

lemma set_cancel_tasks: "turn_tasks (set_cancel i b s) = map (\<lambda>t. if task_id t = i then t\<lparr>cancel_requested := b\<rparr> else t) (turn_tasks s)"
  by (simp add: set_cancel_def)

lemma stop_simps [simp]:
  "session_id (snd (handle_stop s)) = session_id s" "state (snd (handle_stop s)) = (if is_busy s then IdleState else state s)"
  "has_active_turn (snd (handle_stop s)) = has_active_turn s" "active_task (snd (handle_stop s)) = active_task s"
  "suspended_question (snd (handle_stop s)) = suspended_question s" "next_task (snd (handle_stop s)) = next_task s"
  "turn_tasks (snd (handle_stop s)) = (case active_task s of Some i \<Rightarrow>
     if is_busy s then map (\<lambda>t. if task_id t = i then t\<lparr>cancel_requested := True\<rparr> else t) (turn_tasks s) else turn_tasks s | None \<Rightarrow> turn_tasks s)"
  by (auto simp: handle_stop_def Let_def cancel_active_task_def set_cancel_def split: option.split)

lemma interrupt_simps [simp]:
  "session_id (interrupt_agent s) = session_id s" "state (interrupt_agent s) = (if is_busy s then IdleState else state s)"
  "has_active_turn (interrupt_agent s) = has_active_turn s" "active_task (interrupt_agent s) = active_task s"
  "suspended_question (interrupt_agent s) = suspended_question s" "next_task (interrupt_agent s) = next_task s"
  "turn_tasks (interrupt_agent s) = (case active_task s of Some i \<Rightarrow>
     if is_busy s then map (\<lambda>t. if task_id t = i then t\<lparr>cancel_requested := True\<rparr> else t) (turn_tasks s) else turn_tasks s | None \<Rightarrow> turn_tasks s)"
  "\<not> streaming (session_id s) (stream (interrupt_agent s))"
  by (auto simp: interrupt_agent_def Let_def release_subscribers_def split: option.split)

lemma interrupt_inv:
  assumes "session_inv s" "\<forall>t \<in> set (turn_tasks s). \<exists>a. task_phase t = Running a"
  shows "session_inv (interrupt_agent s)"
  using assms(1)
proof (cases rule: session_invE)
  case settled
  then have "settled (interrupt_agent s)" by (auto simp: settled_def is_busy_def)
  then show ?thesis using settled(1) by (simp add: invI_settled split: option.split)
next
  case (driven t)
  obtain a where "task_phase t = Running a" using assms(2) driven(1) by auto
  then have "driven (t\<lparr>cancel_requested := True\<rparr>) (interrupt_agent s)" using driven(2) driven_busy(1) [OF driven(2)] by (simp add: driven_def)
  moreover have "active_task s = Some (task_id t)" using driven(2) by (simp add: driven_def)
  ultimately show ?thesis using driven(1) driven_busy(1) [OF driven(2)] by (auto intro!: invI_driven)
qed

lemma resolve_open_control:
  "control (snd (resolve_open_question i st ans s)) = control s" "session_id (snd (resolve_open_question i st ans s)) = session_id s"
  "stream (snd (resolve_open_question i st ans s)) = stream s"
  by (auto simp: resolve_open_question_def with_db_def case_prod_beta split: option.splits)

lemma resolve_none: "fst (resolve_pending_question i st ans d) = None \<Longrightarrow> snd (resolve_pending_question i st ans d) = d"
  by (cases "find (\<lambda>q. q_id q = i \<and> q_status q = QPending) (questions d)") (simp_all add: resolve_pending_question_def Let_def)

lemma resolve_open_error: "fst (resolve_open_question i st ans s) \<noteq> None \<Longrightarrow> snd (resolve_open_question i st ans s) = s"
  using resolve_none [of i st ans "sdb s"]
  by (auto simp: resolve_open_question_def with_db_def split: option.splits prod.splits if_splits)

lemma answer_inv:
  assumes "session_inv s" "turn_tasks s = []"
  shows "session_inv (snd (answer_question forms i answers s))"
proof -
  let ?r = "resolve_open_question i Answered (Some answers) s"
  have "session_inv (resume_after_question_answer (announce_resolution w (snd ?r)))" for w
    using assms(2) controlD(6) [OF resolve_open_control(1)]
    by (auto simp: resume_after_question_answer_def Let_def intro!: spawn_turn_inv)
  moreover have "session_inv (snd ?r)" if "fst ?r \<noteq> None" using resolve_open_error [OF that] assms(1) by simp
  ultimately show ?thesis using assms(1) by (auto simp: answer_question_def split: option.splits prod.splits)
qed

lemma activate_inv:
  assumes "turn_tasks s = []" "state s \<noteq> WaitingInput" "activate_queued_user_messages s = (True, s')"
  shows "session_inv s'"
  using assms by (auto simp: activate_queued_user_messages_def with_db_def split: prod.splits list.splits intro!: spawn_turn_inv)

lemma activate_none:
  assumes "activate_queued_user_messages s = (False, s')"
  shows "control s' = control s" "session_id s' = session_id s" "stream s' = stream s" "questions (sdb s') = questions (sdb s)"
proof -
  have "s' = s\<lparr>sdb := snd (pop_queued_user_messages (session_id s) (sdb s))\<rparr>"
    using assms by (auto simp: activate_queued_user_messages_def with_db_def split: prod.splits list.splits)
  then show "control s' = control s" "session_id s' = session_id s" "stream s' = stream s" "questions (sdb s') = questions (sdb s)"
    by simp_all
qed

lemma close_turn_settles:
  assumes "turn_tasks s = []" "state s \<notin> {WorkingState, WaitingInput}"
  shows "session_inv (close_turn e (s\<lparr>has_active_turn := False\<rparr>))"
  using assms by (intro invI_settled) (auto simp: close_turn_def settled_def release_subscribers_def)

lemma dismiss_inv:
  assumes "session_inv s" "turn_tasks s = []"
  shows "session_inv (snd (dismiss_question i s))"
proof -
  let ?r = "resolve_open_question i Dismissed None s"
  have "session_inv (end_turn_after_question_dismissed u)" if "turn_tasks u = []" "state u \<noteq> WorkingState" for u
  proof -
    let ?v = "emit IdleState [] (if state u = WaitingInput then u\<lparr>suspended_question := None, state := IdleState\<rparr> else u\<lparr>suspended_question := None\<rparr>)"
    have v: "turn_tasks ?v = []" "state ?v \<notin> {WorkingState, WaitingInput}" using that by auto
    have e: "end_turn_after_question_dismissed u =
        (case if cancel_event ?v then (False, ?v) else activate_queued_user_messages ?v of (activated, s) \<Rightarrow>
          if activated then s else close_turn Completed (s\<lparr>has_active_turn := False\<rparr>))"
      by (simp add: end_turn_after_question_dismissed_def Let_def)
    show ?thesis
    proof (cases "activate_queued_user_messages ?v")
      case (Pair act w)
      have "turn_tasks w = []" "state w \<notin> {WorkingState, WaitingInput}" if "\<not> act"
        using controlD(1,6) [OF activate_none(1)] Pair that v by auto
      moreover have "session_inv w" if act using activate_inv [of ?v w] v Pair that by auto
      ultimately show ?thesis unfolding e Pair using close_turn_settles v by (auto split: if_splits)
    qed
  qed
  moreover have "turn_tasks (announce_resolution w (snd ?r)) = []" "state (announce_resolution w (snd ?r)) \<noteq> WorkingState" for w
    using assms controlD(1,6) [OF resolve_open_control(1) [of i Dismissed None s]] by (auto simp: session_inv_def settled_def)
  moreover have "session_inv (snd ?r)" if "fst ?r \<noteq> None" using resolve_open_error [OF that] assms(1) by simp
  ultimately show ?thesis by (auto simp: dismiss_question_def split: option.splits prod.splits)
qed

lemma open_stream_inv: "session_inv s \<Longrightarrow> session_inv (ensure_turn_for_open_question s)"
  by (auto simp: ensure_turn_for_open_question_def intro: inv_frame)

section \<open>Steps of the turn\<close>

lemma set_phase_tasks: "turn_tasks s = [t] \<Longrightarrow> turn_tasks (set_phase (task_id t) p s) = [t\<lparr>task_phase := p\<rparr>]"
  by (simp add: set_phase_def)

lemma set_phase_simps [simp]:
  "state (set_phase i p s) = state s" "has_active_turn (set_phase i p s) = has_active_turn s" "active_task (set_phase i p s) = active_task s"
  "suspended_question (set_phase i p s) = suspended_question s" "session_id (set_phase i p s) = session_id s" "next_task (set_phase i p s) = next_task s" "sdb (set_phase i p s) = sdb s"
  "stream (set_phase i p s) = stream s" "has_open_question (set_phase i p s) = has_open_question s"
  by (simp_all add: set_phase_def has_open_question_def)

lemma task_done_simps [simp]:
  "state (task_done i s) = state s" "has_active_turn (task_done i s) = has_active_turn s" "session_id (task_done i s) = session_id s"
  "sdb (task_done i s) = sdb s" "stream (task_done i s) = stream s" "has_open_question (task_done i s) = has_open_question s"
  by (simp_all add: task_done_def has_open_question_def)

lemma task_done_tasks: "turn_tasks s = [t] \<Longrightarrow> turn_tasks (task_done (task_id t) s) = []"
  by (simp add: task_done_def)

lemma start_inv:
  assumes "turn_tasks s = [t]" "driven t s" "\<not> cancel_requested t"
  shows "session_inv (start_turn t s)"
  using assms by (intro invI_driven [of _ "t\<lparr>task_phase := Running None\<rparr>"])
    (auto simp: start_turn_def Let_def driven_def set_phase_tasks split: option.split)

lemma ask_inv:
  assumes "turn_tasks s = [t]" "driven t s" "\<not> cancel_requested t" "task_phase t = Running None"
  shows "session_inv (ask_question t call texts s)"
proof -
  obtain q d where q: "create_pending_question (session_id s) call texts (sdb s) = (q, d)" by fastforce
  then have "get_pending_question (session_id s) d \<noteq> None" using created_is_pending [of "session_id s" call texts "sdb s"] by simp
  then show ?thesis using assms q
    by (intro invI_driven [of _ "t\<lparr>task_phase := Running (Some (q_id q))\<rparr>"])
      (auto simp: ask_question_def with_db_def Let_def driven_def set_phase_tasks has_open_question_def)
qed

lemma close_idle_inv:
  assumes "turn_tasks s = [t]" "driven t s" "task_phase t \<noteq> Created" "\<not> cancel_requested t"
  shows "session_inv (close_idle t s)"
  using assms by (intro invI_driven [of _ "t\<lparr>task_phase := Notifying\<rparr>"])
    (auto simp: close_idle_def driven_def set_phase_tasks release_subscribers_def)

lemma park_inv:
  assumes "turn_tasks s = [t]" "has_open_question s"
  shows "session_inv (task_done (task_id t) ((emit WaitingInput x (s\<lparr>state := WaitingInput\<rparr>))\<lparr>has_active_turn := False\<rparr>))"
  using assms by (intro invI_settled) (auto simp: task_done_tasks settled_def has_open_question_def)

lemma failed_inv:
  assumes "turn_tasks s = [t]" "state s = ErrorState"
  shows "session_inv (task_done (task_id t) ((close_turn Failed s)\<lparr>has_active_turn := False\<rparr>))"
  using assms by (intro invI_settled) (auto simp: task_done_tasks settled_def close_turn_def release_subscribers_def)

lemma finish_turn_inv:
  assumes "turn_tasks s = [t]" "driven t s" "task_phase t \<noteq> Created" "\<not> cancel_requested t"
  shows "session_inv (finish_turn t s)"
proof -
  have "session_inv (set_phase (task_id t) Popping s)" using assms
    by (intro invI_driven [of _ "t\<lparr>task_phase := Popping\<rparr>"]) (auto simp: driven_def set_phase_tasks)
  then show ?thesis using assms close_idle_inv [OF assms] by (auto simp: finish_turn_def driven_def)
qed

lemma returns_inv:
  assumes "turn_tasks s = [t]" "driven t s" "task_phase t = Running asked" "\<not> cancel_requested t"
  shows "session_inv (run_returns t asked s)"
proof (cases asked)
  case None
  have "s\<lparr>suspended_question := None\<rparr> = s" using assms(2,3) by (simp add: driven_def)
  then show ?thesis using None assms finish_turn_inv [OF assms(1,2)] by (simp add: run_returns_def)
next
  case (Some q)
  let ?s = "s\<lparr>suspended_question := asked\<rparr>"
  have o: "has_open_question ?s" "suspended_question s = None" "state s \<noteq> ErrorState"
    using assms Some by (auto simp: driven_def has_open_question_def)
  then have "run_returns t asked s = task_done (task_id t) ((emit WaitingInput (show_nat q) (?s\<lparr>state := WaitingInput\<rparr>))\<lparr>has_active_turn := False\<rparr>)"
    using Some by (simp add: run_returns_def finish_turn_def)
  then show ?thesis using park_inv [of ?s t "show_nat q"] assms(1) o(1) by simp
qed

lemma raises_inv:
  assumes "turn_tasks s = [t]"
  shows "session_inv (run_raises t message s)"
  using failed_inv [of "emit ErrorState message (s\<lparr>state := ErrorState\<rparr>)" t] assms by (simp add: run_raises_def finish_turn_def)

lemma pop_inv:
  assumes "turn_tasks s = [t]" "driven t s" "task_phase t = Popping" "\<not> cancel_requested t"
  shows "session_inv (pop_and_close t s)"
proof (cases "activate_queued_user_messages s")
  case (Pair act s')
  show ?thesis
  proof (cases act)
    case False
    from Pair False have a: "activate_queued_user_messages s = (False, s')" by simp
    have "driven t s'" using driven_frame [OF assms(2) activate_none(1,2) [OF a]] activate_none(3,4) [OF a] by simp
    then show ?thesis using a close_idle_inv [of s' t] assms controlD(6) [OF activate_none(1) [OF a]] by (simp add: pop_and_close_def)
  next
    case True
    then obtain ids d where "s' = spawn_turn (plain_turn\<lparr>queued_activation := Some ids\<rparr>) (s\<lparr>sdb := d, cancel_event := False, has_active_turn := True\<rparr>)"
      using Pair by (auto simp: activate_queued_user_messages_def with_db_def split: prod.splits list.splits)
    then show ?thesis using Pair True assms
      by (auto simp: pop_and_close_def task_done_def spawn_turn_def driven_def session_inv_def)
  qed
qed

lemma notify_inv:
  assumes "turn_tasks s = [t]" "driven t s" "task_phase t = Notifying"
  shows "session_inv (notify_and_end t s)"
  using assms by (intro invI_settled) (auto simp: notify_and_end_def task_done_tasks settled_def driven_def has_open_question_def)

lemma cancel_inv:
  assumes "turn_tasks s = [t]" "driven t s" "cancel_requested t"
  shows "session_inv (deliver_cancel t s)" "session_inv (set_cancel (task_id t) False s) \<or> task_phase t \<noteq> Running None"
proof -
  obtain a where a: "task_phase t = Running a" using assms by (auto simp: driven_def)
  let ?s = "set_cancel (task_id t) False s" and ?t = "t\<lparr>cancel_requested := False\<rparr>"
  have t: "turn_tasks ?s = [?t]" using assms(1) by (simp add: set_cancel_def)
  have same: "close_idle t ?s = close_idle ?t ?s" by (simp add: close_idle_def)
  have d: "driven ?t ?s" if "task_phase t = Running None" using assms(2) that by (simp add: driven_def set_cancel_def has_open_question_def)
  have "session_inv (finish_turn t ?s)"
  proof -
    have "session_inv (close_idle ?t ?s)" using t assms(2) a
      by (intro invI_driven [of _ "?t\<lparr>task_phase := Notifying\<rparr>"])
        (auto simp: close_idle_def driven_def set_phase_def release_subscribers_def set_cancel_def)
    moreover have "session_inv (set_phase (task_id ?t) Popping ?s)" using t assms(2) a
      by (intro invI_driven [of _ "?t\<lparr>task_phase := Popping\<rparr>"]) (auto simp: driven_def set_phase_def set_cancel_def)
    moreover have "suspended_question ?s = None" "state ?s \<noteq> ErrorState" using assms(2) a by (simp_all add: driven_def set_cancel_def)
    ultimately show ?thesis by (simp add: finish_turn_def same)
  qed
  then show "session_inv (deliver_cancel t s)" using a by (simp add: deliver_cancel_def)
  show "session_inv ?s \<or> task_phase t \<noteq> Running None" using t d invI_driven [OF t] by (cases "task_phase t = Running None") auto
qed

text \<open>The two rules on requests.\<close>

definition orderly :: "session_event \<Rightarrow> agent_session \<Rightarrow> bool" where
  "orderly e s \<longleftrightarrow>
     (e \<in> {AnswerQuestion, DismissQuestion} \<longrightarrow> turn_tasks s = []) \<and>
     (e = Interrupt \<longrightarrow> (\<forall>t \<in> set (turn_tasks s). \<exists>asked. task_phase t = Running asked))"

lemma session_inv_step:
  assumes "session_step e s s'" "orderly e s" "session_inv s"
  shows "session_inv s'"
proof -
  have task: "turn_tasks s = [t] \<and> driven t s" if "t \<in> set (turn_tasks s)" for t
    using assms(3) by (cases rule: session_invE) (use that in auto)
  from assms(1) show ?thesis
  proof cases
    case (on_interrupt)
    then show ?thesis using assms(2,3) interrupt_inv by (simp add: orderly_def)
  next
    case (on_client st)
    then show ?thesis using inv_frame [OF assms(3), of s'] streaming_client by auto
  next
    case on_evict
    then show ?thesis using assms(3) by (auto intro!: invI_settled simp: new_session_def session_inv_def settled_def has_open_question_def)
  next
    case (on_write t d)
    then show ?thesis using inv_frame [OF assms(3), of s'] loop_write_questions by auto
  next
    case (on_cancel t)
    then show ?thesis using task cancel_inv(1) by blast
  next
    case (on_cancel_swallowed t)
    then show ?thesis using task cancel_inv(2) by blast
  qed (use assms task chat_inv scheduled_inv command_inv answer_inv dismiss_inv open_stream_inv start_inv ask_inv returns_inv raises_inv pop_inv notify_inv
      in \<open>auto simp: orderly_def can_run_def\<close>)
qed

lemma new_session_inv: "session_inv (new_session sid name d empty_store)"
  by (auto intro!: invI_settled simp: new_session_def settled_def streaming_def empty_store_def)

interpretation session_turns: reachable_invariant "session_move orderly" session_inv "new_session sid name d empty_store" for sid name d
proof unfold_locales
  show "session_inv t" if "session_inv s" "session_move orderly s t" for s t
    using that session_inv_step by (auto simp: session_move_def)
qed (rule new_session_inv)

text \<open>Whatever the schedule, the stream of a session is one the stream store can reach.\<close>

lemma reach_init: "store_reach st \<Longrightarrow> store_reach (init_turn sid k st)"
  and reach_ensure: "store_reach st \<Longrightarrow> store_reach (ensure_turn sid st)"
  and reach_push: "store_reach st \<Longrightarrow> ev \<noteq> DoneEv \<Longrightarrow> store_reach (push_event sid ev c st)"
  and reach_finish: "store_reach st \<Longrightarrow> store_reach (mark_done sid (push_event sid DoneEv c st))"
  by (blast intro: reach_step store_step.intros)+

lemma reach_client: "store_reach st \<Longrightarrow> client_step st st' \<Longrightarrow> store_reach st'"
  by (rule reach_step) (auto elim!: client_step.cases intro: store_step.intros)

lemma reach_helpers:
  assumes "store_reach (stream s)"
  shows "ev \<noteq> DoneEv \<Longrightarrow> store_reach (stream (push ev s))" "store_reach (stream (emit st x s))" "store_reach (stream (release_subscribers s))"
    "store_reach (stream (begin_turn a s))" "store_reach (stream (spawn_turn a s))" "store_reach (stream (announce_resolution w s))"
  using assms by (simp_all add: push_def emit_def release_subscribers_def begin_turn_def spawn_turn_def announce_resolution_def
      reach_push reach_finish reach_init)

lemma stream_frame [simp]: "stream (set_cancel i b s) = stream s" "stream (spawn_turn a s) = stream s"
  "stream (snd (activate_queued_user_messages s)) = stream s"
  by (auto simp: set_cancel_def spawn_turn_def activate_queued_user_messages_def with_db_def split: prod.splits list.splits)

lemma reach_requests:
  assumes "store_reach (stream s)"
  shows "store_reach (stream (snd (handle_user_message u i m blocks s)))" "store_reach (stream (snd (handle_stop s)))"
    "store_reach (stream (close_turn e s))" "store_reach (stream (close_idle t s))"
  using assms by (auto simp: handle_user_message_def Let_def case_prod_beta handle_stop_def cancel_active_task_def close_turn_def close_idle_def
      intro!: reach_helpers split: option.split)

lemma reach_finish_turn: "store_reach (stream s) \<Longrightarrow> store_reach (stream (finish_turn t s))"
  by (auto simp: finish_turn_def intro!: reach_helpers reach_requests)

lemma reach_end_turn: "store_reach (stream s) \<Longrightarrow> store_reach (stream (end_turn_after_question_dismissed s))"
  by (auto simp: end_turn_after_question_dismissed_def Let_def case_prod_beta intro!: reach_helpers reach_requests)

lemma reach_session_step:
  assumes "session_step e s s'" "store_reach (stream s)"
  shows "store_reach (stream s')"
  using assms(1)
proof cases
  case (on_chat m blocks)
  then show ?thesis using assms(2) busy_chat [of s m blocks] idle_chat [of s m blocks] reach_requests(1)
    by (cases "has_active_user_turn s \<and> \<not> is_awaiting_question_answer s") auto
next
  case (on_scheduled m)
  then show ?thesis using assms(2) reach_requests(1) by (simp add: scheduled_message_def case_prod_beta)
next
  case (on_client st)
  then show ?thesis using assms(2) reach_client by simp
next
  case (on_answer forms i answers)
  have "store_reach (stream (snd (resolve_open_question i Answered (Some answers) s)))" using assms(2) by (simp add: resolve_open_control)
  then show ?thesis using on_answer assms(2)
    by (auto simp: answer_question_def resume_after_question_answer_def Let_def intro!: reach_helpers split: option.splits prod.splits)
next
  case (on_dismiss i)
  have "store_reach (stream (snd (resolve_open_question i Dismissed None s)))" using assms(2) by (simp add: resolve_open_control)
  then show ?thesis using on_dismiss
    by (auto simp: dismiss_question_def intro!: reach_helpers reach_end_turn split: option.splits prod.splits)
next
  case (on_pop t)
  then show ?thesis using assms(2) reach_requests(4) [of "snd (activate_queued_user_messages s)" t]
    by (cases "fst (activate_queued_user_messages s)") (auto simp: pop_and_close_def case_prod_beta)
qed (use assms(2) in \<open>auto simp: interrupt_agent_def handle_continue_def handle_compact_def handle_undo_def handle_redo_def
    handle_redo_all_def move_boundary_def ensure_turn_for_open_question_def new_session_def start_turn_def ask_question_def run_returns_def
    run_raises_def notify_and_end_def deliver_cancel_def Let_def case_prod_beta
    intro!: reach_helpers reach_requests reach_finish_turn reach_ensure reach_init split: option.splits prod.splits turn_phase.splits\<close>)

interpretation session_streams: reachable_invariant "session_move P" "\<lambda>s. store_reach (stream s)" "new_session sid name d empty_store" for P sid name d
proof unfold_locales
  show "store_reach (stream t)" if "store_reach (stream s)" "session_move P s t" for s t
    using that reach_session_step by (auto simp: session_move_def)
qed (simp add: new_session_def reach_empty)

lemma session_route_inv: "(session_move P)\<^sup>*\<^sup>* (new_session sid name d empty_store) s \<Longrightarrow> route_inv (stream s)"
  using stream_routes.reachable_inv [OF store_reach_run [OF session_streams.reachable_inv]] by blast

section \<open>Properties\<close>


text \<open>
  C7. No session is left hanging. In every orderly run, when no turn is under way, the session counts
  as busy only if it waits for an answer, and it waits for one only while the question is open in the
  database; the stream store lists it among the running sessions only while a question is open.
\<close>

theorem session_settles:
  assumes "(session_move orderly)\<^sup>*\<^sup>* (new_session sid name d empty_store) s" "turn_tasks s = []"
  shows "(is_busy s \<longleftrightarrow> state s = WaitingInput) \<and> (state s = WaitingInput \<longrightarrow> has_open_question s) \<and>
    (session_id s \<in> set (running_session_ids (stream s)) \<longrightarrow> has_open_question s)"
  using session_turns.reachable_inv [OF assms(1)] assms(2) streaming_running [OF session_route_inv [OF assms(1)]]
  by (auto simp: session_inv_def settled_def is_busy_def)

section \<open>Runs\<close>

lemma run_step: "(session_move P)\<^sup>*\<^sup>* u s \<Longrightarrow> session_step e s t \<Longrightarrow> P e s \<Longrightarrow> (session_move P)\<^sup>*\<^sup>* u t"
  by (rule rtranclp.rtrancl_into_rtrancl) (auto simp: session_move_def)

text \<open>A message of the user starts a turn; \<open>sole\<close> is the task that carries it.\<close>

definition sole :: "agent_session \<Rightarrow> turn_task" where
  "sole s = hd (turn_tasks s)"

definition on_task :: "(turn_task list \<Rightarrow> turn_task) \<Rightarrow> (turn_task \<Rightarrow> agent_session \<Rightarrow> agent_session) \<Rightarrow> agent_session \<Rightarrow> agent_session" where
  "on_task pick f s = f (pick (turn_tasks s)) s"

definition first_session :: agent_session where
  "first_session = new_session ''s'' ''code'' (example_db []) empty_store"

definition first_message :: agent_session where
  "first_message = snd (agent_chat (user_draft ''hello'') [] first_session)"

definition first_turn :: agent_session where
  "first_turn = on_task hd start_turn first_message"

lemma first_turn_facts:
  "can_run (sole first_message) first_message \<and> task_phase (sole first_message) = Created" "turn_tasks first_turn \<noteq> []"
  "can_run (sole first_turn) first_turn \<and> task_phase (sole first_turn) = Running None \<and> \<not> cancel_event first_turn"
  by code_simp+

lemma first_turn_run: "(session_move orderly)\<^sup>*\<^sup>* first_session first_turn"
proof -
  have "(session_move orderly)\<^sup>*\<^sup>* first_session first_message"
    by (rule run_step [OF rtranclp.rtrancl_refl on_chat [of first_session "user_draft ''hello''" "[]", folded first_message_def]])
      (simp add: orderly_def)
  then show ?thesis unfolding first_turn_def on_task_def sole_def [symmetric]
    by (rule run_step [OF _ on_start]) (use first_turn_facts(1) in \<open>simp_all add: orderly_def\<close>)
qed


definition first_question :: agent_session where
  "first_question = on_task hd (\<lambda>t. ask_question t ''c1'' [''Which one?'']) first_turn"

definition first_parked :: agent_session where
  "first_parked = on_task hd (\<lambda>t. run_returns t (Some 11)) first_question"

lemma first_parked_facts:
  "can_run (sole first_question) first_question \<and> task_phase (sole first_question) = Running (Some 11)"
  "turn_tasks first_parked = [] \<and> state first_parked = WaitingInput \<and> session_id first_parked \<in> set (running_session_ids (stream first_parked))"
  by code_simp+

lemma first_question_run: "(session_move orderly)\<^sup>*\<^sup>* first_session first_question"
  unfolding first_question_def on_task_def sole_def [symmetric]
  by (rule run_step [OF first_turn_run on_ask]) (use first_turn_facts(3) in \<open>simp_all add: orderly_def\<close>)

lemma first_parked_run: "(session_move orderly)\<^sup>*\<^sup>* first_session first_parked"
  unfolding first_parked_def on_task_def sole_def [symmetric]
  by (rule run_step [OF first_question_run on_run_return]) (use first_parked_facts(1) in \<open>simp_all add: orderly_def\<close>)

theorem session_settles_witness: "turn_tasks first_parked = [] \<and> is_busy first_parked \<and> has_open_question first_parked"
  using session_settles [OF first_parked_run [unfolded first_session_def]] first_parked_facts(2) by blast

section \<open>Requests that arrive in between\<close>

text \<open>
  A stop while the turn is closing is delivered inside the \<open>finally\<close> block, which then never clears the
  mark of the active turn.
\<close>

definition wedged :: "agent_session \<Rightarrow> bool" where
  "wedged s \<longleftrightarrow> turn_tasks s = [] \<and> has_active_turn s \<and> state s \<noteq> WaitingInput \<and> \<not> has_open_question s"

lemma no_question_dismiss: "\<not> has_open_question s \<Longrightarrow> dismiss_pending_question r s = s"
  by (simp add: dismiss_pending_question_def has_open_question_def)

lemma has_open_question_frame [simp]:
  "has_open_question (s\<lparr>stream := st\<rparr>) = has_open_question s" "has_open_question (s\<lparr>state := x\<rparr>) = has_open_question s"
  "has_open_question (s\<lparr>cancel_event := c\<rparr>) = has_open_question s" "has_open_question (emit q e s) = has_open_question s"
  "has_open_question (release_subscribers s) = has_open_question s" "has_open_question (publish_completed f s) = has_open_question s"
  "has_open_question (cancel_active_task s) = has_open_question s"
  by (simp_all add: has_open_question_def cancel_active_task_def set_cancel_def split: option.split)

lemma wedged_step:
  assumes "session_step e s s'" "wedged s"
  shows "wedged s'"
proof -
  have b: "has_active_user_turn s" "\<not> is_awaiting_question_answer s" "is_busy s" and o: "\<not> has_open_question s" and t: "turn_tasks s = []"
    using assms(2) by (auto simp: wedged_def has_active_user_turn_def is_busy_def is_awaiting_question_answer_def)
  have db: "wedged (s\<lparr>sdb := d\<rparr>)" if "questions d = questions (sdb s)" for d
    using assms(2) that open_question_sdb [of "s\<lparr>sdb := d\<rparr>" s] by (simp add: wedged_def)
  from assms(1) show ?thesis
  proof cases
    case (on_interrupt)
    let ?r = "snd (with_db (release_queued_user_messages (session_id s)) s)"
    have "\<not> has_open_question ?r" using o open_question_sdb [of ?r s] by simp
    then have "\<not> has_open_question (interrupt_agent s)"
      by (simp add: interrupt_agent_def Let_def no_question_dismiss handle_stop_def)
    then show ?thesis using on_interrupt assms(2) t by (simp add: wedged_def split: option.split)
  next
    case on_client
    then show ?thesis using assms(2) by (simp add: wedged_def)
  qed (use assms(2) b o t busy_chat [OF b(1,2)] db in \<open>auto simp: scheduled_message_def handle_continue_def handle_compact_def handle_undo_def handle_redo_def
      handle_redo_all_def move_boundary_def answer_question_def dismiss_question_def resolve_open_question_def has_open_question_def
      ensure_turn_for_open_question_def session_is_evictable_def can_run_def\<close>)
qed

interpretation wedge: step_invariant "session_move P" wedged for P
  by unfold_locales (auto simp: session_move_def intro: wedged_step)

definition closing_stopped :: agent_session where
  "closing_stopped = interrupt_agent (on_task hd (\<lambda>t. run_returns t None) first_turn)"

definition wedged_session :: agent_session where
  "wedged_session = on_task hd deliver_cancel closing_stopped"

lemma closing_facts: "sole closing_stopped \<in> set (turn_tasks closing_stopped) \<and> cancel_requested (sole closing_stopped)" "wedged wedged_session"
  by code_simp+

lemma any_run: "(session_move orderly)\<^sup>*\<^sup>* u s \<Longrightarrow> (session_move (\<lambda>_ _. True))\<^sup>*\<^sup>* u s"
  by (induction rule: rtranclp_induct) (auto simp: session_move_def intro: rtranclp.rtrancl_into_rtrancl)

theorem stop_at_turn_end_wedges:
  "(session_move (\<lambda>_ _. True))\<^sup>*\<^sup>* first_session wedged_session \<and>
   (\<forall>s. (session_move (\<lambda>_ _. True))\<^sup>*\<^sup>* wedged_session s \<longrightarrow>
      turn_tasks s = [] \<and> is_busy s \<and> (\<forall>m. \<exists>i d. agent_chat m [] s = (Inr (QueuedStatus, i), s\<lparr>sdb := d\<rparr>)))"
proof (intro conjI allI impI)
  have "(session_move (\<lambda>_ _. True))\<^sup>*\<^sup>* first_session (on_task hd (\<lambda>t. run_returns t None) first_turn)"
    unfolding on_task_def sole_def [symmetric]
    by (rule run_step [OF any_run [OF first_turn_run] on_run_return]) (use first_turn_facts(3) in auto)
  then have "(session_move (\<lambda>_ _. True))\<^sup>*\<^sup>* first_session closing_stopped" unfolding closing_stopped_def
    by (rule run_step [OF _ on_interrupt]) simp
  then show "(session_move (\<lambda>_ _. True))\<^sup>*\<^sup>* first_session wedged_session" unfolding wedged_session_def on_task_def sole_def [symmetric]
    by (rule run_step [OF _ on_cancel]) (use closing_facts(1) in auto)
next
  fix s m
  assume "(session_move (\<lambda>_ _. True))\<^sup>*\<^sup>* wedged_session s"
  then have w: "wedged s" using wedge.run_inv closing_facts(2) by blast
  then show "turn_tasks s = []" "is_busy s" by (simp_all add: wedged_def is_busy_def)
  have b: "has_active_user_turn s" "\<not> is_awaiting_question_answer s"
    using w by (auto simp: wedged_def has_active_user_turn_def is_awaiting_question_answer_def)
  then show "\<exists>i d. agent_chat m [] s = (Inr (QueuedStatus, i), s\<lparr>sdb := d\<rparr>)" by (rule busy_chat_queues)
qed

text \<open>A message that follows a stop before the turn has wound up joins a queue that nothing drains.\<close>

definition after_stop :: agent_session where
  "after_stop = snd (agent_chat (user_draft ''again'') [] (interrupt_agent first_turn))"

definition wound_up :: agent_session where
  "wound_up = on_task hd deliver_cancel after_stop"

definition stranded :: agent_session where
  "stranded = on_task hd notify_and_end wound_up"

lemma stranded_facts:
  "sole after_stop \<in> set (turn_tasks after_stop) \<and> cancel_requested (sole after_stop)"
  "can_run (sole wound_up) wound_up \<and> task_phase (sole wound_up) = Notifying"
  by code_simp+

theorem message_after_stop_stranded:
  "(session_move orderly)\<^sup>*\<^sup>* first_session stranded \<and> turn_tasks stranded = [] \<and> \<not> is_busy stranded \<and>
   map body (queued_rows ''s'' (sdb stranded)) = [''again'']"
proof -
  have "map task_phase (turn_tasks first_turn) = [Running None]" by code_simp
  then have "\<forall>t \<in> set (turn_tasks first_turn). \<exists>a. task_phase t = Running a" by auto
  then have "(session_move orderly)\<^sup>*\<^sup>* first_session (interrupt_agent first_turn)"
    by (intro run_step [OF first_turn_run on_interrupt]) (simp add: orderly_def)
  then have "(session_move orderly)\<^sup>*\<^sup>* first_session after_stop" unfolding after_stop_def
    by (rule run_step [OF _ on_chat]) (simp add: orderly_def)
  then have "(session_move orderly)\<^sup>*\<^sup>* first_session wound_up" unfolding wound_up_def on_task_def sole_def [symmetric]
    by (rule run_step [OF _ on_cancel]) (use stranded_facts(1) in \<open>simp_all add: orderly_def\<close>)
  then have "(session_move orderly)\<^sup>*\<^sup>* first_session stranded" unfolding stranded_def on_task_def sole_def [symmetric]
    by (rule run_step [OF _ on_notify]) (use stranded_facts(2) in \<open>simp_all add: orderly_def\<close>)
  moreover have "turn_tasks stranded = [] \<and> \<not> is_busy stranded \<and> map body (queued_rows ''s'' (sdb stranded)) = [''again'']" by code_simp
  ultimately show ?thesis by blast
qed

text \<open>
  An answer that arrives before the turn has parked starts a second turn, and the first one still
  parks: at the end the session waits for an answer to a question that has been answered.
\<close>

definition early_answer :: agent_session where
  "early_answer = snd (answer_question [\<lparr>qf_labels = [], qf_multiple = False, qf_custom = True\<rparr>] 11 [[]] first_question)"

definition early_resumed :: agent_session where
  "early_resumed = on_task last start_turn early_answer"

definition early_parked :: agent_session where
  "early_parked = on_task hd (\<lambda>t. run_returns t (Some 11)) early_resumed"

definition early_end :: agent_session where
  "early_end = on_task hd (\<lambda>t. run_returns t None) early_parked"

lemma early_facts:
  "can_run (last (turn_tasks early_answer)) early_answer \<and> task_phase (last (turn_tasks early_answer)) = Created"
  "can_run (sole early_resumed) early_resumed \<and> task_phase (sole early_resumed) = Running (Some 11)"
  "can_run (sole early_parked) early_parked \<and> task_phase (sole early_parked) = Running None"
  "turn_tasks early_end = [] \<and> state early_end = WaitingInput \<and> \<not> has_open_question early_end"
  by code_simp+

theorem early_answer_parks:
  "(session_move (\<lambda>_ _. True))\<^sup>*\<^sup>* first_session early_end \<and> length (turn_tasks early_resumed) = 2 \<and>
   turn_tasks early_end = [] \<and> state early_end = WaitingInput \<and> \<not> has_open_question early_end"
proof -
  have "(session_move (\<lambda>_ _. True))\<^sup>*\<^sup>* first_session early_answer" unfolding early_answer_def
    by (rule run_step [OF any_run [OF first_question_run] on_answer]) simp
  then have "(session_move (\<lambda>_ _. True))\<^sup>*\<^sup>* first_session early_resumed" unfolding early_resumed_def on_task_def sole_def [symmetric]
    by (rule run_step [OF _ on_start]) (use early_facts(1) in simp_all)
  then have "(session_move (\<lambda>_ _. True))\<^sup>*\<^sup>* first_session early_parked" unfolding early_parked_def on_task_def sole_def [symmetric]
    by (rule run_step [OF _ on_run_return]) (use early_facts(2) in simp_all)
  then have "(session_move (\<lambda>_ _. True))\<^sup>*\<^sup>* first_session early_end" unfolding early_end_def on_task_def sole_def [symmetric]
    by (rule run_step [OF _ on_run_return]) (use early_facts(3) in simp_all)
  moreover have "length (turn_tasks early_resumed) = 2" by code_simp
  ultimately show ?thesis using early_facts(4) by blast
qed

end
