(* ===== verification/Scheduler.thy ===== *)
theory Scheduler
  imports Prelude
begin

text \<open>
  The task scheduler (\<open>app/scheduler/scheduler.py\<close>, \<open>cron.py\<close>): the rows of the scheduled tasks, the
  asyncio task that sleeps until a task is due, the detached firings of \<open>trigger\<close> and of the start-up, and
  the administrative operations that may arrive while a firing is under way. A firing gives up control
  while it claims the row, while it looks for the agent session, while the message is dispatched, while
  the chat session is stamped and while the statistics are written; every section under the state lock is
  one step. What the agent session does with the message is an outcome of the step. \<open>croniter\<close> is a
  parameter: \<open>cron e tz t\<close> is the first time after \<open>t\<close> of the expression \<open>e\<close> in the zone \<open>tz\<close>. Times are
  seconds. The check of the workspace on disk and the lookup of a chat session are parameters too.
\<close>

section \<open>Tasks and times\<close>

datatype schedule_type = AtTime | EverySeconds | CronExpression | UnknownSchedule

datatype task_status = TaskPending | TaskRunning | TaskPaused | TaskCompleted | TaskFailed

record scheduled_task =
  st_id :: nat
  slug :: string
  st_name :: string
  workspace :: string
  schedule_type :: schedule_type
  at_datetime :: "int option"
  every_seconds :: "int option"
  cron_expression :: "string option"
  timezone :: string
  prompt :: string
  st_session :: "string option"
  enabled :: bool
  status :: task_status
  run_count :: nat
  max_runs :: "nat option"
  last_run_at :: "int option"
  last_error :: "string option"
  next_fire_at :: "int option"

type_synonym croniter = "string \<Rightarrow> string \<Rightarrow> int \<Rightarrow> int"

definition next_fire :: "croniter \<Rightarrow> scheduled_task \<Rightarrow> int \<Rightarrow> int option" where
  "next_fire cron t after =
     (case schedule_type t of
        AtTime \<Rightarrow> if run_count t > 0 then None else at_datetime t
      | EverySeconds \<Rightarrow>
          (case every_seconds t of None \<Rightarrow> None | Some n \<Rightarrow> if n \<le> 0 then None else Some (after + n))
      | CronExpression \<Rightarrow>
          (case cron_expression t of None \<Rightarrow> None | Some e \<Rightarrow> if e = [] then None else Some (cron e (timezone t) after))
      | UnknownSchedule \<Rightarrow> None)"

definition schedule_exhausted :: "scheduled_task \<Rightarrow> bool" where
  "schedule_exhausted t \<longleftrightarrow> (case max_runs t of None \<Rightarrow> False | Some m \<Rightarrow> m \<le> run_count t)"

section \<open>State\<close>

datatype fire_phase =
    Waiting \<comment> \<open>a detached firing that has not started\<close>
  | Claiming
  | Routing
  | Dispatching
  | Skipping
  | Stamping string
  | Counting "string option" \<comment> \<open>the error of the run\<close>

text \<open>
  A firing works on the task it was given. \<open>stale\<close> is no variable of the code: it records that an
  administrative operation has invalidated the firing.
\<close>

record firing =
  fire_id :: nat
  fire_task :: scheduled_task
  fire_version :: nat
  fire_phase :: fire_phase
  detached :: bool
  restarts :: bool \<comment> \<open>\<open>_fire_overdue_and_restart\<close>\<close>
  fire_cancelled :: bool
  stale :: bool

datatype timer_phase = Sleeping int | InFire nat | Reloading

record timer_task =
  timer_id :: nat
  timer_for :: scheduled_task
  timer_phase :: timer_phase

record scheduler =
  task_rows :: "scheduled_task list"
  timers :: "(string \<times> nat) list" \<comment> \<open>\<open>_tasks\<close>\<close>
  timer_tasks :: "timer_task list" \<comment> \<open>the timer loops that are not done\<close>
  firings :: "firing list" \<comment> \<open>the firings that are not done\<close>
  firing_ids :: "nat list"
  fire_versions :: "nat \<Rightarrow> nat option"
  pending_fire_counts :: "nat \<Rightarrow> nat option"
  clock :: int
  next_uid :: nat
  attempts :: "(nat \<times> bool) list" \<comment> \<open>the dispatches that were begun: task, and whether the firing was stale\<close>
  delivered :: "nat list" \<comment> \<open>the tasks whose message reached the agent session\<close>

definition get_task :: "string \<Rightarrow> scheduler \<Rightarrow> scheduled_task option" where
  "get_task sl s = find (\<lambda>t. slug t = sl) (task_rows s)"

definition get_task_by_id :: "nat \<Rightarrow> scheduler \<Rightarrow> scheduled_task option" where
  "get_task_by_id i s = find (\<lambda>t. st_id t = i) (task_rows s)"

definition put_task :: "scheduled_task \<Rightarrow> scheduler \<Rightarrow> scheduler" where
  "put_task t s = s\<lparr>task_rows := map (\<lambda>x. if st_id x = st_id t then t else x) (task_rows s)\<rparr>"

definition version_of :: "nat \<Rightarrow> scheduler \<Rightarrow> nat" where
  "version_of i s = (case fire_versions s i of None \<Rightarrow> 0 | Some v \<Rightarrow> v)"

section \<open>Timers and firings\<close>

text \<open>A cancelled timer loop that sleeps or reloads is gone; one that fires passes the cancellation on.\<close>

definition cancel_timer_task :: "nat \<Rightarrow> scheduler \<Rightarrow> scheduler" where
  "cancel_timer_task i s =
     s\<lparr>timer_tasks := filter (\<lambda>t. timer_id t \<noteq> i) (timer_tasks s),
       firings := map (\<lambda>f. if \<exists>t \<in> set (timer_tasks s). timer_id t = i \<and> timer_phase t = InFire (fire_id f)
                           then f\<lparr>fire_cancelled := True\<rparr> else f) (firings s)\<rparr>"

definition cancel_timer :: "string \<Rightarrow> scheduler \<Rightarrow> scheduler" where
  "cancel_timer sl s =
     (case map_of (timers s) sl of
        None \<Rightarrow> s
      | Some i \<Rightarrow> cancel_timer_task i (s\<lparr>timers := AList.delete sl (timers s)\<rparr>))"

text \<open>The head of the loop of \<open>_timer_loop\<close>: when the schedule is exhausted the loop ends.\<close>

definition sleep_timer :: "croniter \<Rightarrow> nat \<Rightarrow> scheduled_task \<Rightarrow> scheduler \<Rightarrow> scheduler" where
  "sleep_timer cron i t s =
     (case next_fire cron t (clock s) of
        None \<Rightarrow> s\<lparr>timers := AList.delete (slug t) (timers s)\<rparr>
      | Some due \<Rightarrow> s\<lparr>timer_tasks := timer_tasks s @ [\<lparr>timer_id = i, timer_for = t, timer_phase = Sleeping due\<rparr>]\<rparr>)"

definition start_timer :: "croniter \<Rightarrow> scheduled_task \<Rightarrow> scheduler \<Rightarrow> scheduler" where
  "start_timer cron t s =
     (let s = cancel_timer (slug t) s; i = next_uid s
      in sleep_timer cron i t (s\<lparr>next_uid := i + 1, timers := AList.update (slug t) i (timers s)\<rparr>))"

definition invalidate_fire :: "nat \<Rightarrow> scheduler \<Rightarrow> scheduler" where
  "invalidate_fire i s =
     (let s = s\<lparr>fire_versions := (fire_versions s)(i \<mapsto> version_of i s + 1),
                firings := map (\<lambda>f. if st_id (fire_task f) = i then f\<lparr>stale := True\<rparr> else f) (firings s)\<rparr>
      in if i \<notin> set (firing_ids s) \<and> pending_fire_counts s i = None then s\<lparr>fire_versions := (fire_versions s)(i := None)\<rparr> else s)"

definition new_firing :: "scheduled_task \<Rightarrow> nat \<Rightarrow> fire_phase \<Rightarrow> bool \<Rightarrow> bool \<Rightarrow> nat \<Rightarrow> firing" where
  "new_firing t v p d r i =
     \<lparr>fire_id = i, fire_task = t, fire_version = v, fire_phase = p, detached = d, restarts = r, fire_cancelled = False, stale = False\<rparr>"

definition spawn_fire :: "scheduled_task \<Rightarrow> bool \<Rightarrow> scheduler \<Rightarrow> scheduler" where
  "spawn_fire t r s =
     s\<lparr>pending_fire_counts := (pending_fire_counts s)(st_id t \<mapsto> (case pending_fire_counts s (st_id t) of None \<Rightarrow> 0 | Some n \<Rightarrow> n) + 1),
       firings := firings s @ [new_firing t (version_of (st_id t) s) Waiting True r (next_uid s)], next_uid := next_uid s + 1\<rparr>"

section \<open>Administration\<close>

text \<open>The schedule of a row that is stored: exhausted rows are switched off.\<close>

definition reschedule :: "croniter \<Rightarrow> int \<Rightarrow> scheduled_task \<Rightarrow> scheduled_task" where
  "reschedule cron t0 t =
     (if schedule_exhausted t then t\<lparr>enabled := False, status := TaskCompleted, next_fire_at := None\<rparr>
      else t\<lparr>next_fire_at := next_fire cron t t0\<rparr>)"

definition start_if_enabled :: "croniter \<Rightarrow> scheduled_task \<Rightarrow> scheduler \<Rightarrow> scheduler" where
  "start_if_enabled cron t s = (if enabled t then start_timer cron t s else s)"

definition add_task :: "croniter \<Rightarrow> scheduled_task \<Rightarrow> scheduler \<Rightarrow> scheduled_task \<times> scheduler" where
  "add_task cron t s =
     (let t = reschedule cron (clock s) t
      in (t, start_if_enabled cron t (s\<lparr>task_rows := task_rows s @ [t]\<rparr>)))"

datatype scheduler_error = TaskNotFound | InvalidTaskTarget | DuplicateTask

text \<open>\<open>_validate_target\<close> and \<open>_validate_session_compat\<close>.\<close>

record routing_env =
  routable :: "string \<Rightarrow> bool"
  is_uuid :: "string \<Rightarrow> bool"
  bound_workspace :: "string \<Rightarrow> string option"

definition target_ok :: "routing_env \<Rightarrow> string \<Rightarrow> bool" where
  "target_ok e ws \<longleftrightarrow> ws \<noteq> [] \<and> routable e ws"

definition session_compat :: "routing_env \<Rightarrow> string option \<Rightarrow> string \<Rightarrow> bool" where
  "session_compat e sid ws \<longleftrightarrow>
     (case sid of None \<Rightarrow> True
      | Some i \<Rightarrow> i = [] \<or> i = ''auto'' \<or> is_uuid e i \<and> (case bound_workspace e i of None \<Rightarrow> True | Some w \<Rightarrow> w = ws))"

text \<open>\<open>create\<close>: the body becomes a row with the defaults of the model; slug and name are unique in the database.\<close>

definition create_task :: "croniter \<Rightarrow> routing_env \<Rightarrow> scheduled_task \<Rightarrow> scheduler \<Rightarrow> (scheduler_error + scheduled_task) \<times> scheduler" where
  "create_task cron e b s =
     (if \<not> target_ok e (workspace b) \<or> \<not> session_compat e (st_session b) (workspace b) then (Inl InvalidTaskTarget, s)
      else if \<exists>t \<in> set (task_rows s). slug t = slug b \<or> st_name t = st_name b then (Inl DuplicateTask, s)
      else
        let t = b\<lparr>st_id := next_uid s, status := TaskPending, run_count := 0, last_run_at := None, last_error := None, next_fire_at := None\<rparr>;
            (t, s) = add_task cron t (s\<lparr>next_uid := next_uid s + 1\<rparr>)
        in (Inr t, s))"

definition update_locked :: "croniter \<Rightarrow> scheduled_task \<Rightarrow> scheduler \<Rightarrow> scheduled_task \<times> scheduler" where
  "update_locked cron t s =
     (let s = cancel_timer (slug t) (invalidate_fire (st_id t) s);
          t = (if status t = TaskRunning then t\<lparr>status := if enabled t then TaskPending else TaskPaused\<rparr> else t);
          t = reschedule cron (clock s) t
      in (t, start_if_enabled cron t (put_task t s)))"

record task_update =
  up_slug :: "string option"
  up_workspace :: "string option"
  up_schedule :: "schedule_type option"
  up_at :: "int option"
  up_every :: "int option"
  up_cron :: "string option"
  up_timezone :: "string option"
  up_prompt :: "string option"
  up_session :: "string option"
  up_max_runs :: "nat option option"
  up_enabled :: "bool option"

definition set_opt :: "'a option \<Rightarrow> ('a \<Rightarrow> 'b \<Rightarrow> 'b) \<Rightarrow> 'b \<Rightarrow> 'b" where
  "set_opt v f x = (case v of None \<Rightarrow> x | Some a \<Rightarrow> f a x)"

definition merge_update :: "task_update \<Rightarrow> scheduled_task \<Rightarrow> scheduled_task" where
  "merge_update b t =
     (let t = set_opt (up_workspace b) (\<lambda>v t. t\<lparr>workspace := v\<rparr>) t;
          t = set_opt (up_slug b) (\<lambda>v t. t\<lparr>slug := v\<rparr>) t;
          t = set_opt (up_schedule b) (\<lambda>v t. t\<lparr>schedule_type := v, at_datetime := None, every_seconds := None, cron_expression := None\<rparr>) t;
          t = set_opt (up_at b) (\<lambda>v t. t\<lparr>at_datetime := Some v\<rparr>) t;
          t = set_opt (up_every b) (\<lambda>v t. t\<lparr>every_seconds := Some v\<rparr>) t;
          t = set_opt (up_cron b) (\<lambda>v t. t\<lparr>cron_expression := Some v\<rparr>) t;
          t = set_opt (up_timezone b) (\<lambda>v t. t\<lparr>timezone := v\<rparr>) t;
          t = set_opt (up_prompt b) (\<lambda>v t. t\<lparr>prompt := v\<rparr>) t;
          t = set_opt (up_session b) (\<lambda>v t. t\<lparr>st_session := Some v\<rparr>) t;
          t = set_opt (up_max_runs b) (\<lambda>v t. t\<lparr>max_runs := v\<rparr>) t
      in set_opt (up_enabled b) (\<lambda>v t. t\<lparr>enabled := v\<rparr>) t)"

text \<open>A slug that is taken is refused by the commit at the end, when the timers have been cancelled.\<close>

definition apply_update :: "croniter \<Rightarrow> routing_env \<Rightarrow> string \<Rightarrow> task_update \<Rightarrow> scheduler \<Rightarrow> (scheduler_error + scheduled_task) \<times> scheduler" where
  "apply_update cron e sl b s =
     (case get_task sl s of
        None \<Rightarrow> (Inl TaskNotFound, s)
      | Some t \<Rightarrow>
          let t' = merge_update b t in
          if up_workspace b \<noteq> None \<and> \<not> target_ok e (workspace t') then (Inl InvalidTaskTarget, s)
          else if (up_workspace b \<noteq> None \<or> up_session b \<noteq> None) \<and> \<not> session_compat e (st_session t') (workspace t') then (Inl InvalidTaskTarget, s)
          else
            let taken = (slug t' \<noteq> sl \<and> get_task (slug t') s \<noteq> None);
                s = (if slug t' \<noteq> sl then cancel_timer sl (invalidate_fire (st_id t) s) else s) in
            if taken then (Inl DuplicateTask, cancel_timer (slug t') (invalidate_fire (st_id t') s))
            else case update_locked cron t' s of (t, s) \<Rightarrow> (Inr t, s))"

definition remove_task :: "string \<Rightarrow> scheduler \<Rightarrow> scheduler" where
  "remove_task sl s =
     (let s = (case get_task sl s of None \<Rightarrow> s | Some t \<Rightarrow> invalidate_fire (st_id t) s);
          s = cancel_timer sl s
      in s\<lparr>task_rows := filter (\<lambda>t. slug t \<noteq> sl) (task_rows s)\<rparr>)"

definition pause_task :: "string \<Rightarrow> scheduler \<Rightarrow> (scheduler_error + scheduled_task) \<times> scheduler" where
  "pause_task sl s =
     (let s' = cancel_timer sl (case get_task sl s of None \<Rightarrow> s | Some t \<Rightarrow> invalidate_fire (st_id t) s) in
      case get_task sl s of
        None \<Rightarrow> (Inl TaskNotFound, s')
      | Some t \<Rightarrow> let t = t\<lparr>enabled := False, status := TaskPaused\<rparr> in (Inr t, put_task t s'))"

definition resume_task :: "croniter \<Rightarrow> string \<Rightarrow> scheduler \<Rightarrow> (scheduler_error + scheduled_task) \<times> scheduler" where
  "resume_task cron sl s =
     (case get_task sl s of
        None \<Rightarrow> (Inl TaskNotFound, s)
      | Some t \<Rightarrow>
          let s = invalidate_fire (st_id t) s;
              t = reschedule cron (clock s) (t\<lparr>enabled := True, status := TaskPending\<rparr>)
          in (Inr t, start_if_enabled cron t (put_task t s)))"

definition trigger_task :: "croniter \<Rightarrow> string \<Rightarrow> scheduler \<Rightarrow> scheduler_error option \<times> scheduler" where
  "trigger_task cron sl s =
     (case get_task sl s of
        None \<Rightarrow> (Some TaskNotFound, s)
      | Some t \<Rightarrow>
          if schedule_exhausted t then (None, put_task (t\<lparr>enabled := False, status := TaskCompleted, next_fire_at := None\<rparr>) s)
          else if \<not> enabled t \<or> status t = TaskPaused
          then let t = (let t = t\<lparr>enabled := True, status := TaskPending\<rparr> in t\<lparr>next_fire_at := next_fire cron t (clock s)\<rparr>)
               in (None, spawn_fire t False (start_timer cron t (put_task t s)))
          else (None, spawn_fire t False s))"

text \<open>\<open>start\<close>: overdue tasks fire at once, the others get a timer.\<close>

definition start_one :: "croniter \<Rightarrow> scheduled_task \<Rightarrow> scheduler \<Rightarrow> scheduler" where
  "start_one cron t s =
     (if \<exists>n. next_fire_at t = Some n \<and> n \<le> clock s then spawn_fire t True s
      else if schedule_type t = AtTime \<and> run_count t = 0 \<and> (\<exists>n. at_datetime t = Some n \<and> n \<le> clock s) then spawn_fire t False s
      else start_timer cron t s)"

definition start_scheduler :: "croniter \<Rightarrow> scheduler \<Rightarrow> scheduler" where
  "start_scheduler cron s = fold (start_one cron) (filter enabled (task_rows s)) s"

section \<open>A firing\<close>

definition set_fire :: "firing \<Rightarrow> scheduler \<Rightarrow> scheduler" where
  "set_fire f s = s\<lparr>firings := map (\<lambda>x. if fire_id x = fire_id f then f else x) (firings s)\<rparr>"

text \<open>The end of \<open>_fire_task\<close>, and the callback of a detached firing.\<close>

definition discard_fire :: "nat \<Rightarrow> scheduler \<Rightarrow> scheduler" where
  "discard_fire i s =
     (let remaining = (case pending_fire_counts s i of None \<Rightarrow> 1 | Some n \<Rightarrow> n) - 1 in
      if remaining > 0 then s\<lparr>pending_fire_counts := (pending_fire_counts s)(i \<mapsto> remaining)\<rparr>
      else
        let s = s\<lparr>pending_fire_counts := (pending_fire_counts s)(i := None)\<rparr>
        in if i \<notin> set (firing_ids s) then s\<lparr>fire_versions := (fire_versions s)(i := None)\<rparr> else s)"

text \<open>What waits for a firing goes on: the timer loop reloads its row, a detached firing is discarded.\<close>

definition leave_fire :: "croniter \<Rightarrow> firing \<Rightarrow> scheduler \<Rightarrow> scheduler" where
  "leave_fire cron f s =
     (let s = s\<lparr>firings := filter (\<lambda>x. fire_id x \<noteq> fire_id f) (firings s),
                timer_tasks := map (\<lambda>t. if timer_phase t = InFire (fire_id f) then t\<lparr>timer_phase := Reloading\<rparr> else t) (timer_tasks s)\<rparr>;
          s = (if restarts f \<and> \<not> fire_cancelled f then
                 case get_task (slug (fire_task f)) s of
                   None \<Rightarrow> s
                 | Some t \<Rightarrow> if enabled t \<and> schedule_type t \<noteq> AtTime then start_timer cron t s else s
               else s)
      in if detached f then discard_fire (st_id (fire_task f)) s else s)"

definition end_fire :: "croniter \<Rightarrow> firing \<Rightarrow> scheduler \<Rightarrow> scheduler" where
  "end_fire cron f s =
     (let i = st_id (fire_task f);
          s = s\<lparr>firing_ids := removeAll i (firing_ids s)\<rparr>;
          s = (if pending_fire_counts s i = None then s\<lparr>fire_versions := (fire_versions s)(i := None)\<rparr> else s)
      in leave_fire cron f s)"

text \<open>The checks of \<open>_fire_task\<close> before the first wait.\<close>

definition enter_fire :: "croniter \<Rightarrow> firing \<Rightarrow> scheduler \<Rightarrow> scheduler" where
  "enter_fire cron f s =
     (let i = st_id (fire_task f) in
      if version_of i s \<noteq> fire_version f \<or> i \<in> set (firing_ids s) then leave_fire cron f s
      else set_fire (f\<lparr>fire_phase := Claiming\<rparr>) (s\<lparr>firing_ids := i # firing_ids s\<rparr>))"

definition claim :: "croniter \<Rightarrow> firing \<Rightarrow> scheduler \<Rightarrow> scheduler" where
  "claim cron f s =
     (case get_task_by_id (st_id (fire_task f)) s of
        None \<Rightarrow> end_fire cron f s
      | Some t \<Rightarrow>
          if \<not> enabled t \<or> schedule_exhausted t then end_fire cron f s
          else set_fire (f\<lparr>fire_phase := Routing\<rparr>) (put_task (t\<lparr>status := TaskRunning, last_run_at := Some (clock s)\<rparr>) s))"

datatype route = NoAgent string | AgentBusy | AgentReady

definition fresh_version :: "firing \<Rightarrow> scheduler \<Rightarrow> bool" where
  "fresh_version f s \<longleftrightarrow> version_of (st_id (fire_task f)) s = fire_version f"

definition route_fire :: "croniter \<Rightarrow> route \<Rightarrow> firing \<Rightarrow> scheduler \<Rightarrow> scheduler" where
  "route_fire cron r f s =
     (case r of
        NoAgent e \<Rightarrow> if fresh_version f s then set_fire (f\<lparr>fire_phase := Counting (Some e)\<rparr>) s else end_fire cron f s
      | AgentBusy \<Rightarrow> if \<not> fresh_version f s then end_fire cron f s
                     else if st_session (fire_task f) \<noteq> None then set_fire (f\<lparr>fire_phase := Skipping\<rparr>) s
                     else set_fire (f\<lparr>fire_phase := Dispatching\<rparr>) (s\<lparr>attempts := attempts s @ [(st_id (fire_task f), stale f)]\<rparr>)
      | AgentReady \<Rightarrow> if \<not> fresh_version f s then end_fire cron f s
                      else set_fire (f\<lparr>fire_phase := Dispatching\<rparr>) (s\<lparr>attempts := attempts s @ [(st_id (fire_task f), stale f)]\<rparr>))"

datatype dispatch_result = Delivered string | QuestionOpen | DispatchError string

definition dispatch_fire :: "dispatch_result \<Rightarrow> firing \<Rightarrow> scheduler \<Rightarrow> scheduler" where
  "dispatch_fire r f s =
     (case r of
        Delivered sid \<Rightarrow> set_fire (f\<lparr>fire_phase := Stamping sid\<rparr>) (s\<lparr>delivered := delivered s @ [st_id (fire_task f)]\<rparr>)
      | QuestionOpen \<Rightarrow> set_fire (f\<lparr>fire_phase := Skipping\<rparr>) s
      | DispatchError e \<Rightarrow> set_fire (f\<lparr>fire_phase := Counting (Some e)\<rparr>) s)"

definition reschedule_without_firing :: "croniter \<Rightarrow> firing \<Rightarrow> scheduler \<Rightarrow> scheduler" where
  "reschedule_without_firing cron f s =
     (case get_task_by_id (st_id (fire_task f)) s of
        None \<Rightarrow> s
      | Some t \<Rightarrow>
          if enabled t \<and> status t \<noteq> TaskPaused \<and> fresh_version f s
          then put_task (t\<lparr>status := TaskPending, next_fire_at := next_fire cron t (clock s)\<rparr>) s
          else s)"

definition skip_fire :: "croniter \<Rightarrow> firing \<Rightarrow> scheduler \<Rightarrow> scheduler" where
  "skip_fire cron f s = end_fire cron f (reschedule_without_firing cron f s)"

text \<open>The row after a run; a row that has been switched off in between only gets its statistics.\<close>

definition count_run :: "croniter \<Rightarrow> int \<Rightarrow> string option \<Rightarrow> scheduled_task \<Rightarrow> scheduled_task" where
  "count_run cron t0 err t =
     (let was_paused = (\<not> enabled t \<or> status t = TaskPaused);
          t = t\<lparr>run_count := run_count t + 1, last_error := err\<rparr> in
      if was_paused then t
      else
        let complete = (err = None \<and> schedule_exhausted t);
            t = t\<lparr>next_fire_at := (if complete then None else next_fire cron t t0)\<rparr> in
        if err \<noteq> None then t\<lparr>status := TaskFailed\<rparr>
        else if complete then t\<lparr>enabled := False, status := TaskCompleted\<rparr>
        else if schedule_type t = AtTime then t\<lparr>status := TaskCompleted\<rparr>
        else t\<lparr>status := TaskPending\<rparr>)"

definition count_fire :: "croniter \<Rightarrow> string option \<Rightarrow> firing \<Rightarrow> scheduler \<Rightarrow> scheduler" where
  "count_fire cron err f s =
     end_fire cron f
       (case get_task_by_id (st_id (fire_task f)) s of None \<Rightarrow> s | Some t \<Rightarrow> put_task (count_run cron (clock s) err t) s)"

definition mark_fire_cancelled :: "croniter \<Rightarrow> nat \<Rightarrow> scheduler \<Rightarrow> scheduler" where
  "mark_fire_cancelled cron i s =
     (case get_task_by_id i s of
        None \<Rightarrow> s
      | Some t \<Rightarrow>
          if status t = TaskRunning
          then put_task (t\<lparr>status := if enabled t then TaskPending else TaskPaused,
                           next_fire_at := if enabled t then next_fire cron t (clock s) else None\<rparr>) s
          else s)"

definition cancel_fire :: "croniter \<Rightarrow> firing \<Rightarrow> scheduler \<Rightarrow> scheduler" where
  "cancel_fire cron f s =
     (if fire_phase f = Waiting then leave_fire cron f s
      else end_fire cron f (mark_fire_cancelled cron (st_id (fire_task f)) s))"

section \<open>The timer loop\<close>

definition set_timer :: "timer_task \<Rightarrow> timer_phase \<Rightarrow> scheduler \<Rightarrow> scheduler" where
  "set_timer t p s = s\<lparr>timer_tasks := map (\<lambda>x. if timer_id x = timer_id t then x\<lparr>timer_phase := p\<rparr> else x) (timer_tasks s)\<rparr>"

definition wake_timer :: "timer_task \<Rightarrow> scheduler \<Rightarrow> scheduler" where
  "wake_timer t s =
     (let k = timer_for t; i = st_id k in
      if i \<in> set (firing_ids s) then set_timer t Reloading s
      else set_timer t (InFire (next_uid s))
             (s\<lparr>firings := firings s @ [new_firing k (version_of i s) Claiming False False (next_uid s)],
                firing_ids := i # firing_ids s, next_uid := next_uid s + 1\<rparr>))"

definition reload_timer :: "croniter \<Rightarrow> timer_task \<Rightarrow> scheduler \<Rightarrow> scheduler" where
  "reload_timer cron t s =
     (let s = s\<lparr>timer_tasks := filter (\<lambda>x. timer_id x \<noteq> timer_id t) (timer_tasks s)\<rparr> in
      case get_task (slug (timer_for t)) s of
        None \<Rightarrow> s\<lparr>timers := AList.delete (slug (timer_for t)) (timers s)\<rparr>
      | Some k \<Rightarrow>
          if \<not> enabled k \<or> schedule_exhausted k \<or> schedule_type k = AtTime
          then s\<lparr>timers := AList.delete (slug k) (timers s)\<rparr>
          else sleep_timer cron (timer_id t) k s)"

section \<open>Steps\<close>

definition stop_scheduler :: "scheduler \<Rightarrow> scheduler" where
  "stop_scheduler s =
     s\<lparr>timers := [], timer_tasks := [], firings := map (\<lambda>f. f\<lparr>fire_cancelled := True\<rparr>) (firings s)\<rparr>"

datatype scheduler_event = Administration | Update task_update | Startup | Shutdown | Tick | Wake | Reload | FireStep | CancelFire

definition may_step :: "firing \<Rightarrow> scheduler \<Rightarrow> bool" where
  "may_step f s \<longleftrightarrow> f \<in> set (firings s) \<and> \<not> fire_cancelled f"

inductive scheduler_step :: "croniter \<Rightarrow> routing_env \<Rightarrow> scheduler_event \<Rightarrow> scheduler \<Rightarrow> scheduler \<Rightarrow> bool" for cron e where
  do_create: "scheduler_step cron e Administration s (snd (create_task cron e b s))"
| do_update: "scheduler_step cron e (Update u) s (snd (apply_update cron e sl u s))"
| do_remove: "scheduler_step cron e Administration s (remove_task sl s)"
| do_pause: "scheduler_step cron e Administration s (snd (pause_task sl s))"
| do_resume: "scheduler_step cron e Administration s (snd (resume_task cron sl s))"
| do_trigger: "scheduler_step cron e Administration s (snd (trigger_task cron sl s))"
| do_start: "firings s = [] \<Longrightarrow> timer_tasks s = [] \<Longrightarrow> scheduler_step cron e Startup s (start_scheduler cron s)"
| do_stop: "scheduler_step cron e Shutdown s (stop_scheduler s)"
| do_tick: "clock s \<le> t \<Longrightarrow> scheduler_step cron e Tick s (s\<lparr>clock := t\<rparr>)"
| do_wake: "t \<in> set (timer_tasks s) \<Longrightarrow> timer_phase t = Sleeping due \<Longrightarrow> due \<le> clock s \<Longrightarrow> scheduler_step cron e Wake s (wake_timer t s)"
| do_reload: "t \<in> set (timer_tasks s) \<Longrightarrow> timer_phase t = Reloading \<Longrightarrow> scheduler_step cron e Reload s (reload_timer cron t s)"
| do_enter: "may_step f s \<Longrightarrow> fire_phase f = Waiting \<Longrightarrow> scheduler_step cron e FireStep s (enter_fire cron f s)"
| do_claim: "may_step f s \<Longrightarrow> fire_phase f = Claiming \<Longrightarrow> scheduler_step cron e FireStep s (claim cron f s)"
| do_route: "may_step f s \<Longrightarrow> fire_phase f = Routing \<Longrightarrow> scheduler_step cron e FireStep s (route_fire cron r f s)"
| do_dispatch: "may_step f s \<Longrightarrow> fire_phase f = Dispatching \<Longrightarrow> scheduler_step cron e FireStep s (dispatch_fire d f s)"
| do_stamp: "may_step f s \<Longrightarrow> fire_phase f = Stamping sid \<Longrightarrow> scheduler_step cron e FireStep s (set_fire (f\<lparr>fire_phase := Counting None\<rparr>) s)"
| do_skip: "may_step f s \<Longrightarrow> fire_phase f = Skipping \<Longrightarrow> scheduler_step cron e FireStep s (skip_fire cron f s)"
| do_count: "may_step f s \<Longrightarrow> fire_phase f = Counting err \<Longrightarrow> scheduler_step cron e FireStep s (count_fire cron err f s)"
| do_cancel: "f \<in> set (firings s) \<Longrightarrow> fire_cancelled f \<Longrightarrow> scheduler_step cron e CancelFire s (cancel_fire cron f s)"

definition scheduler_move :: "(scheduler_event \<Rightarrow> scheduler \<Rightarrow> bool) \<Rightarrow> croniter \<Rightarrow> routing_env \<Rightarrow> scheduler \<Rightarrow> scheduler \<Rightarrow> bool" where
  "scheduler_move P cron e s s' \<longleftrightarrow> (\<exists>v. P v s \<and> scheduler_step cron e v s s')"

definition new_scheduler :: "int \<Rightarrow> scheduler" where
  "new_scheduler t = \<lparr>task_rows = [], timers = [], timer_tasks = [], firings = [], firing_ids = [], fire_versions = Map.empty,
     pending_fire_counts = Map.empty, clock = t, next_uid = 0, attempts = [], delivered = []\<rparr>"

end
