(* ===== verification/SchedulerProps.thy ===== *)
theory SchedulerProps
  imports Scheduler
begin

text \<open>
  What the scheduler guarantees: one firing per task at a time, no dispatch by a firing that an
  administrative operation has invalidated, and, as long as such operations do not hit a firing of a timer
  loop, no more deliveries than the limit of the task allows. The examples show the cases outside.
\<close>

section \<open>Frames\<close>

text \<open>What the invariant sees of a firing, and of the scheduler.\<close>

record fire_key =
  k_id :: nat
  k_task :: nat
  k_version :: nat
  k_waits :: bool
  k_detached :: bool
  k_stale :: bool

definition key :: "firing \<Rightarrow> fire_key" where
  "key f = \<lparr>k_id = fire_id f, k_task = st_id (fire_task f), k_version = fire_version f, k_waits = (fire_phase f = Waiting),
     k_detached = detached f, k_stale = stale f\<rparr>"

type_synonym core_part = "fire_key list \<times> nat set \<times> (nat \<Rightarrow> nat option) \<times> (nat \<Rightarrow> nat option)"

definition core :: "scheduler \<Rightarrow> core_part" where
  "core s = (map key (firings s), set (firing_ids s), fire_versions s, pending_fire_counts s)"

text \<open>The invariant on these parts: firings, ids that fire, versions and counts of detached firings.\<close>

definition or_zero :: "nat option \<Rightarrow> nat" where
  "or_zero v = (case v of None \<Rightarrow> 0 | Some x \<Rightarrow> x)"

definition detached_of :: "nat \<Rightarrow> fire_key list \<Rightarrow> nat" where
  "detached_of i ks = length (filter (\<lambda>k. k_detached k \<and> k_task k = i) ks)"

definition active :: "fire_key list \<Rightarrow> nat list" where
  "active ks = map k_task (filter (\<lambda>k. \<not> k_waits k) ks)"

fun keys_inv :: "core_part \<Rightarrow> bool" where
  "keys_inv (ks, ids, vs, ps) \<longleftrightarrow>
     distinct (map k_id ks) \<and> distinct (active ks) \<and> ids = set (active ks) \<and>
     (\<forall>k \<in> set ks. k_waits k \<longrightarrow> k_detached k) \<and>
     (\<forall>i. ps i = (if detached_of i ks = 0 then None else Some (detached_of i ks))) \<and>
     (\<forall>k \<in> set ks. if k_stale k then k_version k < or_zero (vs (k_task k)) else k_version k = or_zero (vs (k_task k)))"

declare keys_inv.simps [simp del]

lemma core_simps [simp]:
  "core (s\<lparr>task_rows := r\<rparr>) = core s" "core (s\<lparr>timers := t\<rparr>) = core s" "core (s\<lparr>timer_tasks := tt\<rparr>) = core s" "core (s\<lparr>clock := c\<rparr>) = core s"
  "core (s\<lparr>next_uid := n\<rparr>) = core s" "core (s\<lparr>attempts := a\<rparr>) = core s" "core (s\<lparr>delivered := d\<rparr>) = core s"
  by (simp_all add: core_def)

text \<open>What the timers and the rows do not touch.\<close>

definition fire_part where
  "fire_part s = (core s, attempts s, delivered s)"

lemma fire_part_core: "fire_part s = fire_part s' \<Longrightarrow> core s = core s'"
  by (simp add: fire_part_def)

lemma cancel_timer_part [simp]: "fire_part (cancel_timer sl s) = fire_part s" "next_uid (cancel_timer sl s) = next_uid s"
  "task_rows (cancel_timer sl s) = task_rows s" "clock (cancel_timer sl s) = clock s"
  "map fire_id (firings (cancel_timer sl s)) = map fire_id (firings s)"
  by (simp_all add: cancel_timer_def cancel_timer_task_def fire_part_def core_def key_def comp_def split: option.split)

lemma sleep_timer_part [simp]: "fire_part (sleep_timer cron i t s) = fire_part s" "next_uid (sleep_timer cron i t s) = next_uid s"
  "task_rows (sleep_timer cron i t s) = task_rows s"
  by (simp_all add: sleep_timer_def fire_part_def split: option.split)

lemma start_timer_part [simp]: "fire_part (start_timer cron t s) = fire_part s" "next_uid (start_timer cron t s) = next_uid s + 1"
  "task_rows (start_timer cron t s) = task_rows s"
proof -
  have "fire_part (s\<lparr>next_uid := n, timers := x\<rparr>) = fire_part s" for s :: scheduler and n x by (simp add: fire_part_def)
  then show "fire_part (start_timer cron t s) = fire_part s" "next_uid (start_timer cron t s) = next_uid s + 1"
    "task_rows (start_timer cron t s) = task_rows s"
    by (simp_all add: start_timer_def Let_def)
qed

lemma start_if_enabled_part [simp]: "fire_part (start_if_enabled cron t s) = fire_part s" "next_uid s \<le> next_uid (start_if_enabled cron t s)"
  "task_rows (start_if_enabled cron t s) = task_rows s"
  by (simp_all add: start_if_enabled_def)

lemma put_task_part [simp]: "fire_part (put_task t s) = fire_part s" "next_uid (put_task t s) = next_uid s"
  "fire_part (s\<lparr>task_rows := r\<rparr>) = fire_part s" "fire_part (s\<lparr>next_uid := n\<rparr>) = fire_part s" "fire_part (s\<lparr>clock := c\<rparr>) = fire_part s"
  "fire_part (s\<lparr>timer_tasks := tt\<rparr>) = fire_part s" "fire_part (s\<lparr>timers := tm\<rparr>) = fire_part s"
  by (simp_all add: put_task_def fire_part_def)

lemma reschedule_part [simp]:
  "fire_part (reschedule_without_firing cron f s) = fire_part s" "next_uid (reschedule_without_firing cron f s) = next_uid s"
  "fire_part (mark_fire_cancelled cron i s) = fire_part s" "next_uid (mark_fire_cancelled cron i s) = next_uid s"
  by (simp_all add: reschedule_without_firing_def mark_fire_cancelled_def split: option.split)

section \<open>The invariant of the firings\<close>

definition fire_inv :: "scheduler \<Rightarrow> bool" where
  "fire_inv s \<longleftrightarrow> keys_inv (core s) \<and> (\<forall>k \<in> set (fst (core s)). k_id k < next_uid s) \<and> list_all (\<lambda>(i, st). \<not> st) (attempts s)"

lemma fire_inv_frame: "fire_inv s \<Longrightarrow> fire_part s' = fire_part s \<Longrightarrow> next_uid s \<le> next_uid s' \<Longrightarrow> fire_inv s'"
  by (auto simp: fire_inv_def fire_part_def)

lemma detached_of_simps [simp]:
  "detached_of i [] = 0" "detached_of i (k # ks) = (if k_detached k \<and> k_task k = i then 1 else 0) + detached_of i ks"
  "detached_of i (ks @ ls) = detached_of i ks + detached_of i ls"
  by (simp_all add: detached_of_def)

lemma active_simps [simp]: "active [] = []" "active (k # ks) = (if k_waits k then [] else [k_task k]) @ active ks" "active (ks @ ls) = active ks @ active ls"
  by (simp_all add: active_def)

lemma active_set: "set (active ks) = {k_task k |k. k \<in> set ks \<and> \<not> k_waits k}"
  by (auto simp: active_def)

lemma detached_pos: "k \<in> set ks \<Longrightarrow> k_detached k \<Longrightarrow> detached_of (k_task k) ks > 0"
  by (auto simp: detached_of_def length_greater_0_conv filter_empty_conv)

lemma key_known:
  assumes "keys_inv (ks, ids, vs, ps)" "k \<in> set ks"
  shows "k_task k \<in> ids \<or> ps (k_task k) \<noteq> None"
  using assms detached_pos [OF assms(2)] by (cases "k_waits k") (auto simp: keys_inv.simps active_set)

text \<open>An operation invalidates the firings of a task.\<close>

lemma stale_keys:
  assumes "keys_inv (ks, ids, vs, ps)"
  shows "keys_inv (map (\<lambda>k. if k_task k = i then k\<lparr>k_stale := True\<rparr> else k) ks, ids,
    (if i \<notin> ids \<and> ps i = None then vs(i := None) else vs(i \<mapsto> or_zero (vs i) + 1)), ps)" (is "keys_inv (map ?f ks, ids, ?vs, ps)")
proof -
  have same: "k_id (?f k) = k_id k" "k_task (?f k) = k_task k" "k_version (?f k) = k_version k" "k_waits (?f k) = k_waits k"
    "k_detached (?f k) = k_detached k" "k_stale (?f k) = (k_stale k \<or> k_task k = i)" for k by auto
  have a: "active (map ?f ks) = active ks" by (induction ks) auto
  have d: "detached_of j (map ?f ks) = detached_of j ks" for j by (induction ks) auto
  have m: "map k_id (map ?f ks) = map k_id ks" by simp
  have v: "if k_stale (?f k) then k_version (?f k) < or_zero (?vs (k_task (?f k))) else k_version (?f k) = or_zero (?vs (k_task (?f k)))"
    if "k \<in> set ks" for k
  proof -
    have "if k_stale k then k_version k < or_zero (vs (k_task k)) else k_version k = or_zero (vs (k_task k))" using assms that by (simp add: keys_inv.simps)
    moreover have "\<not> (i \<notin> ids \<and> ps i = None)" if "k_task k = i" using key_known [OF assms \<open>k \<in> set ks\<close>] that by auto
    ultimately show ?thesis unfolding same by (auto simp: or_zero_def split: if_splits)
  qed
  have "\<forall>x \<in> set (map ?f ks). if k_stale x then k_version x < or_zero (?vs (k_task x)) else k_version x = or_zero (?vs (k_task x))"
    unfolding set_map using v by blast
  moreover have "\<forall>x \<in> set (map ?f ks). k_waits x \<longrightarrow> k_detached x" using assms by (auto simp: keys_inv.simps)
  ultimately show ?thesis using assms unfolding keys_inv.simps a d m by blast
qed

text \<open>A firing is added, detached or by a timer.\<close>

lemma spawn_keys:
  assumes "keys_inv (ks, ids, vs, ps)" "\<forall>k \<in> set ks. k_id k < n"
  shows "keys_inv (ks @ [\<lparr>k_id = n, k_task = i, k_version = or_zero (vs i), k_waits = True, k_detached = True, k_stale = False\<rparr>], ids, vs,
    ps(i \<mapsto> or_zero (ps i) + 1))"
  using assms by (auto simp: keys_inv.simps or_zero_def)

lemma wake_keys:
  assumes "keys_inv (ks, ids, vs, ps)" "\<forall>k \<in> set ks. k_id k < n" "i \<notin> ids"
  shows "keys_inv (ks @ [\<lparr>k_id = n, k_task = i, k_version = or_zero (vs i), k_waits = False, k_detached = False, k_stale = False\<rparr>],
    insert i ids, vs, ps)"
  using assms by (auto simp: keys_inv.simps)

text \<open>A waiting firing starts.\<close>

lemma enter_keys:
  assumes "keys_inv (xs @ k # ys, ids, vs, ps)" "k_waits k" "k_task k \<notin> ids"
  shows "keys_inv (xs @ k\<lparr>k_waits := False\<rparr> # ys, insert (k_task k) ids, vs, ps)"
  using assms by (auto simp: keys_inv.simps)

text \<open>A firing is gone; its task may lose its version when no firing of it is left.\<close>

lemma no_firing_left:
  assumes "keys_inv (xs @ k # ys, ids, vs, ps)" "x \<in> set (xs @ ys)" "detached_of (k_task k) (xs @ ys) = 0" "k_task k \<notin> set (active (xs @ ys))"
  shows "k_task x \<noteq> k_task k"
  using assms detached_pos [of x "xs @ ys"] by (cases "k_waits x") (auto simp: keys_inv.simps active_set)

lemma remove_keys:
  assumes "keys_inv (xs @ k # ys, ids, vs, ps)" "ids' = set (active (xs @ ys))"
    and "ps' = ps(k_task k := (if detached_of (k_task k) (xs @ ys) = 0 then None else Some (detached_of (k_task k) (xs @ ys))))"
    and "vs' = vs \<or> vs' = vs(k_task k := None) \<and> detached_of (k_task k) (xs @ ys) = 0 \<and> k_task k \<notin> set (active (xs @ ys))"
  shows "keys_inv (xs @ ys, ids', vs', ps')"
proof -
  have v: "vs' (k_task x) = vs (k_task x)" if "x \<in> set (xs @ ys)" for x
    using assms(4) no_firing_left [OF assms(1) that] by auto
  have "\<forall>x \<in> set (xs @ ys). if k_stale x then k_version x < or_zero (vs (k_task x)) else k_version x = or_zero (vs (k_task x))"
    using assms(1) by (simp add: keys_inv.simps)
  then have "\<forall>x \<in> set (xs @ ys). if k_stale x then k_version x < or_zero (vs' (k_task x)) else k_version x = or_zero (vs' (k_task x))"
    by (simp add: v)
  moreover have "\<forall>i. ps' i = (if detached_of i (xs @ ys) = 0 then None else Some (detached_of i (xs @ ys)))"
    using assms(1,3) by (simp add: keys_inv.simps)
  ultimately show ?thesis using assms(1,2) by (auto simp: keys_inv.simps)
qed

section \<open>The operations\<close>

lemma version_or_zero: "version_of i s = or_zero (fire_versions s i)"
  by (simp add: version_of_def or_zero_def)

lemma invalidate_inv: "fire_inv s \<Longrightarrow> fire_inv (invalidate_fire i s)"
proof -
  assume inv: "fire_inv s"
  have "core (invalidate_fire i s) = (map (\<lambda>k. if k_task k = i then k\<lparr>k_stale := True\<rparr> else k) (map key (firings s)), set (firing_ids s),
      (if i \<notin> set (firing_ids s) \<and> pending_fire_counts s i = None then (fire_versions s)(i := None)
       else (fire_versions s)(i \<mapsto> or_zero (fire_versions s i) + 1)), pending_fire_counts s)"
    by (auto simp: invalidate_fire_def core_def Let_def key_def version_or_zero)
  then show ?thesis using inv stale_keys [of "map key (firings s)" "set (firing_ids s)" "fire_versions s" "pending_fire_counts s" i]
    by (auto simp: fire_inv_def core_def invalidate_fire_def Let_def)
qed

lemma spawn_inv: "fire_inv s \<Longrightarrow> fire_inv (spawn_fire t r s)"
proof -
  assume inv: "fire_inv s"
  have "core (spawn_fire t r s) = (map key (firings s) @ [\<lparr>k_id = next_uid s, k_task = st_id t, k_version = or_zero (fire_versions s (st_id t)),
      k_waits = True, k_detached = True, k_stale = False\<rparr>], set (firing_ids s), fire_versions s,
      (pending_fire_counts s)(st_id t \<mapsto> or_zero (pending_fire_counts s (st_id t)) + 1))"
    by (simp add: spawn_fire_def core_def key_def new_firing_def version_or_zero or_zero_def)
  then show ?thesis using inv spawn_keys [of "map key (firings s)" "set (firing_ids s)" "fire_versions s" "pending_fire_counts s" "next_uid s" "st_id t"]
    by (auto simp: fire_inv_def core_def spawn_fire_def less_Suc_eq)
qed

lemma wake_inv: "fire_inv s \<Longrightarrow> fire_inv (wake_timer t s)"
proof (cases "st_id (timer_for t) \<in> set (firing_ids s)")
  case True
  assume "fire_inv s"
  then show ?thesis using True fire_inv_frame [of s] by (simp add: wake_timer_def Let_def set_timer_def)
next
  case False
  assume inv: "fire_inv s"
  have "core (wake_timer t s) = (map key (firings s) @ [\<lparr>k_id = next_uid s, k_task = st_id (timer_for t),
      k_version = or_zero (fire_versions s (st_id (timer_for t))), k_waits = False, k_detached = False, k_stale = False\<rparr>],
      insert (st_id (timer_for t)) (set (firing_ids s)), fire_versions s, pending_fire_counts s)"
    using False by (simp add: wake_timer_def Let_def set_timer_def core_def key_def new_firing_def version_or_zero)
  then show ?thesis
    using inv False wake_keys [of "map key (firings s)" "set (firing_ids s)" "fire_versions s" "pending_fire_counts s" "next_uid s" "st_id (timer_for t)"]
    by (auto simp: fire_inv_def core_def wake_timer_def set_timer_def Let_def less_Suc_eq)
qed

text \<open>A firing stands at one place of the list.\<close>

lemma fire_inv_distinct: "fire_inv s \<Longrightarrow> distinct (map fire_id (firings s))"
proof -
  assume "fire_inv s"
  then have "distinct (map k_id (map key (firings s)))" by (simp add: fire_inv_def core_def keys_inv.simps)
  moreover have "map k_id (map key (firings s)) = map fire_id (firings s)" by (simp add: key_def)
  ultimately show ?thesis by metis
qed

lemma firing_split:
  assumes "distinct (map fire_id (firings s))" "f \<in> set (firings s)"
  obtains xs ys where "firings s = xs @ f # ys" "\<forall>x \<in> set xs \<union> set ys. fire_id x \<noteq> fire_id f"
proof -
  obtain xs ys where s: "firings s = xs @ f # ys" using assms(2) by (meson split_list)
  then have "\<forall>x \<in> set xs \<union> set ys. fire_id x \<noteq> fire_id f" using assms(1) by (auto simp: image_iff)
  then show ?thesis by (rule that [OF s])
qed

lemma map_other: "\<forall>x \<in> set xs. fire_id x \<noteq> i \<Longrightarrow> map (\<lambda>x. if fire_id x = i then g else x) xs = xs"
  "\<forall>x \<in> set xs. fire_id x \<noteq> i \<Longrightarrow> filter (\<lambda>x. fire_id x \<noteq> i) xs = xs"
  by (induction xs) auto

lemma set_fire_core:
  assumes "fire_inv s" "f \<in> set (firings s)" "key f' = key f"
  shows "core (set_fire f' s) = core s"
proof -
  obtain xs ys where s: "firings s = xs @ f # ys" "\<forall>x \<in> set xs \<union> set ys. fire_id x \<noteq> fire_id f" 
    by (rule firing_split [OF fire_inv_distinct [OF assms(1)] assms(2)])
  moreover have "fire_id f' = fire_id f" using assms(3) by (simp add: key_def)
  ultimately show ?thesis using assms(3) by (simp add: set_fire_def core_def map_other)
qed

lemma set_fire_inv: "fire_inv s \<Longrightarrow> f \<in> set (firings s) \<Longrightarrow> key f' = key f \<Longrightarrow> fire_inv (set_fire f' s)"
  using set_fire_core [of s f f'] by (auto simp: fire_inv_def set_fire_def)

text \<open>The end of a firing, with and without the callback.\<close>

lemma leave_core:
  assumes "distinct (map fire_id (firings s))" "f \<in> set (firings s)"
  obtains xs ys where "map key (firings s) = xs @ key f # ys"
    "core (leave_fire cron f s) =
      (let i = st_id (fire_task f); n = or_zero (pending_fire_counts s i) - 1 in
       (xs @ ys, set (firing_ids s),
        (if detached f \<and> n = 0 \<and> i \<notin> set (firing_ids s) then (fire_versions s)(i := None) else fire_versions s),
        (if detached f then (pending_fire_counts s)(i := (if n = 0 then None else Some n)) else pending_fire_counts s)))"
    "attempts (leave_fire cron f s) = attempts s" "next_uid s \<le> next_uid (leave_fire cron f s)" "delivered (leave_fire cron f s) = delivered s"
    "task_rows (leave_fire cron f s) = task_rows s"
proof -
  obtain xs ys where s: "firings s = xs @ f # ys" "\<forall>x \<in> set xs \<union> set ys. fire_id x \<noteq> fire_id f" by (rule firing_split [OF assms])
  let ?i = "st_id (fire_task f)" and ?n = "or_zero (pending_fire_counts s (st_id (fire_task f))) - 1"
  let ?a = "s\<lparr>firings := filter (\<lambda>x. fire_id x \<noteq> fire_id f) (firings s),
      timer_tasks := map (\<lambda>t. if timer_phase t = InFire (fire_id f) then t\<lparr>timer_phase := Reloading\<rparr> else t) (timer_tasks s)\<rparr>"
  define b where "b = (if restarts f \<and> \<not> fire_cancelled f then
       case get_task (slug (fire_task f)) ?a of None \<Rightarrow> ?a
       | Some t \<Rightarrow> if enabled t \<and> schedule_type t \<noteq> AtTime then start_timer cron t ?a else ?a else ?a)"
  have b: "fire_part b = fire_part ?a" "next_uid s \<le> next_uid b" "task_rows b = task_rows s" by (auto simp: b_def split: option.split)
  have a: "core ?a = (map key (xs @ ys), set (firing_ids s), fire_versions s, pending_fire_counts s)"
    using s by (simp add: core_def map_other)
  have p: "pending_fire_counts b = pending_fire_counts s" "set (firing_ids b) = set (firing_ids s)" "fire_versions b = fire_versions s"
    "map key (firings b) = map key (xs @ ys)" "attempts b = attempts s" "delivered b = delivered s"
    using fire_part_core [OF b(1)] a b(1) by (simp_all add: core_def fire_part_def)
  have l: "leave_fire cron f s = (if detached f then discard_fire ?i b else b)" by (simp add: leave_fire_def Let_def b_def)
  have z: "(case pending_fire_counts b ?i of None \<Rightarrow> 1 | Some n \<Rightarrow> n) - 1 = ?n" using p(1) by (simp add: or_zero_def split: option.split)
  have d: "discard_fire ?i b = (if ?n > 0 then b\<lparr>pending_fire_counts := (pending_fire_counts b)(?i \<mapsto> ?n)\<rparr>
      else if ?i \<notin> set (firing_ids b) then b\<lparr>pending_fire_counts := (pending_fire_counts b)(?i := None), fire_versions := (fire_versions b)(?i := None)\<rparr>
      else b\<lparr>pending_fire_counts := (pending_fire_counts b)(?i := None)\<rparr>)"
    unfolding discard_fire_def z Let_def by simp
  show ?thesis
  proof
    show "map key (firings s) = map key xs @ key f # map key ys" using s by simp
    show "core (leave_fire cron f s) = (let i = st_id (fire_task f); n = or_zero (pending_fire_counts s i) - 1 in
       (map key xs @ map key ys, set (firing_ids s),
        (if detached f \<and> n = 0 \<and> i \<notin> set (firing_ids s) then (fire_versions s)(i := None) else fire_versions s),
        (if detached f then (pending_fire_counts s)(i := (if n = 0 then None else Some n)) else pending_fire_counts s)))"
      unfolding l d Let_def using p by (simp add: core_def)
  qed (use b(2,3) p in \<open>auto simp: l d\<close>)
qed

lemma pending_left:
  assumes "keys_inv (xs @ key f # ys, ids, vs, ps)"
  shows "or_zero (ps (st_id (fire_task f))) = detached_of (st_id (fire_task f)) (xs @ ys) + (if detached f then 1 else 0)"
  using assms by (simp add: keys_inv.simps or_zero_def key_def)

lemma pending_same:
  assumes "keys_inv (xs @ key f # ys, ids, vs, ps)" "\<not> detached f"
  shows "ps(st_id (fire_task f) := (if detached_of (st_id (fire_task f)) (xs @ ys) = 0 then None else Some (detached_of (st_id (fire_task f)) (xs @ ys)))) = ps"
  using assms by (auto simp: keys_inv.simps key_def fun_eq_iff)

lemma shrink_inv:
  assumes "fire_inv s" "map key (firings s) = xs @ k # ys" "core t = (xs @ ys, rest)" "keys_inv (core t)" "attempts t = attempts s"
    "next_uid s \<le> next_uid t"
  shows "fire_inv t"
proof -
  have "\<forall>k \<in> set (map key (firings s)). k_id k < next_uid s" using assms(1) by (simp add: fire_inv_def core_def)
  then have "\<forall>k \<in> set (xs @ k # ys). k_id k < next_uid s" unfolding assms(2) .
  then have "\<forall>k \<in> set (fst (core t)). k_id k < next_uid t" using assms(6) by (auto simp: assms(3) intro: less_le_trans)
  then show ?thesis using assms(1,4,5) by (simp add: fire_inv_def)
qed

lemma leave_inv:
  assumes "fire_inv s" "f \<in> set (firings s)" "fire_phase f = Waiting"
  shows "fire_inv (leave_fire cron f s)"
proof (rule leave_core [OF fire_inv_distinct [OF assms(1)] assms(2), of cron])
  fix xs ys
  let ?i = "st_id (fire_task f)"
  assume k: "map key (firings s) = xs @ key f # ys"
    and c: "core (leave_fire cron f s) = (let i = ?i; n = or_zero (pending_fire_counts s i) - 1 in
       (xs @ ys, set (firing_ids s),
        (if detached f \<and> n = 0 \<and> i \<notin> set (firing_ids s) then (fire_versions s)(i := None) else fire_versions s),
        (if detached f then (pending_fire_counts s)(i := (if n = 0 then None else Some n)) else pending_fire_counts s)))"
    and o: "attempts (leave_fire cron f s) = attempts s" "next_uid s \<le> next_uid (leave_fire cron f s)"
  have inv: "keys_inv (xs @ key f # ys, set (firing_ids s), fire_versions s, pending_fire_counts s)" using assms(1) k by (simp add: fire_inv_def core_def)
  have w: "k_waits (key f)" "k_task (key f) = ?i" using assms(3) by (simp_all add: key_def)
  then have d: "detached f" using inv by (auto simp: keys_inv.simps key_def)
  have a: "set (firing_ids s) = set (active (xs @ ys))" using inv w by (simp add: keys_inv.simps)
  have n: "or_zero (pending_fire_counts s ?i) - 1 = detached_of ?i (xs @ ys)" using pending_left [OF inv] d by simp
  have "keys_inv (core (leave_fire cron f s))" unfolding c Let_def n by (rule remove_keys [OF inv]) (use d a w in auto)
  then show ?thesis using shrink_inv [OF assms(1) k c [unfolded Let_def]] o by simp
qed

lemma end_inv:
  assumes "fire_inv s" "f \<in> set (firings s)" "fire_phase f \<noteq> Waiting"
  shows "fire_inv (end_fire cron f s)"
proof -
  let ?i = "st_id (fire_task f)"
  define u where "u = (let s = s\<lparr>firing_ids := removeAll ?i (firing_ids s)\<rparr> in
      if pending_fire_counts s ?i = None then s\<lparr>fire_versions := (fire_versions s)(?i := None)\<rparr> else s)"
  have e: "end_fire cron f s = leave_fire cron f u" by (simp add: end_fire_def u_def Let_def)
  have u: "firings u = firings s" "set (firing_ids u) = set (firing_ids s) - {?i}" "pending_fire_counts u = pending_fire_counts s"
    "fire_versions u = (if pending_fire_counts s ?i = None then (fire_versions s)(?i := None) else fire_versions s)"
    "attempts u = attempts s" "next_uid u = next_uid s" by (auto simp: u_def Let_def)
  show ?thesis
  proof (rule leave_core [of u f cron])
    show "distinct (map fire_id (firings u))" "f \<in> set (firings u)" using fire_inv_distinct [OF assms(1)] assms(2) u(1) by simp_all
    fix xs ys
    assume k: "map key (firings u) = xs @ key f # ys"
      and c: "core (leave_fire cron f u) = (let i = ?i; n = or_zero (pending_fire_counts u i) - 1 in
       (xs @ ys, set (firing_ids u),
        (if detached f \<and> n = 0 \<and> i \<notin> set (firing_ids u) then (fire_versions u)(i := None) else fire_versions u),
        (if detached f then (pending_fire_counts u)(i := (if n = 0 then None else Some n)) else pending_fire_counts u)))"
      and o: "attempts (leave_fire cron f u) = attempts u" "next_uid u \<le> next_uid (leave_fire cron f u)"
    have inv: "keys_inv (xs @ key f # ys, set (firing_ids s), fire_versions s, pending_fire_counts s)"
      using assms(1) k u(1) by (simp add: fire_inv_def core_def)
    have w: "\<not> k_waits (key f)" "k_task (key f) = ?i" using assms(3) by (simp_all add: key_def)
    have a: "set (firing_ids s) - {?i} = set (active (xs @ ys))" "?i \<notin> set (active (xs @ ys))" using inv w by (auto simp: keys_inv.simps)
    note n = pending_left [OF inv]
    have z: "pending_fire_counts s ?i = None \<longleftrightarrow> detached_of ?i (xs @ key f # ys) = 0" using inv by (simp add: keys_inv.simps)
    have "keys_inv (core (leave_fire cron f u))" unfolding c Let_def
    proof (rule remove_keys [OF inv])
      show "set (firing_ids u) = set (active (xs @ ys))" using u(2) a(1) by simp
      show "(if detached f then (pending_fire_counts u)(?i := (if or_zero (pending_fire_counts u ?i) - 1 = 0 then None
          else Some (or_zero (pending_fire_counts u ?i) - 1))) else pending_fire_counts u) =
        (pending_fire_counts s)(k_task (key f) := (if detached_of (k_task (key f)) (xs @ ys) = 0 then None else Some (detached_of (k_task (key f)) (xs @ ys))))"
        using n u(3) w(2) pending_same [OF inv, symmetric] by (cases "detached f") (simp_all only: if_True if_False, simp_all)
    qed (use n u z a w in \<open>auto simp: key_def\<close>)
    then show ?thesis using shrink_inv [OF assms(1) k [unfolded u(1)] c [unfolded Let_def]] o u e by simp
  qed
qed

lemma enter_inv:
  assumes "fire_inv s" "f \<in> set (firings s)" "fire_phase f = Waiting"
  shows "fire_inv (enter_fire cron f s)"
proof (cases "version_of (st_id (fire_task f)) s \<noteq> fire_version f \<or> st_id (fire_task f) \<in> set (firing_ids s)")
  case True
  then show ?thesis using leave_inv [OF assms] by (simp add: enter_fire_def)
next
  case False
  let ?t = "set_fire (f\<lparr>fire_phase := Claiming\<rparr>) (s\<lparr>firing_ids := st_id (fire_task f) # firing_ids s\<rparr>)"
  obtain xs ys where s: "firings s = xs @ f # ys" "\<forall>x \<in> set xs \<union> set ys. fire_id x \<noteq> fire_id f"
    by (rule firing_split [OF fire_inv_distinct [OF assms(1)] assms(2)])
  have k: "core ?t = (map key xs @ (key f)\<lparr>k_waits := False\<rparr> # map key ys, insert (k_task (key f)) (set (firing_ids s)), fire_versions s, pending_fire_counts s)"
    using s by (simp add: set_fire_def core_def map_other key_def)
  have inv: "keys_inv (map key xs @ key f # map key ys, set (firing_ids s), fire_versions s, pending_fire_counts s)"
    using assms(1) s(1) by (simp add: fire_inv_def core_def)
  have "k_waits (key f)" "k_task (key f) \<notin> set (firing_ids s)" using assms(3) False by (simp_all add: key_def)
  then have "keys_inv (core ?t)" unfolding k by (rule enter_keys [OF inv])
  moreover have "\<forall>k \<in> set (fst (core ?t)). k_id k < next_uid ?t" using assms(1) s(1) unfolding k by (auto simp: fire_inv_def core_def set_fire_def)
  ultimately show ?thesis using assms(1) False by (simp add: enter_fire_def Let_def fire_inv_def set_fire_def)
qed

lemma fresh_not_stale:
  assumes "fire_inv s" "f \<in> set (firings s)" "fresh_version f s"
  shows "\<not> stale f"
proof -
  have "key f \<in> set (map key (firings s))" using assms(2) by simp
  then have "if k_stale (key f) then k_version (key f) < or_zero (fire_versions s (k_task (key f))) else True"
    using assms(1) by (auto simp: fire_inv_def core_def keys_inv.simps split: if_splits)
  then show ?thesis using assms(3) by (auto simp: fresh_version_def version_or_zero key_def)
qed

lemma attempt_inv:
  assumes "fire_inv s" "f \<in> set (firings s)" "fresh_version f s"
  shows "fire_inv (s\<lparr>attempts := attempts s @ [(st_id (fire_task f), stale f)]\<rparr>)"
  using assms(1) fresh_not_stale [OF assms] by (simp add: fire_inv_def)

lemma phase_inv: "fire_inv s \<Longrightarrow> f \<in> set (firings s) \<Longrightarrow> fire_phase f \<noteq> Waiting \<Longrightarrow> p \<noteq> Waiting \<Longrightarrow> fire_inv (set_fire (f\<lparr>fire_phase := p\<rparr>) s)"
  by (erule set_fire_inv [of _ f]) (auto simp: key_def)

text \<open>Writing a row leaves the firings where they are.\<close>

lemma put_task_firings [simp]: "firings (put_task t s) = firings s"
  by (simp add: put_task_def)

lemma row_inv: "fire_inv s \<Longrightarrow> fire_inv (put_task t s)" "fire_inv s \<Longrightarrow> fire_inv (s\<lparr>task_rows := r\<rparr>)"
  by (auto intro: fire_inv_frame)

lemma reschedule_firings [simp]: "firings (reschedule_without_firing cron f s) = firings s" "firings (mark_fire_cancelled cron i s) = firings s"
  by (simp_all add: reschedule_without_firing_def mark_fire_cancelled_def split: option.split)

lemma fire_steps_inv:
  assumes "fire_inv s" "f \<in> set (firings s)" "fire_phase f \<noteq> Waiting"
  shows "fire_inv (claim cron f s)" "fire_inv (route_fire cron r f s)" "fire_inv (dispatch_fire d f s)" "fire_inv (skip_fire cron f s)"
    "fire_inv (count_fire cron err f s)" "fire_inv (end_fire cron f (mark_fire_cancelled cron i s))"
proof -
  show "fire_inv (claim cron f s)" using assms end_inv [OF assms] row_inv
    by (auto simp: claim_def intro!: phase_inv split: option.split)
  show "fire_inv (route_fire cron r f s)" using assms end_inv [OF assms] by (auto simp: route_fire_def intro!: phase_inv attempt_inv split: route.split)
  have "fire_inv (s\<lparr>delivered := x\<rparr>)" for x using assms(1) by (simp add: fire_inv_def)
  then show "fire_inv (dispatch_fire d f s)" using assms by (auto simp: dispatch_fire_def intro!: phase_inv split: dispatch_result.split)
  have "fire_inv (reschedule_without_firing cron f s)" "fire_inv (mark_fire_cancelled cron i s)" using assms(1) by (auto intro: fire_inv_frame)
  then show "fire_inv (skip_fire cron f s)" "fire_inv (end_fire cron f (mark_fire_cancelled cron i s))"
    using assms by (auto simp: skip_fire_def intro!: end_inv)
  show "fire_inv (count_fire cron err f s)" using assms row_inv by (auto simp: count_fire_def intro!: end_inv split: option.split)
qed

lemma admin_inv:
  assumes "fire_inv s"
  shows "fire_inv (cancel_timer sl s)" "fire_inv (start_timer cron t s)" "fire_inv (start_if_enabled cron t s)"
    "fire_inv (snd (update_locked cron t s))" "fire_inv (remove_task sl s)" "fire_inv (snd (pause_task sl s))"
    "fire_inv (snd (resume_task cron sl s))" "fire_inv (snd (trigger_task cron sl s))" "fire_inv (snd (add_task cron t s))"
    "fire_inv (reload_timer cron k s)" "fire_inv (stop_scheduler s)"
proof -
  have cancel: "fire_inv (cancel_timer sl u)" if "fire_inv u" for sl u using that by (auto intro: fire_inv_frame)
  have start: "fire_inv (start_timer cron t u)" "fire_inv (start_if_enabled cron t u)" if "fire_inv u" for t u
    using that by (auto intro: fire_inv_frame)
  show "fire_inv (cancel_timer sl s)" "fire_inv (start_timer cron t s)" "fire_inv (start_if_enabled cron t s)"
    using assms cancel start by auto
  show "fire_inv (snd (update_locked cron t s))" using assms by (auto simp: update_locked_def Let_def intro!: start row_inv cancel invalidate_inv)
  show "fire_inv (remove_task sl s)" using assms by (auto simp: remove_task_def Let_def intro!: row_inv cancel invalidate_inv split: option.split)
  show "fire_inv (snd (pause_task sl s))" using assms
    by (auto simp: pause_task_def Let_def intro!: row_inv cancel invalidate_inv split: option.split)
  show "fire_inv (snd (resume_task cron sl s))" using assms
    by (auto simp: resume_task_def Let_def intro!: start row_inv invalidate_inv split: option.split)
  show "fire_inv (snd (trigger_task cron sl s))" using assms
    by (auto simp: trigger_task_def Let_def intro!: spawn_inv start row_inv split: option.split)
  show "fire_inv (snd (add_task cron t s))" using assms by (auto simp: add_task_def Let_def intro!: start row_inv)
  have frame: "fire_inv (s\<lparr>timer_tasks := tt\<rparr>)" "fire_inv (s\<lparr>timer_tasks := tt, timers := tm\<rparr>)" for tt tm
    using assms by (auto intro: fire_inv_frame)
  have "fire_inv (sleep_timer cron i t u)" if "fire_inv u" for i t u using that by (auto intro: fire_inv_frame)
  then show "fire_inv (reload_timer cron k s)" using frame by (auto simp: reload_timer_def Let_def split: option.split)
  have "core (stop_scheduler s) = core s" by (simp add: stop_scheduler_def core_def key_def)
  then show "fire_inv (stop_scheduler s)" using assms by (simp add: fire_inv_def stop_scheduler_def)
qed

lemma start_scheduler_inv: "fire_inv s \<Longrightarrow> fire_inv (start_scheduler cron s)"
proof -
  have "fire_inv (fold (start_one cron) ts s)" if "fire_inv s" for ts using that
    by (induction ts arbitrary: s) (auto simp: start_one_def intro!: spawn_inv admin_inv)
  then show "fire_inv s \<Longrightarrow> fire_inv (start_scheduler cron s)" by (simp add: start_scheduler_def)
qed

lemma create_update_inv:
  assumes "fire_inv s"
  shows "fire_inv (snd (create_task cron e b s))" "fire_inv (snd (apply_update cron e sl u s))"
proof -
  have "fire_inv (s\<lparr>next_uid := Suc (next_uid s)\<rparr>)" using assms by (auto intro: fire_inv_frame)
  then show "fire_inv (snd (create_task cron e b s))" using assms by (auto simp: create_task_def Let_def case_prod_beta intro!: admin_inv)
  show "fire_inv (snd (apply_update cron e sl u s))" using assms
    by (auto simp: apply_update_def Let_def case_prod_beta intro!: admin_inv invalidate_inv split: option.split)
qed

lemma fire_inv_step: "scheduler_step cron e v s s' \<Longrightarrow> fire_inv s \<Longrightarrow> fire_inv s'"
proof (induction rule: scheduler_step.induct)
  case (do_cancel f s)
  then show ?case using leave_inv [of s f cron] fire_steps_inv(6) [of s f cron] by (auto simp: cancel_fire_def)
next
  case (do_tick s t)
  then show ?case by (auto intro: fire_inv_frame)
qed (auto simp: may_step_def intro: create_update_inv admin_inv start_scheduler_inv wake_inv enter_inv fire_steps_inv phase_inv)

interpretation scheduler_firings: reachable_invariant "scheduler_move P cron e" fire_inv "new_scheduler t" for P cron e t
proof unfold_locales
  show "fire_inv s'" if "fire_inv s" "scheduler_move P cron e s s'" for s s' using that fire_inv_step by (auto simp: scheduler_move_def)
  show "fire_inv (new_scheduler t)" by (simp add: fire_inv_def new_scheduler_def core_def keys_inv.simps)
qed

section \<open>Properties of the firings\<close>

text \<open>
  C8. A task never fires twice at the same time, and a firing that an administrative operation has
  overtaken sends nothing. In every reachable state, whatever was created, changed, paused, triggered,
  cancelled or restarted, the firings under way belong to different tasks, the set of firing ids lists
  exactly these tasks, and no dispatch was begun by a firing after a change, a pause, a resumption or the
  removal of its task.
\<close>

theorem fires_never_overlap:
  assumes "(scheduler_move P cron e)\<^sup>*\<^sup>* (new_scheduler t) s"
  shows "distinct (map (\<lambda>f. st_id (fire_task f)) (filter (\<lambda>f. fire_phase f \<noteq> Waiting) (firings s))) \<and>
    set (firing_ids s) = {st_id (fire_task f) |f. f \<in> set (firings s) \<and> fire_phase f \<noteq> Waiting} \<and>
    list_all (\<lambda>(i, overtaken). \<not> overtaken) (attempts s)"
proof -
  have a: "active (map key fs) = map (\<lambda>f. st_id (fire_task f)) (filter (\<lambda>f. fire_phase f \<noteq> Waiting) fs)" for fs
    by (induction fs) (auto simp: key_def)
  show ?thesis using scheduler_firings.reachable_inv [OF assms] by (auto simp: fire_inv_def core_def keys_inv.simps a)
qed

section \<open>The limit on runs\<close>

text \<open>A claimed firing holds a run of its task; one whose message is out still owes the count.\<close>

definition claimed :: "fire_phase \<Rightarrow> bool" where
  "claimed p \<longleftrightarrow> p \<noteq> Waiting \<and> p \<noteq> Claiming"

fun owes :: "fire_phase \<Rightarrow> bool" where
  "owes (Stamping sid) = True"
| "owes (Counting err) = True"
| "owes p = False"

definition phases :: "scheduler \<Rightarrow> (nat \<times> fire_phase) list" where
  "phases s = map (\<lambda>f. (st_id (fire_task f), fire_phase f)) (firings s)"

definition budgets :: "scheduler \<Rightarrow> (nat \<times> nat \<times> nat option) list" where
  "budgets s = map (\<lambda>t. (st_id t, run_count t, max_runs t)) (task_rows s)"

definition claims :: "(nat \<times> fire_phase) set \<Rightarrow> nat \<Rightarrow> bool" where
  "claims ps i \<longleftrightarrow> (\<exists>p. (i, p) \<in> ps \<and> claimed p)"

definition owed :: "(nat \<times> fire_phase) set \<Rightarrow> nat \<Rightarrow> bool" where
  "owed ps i \<longleftrightarrow> (\<exists>p. (i, p) \<in> ps \<and> owes p)"

definition budget_ok :: "(nat \<times> nat \<times> nat option) list \<Rightarrow> (nat \<times> fire_phase) set \<Rightarrow> nat list \<Rightarrow> bool" where
  "budget_ok bs ps ds \<longleftrightarrow> distinct (map fst bs) \<and>
     (\<forall>i n m. (i, n, m) \<in> set bs \<longrightarrow> (\<forall>k. m = Some k \<longrightarrow> n \<le> k \<and> (claims ps i \<longrightarrow> n < k)) \<and>
        count_list ds i \<le> n + (if owed ps i then 1 else 0))"

lemma budget_okD:
  assumes "budget_ok bs ps ds" "(i, n, m) \<in> set bs"
  shows "m = Some k \<Longrightarrow> n \<le> k" "m = Some k \<Longrightarrow> claims ps i \<Longrightarrow> n < k" "count_list ds i \<le> n + (if owed ps i then 1 else 0)"
  using assms unfolding budget_ok_def by blast+

lemma budget_okI:
  assumes "distinct (map fst bs)" "\<And>i n k. (i, n, Some k) \<in> set bs \<Longrightarrow> n \<le> k" "\<And>i n k. (i, n, Some k) \<in> set bs \<Longrightarrow> claims ps i \<Longrightarrow> n < k"
    "\<And>i n m. (i, n, m) \<in> set bs \<Longrightarrow> count_list ds i \<le> n + (if owed ps i then 1 else 0)"
  shows "budget_ok bs ps ds"
  using assms unfolding budget_ok_def by blast

lemma budget_mono:
  assumes "budget_ok bs ps ds" "\<And>i. claims ps' i \<Longrightarrow> claims ps i" "\<And>i. owed ps i \<Longrightarrow> owed ps' i"
  shows "budget_ok bs ps' ds"
proof (rule budget_okI)
  show "count_list ds i \<le> n + (if owed ps' i then 1 else 0)" if "(i, n, m) \<in> set bs" for i n m
    using budget_okD(3) [OF assms(1) that] assms(3) [of i] by (auto split: if_splits)
qed (use assms(1) budget_okD(1,2) [OF assms(1)] assms(2) in \<open>auto simp: budget_ok_def\<close>)

lemma budget_subset: "budget_ok bs ps ds \<Longrightarrow> set bs' \<subseteq> set bs \<Longrightarrow> distinct (map fst bs') \<Longrightarrow> budget_ok bs' ps ds"
  by (rule budget_okI) (auto dest: budget_okD)

definition uids_ok :: "scheduler \<Rightarrow> bool" where
  "uids_ok s \<longleftrightarrow> (\<forall>t \<in> set (task_rows s). st_id t < next_uid s) \<and> (\<forall>(i, p) \<in> set (phases s). i < next_uid s) \<and>
     (\<forall>k \<in> set (timer_tasks s). st_id (timer_for k) < next_uid s) \<and> (\<forall>i \<in> set (delivered s). i < next_uid s)"

definition run_inv :: "scheduler \<Rightarrow> bool" where
  "run_inv s \<longleftrightarrow> budget_ok (budgets s) (set (phases s)) (delivered s) \<and> uids_ok s"

lemma owes_claimed: "owes p \<Longrightarrow> claimed p"
  by (cases p) (auto simp: claimed_def)

lemma run_part_simps [simp]:
  "phases (s\<lparr>timers := tm\<rparr>) = phases s" "phases (s\<lparr>timer_tasks := tt\<rparr>) = phases s" "phases (s\<lparr>next_uid := n\<rparr>) = phases s"
  "phases (s\<lparr>task_rows := r\<rparr>) = phases s" "phases (s\<lparr>delivered := d\<rparr>) = phases s" "phases (s\<lparr>attempts := a\<rparr>) = phases s"
  "phases (s\<lparr>clock := c\<rparr>) = phases s" "budgets (s\<lparr>clock := c\<rparr>) = budgets s" "budgets (s\<lparr>attempts := a\<rparr>) = budgets s"
  "budgets (s\<lparr>timers := tm\<rparr>) = budgets s" "budgets (s\<lparr>timer_tasks := tt\<rparr>) = budgets s" "budgets (s\<lparr>next_uid := n\<rparr>) = budgets s"
  "budgets (s\<lparr>firings := f\<rparr>) = budgets s" "budgets (s\<lparr>delivered := d\<rparr>) = budgets s" "budgets (s\<lparr>firing_ids := x\<rparr>) = budgets s"
  by (simp_all add: phases_def budgets_def)

text \<open>What the timers do.\<close>

lemma cancel_timer_run [simp]: "phases (cancel_timer sl s) = phases s" "budgets (cancel_timer sl s) = budgets s" "delivered (cancel_timer sl s) = delivered s"
  by (auto simp: cancel_timer_def cancel_timer_task_def phases_def budgets_def split: option.split)

lemma cancel_timer_tasks: "k \<in> set (timer_tasks (cancel_timer sl s)) \<Longrightarrow> k \<in> set (timer_tasks s)"
  by (auto simp: cancel_timer_def cancel_timer_task_def split: option.splits)

lemma sleep_timer_run [simp]: "phases (sleep_timer cron i t s) = phases s" "budgets (sleep_timer cron i t s) = budgets s"
  "delivered (sleep_timer cron i t s) = delivered s"
  by (auto simp: sleep_timer_def phases_def budgets_def split: option.splits)

lemma sleep_timer_tasks: "k \<in> set (timer_tasks (sleep_timer cron i t s)) \<Longrightarrow> k \<in> set (timer_tasks s) \<or> timer_for k = t"
  by (auto simp: sleep_timer_def split: option.splits)

lemma start_timer_run [simp]: "phases (start_timer cron t s) = phases s" "budgets (start_timer cron t s) = budgets s"
  "delivered (start_timer cron t s) = delivered s"
  by (simp_all add: start_timer_def Let_def)

lemma start_timer_tasks: "k \<in> set (timer_tasks (start_timer cron t s)) \<Longrightarrow> k \<in> set (timer_tasks s) \<or> timer_for k = t"
  by (auto simp: start_timer_def Let_def dest!: sleep_timer_tasks cancel_timer_tasks)

lemma start_timer_inv: "run_inv s \<Longrightarrow> st_id t < next_uid s \<Longrightarrow> run_inv (start_timer cron t s)"
  using start_timer_tasks [of _ cron t s] by (fastforce simp: run_inv_def uids_ok_def)

lemma cancel_timer_inv: "run_inv s \<Longrightarrow> run_inv (cancel_timer sl s)"
  by (auto simp: run_inv_def uids_ok_def dest!: cancel_timer_tasks)

lemma start_enabled_inv: "run_inv s \<Longrightarrow> st_id t < next_uid s \<Longrightarrow> run_inv (start_if_enabled cron t s)"
  by (simp add: start_if_enabled_def start_timer_inv)

text \<open>What the administration does to rows and firings.\<close>

lemma invalidate_run [simp]: "run_inv (invalidate_fire i s) = run_inv s" "next_uid (invalidate_fire i s) = next_uid s"
  "get_task sl (invalidate_fire i s) = get_task sl s"
proof -
  have "phases (invalidate_fire i s) = phases s" "budgets (invalidate_fire i s) = budgets s" "delivered (invalidate_fire i s) = delivered s"
    "timer_tasks (invalidate_fire i s) = timer_tasks s" "task_rows (invalidate_fire i s) = task_rows s"
    by (auto simp: invalidate_fire_def Let_def phases_def budgets_def)
  moreover show "next_uid (invalidate_fire i s) = next_uid s" by (simp add: invalidate_fire_def Let_def)
  ultimately show "run_inv (invalidate_fire i s) = run_inv s" "get_task sl (invalidate_fire i s) = get_task sl s"
    by (simp_all add: run_inv_def uids_ok_def get_task_def)
qed

lemma spawn_run: "run_inv s \<Longrightarrow> st_id t < next_uid s \<Longrightarrow> run_inv (spawn_fire t r s)"
proof -
  assume a: "run_inv s" "st_id t < next_uid s"
  have p: "phases (spawn_fire t r s) = phases s @ [(st_id t, Waiting)]" "budgets (spawn_fire t r s) = budgets s" "delivered (spawn_fire t r s) = delivered s"
    by (simp_all add: spawn_fire_def phases_def budgets_def new_firing_def)
  have "budget_ok (budgets s) (set (phases s @ [(st_id t, Waiting)])) (delivered s)"
    by (rule budget_mono [of _ "set (phases s)"]) (use a in \<open>auto simp: run_inv_def claims_def owed_def claimed_def\<close>)
  then show ?thesis using a unfolding run_inv_def p uids_ok_def by (auto simp: spawn_fire_def less_Suc_eq)
qed

lemma get_task_row: "get_task sl s = Some t \<Longrightarrow> t \<in> set (task_rows s) \<and> slug t = sl"
  "get_task_by_id i s = Some t \<Longrightarrow> t \<in> set (task_rows s) \<and> st_id t = i"
  by (auto simp: get_task_def get_task_by_id_def find_Some_iff)

lemma row_uid: "run_inv s \<Longrightarrow> t \<in> set (task_rows s) \<Longrightarrow> st_id t < next_uid s"
  by (simp add: run_inv_def uids_ok_def)

lemma rows_distinct: "run_inv s \<Longrightarrow> t \<in> set (task_rows s) \<Longrightarrow> x \<in> set (task_rows s) \<Longrightarrow> st_id x = st_id t \<Longrightarrow> x = t"
proof -
  assume a: "run_inv s" "t \<in> set (task_rows s)" "x \<in> set (task_rows s)" "st_id x = st_id t"
  have "distinct (map st_id (task_rows s))" using a(1) by (simp add: run_inv_def budget_ok_def budgets_def comp_def)
  then show ?thesis using a(2-) by (metis distinct_map inj_onD)
qed

lemma put_budgets:
  assumes "run_inv s" "t \<in> set (task_rows s)" "st_id t' = st_id t" "run_count t' = run_count t" "max_runs t' = max_runs t"
  shows "run_inv (put_task t' s)"
proof -
  have "budgets (put_task t' s) = budgets s"
    using rows_distinct [OF assms(1,2)] assms(3-) by (auto simp: budgets_def put_task_def)
  then show ?thesis using assms(1,2,3) row_uid [OF assms(1,2)]
    by (auto simp: run_inv_def uids_ok_def put_task_def phases_def)
qed

lemma reschedule_keeps [simp]: "st_id (reschedule cron c t) = st_id t" "run_count (reschedule cron c t) = run_count t" "max_runs (reschedule cron c t) = max_runs t"
  by (simp_all add: reschedule_def)

lemma set_opt_keeps:
  "(\<And>a x. st_id (f a x) = st_id x) \<Longrightarrow> st_id (set_opt v f x) = st_id x"
  "(\<And>a x. run_count (f a x) = run_count x) \<Longrightarrow> run_count (set_opt v f x) = run_count x"
  "(\<And>a x. max_runs (f a x) = max_runs x) \<Longrightarrow> max_runs (set_opt v f x) = max_runs x" "set_opt None f x = x"
  by (simp_all add: set_opt_def split: option.split)

lemma merge_update_keeps: "st_id (merge_update b t) = st_id t" "run_count (merge_update b t) = run_count t"
  "up_max_runs b = None \<Longrightarrow> max_runs (merge_update b t) = max_runs t"
  by (simp_all add: merge_update_def Let_def set_opt_keeps)

lemma invalidate_rows [simp]: "task_rows (invalidate_fire i s) = task_rows s" "clock (invalidate_fire i s) = clock s"
  by (simp_all add: invalidate_fire_def Let_def)

lemma update_locked_run:
  assumes "run_inv s" "t \<in> set (task_rows s)" "st_id t' = st_id t" "run_count t' = run_count t" "max_runs t' = max_runs t"
  shows "run_inv (snd (update_locked cron t' s))"
proof -
  let ?s = "cancel_timer (slug t') (invalidate_fire (st_id t') s)"
  have "run_inv ?s" using assms(1) by (simp add: cancel_timer_inv)
  then have "run_inv (put_task k ?s)" if "st_id k = st_id t" "run_count k = run_count t" "max_runs k = max_runs t" for k
    by (rule put_budgets [of _ t]) (use assms(2) that in auto)
  moreover have "next_uid (put_task k ?s) = next_uid s" for k by simp
  ultimately show ?thesis using assms row_uid [OF assms(1,2)] by (auto simp: update_locked_def Let_def intro!: start_enabled_inv)
qed

lemma remove_rows_inv: "run_inv s \<Longrightarrow> run_inv (s\<lparr>task_rows := filter P (task_rows s)\<rparr>)"
proof -
  assume a: "run_inv s"
  have "budgets (s\<lparr>task_rows := filter P (task_rows s)\<rparr>) = map (\<lambda>t. (st_id t, run_count t, max_runs t)) (filter P (task_rows s))" by (simp add: budgets_def)
  moreover have "distinct (map st_id (filter P (task_rows s)))"
    using a by (simp add: run_inv_def budget_ok_def budgets_def comp_def distinct_map_filter)
  ultimately show ?thesis using a budget_subset [of "budgets s" _ _ "budgets (s\<lparr>task_rows := filter P (task_rows s)\<rparr>)"]
    by (auto simp: run_inv_def budgets_def uids_ok_def comp_def)
qed

lemma add_row_inv:
  assumes "run_inv s" "st_id t = next_uid s" "run_count t = 0"
  shows "run_inv (s\<lparr>next_uid := Suc (next_uid s), task_rows := task_rows s @ [t]\<rparr>)"
proof -
  have "st_id t \<notin> set (delivered s)" "\<And>p. (st_id t, p) \<notin> set (phases s)" "st_id t \<notin> set (map st_id (task_rows s))"
    using assms(1,2) by (auto simp: run_inv_def uids_ok_def)
  then show ?thesis using assms
    by (auto simp: run_inv_def budget_ok_def budgets_def uids_ok_def comp_def count_list_0_iff less_Suc_eq claims_def)
qed

lemma admin_run:
  assumes "run_inv s"
  shows "run_inv (remove_task sl s)" "run_inv (snd (pause_task sl s))" "run_inv (snd (resume_task cron sl s))"
    "run_inv (snd (trigger_task cron sl s))" "run_inv (snd (create_task cron e b s))"
proof -
  have inv: "run_inv (cancel_timer sl (invalidate_fire i s))" for i using assms by (simp add: cancel_timer_inv)
  have "run_inv ((cancel_timer sl u)\<lparr>task_rows := filter P (task_rows u)\<rparr>)" if "run_inv u" for u P
    using remove_rows_inv [OF cancel_timer_inv [OF that, of sl], of P] by simp
  then show "run_inv (remove_task sl s)" using assms by (auto simp: remove_task_def Let_def split: option.split)
  show "run_inv (snd (pause_task sl s))"
    using assms inv put_budgets [OF inv] by (auto simp: pause_task_def Let_def cancel_timer_inv dest!: get_task_row split: option.split)
  have res: "run_inv (put_task k s)" if "get_task sl s = Some t" "st_id k = st_id t" "run_count k = run_count t" "max_runs k = max_runs t" for k t
    using put_budgets [OF assms, of t k] that get_task_row(1) [of sl s t] by simp
  have inval: "run_inv (put_task k (invalidate_fire i s))" if "get_task sl s = Some t" "st_id k = st_id t" "run_count k = run_count t" "max_runs k = max_runs t" for k t i
    using put_budgets [of "invalidate_fire i s" t k] assms that get_task_row(1) [of sl s t] by simp
  have uid: "st_id t < next_uid s" if "get_task sl s = Some t" for t using row_uid [OF assms] get_task_row(1) [OF that] by simp
  show "run_inv (snd (resume_task cron sl s))" using assms inval uid
    by (auto simp: resume_task_def Let_def intro!: start_enabled_inv split: option.split)
  show "run_inv (snd (trigger_task cron sl s))" using assms res uid
    by (auto simp: trigger_task_def Let_def intro!: spawn_run start_timer_inv split: option.split intro: less_SucI)
  show "run_inv (snd (create_task cron e b s))" using assms add_row_inv [OF assms]
    by (auto simp: create_task_def add_task_def Let_def intro!: start_enabled_inv)
qed

lemma update_run:
  assumes "run_inv s" "up_max_runs u = None"
  shows "run_inv (snd (apply_update cron e sl u s))"
proof (cases "get_task sl s")
  case (Some t)
  let ?t = "merge_update u t"
  have t: "t \<in> set (task_rows s)" using get_task_row(1) [OF Some] by simp
  have "run_inv (cancel_timer sl (invalidate_fire (st_id t) s))" using assms(1) by (simp add: cancel_timer_inv)
  then show ?thesis using Some assms t update_locked_run [of _ t ?t] merge_update_keeps [of u t]
    by (auto simp: apply_update_def Let_def case_prod_beta intro!: cancel_timer_inv)
qed (simp add: apply_update_def assms)

text \<open>What the end of a firing does.\<close>

lemma sole_active:
  assumes "fire_inv s" "firings s = xs @ f # ys" "fire_phase f \<noteq> Waiting" "x \<in> set xs \<union> set ys" "st_id (fire_task x) = st_id (fire_task f)"
  shows "fire_phase x = Waiting"
proof -
  have "distinct (active (map key (firings s)))" using assms(1) by (simp add: fire_inv_def core_def keys_inv.simps)
  then show ?thesis using assms(2-) by (auto simp: active_set key_def)
qed

lemma discard_run [simp]: "phases (discard_fire i s) = phases s" "budgets (discard_fire i s) = budgets s" "delivered (discard_fire i s) = delivered s"
  "timer_tasks (discard_fire i s) = timer_tasks s" "task_rows (discard_fire i s) = task_rows s" "next_uid (discard_fire i s) = next_uid s"
  by (simp_all add: discard_fire_def Let_def phases_def budgets_def)

lemma leave_run:
  assumes "firings s = xs @ f # ys" "\<forall>x \<in> set xs \<union> set ys. fire_id x \<noteq> fire_id f" "uids_ok s"
    and "budget_ok (budgets s) (set (map (\<lambda>f. (st_id (fire_task f), fire_phase f)) (xs @ ys))) (delivered s)"
  shows "run_inv (leave_fire cron f s)"
proof -
  let ?a = "s\<lparr>firings := filter (\<lambda>x. fire_id x \<noteq> fire_id f) (firings s),
      timer_tasks := map (\<lambda>t. if timer_phase t = InFire (fire_id f) then t\<lparr>timer_phase := Reloading\<rparr> else t) (timer_tasks s)\<rparr>"
  have p: "phases ?a = map (\<lambda>f. (st_id (fire_task f), fire_phase f)) (xs @ ys)" using assms(1,2) by (simp add: phases_def map_other)
  then have a: "run_inv ?a" using assms by (auto simp: run_inv_def uids_ok_def phases_def [of s] budgets_def)
  have g: "get_task sl ?a = Some t \<Longrightarrow> st_id t < next_uid ?a" for sl t using row_uid [OF a] get_task_row(1) by blast
  have d: "run_inv (discard_fire i u) = run_inv u" for i u by (simp add: run_inv_def uids_ok_def)
  show ?thesis using a g start_timer_inv [OF a] by (auto simp: leave_fire_def Let_def d split: option.split)
qed

lemma end_run:
  assumes "firings s = xs @ f # ys" "\<forall>x \<in> set xs \<union> set ys. fire_id x \<noteq> fire_id f" "uids_ok s"
    and "budget_ok (budgets s) (set (map (\<lambda>f. (st_id (fire_task f), fire_phase f)) (xs @ ys))) (delivered s)"
  shows "run_inv (end_fire cron f s)"
proof -
  let ?i = "st_id (fire_task f)"
  define u where "u = (let s = s\<lparr>firing_ids := removeAll ?i (firing_ids s)\<rparr> in
      if pending_fire_counts s ?i = None then s\<lparr>fire_versions := (fire_versions s)(?i := None)\<rparr> else s)"
  have e: "end_fire cron f s = leave_fire cron f u" by (simp add: end_fire_def u_def Let_def)
  have "firings u = firings s" "budgets u = budgets s" "delivered u = delivered s" "uids_ok u = uids_ok s"
    by (auto simp: u_def Let_def uids_ok_def phases_def budgets_def)
  then show ?thesis unfolding e using leave_run [of u xs f ys cron] assms by simp
qed

lemma leave_quiet:
  assumes "run_inv s" "distinct (map fire_id (firings s))" "f \<in> set (firings s)" "\<not> owes (fire_phase f)"
  shows "run_inv (leave_fire cron f s)" "run_inv (end_fire cron f s)"
proof -
  obtain xs ys where s: "firings s = xs @ f # ys" "\<forall>x \<in> set xs \<union> set ys. fire_id x \<noteq> fire_id f" by (rule firing_split [OF assms(2,3)])
  have b: "budget_ok (budgets s) (set (map (\<lambda>f. (st_id (fire_task f), fire_phase f)) (xs @ ys))) (delivered s)"
    by (rule budget_mono [of _ "set (phases s)"]) (use assms(1,4) s(1) in \<open>auto simp: run_inv_def phases_def claims_def owed_def\<close>)
  show "run_inv (leave_fire cron f s)" "run_inv (end_fire cron f s)" using leave_run [OF s _ b] end_run [OF s _ b] assms(1) by (simp_all add: run_inv_def)
qed

lemma set_fire_phases:
  assumes "firings s = xs @ f # ys" "\<forall>x \<in> set xs \<union> set ys. fire_id x \<noteq> fire_id f"
  shows "set (phases (set_fire (f\<lparr>fire_phase := p\<rparr>) s)) = insert (st_id (fire_task f), p) (set (map (\<lambda>f. (st_id (fire_task f), fire_phase f)) (xs @ ys)))"
  using assms by (auto simp: phases_def set_fire_def map_other)

lemma set_fire_frame [simp]: "budgets (set_fire f s) = budgets s" "delivered (set_fire f s) = delivered s" "timer_tasks (set_fire f s) = timer_tasks s"
  "task_rows (set_fire f s) = task_rows s" "next_uid (set_fire f s) = next_uid s"
  by (simp_all add: set_fire_def budgets_def)

lemma set_fire_run:
  assumes "run_inv s" "firings s = xs @ f # ys" "\<forall>x \<in> set xs \<union> set ys. fire_id x \<noteq> fire_id f"
    and "budget_ok (budgets s) (insert (st_id (fire_task f), p) (set (map (\<lambda>f. (st_id (fire_task f), fire_phase f)) (xs @ ys)))) (delivered s)"
  shows "run_inv (set_fire (f\<lparr>fire_phase := p\<rparr>) s)"
proof -
  have "uids_ok (set_fire (f\<lparr>fire_phase := p\<rparr>) s)"
    using assms(1,2) unfolding uids_ok_def set_fire_phases [OF assms(2,3)] by (auto simp: run_inv_def uids_ok_def phases_def)
  then show ?thesis using assms(4) unfolding run_inv_def set_fire_phases [OF assms(2,3)] by simp
qed

text \<open>A phase that claims and owes no more than the one before.\<close>

lemma phase_run:
  assumes "run_inv s" "distinct (map fire_id (firings s))" "f \<in> set (firings s)"
    and "claimed p \<longrightarrow> claimed (fire_phase f)" "owes (fire_phase f) \<longrightarrow> owes p"
  shows "run_inv (set_fire (f\<lparr>fire_phase := p\<rparr>) s)"
proof -
  obtain xs ys where s: "firings s = xs @ f # ys" "\<forall>x \<in> set xs \<union> set ys. fire_id x \<noteq> fire_id f" by (rule firing_split [OF assms(2,3)])
  let ?r = "set (map (\<lambda>f. (st_id (fire_task f), fire_phase f)) (xs @ ys))" and ?i = "st_id (fire_task f)"
  have ps: "set (phases s) = insert (?i, fire_phase f) ?r" using s(1) by (auto simp: phases_def)
  have "budget_ok (budgets s) (insert (?i, p) ?r) (delivered s)"
    by (rule budget_mono [of _ "set (phases s)"]) (use assms(1,4,5) in \<open>auto simp: run_inv_def claims_def owed_def ps\<close>)
  then show ?thesis by (rule set_fire_run [OF assms(1) s])
qed

lemma claim_run:
  assumes "run_inv s" "fire_inv s" "f \<in> set (firings s)" "fire_phase f = Claiming"
  shows "run_inv (claim cron f s)"
proof -
  note d = fire_inv_distinct [OF assms(2)]
  let ?i = "st_id (fire_task f)"
  have quiet: "run_inv (end_fire cron f s)" using leave_quiet(2) [OF assms(1) d assms(3)] assms(4) by simp
  have "run_inv (set_fire (f\<lparr>fire_phase := Routing\<rparr>) (put_task (t\<lparr>status := TaskRunning, last_run_at := Some (clock s)\<rparr>) s))"
    if t: "get_task_by_id ?i s = Some t" "\<not> schedule_exhausted t" for t
  proof -
    let ?s = "put_task (t\<lparr>status := TaskRunning, last_run_at := Some (clock s)\<rparr>) s"
    have row: "t \<in> set (task_rows s)" "st_id t = ?i" using get_task_row(2) [OF t(1)] by simp_all
    have inv: "run_inv ?s" by (rule put_budgets [OF assms(1) row(1)]) simp_all
    obtain xs ys where s: "firings ?s = xs @ f # ys" "\<forall>x \<in> set xs \<union> set ys. fire_id x \<noteq> fire_id f"
      using firing_split [OF d assms(3)] by (metis put_task_firings)
    have ps: "set (phases ?s) = insert (?i, Claiming) (set (map (\<lambda>f. (st_id (fire_task f), fire_phase f)) (xs @ ys)))"
      using s(1) assms(4) by (auto simp: phases_def)
    have old: "budget_ok (budgets ?s) (set (phases ?s)) (delivered ?s)" using inv by (simp add: run_inv_def)
    have free: "n < k" if b: "(?i, n, Some k) \<in> set (budgets ?s)" for n k
    proof -
      obtain x where x: "x \<in> set (task_rows ?s)" "st_id x = ?i" "run_count x = n" "max_runs x = Some k" using b by (auto simp: budgets_def)
      moreover have "t\<lparr>status := TaskRunning, last_run_at := Some (clock s)\<rparr> \<in> set (task_rows ?s)" using row(1) by (auto simp: put_task_def)
      ultimately have "x = t\<lparr>status := TaskRunning, last_run_at := Some (clock s)\<rparr>" using rows_distinct [OF inv] row(2) by simp
      then show ?thesis using t(2) x(3,4) by (auto simp: schedule_exhausted_def)
    qed
    show ?thesis
    proof (rule set_fire_run [OF inv s], rule budget_okI)
      fix i n k assume b: "(i, n, Some k) \<in> set (budgets ?s)"
        and c: "claims (insert (?i, Routing) (set (map (\<lambda>f. (st_id (fire_task f), fire_phase f)) (xs @ ys)))) i"
      show "n < k"
      proof (cases "i = ?i")
        case False
        then have "claims (set (phases ?s)) i" using c by (auto simp: claims_def ps)
        then show ?thesis using budget_okD(2) [OF old b] by simp
      qed (use free b in simp)
    next
      fix i n m assume b: "(i, n, m) \<in> set (budgets ?s)"
      have "owed (set (phases ?s)) i \<Longrightarrow> owed (insert (?i, Routing) (set (map (\<lambda>f. (st_id (fire_task f), fire_phase f)) (xs @ ys)))) i"
        by (auto simp: owed_def ps)
      then show "count_list (delivered ?s) i \<le> n + (if owed (insert (?i, Routing) (set (map (\<lambda>f. (st_id (fire_task f), fire_phase f)) (xs @ ys)))) i then 1 else 0)"
        using budget_okD(3) [OF old b] by (auto split: if_splits)
    qed (use old in \<open>auto simp: budget_ok_def dest: budget_okD(1) [OF old]\<close>)
  qed
  then show ?thesis using quiet by (auto simp: claim_def split: option.split)
qed

lemma active_alone:
  assumes "fire_inv s" "firings s = xs @ f # ys" "fire_phase f \<noteq> Waiting"
  shows "\<not> claims (set (map (\<lambda>f. (st_id (fire_task f), fire_phase f)) (xs @ ys))) (st_id (fire_task f))"
    "\<not> owed (set (map (\<lambda>f. (st_id (fire_task f), fire_phase f)) (xs @ ys))) (st_id (fire_task f))"
proof -
  have "\<not> claimed (fire_phase x)" if "x \<in> set xs \<union> set ys" "st_id (fire_task x) = st_id (fire_task f)" for x
    using sole_active [OF assms that] by (simp add: claimed_def)
  then show "\<not> claims (set (map (\<lambda>f. (st_id (fire_task f), fire_phase f)) (xs @ ys))) (st_id (fire_task f))"
    "\<not> owed (set (map (\<lambda>f. (st_id (fire_task f), fire_phase f)) (xs @ ys))) (st_id (fire_task f))"
    by (auto simp: claims_def owed_def dest: owes_claimed)
qed

lemma deliver_run:
  assumes "run_inv s" "fire_inv s" "f \<in> set (firings s)" "fire_phase f = Dispatching"
  shows "run_inv (set_fire (f\<lparr>fire_phase := Stamping sid\<rparr>) (s\<lparr>delivered := delivered s @ [st_id (fire_task f)]\<rparr>))"
proof -
  let ?i = "st_id (fire_task f)"
  obtain xs ys where s: "firings s = xs @ f # ys" "\<forall>x \<in> set xs \<union> set ys. fire_id x \<noteq> fire_id f"
    by (rule firing_split [OF fire_inv_distinct [OF assms(2)] assms(3)])
  let ?r = "set (map (\<lambda>f. (st_id (fire_task f), fire_phase f)) (xs @ ys))" and ?t = "s\<lparr>delivered := delivered s @ [?i]\<rparr>"
  have ps: "set (phases s) = insert (?i, Dispatching) ?r" using s(1) assms(4) by (auto simp: phases_def)
  have old: "budget_ok (budgets s) (insert (?i, Dispatching) ?r) (delivered s)" using assms(1) ps by (simp add: run_inv_def)
  have alone: "\<not> owed (insert (?i, Dispatching) ?r) ?i" using active_alone(2) [OF assms(2) s(1)] assms(4) by (auto simp: owed_def)
  have b: "budget_ok (budgets s) (insert (?i, Stamping sid) ?r) (delivered s @ [?i])"
  proof (rule budget_okI)
    show "n < k" if "(i, n, Some k) \<in> set (budgets s)" "claims (insert (?i, Stamping sid) ?r) i" for i n k
      using budget_okD(2) [OF old that(1)] that(2) by (auto simp: claims_def claimed_def)
    show "count_list (delivered s @ [?i]) i \<le> n + (if owed (insert (?i, Stamping sid) ?r) i then 1 else 0)" if m: "(i, n, m) \<in> set (budgets s)" for i n m
    proof (cases "i = ?i")
      case True
      have "owed (insert (?i, Stamping sid) ?r) i" using True by (auto simp: owed_def)
      then show ?thesis using budget_okD(3) [OF old m] alone True by simp
    next
      case False
      have "owed (insert (?i, Dispatching) ?r) i = owed (insert (?i, Stamping sid) ?r) i" using False by (auto simp: owed_def)
      then show ?thesis using budget_okD(3) [OF old m] False by simp
    qed
  qed (use old in \<open>auto simp: budget_ok_def dest: budget_okD(1) [OF old]\<close>)
  have "uids_ok ?t" using assms(1) ps by (auto simp: run_inv_def uids_ok_def)
  have st: "firings ?t = xs @ f # ys" using s(1) by simp
  note p = set_fire_phases [OF st s(2), of "Stamping sid"]
  have "uids_ok (set_fire (f\<lparr>fire_phase := Stamping sid\<rparr>) ?t)" using \<open>uids_ok ?t\<close> ps unfolding uids_ok_def p by simp
  then show ?thesis unfolding run_inv_def p using b by simp
qed

lemma count_fire_run:
  assumes "run_inv s" "fire_inv s" "f \<in> set (firings s)" "fire_phase f = Counting err"
  shows "run_inv (count_fire cron err f s)"
proof -
  let ?i = "st_id (fire_task f)"
  obtain xs ys where s: "firings s = xs @ f # ys" "\<forall>x \<in> set xs \<union> set ys. fire_id x \<noteq> fire_id f"
    by (rule firing_split [OF fire_inv_distinct [OF assms(2)] assms(3)])
  let ?r = "set (map (\<lambda>f. (st_id (fire_task f), fire_phase f)) (xs @ ys))"
  define u where "u = (case get_task_by_id ?i s of None \<Rightarrow> s | Some t \<Rightarrow> put_task (count_run cron (clock s) err t) s)"
  have ps: "set (phases s) = insert (?i, Counting err) ?r" using s(1) assms(4) by (auto simp: phases_def)
  have old: "budget_ok (budgets s) (insert (?i, Counting err) ?r) (delivered s)" using assms(1) ps by (simp add: run_inv_def)
  have alone: "\<not> claims ?r ?i" using active_alone(1) [OF assms(2) s(1)] assms(4) by simp
  have keep: "st_id (count_run cron c err t) = st_id t" "run_count (count_run cron c err t) = run_count t + 1" "max_runs (count_run cron c err t) = max_runs t" for c t
    by (simp_all add: count_run_def Let_def)
  have ids: "map fst (budgets u) = map fst (budgets s)" using get_task_row(2)
    by (auto simp: u_def budgets_def put_task_def keep split: option.split)
  have entry: "(i, n, m) \<in> set (budgets s) \<and> i \<noteq> ?i \<or> i = ?i \<and> (\<exists>n0. n = Suc n0 \<and> (i, n0, m) \<in> set (budgets s))" if b: "(i, n, m) \<in> set (budgets u)" for i n m
  proof (cases "get_task_by_id ?i s")
    case None
    then have "?i \<notin> st_id ` set (task_rows s)" by (auto simp: get_task_by_id_def find_None_iff)
    then show ?thesis using b None by (auto simp: u_def budgets_def image_iff)
  next
    case (Some t)
    note t = get_task_row(2) [OF Some]
    obtain x where x: "x \<in> set (task_rows s)" "(i, n, m) = (\<lambda>t. (st_id t, run_count t, max_runs t)) (if st_id x = ?i then count_run cron (clock s) err t else x)"
      using b Some t by (auto simp: u_def budgets_def put_task_def keep)
    show ?thesis
    proof (cases "st_id x = ?i")
      case True
      then have "x = t" using rows_distinct [OF assms(1), of t x] x(1) t by simp
      then have "i = ?i" "n = Suc (run_count t)" "m = max_runs t" using x(2) True by (simp_all add: keep)
      moreover have "(st_id t, run_count t, max_runs t) \<in> set (budgets s)"
        unfolding budgets_def set_map by (rule imageI [OF conjunct1 [OF t]])
      ultimately show ?thesis using t by auto
    next
      case False
      then show ?thesis using x by (auto simp: budgets_def image_iff)
    qed
  qed
  have new: "budget_ok (budgets u) ?r (delivered s)"
  proof (rule budget_okI)
    fix i n k assume b: "(i, n, Some k) \<in> set (budgets u)"
    have "claims (insert (?i, Counting err) ?r) ?i" by (auto simp: claims_def claimed_def)
    then have own: "n0 < k" if "(?i, n0, Some k) \<in> set (budgets s)" for n0 by (rule budget_okD(2) [OF old that refl])
    consider "(i, n, Some k) \<in> set (budgets s)" | n0 where "n = Suc n0" "(?i, n0, Some k) \<in> set (budgets s)" using entry [OF b] by blast
    then show "n \<le> k" by cases (use own budget_okD(1) [OF old] in \<open>auto dest: Suc_leI\<close>)
    show "n < k" if "claims ?r i"
    proof -
      have "i \<noteq> ?i" using alone that by auto
      then show ?thesis using entry [OF b] that budget_okD(2) [OF old, of i n "Some k" k] by (auto simp: claims_def)
    qed
  next
    fix i n m assume b: "(i, n, m) \<in> set (budgets u)"
    show "count_list (delivered s) i \<le> n + (if owed ?r i then 1 else 0)"
    proof (cases "i = ?i")
      case True
      then obtain n0 where "n = Suc n0" "(i, n0, m) \<in> set (budgets s)" using entry [OF b] by blast
      then show ?thesis using budget_okD(3) [OF old, of i n0 m] by (auto split: if_splits)
    next
      case False
      then have "owed (insert (?i, Counting err) ?r) i = owed ?r i" by (auto simp: owed_def)
      then show ?thesis using entry [OF b] False budget_okD(3) [OF old, of i n m] by simp
    qed
  qed (use old ids in \<open>simp add: budget_ok_def\<close>)
  have same: "firings u = firings s" "delivered u = delivered s" "timer_tasks u = timer_tasks s" "next_uid u = next_uid s" "phases u = phases s"
    by (simp_all add: u_def put_task_def phases_def split: option.split)
  have "map st_id (task_rows u) = map st_id (task_rows s)" using ids by (simp add: budgets_def comp_def)
  then have "st_id ` set (task_rows u) = st_id ` set (task_rows s)" by (metis set_map)
  moreover have "\<forall>i \<in> st_id ` set (task_rows s). i < next_uid s" using row_uid [OF assms(1)] by auto
  ultimately have "\<forall>i \<in> st_id ` set (task_rows u). i < next_uid s" by simp
  then have "\<forall>t \<in> set (task_rows u). st_id t < next_uid s" by simp
  then have "uids_ok u" using assms(1) same by (simp add: run_inv_def uids_ok_def)
  then show ?thesis unfolding count_fire_def u_def [symmetric] using end_run [of u xs f ys cron] s new same by simp
qed

text \<open>The rule: no firing is cancelled once its message is out, and the limits are left alone.\<close>

definition accounted :: "scheduler_event \<Rightarrow> scheduler \<Rightarrow> bool" where
  "accounted v s \<longleftrightarrow> (v = CancelFire \<longrightarrow> (\<forall>f \<in> set (firings s). fire_cancelled f \<longrightarrow> \<not> owes (fire_phase f))) \<and>
     (\<forall>u. v = Update u \<longrightarrow> up_max_runs u = None)"

lemma timer_run:
  assumes "run_inv s" "t \<in> set (timer_tasks s)"
  shows "run_inv (wake_timer t s)" "run_inv (reload_timer cron t s)"
proof -
  have id: "st_id (timer_for t) < next_uid s" using assms by (simp add: run_inv_def uids_ok_def)
  have set: "run_inv (set_timer t p u)" if "run_inv u" for p u using that by (auto simp: set_timer_def run_inv_def uids_ok_def)
  let ?u = "s\<lparr>firings := firings s @ [new_firing (timer_for t) (version_of (st_id (timer_for t)) s) Claiming False False (next_uid s)],
      firing_ids := st_id (timer_for t) # firing_ids s, next_uid := Suc (next_uid s)\<rparr>"
  have "phases ?u = phases s @ [(st_id (timer_for t), Claiming)]" by (simp add: phases_def new_firing_def)
  moreover have "budget_ok (budgets s) (set (phases s @ [(st_id (timer_for t), Claiming)])) (delivered s)"
    by (rule budget_mono [of _ "set (phases s)"]) (use assms(1) in \<open>auto simp: run_inv_def claims_def owed_def claimed_def\<close>)
  ultimately have "run_inv ?u" using assms(1) id by (auto simp: run_inv_def uids_ok_def less_Suc_eq budgets_def)
  then show "run_inv (wake_timer t s)" using assms(1) by (simp add: wake_timer_def Let_def set)
  let ?v = "s\<lparr>timer_tasks := filter (\<lambda>x. timer_id x \<noteq> timer_id t) (timer_tasks s)\<rparr>"
  have v: "run_inv ?v" using assms(1) by (auto simp: run_inv_def uids_ok_def)
  have "run_inv (sleep_timer cron i k ?v)" if "st_id k < next_uid s" for i k
    using v that sleep_timer_tasks [of _ cron i k ?v] by (fastforce simp: run_inv_def uids_ok_def)
  moreover have "st_id k < next_uid s" if "get_task sl ?v = Some k" for sl k using row_uid [OF v] get_task_row(1) [OF that] by simp
  moreover have "run_inv (?v\<lparr>timers := tm\<rparr>)" for tm using v by (simp add: run_inv_def uids_ok_def)
  ultimately show "run_inv (reload_timer cron t s)" by (auto simp: reload_timer_def Let_def split: option.split)
qed

lemma start_scheduler_run: "run_inv s \<Longrightarrow> run_inv (start_scheduler cron s)"
proof -
  have "run_inv (fold (start_one cron) ts s)" if "run_inv s" "\<forall>t \<in> set ts. st_id t < next_uid s" for ts using that
  proof (induction ts arbitrary: s)
    case (Cons t ts)
    have "run_inv (start_one cron t s)" using Cons.prems by (simp add: start_one_def spawn_run start_timer_inv)
    moreover have "next_uid s \<le> next_uid (start_one cron t s)" by (simp add: start_one_def spawn_fire_def)
    ultimately show ?case using Cons.IH [of "start_one cron t s"] Cons.prems by (auto intro: less_le_trans)
  qed simp
  then show "run_inv s \<Longrightarrow> run_inv (start_scheduler cron s)" using row_uid by (auto simp: start_scheduler_def)
qed

lemma put_row_run: "run_inv s \<Longrightarrow> run_inv (reschedule_without_firing cron f s)" "run_inv s \<Longrightarrow> run_inv (mark_fire_cancelled cron i s)"
proof -
  assume inv: "run_inv s"
  have "run_inv (put_task k s)" if "get_task_by_id j s = Some t" "st_id k = st_id t" "run_count k = run_count t" "max_runs k = max_runs t" for j k t
    using put_budgets [OF inv, of t k] get_task_row(2) [OF that(1)] that by simp
  then show "run_inv (reschedule_without_firing cron f s)" "run_inv (mark_fire_cancelled cron i s)"
    using inv by (auto simp: reschedule_without_firing_def mark_fire_cancelled_def split: option.split)
qed

lemma run_inv_step:
  assumes "scheduler_step cron e v s s'" "accounted v s" "run_inv s" "fire_inv s"
  shows "run_inv s'"
proof -
  note d = fire_inv_distinct [OF assms(4)]
  have quiet: "run_inv (end_fire cron f u)" if "run_inv u" "firings u = firings s" "f \<in> set (firings s)" "\<not> owes (fire_phase f)" for f u
    using leave_quiet(2) [of u f cron] that d by simp
  from assms(1) show ?thesis
  proof cases
    case (do_update sl u)
    then show ?thesis using assms(2,3) update_run by (simp add: accounted_def)
  next
    case do_stop
    then show ?thesis using assms(3) by (simp add: stop_scheduler_def run_inv_def uids_ok_def phases_def)
  next
    case (do_tick t)
    then show ?thesis using assms(3) by (simp add: run_inv_def uids_ok_def)
  next
    case (do_enter f)
    have "run_inv (set_fire (f\<lparr>fire_phase := Claiming\<rparr>) (s\<lparr>firing_ids := x\<rparr>))" for x
      by (rule phase_run) (use do_enter assms(3) d in \<open>auto simp: may_step_def claimed_def run_inv_def uids_ok_def phases_def budgets_def\<close>)
    then show ?thesis using do_enter assms(3) d leave_quiet(1) [of s f cron] by (simp add: enter_fire_def Let_def may_step_def)
  next
    case (do_route f r)
    have a: "run_inv (s\<lparr>attempts := x\<rparr>)" for x using assms(3) by (simp add: run_inv_def uids_ok_def)
    show ?thesis using do_route assms(3) d quiet [of s f]
      by (auto simp: route_fire_def may_step_def claimed_def intro!: phase_run a split: route.split)
  next
    case (do_dispatch f r)
    then show ?thesis using assms(3,4) d deliver_run [of s f]
      by (auto simp: dispatch_fire_def may_step_def claimed_def intro!: phase_run split: dispatch_result.split)
  next
    case (do_stamp f sid)
    then show ?thesis using assms(3) d by (auto simp: may_step_def claimed_def intro!: phase_run)
  next
    case (do_skip f)
    then show ?thesis using quiet [of "reschedule_without_firing cron f s" f] put_row_run(1) [OF assms(3)] by (simp add: skip_fire_def may_step_def)
  next
    case (do_cancel f)
    then have "\<not> owes (fire_phase f)" using assms(2) by (auto simp: accounted_def)
    then show ?thesis using do_cancel assms(3) d leave_quiet(1) [of s f cron] quiet [of "mark_fire_cancelled cron (st_id (fire_task f)) s" f] put_row_run(2) [OF assms(3)]
      by (simp add: cancel_fire_def)
  qed (use assms(3,4) admin_run timer_run start_scheduler_run claim_run count_fire_run in \<open>auto simp: may_step_def\<close>)
qed

interpretation scheduler_runs: reachable_invariant "scheduler_move accounted cron e" "\<lambda>s. run_inv s \<and> fire_inv s" "new_scheduler t" for cron e t
proof unfold_locales
  show "run_inv s' \<and> fire_inv s'" if "run_inv s \<and> fire_inv s" "scheduler_move accounted cron e s s'" for s s'
    using that run_inv_step fire_inv_step by (auto simp: scheduler_move_def)
  show "run_inv (new_scheduler t) \<and> fire_inv (new_scheduler t)"
    by (simp add: run_inv_def budget_ok_def budgets_def uids_ok_def phases_def new_scheduler_def fire_inv_def core_def keys_inv.simps)
qed

text \<open>
  C9. A limit on the runs of a task is kept: as long as no firing is cancelled between the delivery of its
  message and the update of the statistics, and the limit is not changed, the number of messages that
  were delivered for a task never exceeds its \<open>max_runs\<close>, through restarts, triggers, failures, pauses and
  deliveries that are under way.
\<close>

theorem runs_bounded:
  assumes "(scheduler_move accounted cron e)\<^sup>*\<^sup>* (new_scheduler t0) s" "t \<in> set (task_rows s)" "max_runs t = Some m"
  shows "count_list (delivered s) (st_id t) \<le> m"
proof -
  have b: "budget_ok (budgets s) (set (phases s)) (delivered s)" using scheduler_runs.reachable_inv [OF assms(1)] by (simp add: run_inv_def)
  have e: "(st_id t, run_count t, Some m) \<in> set (budgets s)" using assms(2,3) by (auto simp: budgets_def image_iff)
  have "claims (set (phases s)) i" if "owed (set (phases s)) i" for i using that owes_claimed by (auto simp: claims_def owed_def)
  then show ?thesis using budget_okD(1,2,3) [OF b e] by (auto split: if_splits dest: Suc_leI)
qed

section \<open>Runs\<close>

lemma sched_step: "(scheduler_move P cron e)\<^sup>*\<^sup>* u s \<Longrightarrow> scheduler_step cron e v s t \<Longrightarrow> P v s \<Longrightarrow> (scheduler_move P cron e)\<^sup>*\<^sup>* u t"
  by (rule rtranclp.rtrancl_into_rtrancl) (auto simp: scheduler_move_def)

definition hourly :: croniter where
  "hourly e tz t = t + 3600"

definition open_env :: routing_env where
  "open_env = \<lparr>routable = (\<lambda>_. True), is_uuid = (\<lambda>_. True), bound_workspace = (\<lambda>_. None)\<rparr>"

definition sample_task :: "string \<Rightarrow> scheduled_task" where
  "sample_task sl = \<lparr>st_id = 0, slug = sl, st_name = sl, workspace = ''w'', schedule_type = EverySeconds, at_datetime = None, every_seconds = Some 10,
     cron_expression = None, timezone = ''UTC'', prompt = ''go'', st_session = None, enabled = True, status = TaskPending, run_count = 0,
     max_runs = Some 1, last_run_at = None, last_error = None, next_fire_at = None\<rparr>"

definition on_fire :: "(firing \<Rightarrow> scheduler \<Rightarrow> scheduler) \<Rightarrow> scheduler \<Rightarrow> scheduler" where
  "on_fire g s = g (hd (firings s)) s"

definition on_timer :: "(timer_task \<Rightarrow> scheduler \<Rightarrow> scheduler) \<Rightarrow> scheduler \<Rightarrow> scheduler" where
  "on_timer g s = g (hd (timer_tasks s)) s"

text \<open>A task that may run once is created, wakes up and delivers its message.\<close>

definition one_task :: scheduler where
  "one_task = snd (create_task hourly open_env (sample_task ''a'') (new_scheduler 0))"

definition one_due :: scheduler where "one_due = one_task\<lparr>clock := 10\<rparr>"
definition one_awake :: scheduler where "one_awake = on_timer wake_timer one_due"
definition one_claimed :: scheduler where "one_claimed = on_fire (claim hourly) one_awake"
definition one_routed :: scheduler where "one_routed = on_fire (route_fire hourly AgentReady) one_claimed"
definition one_sent :: scheduler where "one_sent = on_fire (dispatch_fire (Delivered ''s'')) one_routed"
definition one_stamped :: scheduler where "one_stamped = on_fire (\<lambda>f. set_fire (f\<lparr>fire_phase := Counting None\<rparr>)) one_sent"
definition one_done :: scheduler where "one_done = on_fire (count_fire hourly None) one_stamped"

definition fires_in :: "fire_phase \<Rightarrow> scheduler \<Rightarrow> bool" where
  "fires_in p s \<longleftrightarrow> may_step (hd (firings s)) s \<and> fire_phase (hd (firings s)) = p"

definition sleeps_until :: "int \<Rightarrow> scheduler \<Rightarrow> bool" where
  "sleeps_until n s \<longleftrightarrow> timer_tasks s \<noteq> [] \<and> timer_phase (hd (timer_tasks s)) = Sleeping n \<and> n \<le> clock s"

lemma one_facts: "sleeps_until 10 one_due" "fires_in Claiming one_awake" "fires_in Routing one_claimed" "fires_in Dispatching one_routed"
  "fires_in (Stamping ''s'') one_sent" "fires_in (Counting None) one_stamped"
  by code_simp+

lemma fires_inD: "fires_in p s \<Longrightarrow> may_step (hd (firings s)) s" "fires_in p s \<Longrightarrow> fire_phase (hd (firings s)) = p"
  by (simp_all add: fires_in_def)

lemma one_sent_run:
  assumes "\<And>v s. v \<in> {Administration, Tick, Wake, FireStep} \<Longrightarrow> P v s"
  shows "(scheduler_move P hourly open_env)\<^sup>*\<^sup>* (new_scheduler 0) one_sent"
proof -
  let ?R = "\<lambda>s. (scheduler_move P hourly open_env)\<^sup>*\<^sup>* (new_scheduler 0) s"
  have "?R one_task" unfolding one_task_def by (rule sched_step [OF rtranclp.rtrancl_refl do_create]) (rule assms, simp)
  moreover have "clock one_task = 0" by code_simp
  ultimately have "?R one_due" unfolding one_due_def by (intro sched_step [OF _ do_tick]) (auto intro: assms)
  then have "?R one_awake" unfolding one_awake_def on_timer_def
    by (rule sched_step [OF _ do_wake]) (use one_facts(1) assms in \<open>auto simp: sleeps_until_def\<close>)
  then have "?R one_claimed" unfolding one_claimed_def on_fire_def
    by (rule sched_step [OF _ do_claim]) (use fires_inD [OF one_facts(2)] assms in auto)
  then have "?R one_routed" unfolding one_routed_def on_fire_def
    by (rule sched_step [OF _ do_route]) (use fires_inD [OF one_facts(3)] assms in auto)
  then show ?thesis unfolding one_sent_def on_fire_def
    by (rule sched_step [OF _ do_dispatch]) (use fires_inD [OF one_facts(4)] assms in auto)
qed

theorem fires_never_overlap_witness:
  "length (firings one_sent) = 1 \<and> set (firing_ids one_sent) = {st_id (fire_task f) |f. f \<in> set (firings one_sent) \<and> fire_phase f \<noteq> Waiting}"
proof -
  have "length (firings one_sent) = 1" by code_simp
  then show ?thesis using fires_never_overlap [OF one_sent_run [of "\<lambda>_ _. True"]] by blast
qed

theorem runs_bounded_witness: "map st_id (task_rows one_done) = [0] \<and> delivered one_done = [0] \<and> count_list (delivered one_done) 0 \<le> 1"
proof -
  let ?R = "\<lambda>s. (scheduler_move accounted hourly open_env)\<^sup>*\<^sup>* (new_scheduler 0) s"
  have "?R one_sent" by (rule one_sent_run) (auto simp: accounted_def)
  then have "?R one_stamped" unfolding one_stamped_def on_fire_def
    by (rule sched_step [OF _ do_stamp]) (use fires_inD [OF one_facts(5)] in \<open>auto simp: accounted_def\<close>)
  then have "?R one_done" unfolding one_done_def on_fire_def
    by (rule sched_step [OF _ do_count]) (use fires_inD [OF one_facts(6)] in \<open>auto simp: accounted_def\<close>)
  moreover have "map st_id (task_rows one_done) = [0] \<and> delivered one_done = [0] \<and> map max_runs (task_rows one_done) = [Some 1]" by code_simp
  ultimately show ?thesis using runs_bounded [of hourly open_env 0 one_done "hd (task_rows one_done)" 1] by (cases "task_rows one_done") auto
qed

section \<open>Operations that hit a firing\<close>

text \<open>
  A pause cancels the timer loop, and with it a firing whose message is already out; the run is not
  counted, so that the task delivers once more than it may.
\<close>

definition paused_late :: scheduler where "paused_late = snd (pause_task ''a'' one_sent)"
definition uncounted :: scheduler where "uncounted = on_fire (cancel_fire hourly) paused_late"
definition resumed_due :: scheduler where "resumed_due = (snd (resume_task hourly ''a'' uncounted))\<lparr>clock := 20\<rparr>"
definition sent_again :: scheduler where
  "sent_again = on_fire (dispatch_fire (Delivered ''s'')) (on_fire (route_fire hourly AgentReady) (on_fire (claim hourly) (on_timer wake_timer resumed_due)))"

lemma late_facts:
  "hd (firings paused_late) \<in> set (firings paused_late) \<and> fire_cancelled (hd (firings paused_late))" "clock (snd (resume_task hourly ''a'' uncounted)) = 10"
  "sleeps_until 20 resumed_due" "fires_in Claiming (on_timer wake_timer resumed_due)" "fires_in Routing (on_fire (claim hourly) (on_timer wake_timer resumed_due))"
  "fires_in Dispatching (on_fire (route_fire hourly AgentReady) (on_fire (claim hourly) (on_timer wake_timer resumed_due)))"
  by code_simp+

theorem late_pause_loses_count:
  "(scheduler_move (\<lambda>_ _. True) hourly open_env)\<^sup>*\<^sup>* (new_scheduler 0) sent_again \<and>
   map max_runs (task_rows sent_again) = [Some 1] \<and> count_list (delivered sent_again) 0 = 2"
proof -
  let ?R = "\<lambda>s. (scheduler_move (\<lambda>_ _. True) hourly open_env)\<^sup>*\<^sup>* (new_scheduler 0) s"
  have "?R paused_late" unfolding paused_late_def by (rule sched_step [OF one_sent_run do_pause]) simp_all
  then have "?R uncounted" unfolding uncounted_def on_fire_def by (rule sched_step [OF _ do_cancel]) (use late_facts(1) in simp_all)
  then have "?R (snd (resume_task hourly ''a'' uncounted))" by (rule sched_step [OF _ do_resume]) simp
  then have "?R resumed_due" unfolding resumed_due_def by (rule sched_step [OF _ do_tick]) (simp_all add: late_facts(2))
  then have "?R (on_timer wake_timer resumed_due)" unfolding on_timer_def
    by (rule sched_step [OF _ do_wake]) (use late_facts(3) in \<open>auto simp: sleeps_until_def\<close>)
  then have "?R (on_fire (claim hourly) (on_timer wake_timer resumed_due))" unfolding on_fire_def
    by (rule sched_step [OF _ do_claim]) (use fires_inD [OF late_facts(4)] in auto)
  then have "?R (on_fire (route_fire hourly AgentReady) (on_fire (claim hourly) (on_timer wake_timer resumed_due)))"
    unfolding on_fire_def [of "route_fire hourly AgentReady"] by (rule sched_step [OF _ do_route]) (use fires_inD [OF late_facts(5)] in auto)
  then have "?R sent_again" unfolding sent_again_def on_fire_def [of "dispatch_fire (Delivered ''s'')"]
    by (rule sched_step [OF _ do_dispatch]) (use fires_inD [OF late_facts(6)] in auto)
  moreover have "map max_runs (task_rows sent_again) = [Some 1] \<and> count_list (delivered sent_again) 0 = 2" by code_simp
  ultimately show ?thesis by blast
qed

text \<open>A change of the slug to one that is taken is refused, but it stops the timers of both tasks.\<close>

definition two_tasks :: scheduler where "two_tasks = snd (create_task hourly open_env (sample_task ''b'') one_task)"

definition to_b :: task_update where
  "to_b = \<lparr>up_slug = Some ''b'', up_workspace = None, up_schedule = None, up_at = None, up_every = None, up_cron = None, up_timezone = None,
     up_prompt = None, up_session = None, up_max_runs = None, up_enabled = None\<rparr>"

theorem refused_slug_stops_timers:
  "length (timer_tasks two_tasks) = 2 \<and> fst (apply_update hourly open_env ''a'' to_b two_tasks) = Inl DuplicateTask \<and>
   timer_tasks (snd (apply_update hourly open_env ''a'' to_b two_tasks)) = [] \<and>
   map enabled (task_rows (snd (apply_update hourly open_env ''a'' to_b two_tasks))) = [True, True]"
  by code_simp

end
