(* ===== verification/Anthropic.thy ===== *)
theory Anthropic
  imports Transcript
begin

text \<open>
  The Anthropic back end, \<open>app/agent/providers/anthropic/anthropic.py\<close>: the translation of a
  conversation into the messages of a request (\<open>_split_messages\<close>, \<open>_blocks_from_raw_content\<close>), the
  request itself (\<open>_payload\<close>), a response read at once (\<open>_parse_response\<close>) and a response read as a
  stream of server-sent events (\<open>stream\<close>). Blocks of the wire format are dictionaries, as in the
  code; a raised exception is a value. \<open>loads\<close> and \<open>dumps\<close> are the JSON codec, \<open>pystr\<close> is \<open>str\<close> on a
  value that is no string. The HTTP client, the headers and the model catalogue are left out.
\<close>

section \<open>Python values\<close>

fun json_truthy :: "json \<Rightarrow> bool" where
  "json_truthy JNull = False"
| "json_truthy (JBool b) = b"
| "json_truthy (JNum n) = (n \<noteq> 0)"
| "json_truthy (JStr s) = (s \<noteq> [])"
| "json_truthy (JArr xs) = (xs \<noteq> [])"
| "json_truthy (JObj d) = (d \<noteq> [])"

fun is_dict :: "json \<Rightarrow> bool" where
  "is_dict (JObj d) = True"
| "is_dict _ = False"

fun is_str :: "json \<Rightarrow> bool" where
  "is_str (JStr s) = True"
| "is_str _ = False"

text \<open>\<open>d.get(k, v)\<close>, \<open>d.get(k) or v\<close> and \<open>str(v)\<close>.\<close>

definition get_default :: "string \<Rightarrow> json \<Rightarrow> json \<Rightarrow> json" where
  "get_default k v d = (case json_get k d of None \<Rightarrow> v | Some x \<Rightarrow> x)"

definition get_truthy :: "string \<Rightarrow> json \<Rightarrow> json \<Rightarrow> json" where
  "get_truthy k v d = (case json_get k d of None \<Rightarrow> v | Some x \<Rightarrow> if json_truthy x then x else v)"

fun to_str :: "(json \<Rightarrow> string) \<Rightarrow> json \<Rightarrow> string" where
  "to_str pystr (JStr s) = s"
| "to_str pystr v = pystr v"

text \<open>\<open>int(s)\<close>: white space around it, a sign, digits with single underscores between them.\<close>

definition int_of_digits :: "string \<Rightarrow> int option" where
  "int_of_digits s =
     (let groups = split_on CHR ''_'' s in
      if list_all (\<lambda>g. g \<noteq> [] \<and> list_all is_digit g) groups then Some (int (decimal (concat groups))) else None)"

definition int_of_text :: "string \<Rightarrow> int option" where
  "int_of_text s =
     (case strip s of
        [] \<Rightarrow> None
      | c # ds \<Rightarrow> if c = CHR ''-'' then map_option uminus (int_of_digits ds)
          else if c = CHR ''+'' then int_of_digits ds else int_of_digits (c # ds))"

fun to_int :: "json \<Rightarrow> int option" where
  "to_int (JNum n) = Some n"
| "to_int (JBool b) = Some (if b then 1 else 0)"
| "to_int (JStr s) = int_of_text s"
| "to_int _ = None"

section \<open>Messages handed to a provider\<close>

datatype part = TextBlock string | ImageUrlBlock string "string option" | ImageDataBlock string string \<comment> \<open>data, media type\<close>

datatype other_message = SystemMessage "string option" | AssistantMessage message | ToolMessage string "string option" "part list"

type_synonym provider_message = "(part, other_message) chat_message"

text \<open>A message of the conversation; \<open>parts\<close> gives the attachments of a message.\<close>

definition provider_message :: "(chat_msg \<Rightarrow> part list) \<Rightarrow> chat_msg \<Rightarrow> provider_message" where
  "provider_message parts m =
     (case c_body m of
        SystemMsg \<Rightarrow> OtherMessage (SystemMessage (c_content m))
      | HumanMsg \<Rightarrow> HumanMessage (c_content m) (parts m) []
      | AssistantMsg a \<Rightarrow> OtherMessage (AssistantMessage (a\<lparr>m_content := c_content m\<rparr>))
      | ToolMsg t _ \<Rightarrow> OtherMessage (ToolMessage t (c_content m) (parts m)))"

section \<open>Blocks\<close>

definition typed :: "string \<Rightarrow> (string \<times> json) list \<Rightarrow> json" where
  "typed t fs = JObj ((''type'', JStr t) # fs)"

definition text_block :: "string \<Rightarrow> json" where
  "text_block s = typed ''text'' [(''text'', JStr s)]"

definition thinking_block :: "json \<Rightarrow> json \<Rightarrow> json" where
  "thinking_block t sig = typed ''thinking'' [(''thinking'', t), (''signature'', sig)]"

definition redacted_block :: "json \<Rightarrow> json" where
  "redacted_block data = typed ''redacted_thinking'' [(''data'', data)]"

definition tool_use_block :: "string \<Rightarrow> string \<Rightarrow> json \<Rightarrow> json" where
  "tool_use_block i name input = typed ''tool_use'' [(''id'', JStr i), (''name'', JStr name), (''input'', input)]"

definition tool_ref :: "string \<Rightarrow> json" where
  "tool_ref i = typed ''tool_use_ref'' [(''id'', JStr i)]"

fun part_block :: "part \<Rightarrow> json list" where
  "part_block (TextBlock t) = (if t = [] then [] else [text_block t])"
| "part_block (ImageUrlBlock url media) =
     [typed ''image'' [(''source'', JObj ([(''type'', JStr ''url''), (''url'', JStr url)] @
        (case if_truthy media of None \<Rightarrow> [] | Some m \<Rightarrow> [(''media_type'', JStr m)])))]]"
| "part_block (ImageDataBlock data media) =
     [typed ''image'' [(''source'', typed ''base64'' [(''media_type'', JStr media), (''data'', JStr data)])]]"

definition part_blocks :: "part list \<Rightarrow> json list" where
  "part_blocks ps = concat (map part_block ps)"

definition block_type :: "json \<Rightarrow> json option" where
  "block_type b = json_get ''type'' b"

abbreviation has_type :: "json \<Rightarrow> string \<Rightarrow> bool" where
  "has_type b t \<equiv> block_type b = Some (JStr t)"

record wire_message =
  wire_role :: string
  wire_content :: "json list"

abbreviation user_turn :: "json list \<Rightarrow> wire_message" where
  "user_turn bs \<equiv> \<lparr>wire_role = ''user'', wire_content = bs\<rparr>"

abbreviation assistant_turn :: "json list \<Rightarrow> wire_message" where
  "assistant_turn bs \<equiv> \<lparr>wire_role = ''assistant'', wire_content = bs\<rparr>"

datatype wire_error = JSONDecodeError | TypeError

section \<open>Translating the conversation\<close>

text \<open>\<open>json.loads(arguments or "{}")\<close> of a call that is sent.\<close>

definition argument_text :: "call_buffer \<Rightarrow> string" where
  "argument_text tc = (if cb_arguments tc = [] then ''{}'' else cb_arguments tc)"

definition call_input :: "(string \<Rightarrow> json option) \<Rightarrow> call_buffer \<Rightarrow> wire_error + json" where
  "call_input loads tc =
     (case loads (argument_text tc) of None \<Rightarrow> Inl JSONDecodeError | Some j \<Rightarrow> Inr j)"

definition call_block :: "(string \<Rightarrow> json option) \<Rightarrow> call_buffer \<Rightarrow> wire_error + json" where
  "call_block loads tc = bind_err (call_input loads tc) (\<lambda>input. Inr (tool_use_block (cb_id tc) (cb_name tc) input))"

definition reply_calls :: "message \<Rightarrow> call_buffer list" where
  "reply_calls a = (case m_tool_calls a of None \<Rightarrow> [] | Some cs \<Rightarrow> cs)"

text \<open>The comprehension \<open>tool_by_id\<close>: the last call with an id wins.\<close>

definition tool_by_id :: "message \<Rightarrow> string \<Rightarrow> call_buffer option" where
  "tool_by_id a i = map_of (rev (map (\<lambda>tc. (cb_id tc, tc)) (filter (\<lambda>tc. cb_id tc \<noteq> []) (reply_calls a)))) i"

text \<open>Looking a decoded value up in \<open>tool_by_id\<close>: a list or a dictionary cannot be hashed.\<close>

fun lookup_call :: "message \<Rightarrow> json option \<Rightarrow> wire_error + call_buffer option" where
  "lookup_call a (Some (JStr i)) = Inr (tool_by_id a i)"
| "lookup_call a (Some (JArr _)) = Inl TypeError"
| "lookup_call a (Some (JObj _)) = Inl TypeError"
| "lookup_call a _ = Inr None"

definition raw_block :: "(string \<Rightarrow> json option) \<Rightarrow> (json \<Rightarrow> string) \<Rightarrow> message \<Rightarrow> string set \<Rightarrow> json \<Rightarrow> wire_error + json list" where
  "raw_block loads pystr a valid raw =
     (if has_type raw ''thinking'' then
        (let signature = get_truthy ''signature'' (JStr []) raw in
         Inr (if json_truthy signature then [thinking_block (get_truthy ''thinking'' (JStr []) raw) signature] else []))
      else if has_type raw ''redacted_thinking'' then Inr [redacted_block (get_default ''data'' (JStr []) raw)]
      else if has_type raw ''text'' then
        Inr (case json_get ''text'' raw of Some t \<Rightarrow> if json_truthy t then [typed ''text'' [(''text'', t)]] else [] | None \<Rightarrow> [])
      else if has_type raw ''tool_use_ref'' then
        bind_err (lookup_call a (json_get ''id'' raw)) (\<lambda>found. case found of
            None \<Rightarrow> Inr []
          | Some tc \<Rightarrow> if cb_id tc \<notin> valid then Inr [] else bind_err (call_block loads tc) (\<lambda>b. Inr [b]))
      else if has_type raw ''tool_use'' then
        (let tool_id = to_str pystr (get_truthy ''id'' (JStr []) raw) in
         if tool_id = [] \<or> tool_id \<notin> valid then Inr []
         else case tool_by_id a tool_id of
             Some tc \<Rightarrow> bind_err (call_block loads tc) (\<lambda>b. Inr [b])
           | None \<Rightarrow> Inr [raw])
      else Inr [])"

definition blocks_from_raw_content ::
  "(string \<Rightarrow> json option) \<Rightarrow> (json \<Rightarrow> string) \<Rightarrow> message \<Rightarrow> string set \<Rightarrow> wire_error + json list" where
  "blocks_from_raw_content loads pystr a valid =
     bind_err (map_err (raw_block loads pystr a valid) (case m_raw_blocks a of None \<Rightarrow> [] | Some bs \<Rightarrow> bs)) (\<lambda>bss. Inr (concat bss))"

definition valid_tool_result_ids :: "provider_message list \<Rightarrow> string set" where
  "valid_tool_result_ids ms = set (filter (\<lambda>t. t \<noteq> []) (List.map_filter (\<lambda>m. case m of OtherMessage (ToolMessage t _ _) \<Rightarrow> Some t | _ \<Rightarrow> None) ms))"

definition human_turn :: "string option \<Rightarrow> part list \<Rightarrow> wire_message list" where
  "human_turn c parts =
     (let content = or_empty c; blocks = part_blocks parts in
      if blocks = [] \<and> content = [] then []
      else [user_turn (if blocks \<noteq> [] then blocks else [text_block content])])"

text \<open>The thinking block that the decomposed fields of a message stand for.\<close>

definition kept_thinking :: "message \<Rightarrow> json list" where
  "kept_thinking a =
     (case (if_truthy (m_reasoning a), if_truthy (m_signature a)) of
        (Some t, Some sig) \<Rightarrow> [thinking_block (JStr t) (JStr sig)]
      | _ \<Rightarrow> [])"

definition text_blocks :: "string option \<Rightarrow> json list" where
  "text_blocks c = (if or_empty c = [] then [] else [text_block (or_empty c)])"

definition call_turn :: "(string \<Rightarrow> json option) \<Rightarrow> string set \<Rightarrow> message \<Rightarrow> wire_error + json list" where
  "call_turn loads valid a =
     bind_err (map_err (call_block loads) (filter (\<lambda>tc. cb_id tc \<in> valid) (reply_calls a)))
       (\<lambda>uses. Inr (kept_thinking a @ m_redacted a @ text_blocks (m_content a) @ uses))"

definition text_turn :: "message \<Rightarrow> json list" where
  "text_turn a = kept_thinking a @ m_redacted a @ text_blocks (m_content a)"

definition assistant_blocks :: "(string \<Rightarrow> json option) \<Rightarrow> (json \<Rightarrow> string) \<Rightarrow> string set \<Rightarrow> message \<Rightarrow> wire_error + json list" where
  "assistant_blocks loads pystr valid a =
     (if m_raw_blocks a \<noteq> None \<and> m_raw_blocks a \<noteq> Some [] then blocks_from_raw_content loads pystr a valid
      else if reply_calls a \<noteq> [] then call_turn loads valid a
      else Inr (text_turn a))"

definition result_block :: "string \<Rightarrow> string option \<Rightarrow> part list \<Rightarrow> json" where
  "result_block t c parts =
     typed ''tool_result''
       ([(''tool_use_id'', JStr t), (''content'', if part_blocks parts \<noteq> [] then JArr (part_blocks parts) else JStr (or_empty c))] @
        (if startswith (or_empty c) ''Error:'' then [(''is_error'', JBool True)] else []))"

text \<open>Consecutive results go into one user turn.\<close>

definition append_result :: "json \<Rightarrow> wire_message list \<Rightarrow> wire_message list" where
  "append_result b out =
     (if out \<noteq> [] \<and> wire_role (last out) = ''user'' \<and> wire_content (last out) \<noteq> [] \<and>
         has_type (hd (wire_content (last out))) ''tool_result''
      then butlast out @ [(last out)\<lparr>wire_content := wire_content (last out) @ [b]\<rparr>]
      else out @ [user_turn [b]])"

definition append_reply :: "json list \<Rightarrow> wire_message list \<Rightarrow> wire_message list" where
  "append_reply bs out = (if bs = [] then out else out @ [assistant_turn bs])"

fun split_step :: "(string \<Rightarrow> json option) \<Rightarrow> (json \<Rightarrow> string) \<Rightarrow> string set \<Rightarrow>
    string list \<times> wire_message list \<Rightarrow> provider_message \<Rightarrow> wire_error + string list \<times> wire_message list" where
  "split_step loads pystr valid (sys, out) (HumanMessage c parts x) = Inr (sys, out @ human_turn c parts)"
| "split_step loads pystr valid (sys, out) (OtherMessage (SystemMessage c)) =
     Inr (if or_empty c = [] then sys else sys @ [or_empty c], out)"
| "split_step loads pystr valid (sys, out) (OtherMessage (AssistantMessage a)) =
     bind_err (assistant_blocks loads pystr valid a) (\<lambda>bs. Inr (sys, append_reply bs out))"
| "split_step loads pystr valid (sys, out) (OtherMessage (ToolMessage t c parts)) =
     Inr (sys, append_result (result_block t c parts) out)"

definition is_reply :: "provider_message \<Rightarrow> bool" where
  "is_reply m = (case m of OtherMessage (AssistantMessage _) \<Rightarrow> True | _ \<Rightarrow> False)"

definition is_thinking :: "json \<Rightarrow> bool" where
  "is_thinking b \<longleftrightarrow> has_type b ''thinking'' \<or> has_type b ''redacted_thinking''"

text \<open>A final assistant turn (a prefill) may not hold thinking.\<close>

definition strip_prefill :: "provider_message list \<Rightarrow> wire_message list \<Rightarrow> wire_message list" where
  "strip_prefill ms out =
     (if out \<noteq> [] \<and> ms \<noteq> [] \<and> is_reply (last ms) \<and> wire_role (last out) = ''assistant'' then
        (let sanitized = filter (\<lambda>b. is_dict b \<and> \<not> is_thinking b) (wire_content (last out)) in
         if sanitized \<noteq> [] then butlast out @ [(last out)\<lparr>wire_content := sanitized\<rparr>] else butlast out)
      else out)"

fun set_field :: "string \<Rightarrow> json \<Rightarrow> json \<Rightarrow> json" where
  "set_field k v (JObj d) = JObj (AList.update k v d)"
| "set_field k v j = j"

definition ephemeral :: json where
  "ephemeral = typed ''ephemeral'' []"

definition mark_block :: "json \<Rightarrow> json" where
  "mark_block b = (if has_type b ''text'' \<or> has_type b ''tool_result'' then set_field ''cache_control'' ephemeral b else b)"

definition mark_cached :: "wire_message list \<Rightarrow> wire_message list" where
  "mark_cached out = upd_last (\<lambda>w. w\<lparr>wire_content := upd_last mark_block (wire_content w)\<rparr>) out"

definition system_blocks :: "string list \<Rightarrow> json list option" where
  "system_blocks sys =
     (let system_text = join [NL, NL] sys in
      if system_text = [] then None else Some [typed ''text'' [(''text'', JStr system_text), (''cache_control'', ephemeral)]])"

definition split_messages ::
  "(string \<Rightarrow> json option) \<Rightarrow> (json \<Rightarrow> string) \<Rightarrow> provider_message list \<Rightarrow> wire_error + json list option \<times> wire_message list" where
  "split_messages loads pystr ms =
     bind_err (fold_err (split_step loads pystr (valid_tool_result_ids ms)) ([], []) ms)
       (\<lambda>(sys, out). Inr (system_blocks sys, mark_cached (strip_prefill ms out)))"

section \<open>The request\<close>

type_synonym kwargs = "(string \<times> json) list"

text \<open>\<open>int(max_tokens * ratio)\<close>: rounding down the exact product gives the value of the floating-point one.\<close>

definition thinking_percent :: "string \<Rightarrow> int" where
  "thinking_percent level =
     (case map_of [(''low'', 25), (''medium'', 40), (''high'', 60), (''xhigh'', 75), (''max'', 80)] level of Some p \<Rightarrow> p | None \<Rightarrow> 40)"

definition thinking_budget :: "string \<Rightarrow> int \<Rightarrow> int" where
  "thinking_budget level max_tokens =
     (let product = max_tokens * thinking_percent level;
          budget = (if product \<ge> 0 then product div 100 else - ((- product) div 100)) in
      max 1024 (min budget (max_tokens - 1)))"

definition anthropic_model_name :: "string \<Rightarrow> string" where
  "anthropic_model_name model = removeprefix (lower model) ''anthropic.''"

definition uses_adaptive_thinking :: "string \<Rightarrow> bool" where
  "uses_adaptive_thinking model =
     list_ex (startswith (anthropic_model_name model))
       [''claude-opus-4-6'', ''claude-opus-4-7'', ''claude-opus-4-8'', ''claude-opus-5'', ''claude-sonnet-4-6'', ''claude-sonnet-5'',
        ''claude-fable-5'', ''claude-mythos'']"

definition thinking_fields :: "string \<Rightarrow> string \<Rightarrow> int \<Rightarrow> (string \<times> json) list" where
  "thinking_fields model level max_tokens =
     (let name = anthropic_model_name model; effort = (''output_config'', JObj [(''effort'', JStr level)]) in
      if level = [] then []
      else if level \<in> {''none'', ''off''} then
        (if startswith name ''claude-sonnet-5'' then [(''thinking'', typed ''disabled'' [])] else [])
      else if uses_adaptive_thinking model then [(''thinking'', typed ''adaptive'' [(''display'', JStr ''summarized'')]), effort]
      else (''thinking'', typed ''enabled'' [(''budget_tokens'', JNum (thinking_budget level max_tokens)), (''display'', JStr ''summarized'')]) #
        (if startswith name ''claude-opus-4-5'' then [effort] else []))"

definition apply_thinking :: "(json \<Rightarrow> string) \<Rightarrow> string \<Rightarrow> kwargs \<Rightarrow> int \<Rightarrow> (string \<times> json) list" where
  "apply_thinking pystr model kw max_tokens =
     thinking_fields model (lower (to_str pystr (get_truthy ''thinking_level'' (JStr []) (JObj kw)))) max_tokens"

fun anthropic_tool :: "(json \<Rightarrow> string) \<Rightarrow> json \<Rightarrow> json list" where
  "anthropic_tool pystr tool =
     (case json_get ''function'' tool of
        Some (JObj f) \<Rightarrow>
          [JObj [(''name'', JStr (to_str pystr (get_default ''name'' (JStr []) (JObj f)))),
                 (''description'', get_default ''description'' (JStr []) (JObj f)),
                 (''input_schema'', get_truthy ''parameters'' (typed ''object'' [(''properties'', JObj [])]) (JObj f))]]
      | _ \<Rightarrow> [])"

definition anthropic_tools :: "(json \<Rightarrow> string) \<Rightarrow> json list \<Rightarrow> json list" where
  "anthropic_tools pystr tools = concat (map (anthropic_tool pystr) tools)"

definition DEFAULT_MAX_OUTPUT_TOKENS :: int where "DEFAULT_MAX_OUTPUT_TOKENS = 32000"

text \<open>\<open>limits\<close> is the \<open>max_completion_tokens\<close> entry of the model registry.\<close>

definition max_output_tokens_for_model :: "(string \<Rightarrow> int option) \<Rightarrow> string \<Rightarrow> int" where
  "max_output_tokens_for_model limits model =
     (case limits (''anthropic:'' @ anthropic_model_name model) of Some n \<Rightarrow> n | None \<Rightarrow> DEFAULT_MAX_OUTPUT_TOKENS)"

definition effective_max_tokens :: "(string \<Rightarrow> int option) \<Rightarrow> string \<Rightarrow> kwargs \<Rightarrow> int option" where
  \<comment> \<open>None: \<open>int\<close> raises\<close>
  "effective_max_tokens limits model kw =
     (case map_of kw ''max_tokens'' of
        None \<Rightarrow> Some (max_output_tokens_for_model limits model)
      | Some JNull \<Rightarrow> Some (max_output_tokens_for_model limits model)
      | Some requested \<Rightarrow>
          map_option (\<lambda>n. case limits (''anthropic:'' @ model) of Some l \<Rightarrow> min n l | None \<Rightarrow> n) (to_int requested))"

definition tool_fields :: "(json \<Rightarrow> string) \<Rightarrow> json list \<Rightarrow> kwargs \<Rightarrow> (string \<times> json) list" where
  "tool_fields pystr tools kw =
     (let converted = anthropic_tools pystr tools in
      if converted = [] then []
      else (''tools'', JArr converted) #
        (case map_of kw ''tool_choice'' of
           None \<Rightarrow> [] | Some JNull \<Rightarrow> []
         | Some c \<Rightarrow> [(''tool_choice'', if c = JStr ''none'' then typed ''none'' [] else c)]))"

definition tier_fields :: "string \<Rightarrow> kwargs \<Rightarrow> (string \<times> json) list" where
  "tier_fields base_url kw =
     (case map_of kw ''service_tier'' of
        Some t \<Rightarrow> if json_truthy t \<and> contains_sub base_url ''api.anthropic.com''
          then [(''service_tier'', if t = JStr ''fast'' then JStr ''auto'' else t)] else []
      | None \<Rightarrow> [])"

definition wire_dict :: "wire_message \<Rightarrow> json" where
  "wire_dict w = JObj [(''role'', JStr (wire_role w)), (''content'', JArr (wire_content w))]"

datatype payload_error = SplitError wire_error | BadMaxTokens

definition payload ::
  "(string \<Rightarrow> json option) \<Rightarrow> (json \<Rightarrow> string) \<Rightarrow> (string \<Rightarrow> int option) \<Rightarrow> string \<Rightarrow> string \<Rightarrow> provider_message list \<Rightarrow> json list \<Rightarrow> kwargs \<Rightarrow>
   payload_error + (string \<times> json) list" where
  "payload loads pystr limits base_url model ms tools kw =
     (case split_messages loads pystr ms of
        Inl e \<Rightarrow> Inl (SplitError e)
      | Inr (system, out) \<Rightarrow>
          (case effective_max_tokens limits model kw of
             None \<Rightarrow> Inl BadMaxTokens
           | Some max_tokens \<Rightarrow>
               Inr ([(''model'', JStr model), (''messages'', JArr (map wire_dict out)), (''max_tokens'', JNum max_tokens)] @
                 (case system of None \<Rightarrow> [] | Some bs \<Rightarrow> [(''system'', JArr bs)]) @
                 tool_fields pystr tools kw @ tier_fields base_url kw @ apply_thinking pystr model kw max_tokens)))"

section \<open>A streamed response\<close>

record token_usage =
  prompt_tokens :: int
  completion_tokens :: int
  total_tokens :: int
  cached_tokens :: "int option"
  cache_write_tokens :: "int option"

definition no_usage_yet :: token_usage where
  "no_usage_yet = \<lparr>prompt_tokens = 0, completion_tokens = 0, total_tokens = 0, cached_tokens = None, cache_write_tokens = None\<rparr>"

definition int_field :: "string \<Rightarrow> json \<Rightarrow> int option" where
  "int_field k d = to_int (get_truthy k (JNum 0) d)"

definition none_if_zero :: "int \<Rightarrow> int option" where
  "none_if_zero n = (if n = 0 then None else Some n)"

definition prompt_usage_from_raw :: "json \<Rightarrow> (int \<times> int option \<times> int option) option" where
  "prompt_usage_from_raw u =
     Option.bind (int_field ''input_tokens'' u) (\<lambda>non_cached.
     Option.bind (int_field ''cache_read_input_tokens'' u) (\<lambda>cache_read.
     Option.bind (int_field ''cache_creation_input_tokens'' u) (\<lambda>cache_write.
       Some (non_cached + cache_read + cache_write, none_if_zero cache_read, none_if_zero cache_write))))"

record event_state =
  stream_usage :: token_usage
  tool_call_indexes :: "(int \<times> int) list"
  streamed_blocks :: "(int \<times> json) list"
  raw_block_order :: "int list"

definition start_state :: event_state where
  "start_state = \<lparr>stream_usage = no_usage_yet, tool_call_indexes = [], streamed_blocks = [], raw_block_order = []\<rparr>"

definition no_delta :: delta where
  "no_delta = \<lparr>d_reasoning = None, d_signature = None, d_redacted = None, d_raw_blocks = None, d_reasoning_item = None, d_content = None,
     d_tool_calls = []\<rparr>"

definition delta_chunk :: "delta \<Rightarrow> stream_chunk" where
  "delta_chunk d = \<lparr>ch_usage = None, ch_choice = Some (None, d)\<rparr>"

definition block_index :: "json \<Rightarrow> int" where
  "block_index e = (case json_get ''index'' e of Some (JNum n) \<Rightarrow> n | Some (JBool b) \<Rightarrow> (if b then 1 else 0) | _ \<Rightarrow> 0)"

definition set_default :: "int \<Rightarrow> event_state \<Rightarrow> int \<times> event_state" where
  "set_default i st =
     (case map_of (tool_call_indexes st) i of
        Some k \<Rightarrow> (k, st)
      | None \<Rightarrow> let k = int (length (tool_call_indexes st)) in (k, st\<lparr>tool_call_indexes := tool_call_indexes st @ [(i, k)]\<rparr>))"

definition open_block :: "int \<Rightarrow> json \<Rightarrow> event_state \<Rightarrow> event_state" where
  "open_block i b st = st\<lparr>streamed_blocks := AList.update i b (streamed_blocks st), raw_block_order := raw_block_order st @ [i]\<rparr>"

definition call_delta :: "int \<Rightarrow> string option \<Rightarrow> string option \<Rightarrow> string \<Rightarrow> delta" where
  "call_delta k i name args = no_delta\<lparr>d_tool_calls :=
     [\<lparr>td_index = Some k, td_id = i, td_function = Some \<lparr>fd_name = name, fd_arguments = Some args, fd_thought = None, fd_signature = None\<rparr>\<rparr>]\<rparr>"

definition on_block_start :: "(json \<Rightarrow> string) \<Rightarrow> json \<Rightarrow> event_state \<Rightarrow> stream_chunk list \<times> event_state" where
  "on_block_start pystr e st =
     (let b = get_default ''content_block'' (JObj []) e; i = block_index e in
      if \<not> is_dict b then ([], st)
      else if has_type b ''redacted_thinking'' then
        (let r = redacted_block (get_default ''data'' (JStr []) b) in ([delta_chunk (no_delta\<lparr>d_redacted := Some r\<rparr>)], open_block i r st))
      else if has_type b ''thinking'' then ([], open_block i (thinking_block (JStr []) (JStr [])) st)
      else if has_type b ''text'' then ([], open_block i (text_block []) st)
      else if \<not> has_type b ''tool_use'' then ([], st)
      else
        (let tid = to_str pystr (get_truthy ''id'' (JStr []) b);
             (k, st') = set_default i (open_block i (tool_ref tid) st) in
         ([delta_chunk (call_delta k (Some tid) (Some (to_str pystr (get_truthy ''name'' (JStr []) b))) [])], st')))"

text \<open>\<open>block[key] += text\<close> when the block at the index has the type.\<close>

definition extend_field :: "string \<Rightarrow> string \<Rightarrow> json \<Rightarrow> json" where
  "extend_field k s b = (case json_get k b of Some (JStr old) \<Rightarrow> set_field k (JStr (old @ s)) b | _ \<Rightarrow> b)"

definition extend_block :: "int \<Rightarrow> string \<Rightarrow> string \<Rightarrow> string \<Rightarrow> event_state \<Rightarrow> event_state" where
  "extend_block i t k s st =
     (case map_of (streamed_blocks st) i of
        Some b \<Rightarrow> if has_type b t then st\<lparr>streamed_blocks := AList.update i (extend_field k s b) (streamed_blocks st)\<rparr> else st
      | None \<Rightarrow> st)"

definition on_block_delta :: "json \<Rightarrow> event_state \<Rightarrow> stream_chunk list \<times> event_state" where
  "on_block_delta e st =
     (case json_get ''delta'' e of
        Some (JObj f) \<Rightarrow>
          (let d = JObj f; i = block_index e in
           case map_of f ''thinking'' of Some (JStr s) \<Rightarrow> ([delta_chunk (no_delta\<lparr>d_reasoning := Some s\<rparr>)], extend_block i ''thinking'' ''thinking'' s st)
           | _ \<Rightarrow>
           case (if has_type d ''signature_delta'' then map_of f ''signature'' else None) of
             Some (JStr s) \<Rightarrow> ([delta_chunk (no_delta\<lparr>d_signature := Some s\<rparr>)], extend_block i ''thinking'' ''signature'' s st)
           | _ \<Rightarrow>
           case map_of f ''text'' of Some (JStr s) \<Rightarrow> ([delta_chunk (no_delta\<lparr>d_content := Some s\<rparr>)], extend_block i ''text'' ''text'' s st)
           | _ \<Rightarrow>
           case (if has_type d ''input_json_delta'' then map_of f ''partial_json'' else None) of
             Some (JStr s) \<Rightarrow> (let (k, st') = set_default i st in ([delta_chunk (call_delta k None None s)], st'))
           | _ \<Rightarrow> ([], st))
      | _ \<Rightarrow> ([], st))"

definition finish_reason_of :: "string \<Rightarrow> string" where
  "finish_reason_of stop_reason = (if stop_reason = ''tool_use'' then ''tool_calls'' else stop_reason)"

text \<open>An exception that is no failure of the transport: a decoding, type or validation error.\<close>

abbreviation broken :: failure where
  "broken \<equiv> NetError UnrelatedErr"

definition on_message_start :: "json \<Rightarrow> event_state \<Rightarrow> failure + event_state" where
  "on_message_start e st =
     (case get_default ''message'' (JObj []) e of
        JObj m \<Rightarrow>
          (case get_default ''usage'' (JObj []) (JObj m) of
             JObj u \<Rightarrow>
               (case prompt_usage_from_raw (JObj u) of
                  None \<Rightarrow> Inl broken
                | Some (p, r, w) \<Rightarrow>
                    Inr (st\<lparr>stream_usage := (stream_usage st)\<lparr>prompt_tokens := p, cached_tokens := r, cache_write_tokens := w\<rparr>\<rparr>))
           | _ \<Rightarrow> Inr st)
      | _ \<Rightarrow> Inl broken)"

fun stop_reason_of :: "json option \<Rightarrow> failure + string option" where
  "stop_reason_of None = Inr None"
| "stop_reason_of (Some JNull) = Inr None"
| "stop_reason_of (Some (JStr s)) = Inr (Some (finish_reason_of s))"
| "stop_reason_of (Some _) = Inl broken"

definition on_message_delta :: "(token_usage \<Rightarrow> string) \<Rightarrow> json \<Rightarrow> event_state \<Rightarrow> failure + stream_chunk list \<times> event_state" where
  "on_message_delta show_usage e st =
     (let counted = (case get_default ''usage'' (JObj []) e of
          JObj u \<Rightarrow>
            (case int_field ''output_tokens'' (JObj u) of
               None \<Rightarrow> Inl broken
             | Some n \<Rightarrow> Inr ((stream_usage st)\<lparr>completion_tokens := n, total_tokens := prompt_tokens (stream_usage st) + n\<rparr>))
        | _ \<Rightarrow> Inr (stream_usage st)) in
      bind_err counted (\<lambda>u.
      bind_err (stop_reason_of (json_get ''stop_reason'' (get_default ''delta'' (JObj []) e))) (\<lambda>fr.
        Inr ([\<lparr>ch_usage = Some (show_usage u), ch_choice = Some (fr, no_delta)\<rparr>], st\<lparr>stream_usage := u\<rparr>))))"

definition STREAM_ERROR_STATUS :: "(string \<times> nat) list" where
  "STREAM_ERROR_STATUS =
     [(''invalid_request_error'', 400), (''authentication_error'', 401), (''permission_error'', 403), (''not_found_error'', 404),
      (''request_too_large'', 413), (''rate_limit_error'', 429), (''api_error'', 500), (''overloaded_error'', 529)]"

definition stream_error_event :: "string \<Rightarrow> json \<Rightarrow> failure" where
  "stream_error_event raw e =
     (let ty = (case Option.bind (json_get ''error'' e) (json_get ''type'') of Some (JStr t) \<Rightarrow> t | _ \<Rightarrow> ''api_error'') in
      HttpError \<lparr>status_code = (case map_of STREAM_ERROR_STATUS ty of Some n \<Rightarrow> n | None \<Rightarrow> 500), retry_after_header = [], body_text = Some raw\<rparr>)"

definition on_event :: "(json \<Rightarrow> string) \<Rightarrow> (token_usage \<Rightarrow> string) \<Rightarrow> string \<Rightarrow> json \<Rightarrow> event_state \<Rightarrow> failure + stream_chunk list \<times> event_state" where
  "on_event pystr show_usage raw e st =
     (if has_type e ''error'' then Inl (stream_error_event raw e)
      else if has_type e ''message_start'' then bind_err (on_message_start e st) (\<lambda>st'. Inr ([], st'))
      else if has_type e ''content_block_start'' then Inr (on_block_start pystr e st)
      else if has_type e ''message_delta'' then on_message_delta show_usage e st
      else Inr (on_block_delta e st))"

text \<open>
  The lines of the response, in order; \<open>ends\<close> says whether the connection breaks after them. The
  result is what was yielded, the failure if any, and the state at the end.
\<close>

fun read_lines :: "(string \<Rightarrow> json option) \<Rightarrow> (json \<Rightarrow> string) \<Rightarrow> (token_usage \<Rightarrow> string) \<Rightarrow> failure option \<Rightarrow> string list \<Rightarrow> event_state \<Rightarrow>
    stream_chunk list \<times> failure option \<times> event_state" where
  "read_lines loads pystr show_usage ends [] st = ([], ends, st)"
| "read_lines loads pystr show_usage ends (l # ls) st =
     (if \<not> startswith l ''data: '' then read_lines loads pystr show_usage ends ls st
      else let raw = removeprefix l ''data: '' in
        if raw = ''[DONE]'' then ([], None, st)
        else case loads raw of
            None \<Rightarrow> ([], Some broken, st)
          | Some e \<Rightarrow>
              (case on_event pystr show_usage raw e st of
                 Inl f \<Rightarrow> ([], Some f, st)
               | Inr (cs, st') \<Rightarrow> let (cs', f, st'') = read_lines loads pystr show_usage ends ls st' in (cs @ cs', f, st'')))"

datatype http_reply = Refused failure | Opened "string list" "failure option"

definition ordered_blocks :: "event_state \<Rightarrow> json list" where
  "ordered_blocks st = List.map_filter (map_of (streamed_blocks st)) (raw_block_order st)"

fun anthropic_stream :: "(string \<Rightarrow> json option) \<Rightarrow> (json \<Rightarrow> string) \<Rightarrow> (token_usage \<Rightarrow> string) \<Rightarrow> http_reply \<Rightarrow> stream_chunk list \<times> failure option" where
  "anthropic_stream loads pystr show_usage (Refused f) = ([], Some f)"
| "anthropic_stream loads pystr show_usage (Opened ls ends) =
     (let (cs, f, st) = read_lines loads pystr show_usage ends ls start_state in
      if f \<noteq> None then (cs, f)
      else (cs @ (if raw_block_order st = [] then [] else [delta_chunk (no_delta\<lparr>d_raw_blocks := Some (ordered_blocks st)\<rparr>)]), None))"

section \<open>A response read at once\<close>

definition response_blocks :: "json \<Rightarrow> json list option" where
  \<comment> \<open>None: the content cannot be iterated; the items of a text or a dictionary are no dictionaries\<close>
  "response_blocks data = (case get_default ''content'' (JArr []) data of JArr bs \<Rightarrow> Some bs | JStr _ \<Rightarrow> Some [] | JObj _ \<Rightarrow> Some [] | _ \<Rightarrow> None)"

text \<open>\<open>"".join(...)\<close> over a key of the blocks of a type: a value that is no string raises.\<close>

fun join_field :: "string \<Rightarrow> json list \<Rightarrow> string option" where
  "join_field k [] = Some []"
| "join_field k (b # bs) =
     (case get_default k (JStr []) b of JStr s \<Rightarrow> map_option (\<lambda>r. s @ r) (join_field k bs) | _ \<Rightarrow> None)"

definition of_type :: "string \<Rightarrow> json list \<Rightarrow> json list" where
  "of_type t bs = filter (\<lambda>b. has_type b t) bs"

definition response_call :: "(json \<Rightarrow> string) \<Rightarrow> (json \<Rightarrow> string) \<Rightarrow> json \<Rightarrow> call_buffer" where
  "response_call dumps pystr b =
     \<lparr>cb_id = to_str pystr (get_default ''id'' (JStr []) b), cb_name = to_str pystr (get_default ''name'' (JStr []) b),
      cb_arguments = dumps (get_truthy ''input'' (JObj []) b), cb_thought = None, cb_signature = None\<rparr>"

definition captured_block :: "(json \<Rightarrow> string) \<Rightarrow> json \<Rightarrow> json list" where
  "captured_block pystr b =
     (if has_type b ''thinking'' then [thinking_block (get_default ''thinking'' (JStr []) b) (get_default ''signature'' (JStr []) b)]
      else if has_type b ''redacted_thinking'' then [redacted_block (get_default ''data'' (JStr []) b)]
      else if has_type b ''text'' then [typed ''text'' [(''text'', get_default ''text'' (JStr []) b)]]
      else if has_type b ''tool_use'' then [tool_ref (to_str pystr (get_default ''id'' (JStr []) b))]
      else [])"

definition response_usage :: "json \<Rightarrow> token_usage option option" where
  \<comment> \<open>None: \<open>int\<close> raises; Some None: no usage is reported\<close>
  "response_usage data =
     (case json_get ''usage'' data of
        Some (JObj u) \<Rightarrow>
          (case (prompt_usage_from_raw (JObj u), int_field ''output_tokens'' (JObj u)) of
             (Some (p, r, w), Some n) \<Rightarrow>
               Some (Some \<lparr>prompt_tokens = p, completion_tokens = n, total_tokens = p + n, cached_tokens = r, cache_write_tokens = w\<rparr>)
           | _ \<Rightarrow> None)
      | _ \<Rightarrow> Some None)"

definition parse_response :: "(json \<Rightarrow> string) \<Rightarrow> (json \<Rightarrow> string) \<Rightarrow> (token_usage \<Rightarrow> string) \<Rightarrow> json \<Rightarrow> message option" where
  "parse_response dumps pystr show_usage data =
     Option.bind (if is_dict data then response_blocks data else None) (\<lambda>bs.
     Option.bind (join_field ''text'' (of_type ''text'' bs)) (\<lambda>txt.
     Option.bind (join_field ''thinking'' (of_type ''thinking'' bs)) (\<lambda>thought.
     Option.bind (join_field ''signature'' (of_type ''thinking'' bs)) (\<lambda>sig.
     Option.bind (response_usage data) (\<lambda>u.
       Some \<lparr>m_content = non_empty txt, m_reasoning = non_empty thought, m_signature = non_empty sig, m_items = None,
         m_tool_calls = non_empty (map (response_call dumps pystr) (of_type ''tool_use'' bs)),
         m_redacted = map (\<lambda>b. redacted_block (get_default ''data'' (JStr []) b)) (of_type ''redacted_thinking'' bs),
         m_raw_blocks = non_empty (concat (map (captured_block pystr) bs)),
         x_usage = map_option show_usage u, x_finish_reason = None, x_dropped = []\<rparr>)))))"

section \<open>The request of a conversation\<close>

text \<open>
  What \<open>stream_and_assemble\<close> sends for the messages of the conversation: the system prompt first,
  adjacent user messages merged.
\<close>

definition wire_request ::
  "(string \<Rightarrow> json option) \<Rightarrow> (json \<Rightarrow> string) \<Rightarrow> (chat_msg \<Rightarrow> part list) \<Rightarrow> string \<Rightarrow> chat_msg list \<Rightarrow>
   wire_error + json list option \<times> wire_message list" where
  "wire_request loads pystr parts system_prompt ms =
     split_messages loads pystr
       (merge_consecutive_user_messages (OtherMessage (SystemMessage (Some system_prompt)) # map (provider_message parts) ms))"

end
