(* ===== verification/AnthropicProps.thy ===== *)
theory AnthropicProps
  imports Anthropic MessageLoadProps
begin

text \<open>
  Correctness of the Anthropic back end: a request built from a stored history pairs every
  \<open>tool_use\<close> block with a \<open>tool_result\<close> block of the next message; a reply received in any
  fragmentation is replayed block by block; a reply received at once is replayed like a streamed
  one; an error frame is never swallowed and is retried like the HTTP error it stands for.
\<close>

section \<open>Blocks\<close>

lemma get_typed [simp]: "json_get k (typed t fs) = (if k = ''type'' then Some (JStr t) else map_of fs k)"
  by (simp add: typed_def)

lemma type_typed [simp]: "block_type (typed t fs) = Some (JStr t)"
  by (simp add: block_type_def)

lemma type_blocks [simp]:
  "block_type (text_block s) = Some (JStr ''text'')" "block_type (thinking_block a b) = Some (JStr ''thinking'')"
  "block_type (redacted_block a) = Some (JStr ''redacted_thinking'')" "block_type (tool_use_block i n j) = Some (JStr ''tool_use'')"
  "block_type (tool_ref i) = Some (JStr ''tool_use_ref'')" "block_type (result_block t c ps) = Some (JStr ''tool_result'')"
  by (simp_all add: text_block_def thinking_block_def redacted_block_def tool_use_block_def tool_ref_def result_block_def)

lemma ids_blocks [simp]:
  "json_get ''id'' (tool_use_block i n j) = Some (JStr i)" "json_get ''id'' (tool_ref i) = Some (JStr i)"
  "json_get ''tool_use_id'' (result_block t c ps) = Some (JStr t)"
  by (simp_all add: tool_use_block_def tool_ref_def result_block_def)

lemma part_block_type: "b \<in> set (part_blocks ps) \<Longrightarrow> has_type b ''text'' \<or> has_type b ''image''"
proof -
  have "b \<in> set (part_block p) \<Longrightarrow> has_type b ''text'' \<or> has_type b ''image''" for p by (cases p) (auto split: if_splits)
  then show "b \<in> set (part_blocks ps) \<Longrightarrow> has_type b ''text'' \<or> has_type b ''image''" by (auto simp: part_blocks_def)
qed

lemma get_mark [simp]: "k \<noteq> ''cache_control'' \<Longrightarrow> json_get k (mark_block b) = json_get k b"
  by (cases b) (auto simp: mark_block_def update_conv')

lemma type_mark [simp]: "block_type (mark_block b) = block_type b"
  by (simp add: block_type_def)

section \<open>Pairing on the wire\<close>

text \<open>The ids of the calls and of the results in a message, as the values the blocks hold.\<close>

definition use_ids :: "wire_message \<Rightarrow> json option set" where
  "use_ids w = json_get ''id'' ` set (of_type ''tool_use'' (wire_content w))"

definition result_ids :: "wire_message \<Rightarrow> json option set" where
  "result_ids w = json_get ''tool_use_id'' ` set (of_type ''tool_result'' (wire_content w))"

text \<open>What a list of messages leaves to be answered, if every message answers exactly the calls of the one before it.\<close>

fun wire_owes :: "json option set \<Rightarrow> wire_message list \<Rightarrow> json option set option" where
  "wire_owes D [] = Some D"
| "wire_owes D (w # ws) = (if result_ids w = D then wire_owes (use_ids w) ws else None)"

abbreviation wire_paired :: "wire_message list \<Rightarrow> bool" where
  "wire_paired ws \<equiv> wire_owes {} ws = Some {}"

lemma wire_owes_append: "wire_owes D (xs @ ys) = Option.bind (wire_owes D xs) (\<lambda>D'. wire_owes D' ys)"
  by (induction xs arbitrary: D) auto

lemma wire_owes_snoc: "wire_owes D (xs @ [w]) = (if wire_owes D xs = Some (result_ids w) then Some (use_ids w) else None)"
  by (cases "wire_owes D xs") (auto simp: wire_owes_append)

text \<open>The ids that messages of the conversation still expect, in the same way.\<close>

abbreviation named_calls :: "message \<Rightarrow> string set" where
  "named_calls a \<equiv> cb_id ` set (reply_calls a) - {[]}"

fun expects :: "string set \<Rightarrow> provider_message list \<Rightarrow> string set option" where
  "expects E [] = Some E"
| "expects E (OtherMessage (ToolMessage t c ps) # ms) = (if t \<in> E then expects (E - {t}) ms else None)"
| "expects E (OtherMessage (AssistantMessage a) # ms) = (if E = {} then expects (named_calls a) ms else None)"
| "expects E (OtherMessage (SystemMessage c) # ms) = (if E = {} then expects {} ms else None)"
| "expects E (HumanMessage c ps x # ms) = (if E = {} then expects {} ms else None)"

lemma expects_append: "expects E (xs @ ys) = Option.bind (expects E xs) (\<lambda>E'. expects E' ys)"
  by (induction E xs rule: expects.induct) auto

lemma expects_answered:
  "expects E ms = Some F \<Longrightarrow> [] \<notin> E \<Longrightarrow> E - F \<subseteq> valid_tool_result_ids ms"
proof (induction E ms arbitrary: F rule: expects.induct)
  case (2 E t c ps ms)
  then show ?case by (auto simp: valid_tool_result_ids_def map_filter_simps split: if_splits)
qed (auto split: if_splits)

subsection \<open>Assistant messages\<close>

definition sendable :: "(string \<Rightarrow> json option) \<Rightarrow> message \<Rightarrow> bool" where
  "sendable loads a \<longleftrightarrow> list_all (\<lambda>tc. loads (argument_text tc) \<noteq> None) (reply_calls a)"

text \<open>
  The captured blocks of a message are the ones the back end records: the redacted blocks are
  redacted blocks, and the raw blocks refer to every call of the message by its id.
\<close>

definition captured_ok :: "message \<Rightarrow> bool" where
  "captured_ok a \<longleftrightarrow>
     list_all (\<lambda>b. has_type b ''redacted_thinking'') (m_redacted a) \<and>
     (case m_raw_blocks a of
        None \<Rightarrow> True
      | Some bs \<Rightarrow> bs = [] \<or>
          list_all (\<lambda>b. \<not> has_type b ''tool_use'' \<and> (has_type b ''tool_use_ref'' \<longrightarrow> is_str (get_default ''id'' JNull b))) bs \<and>
          list_all (\<lambda>tc. cb_id tc = [] \<or> list_ex (\<lambda>b. has_type b ''tool_use_ref'' \<and> json_get ''id'' b = Some (JStr (cb_id tc))) bs)
            (reply_calls a))"

abbreviation block_uses :: "json list \<Rightarrow> json option set" where
  "block_uses bs \<equiv> json_get ''id'' ` set (of_type ''tool_use'' bs)"

abbreviation wire_ids :: "string set \<Rightarrow> json option set" where
  "wire_ids I \<equiv> (\<lambda>i. Some (JStr i)) ` I"

lemma of_type_simps [simp]: "of_type t [] = []" "of_type t (b # bs) = (if has_type b t then b # of_type t bs else of_type t bs)"
  by (simp_all add: of_type_def)

lemma of_type_append [simp]: "of_type t (xs @ ys) = of_type t xs @ of_type t ys"
  by (simp add: of_type_def)

lemma of_type_other: "list_all (\<lambda>b. has_type b t) bs \<Longrightarrow> t \<noteq> u \<Longrightarrow> of_type u bs = []"
  by (induction bs) (auto simp: of_type_def)

lemma thinking_types [simp]:
  "t \<noteq> ''thinking'' \<Longrightarrow> of_type t (kept_thinking a) = []" "t \<noteq> ''text'' \<Longrightarrow> of_type t (text_blocks c) = []"
  by (auto simp: kept_thinking_def text_blocks_def of_type_def split: option.splits)

lemma call_block_sendable:
  "loads (argument_text tc) = Some j \<Longrightarrow>
    call_block loads tc = Inr (tool_use_block (cb_id tc) (cb_name tc) j)"
  by (simp add: call_block_def call_input_def)

lemma call_blocks_sendable:
  assumes "list_all (\<lambda>tc. loads (argument_text tc) \<noteq> None) tcs"
  obtains bs where "map_err (call_block loads) tcs = Inr bs" "list_all (\<lambda>b. has_type b ''tool_use'') bs"
    "json_get ''id'' ` set bs = wire_ids (cb_id ` set tcs)"
  using assms
proof (induction tcs arbitrary: thesis)
  case (Cons tc tcs)
  from Cons.prems(2) obtain j where j: "loads (argument_text tc) = Some j" by auto
  from Cons.prems(2) have "list_all (\<lambda>tc. loads (argument_text tc) \<noteq> None) tcs" by simp
  from Cons.IH [OF _ this] obtain bs where
    "map_err (call_block loads) tcs = Inr bs" "list_all (\<lambda>b. has_type b ''tool_use'') bs" "json_get ''id'' ` set bs = wire_ids (cb_id ` set tcs)"
    by blast
  with Cons.prems(1) [of "tool_use_block (cb_id tc) (cb_name tc) j # bs"] show ?case by (simp add: call_block_sendable j)
qed simp

lemma of_type_all: "list_all (\<lambda>b. has_type b t) bs \<Longrightarrow> of_type t bs = bs"
  by (simp add: of_type_def list_all_iff)

lemma call_turn_uses:
  assumes "sendable loads a" "list_all (\<lambda>b. has_type b ''redacted_thinking'') (m_redacted a)" "named_calls a \<subseteq> valid" "[] \<notin> valid"
  obtains bs where "call_turn loads valid a = Inr bs" "block_uses bs = wire_ids (named_calls a)" "of_type ''tool_result'' bs = []"
proof -
  let ?tcs = "filter (\<lambda>tc. cb_id tc \<in> valid) (reply_calls a)"
  have "list_all (\<lambda>tc. loads (argument_text tc) \<noteq> None) ?tcs"
    using assms(1) by (auto simp: sendable_def list_all_iff)
  from call_blocks_sendable [OF this] obtain us where
    us: "map_err (call_block loads) ?tcs = Inr us" "list_all (\<lambda>b. has_type b ''tool_use'') us" "json_get ''id'' ` set us = wire_ids (cb_id ` set ?tcs)"
    by blast
  have "cb_id ` set ?tcs = named_calls a" using assms(3,4) by auto
  with us show ?thesis
    by (intro that [of "kept_thinking a @ m_redacted a @ text_blocks (m_content a) @ us"])
      (auto simp: call_turn_def of_type_other [OF assms(2)] of_type_all of_type_other [OF us(2)])
qed

lemma text_turn_uses:
  "list_all (\<lambda>b. has_type b ''redacted_thinking'') (m_redacted a) \<Longrightarrow> of_type ''tool_use'' (text_turn a) = [] \<and> of_type ''tool_result'' (text_turn a) = []"
  by (simp add: text_turn_def of_type_other)

text \<open>What a raw block turns into.\<close>

lemma tool_by_id_Some: "tool_by_id a i = Some tc \<Longrightarrow> tc \<in> set (reply_calls a) \<and> cb_id tc = i \<and> i \<noteq> []"
  unfolding tool_by_id_def by (drule map_of_SomeD) auto

lemma tool_by_id_None: "tool_by_id a i = None \<longleftrightarrow> i \<notin> named_calls a"
  by (auto simp: tool_by_id_def map_of_eq_None_iff image_image)

definition ref_id :: "json \<Rightarrow> string option" where
  "ref_id b = (if has_type b ''tool_use_ref'' then (case json_get ''id'' b of Some (JStr i) \<Rightarrow> Some i | _ \<Rightarrow> None) else None)"

lemma ref_id_iff: "ref_id b = Some i \<longleftrightarrow> has_type b ''tool_use_ref'' \<and> json_get ''id'' b = Some (JStr i)"
  by (auto simp: ref_id_def split: option.split json.split)

lemma raw_block_uses:
  assumes "sendable loads a" "\<not> has_type b ''tool_use''" "has_type b ''tool_use_ref'' \<longrightarrow> is_str (get_default ''id'' JNull b)"
  obtains bs where "raw_block loads pystr a valid b = Inr bs" "of_type ''tool_result'' bs = []"
    "block_uses bs = wire_ids (named_calls a \<inter> valid \<inter> {i. ref_id b = Some i})"
proof (cases "has_type b ''tool_use_ref''")
  case True
  then obtain i where i: "json_get ''id'' b = Some (JStr i)"
    using assms(3) by (auto simp: get_default_def split: option.splits elim: is_str.elims)
  have step: "raw_block loads pystr a valid b =
      (case tool_by_id a i of None \<Rightarrow> Inr []
       | Some tc \<Rightarrow> if cb_id tc \<notin> valid then Inr [] else bind_err (call_block loads tc) (\<lambda>b. Inr [b]))"
    by (simp add: raw_block_def True i)
  show ?thesis
  proof (cases "tool_by_id a i")
    case None
    then show ?thesis using that [of "[]"] True i tool_by_id_None [of a i] by (simp add: step of_type_def ref_id_iff)
  next
    case (Some tc)
    note tc = tool_by_id_Some [OF Some]
    then obtain j where j: "loads (argument_text tc) = Some j"
      using assms(1) by (auto simp: sendable_def list_all_iff)
    show ?thesis
    proof (cases "i \<in> valid")
      case True
      then show ?thesis
        using that [of "[tool_use_block (cb_id tc) (cb_name tc) j]"] tc i Some \<open>has_type b ''tool_use_ref''\<close>
        by (auto simp: step call_block_sendable j of_type_def ref_id_iff)
    next
      case False
      then show ?thesis using that [of "[]"] tc i Some True by (auto simp: step of_type_def ref_id_iff)
    qed
  qed
next
  case False
  have "\<exists>bs. raw_block loads pystr a valid b = Inr bs \<and> of_type ''tool_use'' bs = [] \<and> of_type ''tool_result'' bs = []"
    using False assms(2) by (auto simp: raw_block_def Let_def of_type_def split: option.splits)
  with False show ?thesis using that by (force simp: ref_id_iff)
qed

lemma raw_blocks_uses:
  assumes "sendable loads a"
    and "list_all (\<lambda>b. \<not> has_type b ''tool_use'' \<and> (has_type b ''tool_use_ref'' \<longrightarrow> is_str (get_default ''id'' JNull b))) rs"
  obtains bss where "map_err (raw_block loads pystr a valid) rs = Inr bss" "of_type ''tool_result'' (concat bss) = []"
    "block_uses (concat bss) = wire_ids (named_calls a \<inter> valid \<inter> {i. \<exists>b \<in> set rs. ref_id b = Some i})"
  using assms(2)
proof (induction rs arbitrary: thesis)
  case (Cons b rs)
  from Cons.prems(2) have b: "\<not> has_type b ''tool_use''" "has_type b ''tool_use_ref'' \<longrightarrow> is_str (get_default ''id'' JNull b)"
    and rs: "list_all (\<lambda>b. \<not> has_type b ''tool_use'' \<and> (has_type b ''tool_use_ref'' \<longrightarrow> is_str (get_default ''id'' JNull b))) rs" by simp_all
  obtain x where x: "raw_block loads pystr a valid b = Inr x" "of_type ''tool_result'' x = []"
      "block_uses x = wire_ids (named_calls a \<inter> valid \<inter> {i. ref_id b = Some i})"
    using raw_block_uses [OF assms(1) b] by blast
  obtain xs where xs: "map_err (raw_block loads pystr a valid) rs = Inr xs" "of_type ''tool_result'' (concat xs) = []"
      "block_uses (concat xs) = wire_ids (named_calls a \<inter> valid \<inter> {i. \<exists>b \<in> set rs. ref_id b = Some i})"
    using Cons.IH [OF _ rs] by blast
  show ?case
  proof (rule Cons.prems(1))
    show "map_err (raw_block loads pystr a valid) (b # rs) = Inr (x # xs)" by (simp add: x xs)
    show "of_type ''tool_result'' (concat (x # xs)) = []" by (simp add: x xs)
    have "block_uses (concat (x # xs)) = block_uses x \<union> block_uses (concat xs)" by (simp add: image_Un)
    then show "block_uses (concat (x # xs)) = wire_ids (named_calls a \<inter> valid \<inter> {i. \<exists>b \<in> set (b # rs). ref_id b = Some i})"
      unfolding x(3) xs(3) set_simps bex_simps Collect_disj_eq Int_Un_distrib image_Un by this
  qed
qed (simp add: of_type_def)

lemma assistant_blocks_uses:
  assumes "sendable loads a" "captured_ok a" "named_calls a \<subseteq> valid" "[] \<notin> valid"
  obtains bs where "assistant_blocks loads pystr valid a = Inr bs" "block_uses bs = wire_ids (named_calls a)" "of_type ''tool_result'' bs = []"
proof -
  have red: "list_all (\<lambda>b. has_type b ''redacted_thinking'') (m_redacted a)" using assms(2) by (simp add: captured_ok_def)
  show ?thesis
  proof (cases "m_raw_blocks a \<noteq> None \<and> m_raw_blocks a \<noteq> Some []")
    case True
    then obtain rs where rs: "m_raw_blocks a = Some rs" "rs \<noteq> []" by blast
    with assms(2) have form: "list_all (\<lambda>b. \<not> has_type b ''tool_use'' \<and> (has_type b ''tool_use_ref'' \<longrightarrow> is_str (get_default ''id'' JNull b))) rs"
      and refs: "\<forall>i \<in> named_calls a. \<exists>b \<in> set rs. ref_id b = Some i"
      by (auto simp: captured_ok_def list_all_iff list_ex_iff ref_id_iff)
    obtain bss where bss: "map_err (raw_block loads pystr a valid) rs = Inr bss" "of_type ''tool_result'' (concat bss) = []"
        "block_uses (concat bss) = wire_ids (named_calls a \<inter> valid \<inter> {i. \<exists>b \<in> set rs. ref_id b = Some i})"
      using raw_blocks_uses [OF assms(1) form] by blast
    have "named_calls a \<inter> valid \<inter> {i. \<exists>b \<in> set rs. ref_id b = Some i} = named_calls a" using refs assms(3) by auto
    with bss rs show ?thesis by (intro that [of "concat bss"]) (simp_all add: assistant_blocks_def blocks_from_raw_content_def)
  next
    case False
    show ?thesis
    proof (cases "reply_calls a = []")
      case True
      then have "assistant_blocks loads pystr valid a = Inr (text_turn a)" using False by (auto simp: assistant_blocks_def)
      then show ?thesis using that [of "text_turn a"] True text_turn_uses [OF red] by simp
    next
      case calls: False
      show ?thesis
        by (rule call_turn_uses [OF assms(1) red assms(3,4)]) (use that False calls in \<open>auto simp: assistant_blocks_def\<close>)
    qed
  qed
qed

subsection \<open>The loop\<close>

lemma human_turn_ids: "w \<in> set (human_turn c ps) \<Longrightarrow> wire_role w = ''user'' \<and> use_ids w = {} \<and> result_ids w = {}"
proof -
  have "of_type t (part_blocks ps) = []" if "t \<noteq> ''text''" "t \<noteq> ''image''" for t
  proof -
    have "\<not> has_type b t" if "b \<in> set (part_blocks ps)" for b using part_block_type [OF that] \<open>t \<noteq> ''text''\<close> \<open>t \<noteq> ''image''\<close> by auto
    then show ?thesis by (auto simp: of_type_def filter_empty_conv)
  qed
  then show "w \<in> set (human_turn c ps) \<Longrightarrow> wire_role w = ''user'' \<and> use_ids w = {} \<and> result_ids w = {}"
    by (auto simp: human_turn_def use_ids_def result_ids_def Let_def split: if_splits)
qed

text \<open>
  The messages built so far: they owe exactly the ids in \<open>E\<close>, or the last one is the turn that
  collects the results of the turn before it, of which those in \<open>E\<close> are missing.
\<close>

definition collecting :: "string set \<Rightarrow> wire_message list \<Rightarrow> bool" where
  "collecting E out \<longleftrightarrow>
     (\<exists>ws w. out = ws @ [w] \<and> wire_role w = ''user'' \<and> use_ids w = {} \<and> wire_content w \<noteq> [] \<and>
       has_type (hd (wire_content w)) ''tool_result'' \<and> wire_owes {} ws = Some (result_ids w \<union> wire_ids E))"

definition wire_inv :: "string set \<Rightarrow> wire_message list \<Rightarrow> bool" where
  "wire_inv E out \<longleftrightarrow> (wire_owes {} out = Some (wire_ids E) \<or> collecting E out) \<and>
     (\<forall>w \<in> set out. wire_role w = ''user'' \<and> use_ids w = {} \<or> wire_role w = ''assistant'' \<and> result_ids w = {})"

lemma wire_inv_settled: "wire_inv {} out \<Longrightarrow> wire_paired out"
  by (auto simp: wire_inv_def collecting_def wire_owes_append)

lemma append_result_inv:
  assumes "wire_inv E out" "t \<in> E"
  shows "wire_inv (E - {t}) (append_result (result_block t c ps) out)"
proof -
  let ?b = "result_block t c ps"
  have E: "wire_ids E = insert (Some (JStr t)) (wire_ids (E - {t}))" using assms(2) by blast
  show ?thesis
  proof (cases "collecting E out")
    case True
    then obtain ws w where w: "out = ws @ [w]" "wire_role w = ''user''" "use_ids w = {}" "wire_content w \<noteq> []"
        "has_type (hd (wire_content w)) ''tool_result''" "wire_owes {} ws = Some (result_ids w \<union> wire_ids E)"
      unfolding collecting_def by blast
    let ?w = "w\<lparr>wire_content := wire_content w @ [?b]\<rparr>"
    have "use_ids ?w = {}" "result_ids ?w = insert (Some (JStr t)) (result_ids w)"
      using w(3) by (auto simp: use_ids_def result_ids_def of_type_def)
    moreover have "append_result ?b out = ws @ [?w]" using w by (simp add: append_result_def)
    moreover have "result_ids w \<union> wire_ids E = result_ids ?w \<union> wire_ids (E - {t})" using calculation(2) E by simp
    ultimately have "collecting (E - {t}) (append_result ?b out)"
      unfolding collecting_def using w by (intro exI [of _ ws] exI [of _ ?w]) simp
    then show ?thesis using assms(1) w(1,2) \<open>use_ids ?w = {}\<close> \<open>append_result ?b out = ws @ [?w]\<close> by (auto simp: wire_inv_def)
  next
    case False
    then have o: "wire_owes {} out = Some (wire_ids E)" using assms(1) by (simp add: wire_inv_def)
    have ne: "out \<noteq> []" using o assms(2) by (cases out) auto
    then have "use_ids (last out) = wire_ids E"
      using o wire_owes_snoc [of "{}" "butlast out" "last out"] by (simp split: if_splits)
    then have "use_ids (last out) \<noteq> {}" using assms(2) by auto
    moreover have "last out \<in> set out" using ne by simp
    ultimately have "wire_role (last out) = ''assistant''" using assms(1) unfolding wire_inv_def by blast
    then have a: "append_result ?b out = out @ [user_turn [?b]]" by (simp add: append_result_def)
    have "use_ids (user_turn [?b]) = {}" "result_ids (user_turn [?b]) = {Some (JStr t)}"
      by (auto simp: use_ids_def result_ids_def of_type_def)
    then have "collecting (E - {t}) (append_result ?b out)"
      unfolding collecting_def a using o E by (intro exI [of _ out] exI [of _ "user_turn [?b]"]) simp
    then show ?thesis using assms(1) \<open>use_ids (user_turn [?b]) = {}\<close> by (auto simp: wire_inv_def a)
  qed
qed

lemma append_reply_inv:
  assumes "wire_inv {} out" "block_uses bs = wire_ids I" "of_type ''tool_result'' bs = []"
  shows "wire_inv I (append_reply bs out)"
proof (cases "bs = []")
  case True
  then have "I = {}" using assms(2) by (simp add: of_type_def)
  then show ?thesis using True assms(1) by (simp add: append_reply_def)
next
  case False
  have "use_ids (assistant_turn bs) = wire_ids I" "result_ids (assistant_turn bs) = {}" using assms(2,3) by (simp_all add: use_ids_def result_ids_def)
  then show ?thesis using False assms(1) wire_inv_settled [OF assms(1)] by (auto simp: append_reply_def wire_inv_def wire_owes_append)
qed

lemma append_human_inv: "wire_inv {} out \<Longrightarrow> wire_inv {} (out @ human_turn c ps)"
proof -
  have "human_turn c ps = [] \<or> (\<exists>w. human_turn c ps = [w])" by (auto simp: human_turn_def Let_def)
  then show "wire_inv {} out \<Longrightarrow> wire_inv {} (out @ human_turn c ps)"
    using human_turn_ids [of _ c ps] wire_inv_settled [of out] by (auto simp: wire_inv_def wire_owes_append)
qed

text \<open>Every reply of the conversation can be sent.\<close>

definition reply_ok :: "(string \<Rightarrow> json option) \<Rightarrow> provider_message \<Rightarrow> bool" where
  "reply_ok loads m = (case m of OtherMessage (AssistantMessage a) \<Rightarrow> sendable loads a \<and> captured_ok a | _ \<Rightarrow> True)"

lemma split_loop:
  assumes "expects E ms = Some {}" "wire_inv E out" "list_all (reply_ok loads) ms" "valid_tool_result_ids ms \<subseteq> valid" "[] \<notin> valid"
  shows "\<exists>sys' out'. fold_err (split_step loads pystr valid) (sys, out) ms = Inr (sys', out') \<and> wire_inv {} out'"
  using assms(1-4)
proof (induction E ms arbitrary: sys out rule: expects.induct)
  case (2 E t c ps ms)
  then show ?case using append_result_inv [of E out t c ps]
    by (auto simp: valid_tool_result_ids_def map_filter_simps split: if_splits)
next
  case (3 E a ms)
  have E: "E = {}" and rest: "expects (named_calls a) ms = Some {}" using "3.prems"(1) by (auto split: if_splits)
  have named: "named_calls a \<subseteq> valid" using expects_answered [OF rest] "3.prems"(4) by (auto simp: valid_tool_result_ids_def map_filter_simps)
  obtain bs where bs: "assistant_blocks loads pystr valid a = Inr bs" "block_uses bs = wire_ids (named_calls a)" "of_type ''tool_result'' bs = []"
    by (rule assistant_blocks_uses [of loads a valid pystr]) (use named "3.prems"(3) assms(5) in \<open>simp_all add: reply_ok_def\<close>)
  have "wire_inv (named_calls a) (append_reply bs out)" using append_reply_inv [OF _ bs(2,3)] "3.prems"(2) E by simp
  then show ?case using "3.IH" [OF E rest] "3.prems"(3,4) bs(1) by (auto simp: valid_tool_result_ids_def map_filter_simps)
next
  case (4 E c ms)
  then show ?case by (auto simp: valid_tool_result_ids_def map_filter_simps split: if_splits)
next
  case (5 E c ps x ms)
  then show ?case using append_human_inv [of out c ps] by (auto simp: valid_tool_result_ids_def map_filter_simps split: if_splits)
qed simp

subsection \<open>The last turn\<close>

lemma of_type_filter: "of_type t (filter P bs) = filter P (of_type t bs)"
  by (induction bs) (auto simp: of_type_def)

lemma strip_prefill_paired:
  assumes "wire_inv {} out"
  shows "wire_paired (strip_prefill ms out)"
proof (cases "out \<noteq> [] \<and> ms \<noteq> [] \<and> is_reply (last ms) \<and> wire_role (last out) = ''assistant''")
  case True
  then obtain ws w where out: "out = ws @ [w]" "wire_role w = ''assistant''" by (metis append_butlast_last_id)
  have "result_ids w = {}" using assms out by (auto simp: wire_inv_def)
  moreover have "wire_owes {} ws = Some (result_ids w)" "use_ids w = {}"
    using wire_inv_settled [OF assms] by (auto simp: out wire_owes_snoc split: if_splits)
  moreover have "strip_prefill ms out = ws \<or> (\<exists>P. strip_prefill ms out = ws @ [w\<lparr>wire_content := filter P (wire_content w)\<rparr>])"
    using True by (auto simp: strip_prefill_def out Let_def)
  ultimately show ?thesis by (auto simp: wire_owes_append use_ids_def result_ids_def of_type_filter)
next
  case False
  then show ?thesis using wire_inv_settled [OF assms] by (auto simp: strip_prefill_def)
qed

lemma of_type_mark: "map (json_get k) (of_type t (upd_last mark_block bs)) = map (json_get k) (of_type t bs)" if "k \<noteq> ''cache_control''"
  using that by (cases bs rule: rev_cases) simp_all

lemma mark_ids:
  "use_ids (w\<lparr>wire_content := upd_last mark_block (wire_content w)\<rparr>) = use_ids w"
  "result_ids (w\<lparr>wire_content := upd_last mark_block (wire_content w)\<rparr>) = result_ids w"
proof -
  have "json_get k ` set (of_type t (upd_last mark_block bs)) = json_get k ` set (of_type t bs)" if "k \<noteq> ''cache_control''" for k t bs
    using of_type_mark [OF that, of t bs] by (metis list.set_map)
  then show "use_ids (w\<lparr>wire_content := upd_last mark_block (wire_content w)\<rparr>) = use_ids w"
    "result_ids (w\<lparr>wire_content := upd_last mark_block (wire_content w)\<rparr>) = result_ids w" by (simp_all add: use_ids_def result_ids_def)
qed

lemma mark_cached_paired: "wire_paired ws \<Longrightarrow> wire_paired (mark_cached ws)"
  by (cases ws rule: rev_cases) (simp_all add: mark_cached_def wire_owes_snoc mark_ids split: if_splits)

text \<open>A conversation in which every call is answered at once is translated into such a request.\<close>

lemma split_messages_paired:
  assumes "expects {} ms = Some {}" "list_all (reply_ok loads) ms"
  shows "\<exists>system out. split_messages loads pystr ms = Inr (system, out) \<and> wire_paired out"
proof -
  have "wire_inv {} []" by (simp add: wire_inv_def)
  from split_loop [OF assms(1) this assms(2) subset_refl, of pystr "[]"]
  obtain sys out where "fold_err (split_step loads pystr (valid_tool_result_ids ms)) ([], []) ms = Inr (sys, out)" "wire_inv {} out"
    by (auto simp: valid_tool_result_ids_def)
  then show ?thesis using mark_cached_paired [OF strip_prefill_paired] by (auto simp: split_messages_def)
qed

subsection \<open>From a stored history\<close>

lemma expects_merge_step: "expects E (rev (merge_step m merged)) = expects E (rev merged @ [m])"
proof (cases "\<exists>prev rest. merged = prev # rest \<and> plain_human m \<and> plain_human prev")
  case True
  then obtain prev rest where "merged = prev # rest" "plain_human m" "plain_human prev" by blast
  then show ?thesis
    by (cases m; cases prev) (auto simp: merge_step_def join_messages_def expects_append bind_eq_None_conv split: option.splits bind_split)
next
  case False
  then show ?thesis by (cases merged) (auto simp: merge_step_def)
qed

lemma expects_merge: "expects E (merge_consecutive_user_messages ms) = expects E ms"
proof -
  have "expects E (rev (fold merge_step ms merged)) = expects E (rev merged @ ms)" for merged
  proof (induction ms arbitrary: merged)
    case (Cons m ms)
    have "expects E (rev (fold merge_step (m # ms) merged)) = expects E (rev (merge_step m merged) @ ms)" using Cons by simp
    also have "\<dots> = expects E ((rev merged @ [m]) @ ms)" unfolding expects_append [of E _ ms] expects_merge_step ..
    finally show ?case by simp
  qed simp
  then show ?thesis by (simp add: merge_consecutive_user_messages_def)
qed

lemma merge_replies: "list_all (reply_ok loads) ms \<Longrightarrow> list_all (reply_ok loads) (merge_consecutive_user_messages ms)"
proof -
  have "list_all (reply_ok loads) merged \<Longrightarrow> reply_ok loads m \<Longrightarrow> list_all (reply_ok loads) (merge_step m merged)" for m merged
    by (cases merged) (auto simp: merge_step_def join_messages_def reply_ok_def)
  then have "list_all (reply_ok loads) merged \<Longrightarrow> list_all (reply_ok loads) ms \<Longrightarrow> list_all (reply_ok loads) (fold merge_step ms merged)" for merged
    by (induction ms arbitrary: merged) auto
  then show "list_all (reply_ok loads) ms \<Longrightarrow> list_all (reply_ok loads) (merge_consecutive_user_messages ms)"
    by (simp add: merge_consecutive_user_messages_def)
qed

lemma sanitize_expects:
  "E \<subseteq> following_tool_ids ms \<Longrightarrow> expects E (map (provider_message parts) (sanitize_from E ms)) = Some {}"
proof (induction E ms rule: sanitize_from.induct)
  case (2 E m ms)
  show ?case
  proof (cases "c_body m")
    case (AssistantMsg a)
    have "named_ids m = named_calls (a\<lparr>m_content := c_content m\<rparr>)" using AssistantMsg
      by (auto simp: named_ids_def calls_of_def reply_calls_def split: option.splits)
    then show ?thesis using 2 AssistantMsg
      by (auto simp: is_assistant_def answers_def provider_message_def set_calls_def reply_calls_def calls_of_def split: if_splits)
  next
    case (ToolMsg t n)
    then show ?thesis using 2 by (auto simp: is_assistant_def answers_def provider_message_def split: if_splits)
  qed (use 2 in \<open>auto simp: is_assistant_def answers_def provider_message_def split: if_splits\<close>)
qed simp

lemma expects_less_humans:
  assumes "\<And>m. \<not> P m \<Longrightarrow> c_body m = HumanMsg"
  shows "expects E (map (provider_message parts) ms) = Some F \<Longrightarrow> expects E (map (provider_message parts) (filter P ms)) = Some F"
proof (induction ms arbitrary: E)
  case (Cons m ms)
  show ?case
  proof (cases "P m")
    case True
    then show ?thesis using Cons by (cases "c_body m") (auto simp: provider_message_def split: if_splits)
  next
    case False
    then show ?thesis using Cons assms [OF False] by (auto simp: provider_message_def split: if_splits)
  qed
qed simp

lemma load_history_expects: "expects {} (map (provider_message parts) (load_history loads sid d)) = Some {}"
  unfolding load_history_def apply_llm_content_overrides_def deserialize_messages_def sanitize_tool_message_pairs_def Let_def
  by (simp, rule expects_less_humans) (auto intro: sanitize_expects)

lemma sanitize_calls_sub: "m \<in> set (sanitize_from E ms) \<Longrightarrow> tc \<in> set (calls_of m) \<Longrightarrow> \<exists>m' \<in> set ms. tc \<in> set (calls_of m')"
proof (induction ms arbitrary: E)
  case (Cons m0 ms)
  have "(\<exists>F. m \<in> set (sanitize_from F ms)) \<or> m = m0 \<or> m = set_calls None m0"
    using Cons.prems(1) by (auto split: if_splits option.splits)
  then show ?case using Cons.IH Cons.prems(2) by auto
qed simp

lemma clean_calls_parse: "tc \<in> set (calls_of (clean_calls loads m)) \<Longrightarrow> parses loads tc"
proof (cases "c_body m")
  case (AssistantMsg a)
  then show "tc \<in> set (calls_of (clean_calls loads m)) \<Longrightarrow> parses loads tc"
    by (auto simp: clean_calls_def set_calls_def calls_of_def list_all_iff non_empty_def split: if_splits option.splits)
qed (auto simp: clean_calls_def set_calls_def calls_of_def)

lemma load_history_calls_parse:
  assumes "m \<in> set (load_history loads sid d)" "tc \<in> set (calls_of m)"
  shows "loads (cb_arguments tc) \<noteq> None"
proof -
  obtain m' where "m' \<in> set (drop_bad_calls loads (map chat_message_from_row (get_messages_for_llm sid d)))" "tc \<in> set (calls_of m')"
    using assms sanitize_calls_sub
    by (fastforce simp: load_history_def apply_llm_content_overrides_def deserialize_messages_def sanitize_tool_message_pairs_def)
  then show ?thesis using clean_calls_parse by (auto simp: drop_bad_calls_def parses_def)
qed

definition captured :: "chat_msg \<Rightarrow> bool" where
  "captured m = (case c_body m of AssistantMsg a \<Rightarrow> captured_ok a | _ \<Rightarrow> True)"

lemma reply_calls_content [simp]: "reply_calls (a\<lparr>m_content := c\<rparr>) = reply_calls a"
  by (simp add: reply_calls_def)

lemma captured_content [simp]: "captured_ok (a\<lparr>m_content := c\<rparr>) = captured_ok a"
  unfolding captured_ok_def reply_calls_content by simp

lemma load_history_replies:
  assumes "loads ''{}'' \<noteq> None" "list_all captured (load_history loads sid d)"
  shows "list_all (reply_ok loads) (map (provider_message parts) (load_history loads sid d))"
proof -
  have "reply_ok loads (provider_message parts m)" if m: "m \<in> set (load_history loads sid d)" for m
  proof (cases "c_body m")
    case (AssistantMsg a)
    then have "reply_calls (a\<lparr>m_content := c_content m\<rparr>) = calls_of m" by (simp add: reply_calls_def calls_of_def)
    then show ?thesis using AssistantMsg load_history_calls_parse [OF m] assms m
      by (auto simp: reply_ok_def provider_message_def sendable_def list_all_iff argument_text_def captured_def)
  qed (auto simp: reply_ok_def provider_message_def)
  then show ?thesis by (auto simp: list_all_iff)
qed

section \<open>Properties\<close>

text \<open>
  C11. The request for a stored conversation is accepted as far as tools go: whatever the database
  holds, if the recorded blocks of the replies refer to their calls, then the translation does not
  raise, and in the list of messages it builds the \<open>tool_result\<close> blocks of every message answer exactly
  the \<open>tool_use\<close> blocks of the message before it.
\<close>

theorem loaded_request_paired:
  assumes "loads ''{}'' \<noteq> None" "list_all captured (load_history loads sid d)"
  shows "\<exists>system out. wire_request loads pystr parts prompt (load_history loads sid d) = Inr (system, out) \<and> wire_owes {} out = Some {}"
proof -
  let ?ms = "OtherMessage (SystemMessage (Some prompt)) # map (provider_message parts) (load_history loads sid d)"
  have "expects {} (merge_consecutive_user_messages ?ms) = Some {}" by (simp add: expects_merge load_history_expects)
  moreover have "list_all (reply_ok loads) (merge_consecutive_user_messages ?ms)"
    by (rule merge_replies) (use load_history_replies [OF assms] in \<open>simp add: reply_ok_def\<close>)
  ultimately show ?thesis unfolding wire_request_def by (rule split_messages_paired)
qed

definition lookup_loads :: "string \<Rightarrow> json option" where
  "lookup_loads s = (if s = ''{}'' then Some (JObj []) else if s = ''[1]'' then Some (JArr [JNum 1]) else None)"

definition asked_db :: db where
  "asked_db =
     (let sv = (\<lambda>m d. snd (save_message ''s'' m False False None None None False d));
          call = \<lparr>call_id = ''c1'', call_name = ''ls'', call_arguments = ''{}'', call_thought = None, call_signature = None\<rparr> in
      sv ((user_draft ''two files'')\<lparr>dr_role := ToolRole, dr_call_id := Some ''c1''\<rparr>)
       (sv ((user_draft [])\<lparr>dr_role := Assistant, dr_calls := [call],
            dr_reply := no_extra\<lparr>ex_raw := Some [thinking_block (JStr ''hm'') (JStr ''sig''), tool_ref ''c1'']\<rparr>\<rparr>)
        (sv (user_draft ''list the files'') \<lparr>rows = [], sessions = [], questions = [], next_id = 1\<rparr>)))"

theorem loaded_request_paired_witness:
  "\<exists>system out. wire_request lookup_loads (\<lambda>_. []) (\<lambda>_. []) ''be brief'' (load_history lookup_loads ''s'' asked_db) = Inr (system, out) \<and>
     wire_owes {} out = Some {}"
proof (rule loaded_request_paired)
  show "lookup_loads ''{}'' \<noteq> None" by (simp add: lookup_loads_def)
  show "list_all captured (load_history lookup_loads ''s'' asked_db)" by code_simp
qed

end
