(* ===== verification/AnthropicStream.thy ===== *)
theory AnthropicStream
  imports AnthropicProps
begin

text \<open>
  The replay contract of the Anthropic back end: a reply that is streamed, assembled and sent again as
  part of the next request consists of the same blocks in the same order, however the server cuts it
  into events, and a reply read at once is replayed like the streamed one.
\<close>

section \<open>What the server sends\<close>

text \<open>The content blocks of a reply, with the fragments in which their fields arrive.\<close>

datatype streamed_block =
    SThinking "string list" "string list" \<comment> \<open>text, signature\<close>
  | SRedacted json
  | SText "string list"
  | SUse string string "string list" \<comment> \<open>id, name, JSON text of the input\<close>

definition block_start :: "nat \<Rightarrow> json \<Rightarrow> json" where
  "block_start i b = typed ''content_block_start'' [(''index'', JNum (int i)), (''content_block'', b)]"

definition block_delta :: "nat \<Rightarrow> string \<Rightarrow> string \<Rightarrow> string \<Rightarrow> json" where
  "block_delta i t k s = typed ''content_block_delta'' [(''index'', JNum (int i)), (''delta'', typed t [(k, JStr s)])]"

fun block_events :: "nat \<Rightarrow> streamed_block \<Rightarrow> json list" where
  "block_events i (SThinking ts ss) = block_start i (thinking_block (JStr []) (JStr [])) #
     map (block_delta i ''thinking_delta'' ''thinking'') ts @ map (block_delta i ''signature_delta'' ''signature'') ss"
| "block_events i (SRedacted d) = [block_start i (redacted_block d)]"
| "block_events i (SText ts) = block_start i (text_block []) # map (block_delta i ''text_delta'' ''text'') ts"
| "block_events i (SUse tid name ps) = block_start i (tool_use_block tid name (JObj [])) #
     map (block_delta i ''input_json_delta'' ''partial_json'') ps"

fun reply_events :: "nat \<Rightarrow> streamed_block list \<Rightarrow> json list" where
  "reply_events i [] = []"
| "reply_events i (b # bs) = block_events i b @ reply_events (Suc i) bs"

text \<open>Events around the blocks: the envelope of the message, the end of a block, pings.\<close>

definition framing :: "json \<Rightarrow> bool" where
  "framing e \<longleftrightarrow>
     (if has_type e ''message_start'' then \<not> Option.is_none (case on_message_start e start_state of Inl _ \<Rightarrow> None | Inr x \<Rightarrow> Some x)
      else if has_type e ''message_delta'' then \<not> Option.is_none (case on_message_delta (\<lambda>_. []) e start_state of Inl _ \<Rightarrow> None | Inr x \<Rightarrow> Some x)
      else \<not> has_type e ''error'' \<and> \<not> has_type e ''content_block_start'' \<and> (case json_get ''delta'' e of Some d \<Rightarrow> \<not> is_dict d | None \<Rightarrow> True))"

text \<open>The events in the lines of a response, up to the end marker.\<close>

fun line_events :: "(string \<Rightarrow> json option) \<Rightarrow> string list \<Rightarrow> json list option" where
  "line_events loads [] = Some []"
| "line_events loads (l # ls) =
     (if \<not> startswith l ''data: '' then line_events loads ls
      else let raw = removeprefix l ''data: '' in
        if raw = ''[DONE]'' then Some []
        else case loads raw of None \<Rightarrow> None | Some e \<Rightarrow> map_option (Cons e) (line_events loads ls))"

text \<open>The block of the next request: unsigned thinking and empty text are left out.\<close>

fun replayed :: "(string \<Rightarrow> json option) \<Rightarrow> streamed_block \<Rightarrow> json list" where
  "replayed loads (SThinking ts ss) = (if concat ss = [] then [] else [thinking_block (JStr (concat ts)) (JStr (concat ss))])"
| "replayed loads (SRedacted d) = [redacted_block d]"
| "replayed loads (SText ts) = (if concat ts = [] then [] else [text_block (concat ts)])"
| "replayed loads (SUse tid name ps) =
     [tool_use_block tid name (the (loads (if concat ps = [] then ''{}'' else concat ps)))]"

fun use_id :: "streamed_block \<Rightarrow> string list" where
  "use_id (SUse tid name ps) = [tid]"
| "use_id _ = []"

definition call_ids :: "streamed_block list \<Rightarrow> string list" where
  "call_ids bs = concat (map use_id bs)"

fun block_ok :: "(string \<Rightarrow> json option) \<Rightarrow> streamed_block \<Rightarrow> bool" where
  "block_ok loads (SUse tid name ps) \<longleftrightarrow> tid \<noteq> [] \<and> name \<noteq> [] \<and> loads (if concat ps = [] then ''{}'' else concat ps) \<noteq> None"
| "block_ok loads _ \<longleftrightarrow> True"

section \<open>Reading and assembling together\<close>

definition consume :: "(json \<Rightarrow> string) \<Rightarrow> (token_usage \<Rightarrow> string) \<Rightarrow> event_state \<times> assembly \<Rightarrow> json \<Rightarrow> failure + event_state \<times> assembly" where
  "consume pystr su s e =
     bind_err (on_event pystr su [] e (fst s)) (\<lambda>(cs, st). Inr (st, fold absorb (map Chunk cs) (snd s)))"

lemma consume_Inr: "consume pystr su (st, a) e = Inr p \<Longrightarrow> \<exists>cs st'. on_event pystr su [] e st = Inr (cs, st') \<and> p = (st', fold absorb (map Chunk cs) a)"
  by (auto simp: consume_def bind_err_Inr)

lemma on_event_raw: "on_event pystr su [] e st = Inr r \<Longrightarrow> on_event pystr su raw e st = Inr r"
  by (simp add: on_event_def split: if_splits)

lemma read_lines_consume:
  assumes "line_events loads ls = Some es" "fold_err (consume pystr su) (st, a) es = Inr (st', a')"
  shows "\<exists>cs. read_lines loads pystr su None ls st = (cs, None, st') \<and> fold absorb (map Chunk cs) a = a'"
  using assms
proof (induction ls arbitrary: es st a)
  case (Cons l ls)
  let ?raw = "removeprefix l ''data: ''"
  show ?case
  proof (cases "startswith l ''data: '' \<and> ?raw \<noteq> ''[DONE]''")
    case True
    from True Cons.prems(1) obtain e es' where e: "loads ?raw = Some e" "es = e # es'" "line_events loads ls = Some es'"
      by (auto simp: Let_def split: option.splits)
    with Cons.prems(2) obtain p where p: "consume pystr su (st, a) e = Inr p" "fold_err (consume pystr su) p es' = Inr (st', a')"
      by (auto split: sum.splits)
    from consume_Inr [OF p(1)] p(2) obtain cs st1 where step: "on_event pystr su [] e st = Inr (cs, st1)"
        "fold_err (consume pystr su) (st1, fold absorb (map Chunk cs) a) es' = Inr (st', a')" by blast
    from Cons.IH [OF e(3) step(2)] obtain cs' where
      "read_lines loads pystr su None ls st1 = (cs', None, st')" "fold absorb (map Chunk cs') (fold absorb (map Chunk cs) a) = a'" by blast
    then show ?thesis using True e(1) on_event_raw [OF step(1), of ?raw] by (auto simp: Let_def intro!: exI [of _ "cs @ cs'"])
  next
    case False
    then show ?thesis using Cons by (auto simp: Let_def split: if_splits)
  qed
qed simp

section \<open>The state after some blocks\<close>

definition table :: "('a \<Rightarrow> 'b) \<Rightarrow> 'a list \<Rightarrow> (int \<times> 'b) list" where
  "table f xs = zip (map int [0..<length xs]) (map f xs)"

lemma table_simps [simp]: "table f [] = []" "table f (xs @ [x]) = table f xs @ [(int (length xs), f x)]"
  by (simp_all add: table_def)

lemma table_keys: "map fst (table f xs) = map int [0..<length xs]"
  by (simp add: table_def)

lemma table_key: "fst ` set (table f xs) = int ` {0..<length xs}"
  using arg_cong [OF table_keys [of f xs], of set] by simp

lemma table_fresh [simp]: "int (length xs) \<notin> fst ` set (table f xs)"
  by (auto simp: table_key)

lemma update_final: "k \<notin> fst ` set al \<Longrightarrow> AList.update k v (al @ [(k, w)]) = al @ [(k, v)]"
  by (induction al) auto

lemma map_of_final: "k \<notin> fst ` set al \<Longrightarrow> map_of (al @ [(k, w)]) k = Some w"
  by (induction al) auto

lemma map_of_table: "i < length xs \<Longrightarrow> map_of (table f xs) (int i) = Some (f (xs ! i))"
proof (induction xs rule: rev_induct)
  case (snoc x xs)
  show ?case
  proof (cases "i = length xs")
    case True
    then show ?thesis by (simp add: map_of_final del: map_of_append)
  next
    case False
    then show ?thesis using snoc by (simp add: map_add_Some_iff nth_append)
  qed
qed simp

lemma table_in_order: "List.map_filter (map_of (table f xs)) (map int [0..<length xs]) = map f xs"
proof -
  have "List.map_filter (map_of (table f xs)) (map int is) = map (\<lambda>i. f (xs ! i)) is" if "\<forall>i \<in> set is. i < length xs" for "is"
    using that by (induction "is") (auto simp: map_of_table map_filter_simps)
  from this [of "[0..<length xs]"] have "List.map_filter (map_of (table f xs)) (map int [0..<length xs]) = map (\<lambda>i. f (xs ! i)) [0..<length xs]" by simp
  also have "\<dots> = map f xs" by (rule nth_equalityI) simp_all
  finally show ?thesis .
qed

text \<open>What is recorded of a block, and of the calls among the blocks.\<close>

fun raw_of :: "streamed_block \<Rightarrow> json" where
  "raw_of (SThinking ts ss) = thinking_block (JStr (concat ts)) (JStr (concat ss))"
| "raw_of (SRedacted d) = redacted_block d"
| "raw_of (SText ts) = text_block (concat ts)"
| "raw_of (SUse tid name ps) = tool_ref tid"

fun buffered :: "streamed_block \<Rightarrow> call_buffer list" where
  "buffered (SUse tid name ps) = [\<lparr>cb_id = tid, cb_name = name, cb_arguments = concat ps, cb_thought = None, cb_signature = None\<rparr>]"
| "buffered _ = []"

definition buffered_calls :: "streamed_block list \<Rightarrow> call_buffer list" where
  "buffered_calls bs = concat (map buffered bs)"

lemma buffered_calls_simps [simp]: "buffered_calls [] = []" "buffered_calls (bs @ [b]) = buffered_calls bs @ buffered b"
  by (simp_all add: buffered_calls_def)

text \<open>The position of a call among the blocks, with its position among the calls.\<close>

fun slots :: "nat \<Rightarrow> nat \<Rightarrow> streamed_block list \<Rightarrow> (int \<times> int) list" where
  "slots i k [] = []"
| "slots i k (b # bs) = (if buffered b = [] then slots (Suc i) k bs else (int i, int k) # slots (Suc i) (Suc k) bs)"

lemma buffered_one: "buffered b = [] \<or> (\<exists>c. buffered b = [c])"
  by (cases b) auto

lemma slots_snoc: "slots i k (bs @ [b]) = slots i k bs @ (if buffered b = [] then [] else [(int (i + length bs), int (k + length (buffered_calls bs)))])"
proof (induction bs arbitrary: i k)
  case (Cons c bs)
  then show ?case using buffered_one [of c] by (auto simp: buffered_calls_def)
qed simp

lemma slots_length: "length (slots i k bs) = length (buffered_calls bs)"
proof (induction bs arbitrary: i k)
  case (Cons c bs)
  then show ?case using buffered_one [of c] by (auto simp: buffered_calls_def)
qed simp

lemma slots_keys: "x \<in> fst ` set (slots i k bs) \<Longrightarrow> x < int (i + length bs)"
proof (induction bs arbitrary: i k)
  case (Cons b bs)
  then have "x = int i \<or> (\<exists>k'. x \<in> fst ` set (slots (Suc i) k' bs))" by (auto split: if_splits)
  then show ?case using Cons.IH [of "Suc i"] by auto
qed simp

lemma slots_fresh [simp]: "int (length bs) \<notin> fst ` set (slots 0 0 bs)"
  using slots_keys [of "int (length bs)" 0 0 bs] by auto

text \<open>The fields that the deltas add up to.\<close>

fun texts_of :: "streamed_block \<Rightarrow> string" where
  "texts_of (SText ts) = concat ts" | "texts_of _ = []"

fun thoughts_of :: "streamed_block \<Rightarrow> string" where
  "thoughts_of (SThinking ts ss) = concat ts" | "thoughts_of _ = []"

fun signatures_of :: "streamed_block \<Rightarrow> string" where
  "signatures_of (SThinking ts ss) = concat ss" | "signatures_of _ = []"

fun redacted_of :: "streamed_block \<Rightarrow> json list" where
  "redacted_of (SRedacted d) = [redacted_block d]" | "redacted_of _ = []"

definition after_blocks :: "streamed_block list \<Rightarrow> event_state \<times> assembly \<Rightarrow> bool" where
  "after_blocks bs s \<longleftrightarrow>
     raw_block_order (fst s) = map int [0..<length bs] \<and> streamed_blocks (fst s) = table raw_of bs \<and> tool_call_indexes (fst s) = slots 0 0 bs \<and>
     buffer (snd s) = table (\<lambda>c. c) (buffered_calls bs) \<and> raw_blocks (snd s) = None \<and> reasoning_items (snd s) = [] \<and>
     full_content (snd s) = concat (map texts_of bs) \<and> reasoning (snd s) = concat (map thoughts_of bs) \<and>
     reasoning_signature (snd s) = concat (map signatures_of bs) \<and> redacted_blocks (snd s) = concat (map redacted_of bs)"

lemma after_no_blocks: "after_blocks [] (start_state, empty_assembly)"
  by (simp add: after_blocks_def start_state_def empty_assembly_def)

lemma absorb_delta_chunk [simp]: "absorb_chunk (delta_chunk d) a = absorb_delta d a"
  by (simp add: delta_chunk_def absorb_chunk_def if_truthy_def)

lemma block_index_simps [simp]: "block_index (block_start i b) = int i" "block_index (block_delta i t k s) = int i"
  by (simp_all add: block_index_def block_start_def block_delta_def)

lemma event_types [simp]:
  "block_type (block_start i b) = Some (JStr ''content_block_start'')" "block_type (block_delta i t k s) = Some (JStr ''content_block_delta'')"
  by (simp_all add: block_start_def block_delta_def)

lemma consume_start: "consume pystr su s (block_start i b) = (let (cs, st) = on_block_start pystr (block_start i b) (fst s) in Inr (st, fold absorb (map Chunk cs) (snd s)))"
  by (simp add: consume_def on_event_def split: prod.split)

lemma consume_delta: "consume pystr su s (block_delta i t k x) = (let (cs, st) = on_block_delta (block_delta i t k x) (fst s) in Inr (st, fold absorb (map Chunk cs) (snd s)))"
  by (simp add: consume_def on_event_def split: prod.split)

lemma start_block [simp]: "get_default ''content_block'' v (block_start i b) = b"
  by (simp add: get_default_def block_start_def)

lemma is_dict_blocks [simp]: "is_dict (typed t fs)" "is_dict (text_block x)" "is_dict (thinking_block u v)" "is_dict (redacted_block d)" "is_dict (tool_use_block i n j)"
  by (simp_all add: typed_def text_block_def thinking_block_def redacted_block_def tool_use_block_def)

lemma fields_blocks [simp]:
  "get_default ''data'' v (redacted_block d) = d" "get_truthy ''id'' (JStr []) (tool_use_block i n j) = JStr i"
  "get_truthy ''name'' (JStr []) (tool_use_block i n j) = JStr n"
  by (simp_all add: get_default_def get_truthy_def redacted_block_def tool_use_block_def)

lemmas delta_defs = absorb_delta_def no_delta_def or_empty_def if_truthy_def if_filled_def prefer_new_def

lemma call_slot_fresh [simp]: "map_of (slots 0 0 bs) (int (length bs)) = None" "map_of (table f xs) (int (length xs)) = None"
  by (simp_all add: map_of_eq_None_iff)

lemma start_thinking:
  "after_blocks bs s \<Longrightarrow> \<exists>s'. consume pystr su s (block_start (length bs) (thinking_block (JStr []) (JStr []))) = Inr s' \<and> after_blocks (bs @ [SThinking [] []]) s'"
  by (auto simp: consume_start on_block_start_def after_blocks_def open_block_def update_fresh slots_snoc Let_def)

lemma start_text:
  "after_blocks bs s \<Longrightarrow> \<exists>s'. consume pystr su s (block_start (length bs) (text_block [])) = Inr s' \<and> after_blocks (bs @ [SText []]) s'"
  by (auto simp: consume_start on_block_start_def after_blocks_def open_block_def update_fresh slots_snoc Let_def)

lemma start_redacted:
  "after_blocks bs s \<Longrightarrow> \<exists>s'. consume pystr su s (block_start (length bs) (redacted_block d)) = Inr s' \<and> after_blocks (bs @ [SRedacted d]) s'"
  by (auto simp: consume_start on_block_start_def after_blocks_def open_block_def update_fresh slots_snoc Let_def delta_defs)
    (simp_all add: redacted_block_def typed_def)

lemma start_use:
  "after_blocks bs s \<Longrightarrow> \<exists>s'. consume pystr su s (block_start (length bs) (tool_use_block tid name (JObj []))) = Inr s' \<and> after_blocks (bs @ [SUse tid name []]) s'"
  by (auto simp: consume_start on_block_start_def after_blocks_def open_block_def update_fresh slots_snoc Let_def delta_defs
      set_default_def call_delta_def slots_length buffer_call_def tc_slot_def new_call_def fn_field_def call_slot_fresh)

text \<open>A fragment goes to the block that was opened last.\<close>

lemma type_dict [simp]: "block_type (JObj ((''type'', v) # fs)) = Some v"
  by (simp add: block_type_def)

lemma delta_dict [simp]: "json_get ''delta'' (block_delta i t k x) = Some (JObj [(''type'', JStr t), (k, JStr x)])"
  by (simp add: block_delta_def typed_def)

lemma extend_last:
  "streamed_blocks st = al @ [(i, b)] \<Longrightarrow> i \<notin> fst ` set al \<Longrightarrow> has_type b t \<Longrightarrow>
    extend_block i t k x st = st\<lparr>streamed_blocks := al @ [(i, extend_field k x b)]\<rparr>"
  by (simp add: extend_block_def map_of_final update_final del: map_of_append)

lemma extend_fields [simp]:
  "extend_field ''thinking'' x (thinking_block (JStr u) (JStr v)) = thinking_block (JStr (u @ x)) (JStr v)"
  "extend_field ''signature'' x (thinking_block (JStr u) (JStr v)) = thinking_block (JStr u) (JStr (v @ x))"
  "extend_field ''text'' x (text_block u) = text_block (u @ x)"
  by (simp_all add: extend_field_def thinking_block_def text_block_def typed_def)

lemma more_thinking:
  assumes "after_blocks (bs @ [SThinking ts []]) s"
  shows "\<exists>s'. consume pystr su s (block_delta (length bs) ''thinking_delta'' ''thinking'' x) = Inr s' \<and> after_blocks (bs @ [SThinking (ts @ [x]) []]) s'"
proof -
  note e = extend_last [of "fst s" "table raw_of bs" "int (length bs)" "thinking_block (JStr (concat ts)) (JStr [])" "''thinking''" "''thinking''" x]
  show ?thesis using assms e by (auto simp: consume_delta on_block_delta_def after_blocks_def slots_snoc Let_def delta_defs)
qed

lemma more_signature:
  assumes "after_blocks (bs @ [SThinking ts ss]) s"
  shows "\<exists>s'. consume pystr su s (block_delta (length bs) ''signature_delta'' ''signature'' x) = Inr s' \<and> after_blocks (bs @ [SThinking ts (ss @ [x])]) s'"
proof -
  note e = extend_last [of "fst s" "table raw_of bs" "int (length bs)" "thinking_block (JStr (concat ts)) (JStr (concat ss))" "''thinking''" "''signature''" x]
  show ?thesis using assms e by (auto simp: consume_delta on_block_delta_def after_blocks_def slots_snoc Let_def delta_defs)
qed

lemma more_text:
  assumes "after_blocks (bs @ [SText ts]) s"
  shows "\<exists>s'. consume pystr su s (block_delta (length bs) ''text_delta'' ''text'' x) = Inr s' \<and> after_blocks (bs @ [SText (ts @ [x])]) s'"
proof -
  note e = extend_last [of "fst s" "table raw_of bs" "int (length bs)" "text_block (concat ts)" "''text''" "''text''" x]
  show ?thesis using assms e by (auto simp: consume_delta on_block_delta_def after_blocks_def slots_snoc Let_def delta_defs)
qed

lemma more_input:
  assumes "after_blocks (bs @ [SUse tid name ps]) s" "tid \<noteq> []" "name \<noteq> []"
  shows "\<exists>s'. consume pystr su s (block_delta (length bs) ''input_json_delta'' ''partial_json'' x) = Inr s' \<and> after_blocks (bs @ [SUse tid name (ps @ [x])]) s'"
proof -
  have "map_of (slots 0 0 bs @ [(int (length bs), int (length (buffered_calls bs)))]) (int (length bs)) = Some (int (length (buffered_calls bs)))"
    by (rule map_of_final) simp
  moreover have "map_of (table (\<lambda>c. c) (buffered_calls bs) @ [(int (length (buffered_calls bs)), c)]) (int (length (buffered_calls bs))) = Some c" for c
    by (rule map_of_final) simp
  ultimately show ?thesis using assms
    by (auto simp: consume_delta on_block_delta_def after_blocks_def slots_snoc Let_def delta_defs set_default_def call_delta_def
        buffer_call_def tc_slot_def extend_call_def fn_field_def update_final simp del: map_of_append)
qed

text \<open>Events that lead from some blocks to some more, whatever the rest of the state is.\<close>

inductive advances :: "(json \<Rightarrow> string) \<Rightarrow> (token_usage \<Rightarrow> string) \<Rightarrow> streamed_block list \<Rightarrow> json list \<Rightarrow> streamed_block list \<Rightarrow> bool"
  for pystr su where
  done_events: "advances pystr su bs [] bs"
| next_event: "advances pystr su bs (e # es) ds"
  if "\<forall>s. after_blocks bs s \<longrightarrow> (\<exists>s'. consume pystr su s e = Inr s' \<and> after_blocks cs s')" "advances pystr su cs es ds"

lemma advances_append: "advances pystr su bs es cs \<Longrightarrow> advances pystr su cs fs ds \<Longrightarrow> advances pystr su bs (es @ fs) ds"
  by (induction rule: advances.induct) (auto intro: advances.intros simp del: split_paired_All split_paired_Ex)

lemma advances_fragments:
  assumes "\<And>xs x s. after_blocks (bs @ [mk xs]) s \<Longrightarrow> \<exists>s'. consume pystr su s (ev x) = Inr s' \<and> after_blocks (bs @ [mk (xs @ [x])]) s'"
  shows "advances pystr su (bs @ [mk ys]) (map ev xs) (bs @ [mk (ys @ xs)])"
proof (induction xs arbitrary: ys)
  case (Cons x xs)
  have "advances pystr su (bs @ [mk (ys @ [x])]) (map ev xs) (bs @ [mk ((ys @ [x]) @ xs)])" by (rule Cons.IH)
  then show ?case using assms by (auto intro!: next_event [where cs = "bs @ [mk (ys @ [x])]"])
qed (simp add: done_events)

lemma one_block:
  assumes "block_ok loads b"
  shows "advances pystr su bs (block_events (length bs) b) (bs @ [b])"
proof (cases b)
  case (SThinking ts ss)
  have "advances pystr su (bs @ [SThinking [] []]) (map (block_delta (length bs) ''thinking_delta'' ''thinking'') ts) (bs @ [SThinking ([] @ ts) []])"
    by (rule advances_fragments [of bs "\<lambda>ts. SThinking ts []"]) (rule more_thinking)
  moreover have "advances pystr su (bs @ [SThinking ts []]) (map (block_delta (length bs) ''signature_delta'' ''signature'') ss) (bs @ [SThinking ts ([] @ ss)])"
    by (rule advances_fragments [of bs "SThinking ts"]) (rule more_signature)
  ultimately show ?thesis using SThinking start_thinking
    by (auto intro!: next_event [where cs = "bs @ [SThinking [] []]"] advances_append)
next
  case (SRedacted d)
  then show ?thesis using start_redacted by (auto intro!: next_event [where cs = "bs @ [SRedacted d]"] done_events)
next
  case (SText ts)
  have "advances pystr su (bs @ [SText []]) (map (block_delta (length bs) ''text_delta'' ''text'') ts) (bs @ [SText ([] @ ts)])"
    by (rule advances_fragments [of bs SText]) (rule more_text)
  then show ?thesis using SText start_text by (auto intro!: next_event [where cs = "bs @ [SText []]"])
next
  case (SUse tid name ps)
  then have "tid \<noteq> []" "name \<noteq> []" using assms by simp_all
  then have "advances pystr su (bs @ [SUse tid name []]) (map (block_delta (length bs) ''input_json_delta'' ''partial_json'') ps) (bs @ [SUse tid name ([] @ ps)])"
    by (intro advances_fragments [of bs "SUse tid name"] more_input)
  then show ?thesis using SUse start_use by (auto intro!: next_event [where cs = "bs @ [SUse tid name []]"])
qed

lemma all_blocks: "list_all (block_ok loads) cs \<Longrightarrow> advances pystr su bs (reply_events (length bs) cs) (bs @ cs)"
proof (induction cs arbitrary: bs)
  case (Cons c cs)
  from Cons.prems have "block_ok loads c" by simp
  with Cons.IH [of "bs @ [c]"] Cons.prems show ?case by (auto intro: advances_append one_block)
qed (simp add: done_events)

section \<open>Events around the blocks\<close>

text \<open>Two states that differ in usage and finish reason only, and framing events do no more than that.\<close>

definition same_reply :: "event_state \<times> assembly \<Rightarrow> event_state \<times> assembly \<Rightarrow> bool" where
  "same_reply s t \<longleftrightarrow>
     raw_block_order (fst s) = raw_block_order (fst t) \<and> streamed_blocks (fst s) = streamed_blocks (fst t) \<and>
     tool_call_indexes (fst s) = tool_call_indexes (fst t) \<and> buffer (snd s) = buffer (snd t) \<and> raw_blocks (snd s) = raw_blocks (snd t) \<and>
     reasoning_items (snd s) = reasoning_items (snd t) \<and> full_content (snd s) = full_content (snd t) \<and> reasoning (snd s) = reasoning (snd t) \<and>
     reasoning_signature (snd s) = reasoning_signature (snd t) \<and> redacted_blocks (snd s) = redacted_blocks (snd t)"

lemma same_reply_blocks: "same_reply s t \<Longrightarrow> after_blocks bs s \<Longrightarrow> after_blocks bs t"
  by (simp add: same_reply_def after_blocks_def)

lemma absorb_no_delta: "same_reply (st, a) (st\<lparr>stream_usage := u\<rparr>, absorb_chunk \<lparr>ch_usage = v, ch_choice = Some (fr, no_delta)\<rparr> a)"
  by (simp add: same_reply_def absorb_chunk_def Let_def delta_defs split: option.split)

lemma message_delta_total:
  assumes "\<not> Option.is_none (case on_message_delta (\<lambda>_. []) e start_state of Inl _ \<Rightarrow> None | Inr x \<Rightarrow> Some x)"
  shows "\<exists>u fr. on_message_delta su e st = Inr ([\<lparr>ch_usage = Some (su u), ch_choice = Some (fr, no_delta)\<rparr>], st\<lparr>stream_usage := u\<rparr>)"
proof -
  obtain fr where fr: "stop_reason_of (json_get ''stop_reason'' (get_default ''delta'' (JObj []) e)) = Inr fr"
    using assms by (auto simp: on_message_delta_def Let_def bind_err_def split: sum.splits)
  show ?thesis
  proof (cases "get_default ''usage'' (JObj []) e")
    case (JObj u)
    then obtain n where "int_field ''output_tokens'' (JObj u) = Some n"
      using assms by (auto simp: on_message_delta_def Let_def split: option.splits)
    then show ?thesis using fr JObj by (auto simp: on_message_delta_def)
  qed (use fr in \<open>auto simp: on_message_delta_def\<close>)
qed

lemma framing_keeps:
  assumes "framing e" "after_blocks bs s"
  shows "\<exists>s'. consume pystr su s e = Inr s' \<and> after_blocks bs s'"
proof -
  obtain st a where s: "s = (st, a)" by (cases s)
  have "\<exists>s'. consume pystr su s e = Inr s' \<and> same_reply s s'" if "has_type e ''message_start''"
    using assms(1) that
    by (auto simp: s framing_def consume_def on_event_def on_message_start_def same_reply_def split: option.splits json.splits)
  moreover have "\<exists>s'. consume pystr su s e = Inr s' \<and> same_reply s s'" if delta: "has_type e ''message_delta''"
  proof -
    obtain u fr where "on_message_delta su e st = Inr ([\<lparr>ch_usage = Some (su u), ch_choice = Some (fr, no_delta)\<rparr>], st\<lparr>stream_usage := u\<rparr>)"
      using message_delta_total [of e su st] assms(1) delta by (auto simp: framing_def)
    then show ?thesis using delta absorb_no_delta [of st a] by (simp add: s consume_def on_event_def)
  qed
  moreover have "consume pystr su s e = Inr s" if "\<not> has_type e ''message_start''" "\<not> has_type e ''message_delta''"
    using assms(1) that by (auto simp: framing_def consume_def on_event_def on_block_delta_def split: option.splits json.splits)
  ultimately show ?thesis using assms(2) same_reply_blocks by blast
qed

inductive_cases advances_ConsE: "advances pystr su bs (e # es) ds"
inductive_cases advances_NilE: "advances pystr su bs [] ds"

lemma framed_blocks:
  "filter (\<lambda>e. \<not> framing e) es = fs \<Longrightarrow> advances pystr su bs fs cs \<Longrightarrow> after_blocks bs s \<Longrightarrow>
    \<exists>s'. fold_err (consume pystr su) s es = Inr s' \<and> after_blocks cs s'"
proof (induction es arbitrary: fs bs s)
  case Nil
  then show ?case by (auto elim: advances_NilE)
next
  case (Cons e es)
  show ?case
  proof (cases "framing e")
    case True
    then obtain s1 where "consume pystr su s e = Inr s1" "after_blocks bs s1" using framing_keeps Cons.prems(3) by blast
    then show ?thesis using Cons.IH [of fs bs s1] Cons.prems True by simp
  next
    case False
    with Cons.prems obtain gs ds where "fs = e # gs" "filter (\<lambda>e. \<not> framing e) es = gs" "advances pystr su ds gs cs"
        "\<forall>s. after_blocks bs s \<longrightarrow> (\<exists>s'. consume pystr su s e = Inr s' \<and> after_blocks ds s')"
      by (auto elim: advances_ConsE)
    then show ?thesis using Cons.IH [of gs ds] Cons.prems(3) by fastforce
  qed
qed

section \<open>The assembled reply\<close>

lemma checked_table:
  assumes "list_all (\<lambda>c. cb_name c \<noteq> [] \<and> (cb_arguments c = [] \<or> loads (cb_arguments c) \<noteq> None)) cs"
  shows "kept (checked_calls loads (table (\<lambda>c. c) cs)) = cs"
proof -
  have sorted: "sort (map int [0..<n]) = map int [0..<n]" for n by (intro sort_key_id_if_sorted) (auto simp: sorted_map sorted_wrt_upt intro: sorted_wrt_mono_rel)
  have "map (\<lambda>i. check_call loads i (the (map_of (table (\<lambda>c. c) cs) i))) (map int is) = map (\<lambda>i. Inr (cs ! i)) is" if "\<forall>i \<in> set is. i < length cs" for "is"
    using that assms by (induction "is") (auto simp: map_of_table check_call_def list_all_length)
  from this [of "[0..<length cs]"] have "checked_calls loads (table (\<lambda>c. c) cs) = map (\<lambda>i. Inr (cs ! i)) [0..<length cs]"
    by (simp add: checked_calls_def table_keys sorted)
  also have "\<dots> = map Inr cs" by (rule nth_equalityI) simp_all
  finally show ?thesis by (simp add: kept_def comp_def)
qed

lemma buffered_ok:
  "list_all (block_ok loads) bs \<Longrightarrow> list_all (\<lambda>c. cb_name c \<noteq> [] \<and> (cb_arguments c = [] \<or> loads (cb_arguments c) \<noteq> None)) (buffered_calls bs)"
proof (induction bs)
  case (Cons b bs)
  then show ?case by (cases b) (auto simp: buffered_calls_def split: if_splits)
qed simp

text \<open>The reply after all blocks, with the recorded blocks of the last chunk.\<close>

definition reply_of :: "(string \<Rightarrow> json option) \<Rightarrow> event_state \<times> assembly \<Rightarrow> message" where
  "reply_of loads s =
     finish_message loads (fold absorb
       (map Chunk (if raw_block_order (fst s) = [] then [] else [delta_chunk (no_delta\<lparr>d_raw_blocks := Some (ordered_blocks (fst s))\<rparr>)])) (snd s))"

lemma reply_of_blocks:
  assumes "after_blocks bs s" "list_all (block_ok loads) bs"
  shows "reply_calls (reply_of loads s) = buffered_calls bs" "m_raw_blocks (reply_of loads s) = non_empty (map raw_of bs)"
    "m_content (reply_of loads s) = non_empty (concat (map texts_of bs))" "m_reasoning (reply_of loads s) = non_empty (concat (map thoughts_of bs))"
    "m_signature (reply_of loads s) = non_empty (concat (map signatures_of bs))" "m_redacted (reply_of loads s) = concat (map redacted_of bs)"
    "m_items (reply_of loads s) = None"
proof -
  have o: "ordered_blocks (fst s) = map raw_of bs" "raw_block_order (fst s) = [] \<longleftrightarrow> bs = []"
    using assms(1) table_in_order [of raw_of bs] by (auto simp: after_blocks_def ordered_blocks_def)
  have k: "kept (checked_calls loads (buffer (snd s))) = buffered_calls bs"
    using assms(1) checked_table [OF buffered_ok [OF assms(2)]] by (simp add: after_blocks_def)
  show "reply_calls (reply_of loads s) = buffered_calls bs" "m_raw_blocks (reply_of loads s) = non_empty (map raw_of bs)"
    "m_content (reply_of loads s) = non_empty (concat (map texts_of bs))" "m_reasoning (reply_of loads s) = non_empty (concat (map thoughts_of bs))"
    "m_signature (reply_of loads s) = non_empty (concat (map signatures_of bs))" "m_redacted (reply_of loads s) = concat (map redacted_of bs)"
    "m_items (reply_of loads s) = None"
    using assms(1) k
    by (auto simp: reply_of_def o finish_message_def Let_def reply_calls_def non_empty_def after_blocks_def delta_defs)
qed

lemma buffered_ids: "map cb_id (buffered_calls bs) = call_ids bs"
proof (induction bs)
  case (Cons b bs)
  then show ?case by (cases b) (auto simp: buffered_calls_def call_ids_def)
qed (simp add: call_ids_def)

lemma tool_by_id_unique:
  assumes "distinct (map cb_id (reply_calls a))" "tc \<in> set (reply_calls a)" "cb_id tc \<noteq> []"
  shows "tool_by_id a (cb_id tc) = Some tc"
proof -
  let ?al = "rev (map (\<lambda>tc. (cb_id tc, tc)) (filter (\<lambda>tc. cb_id tc \<noteq> []) (reply_calls a)))"
  have "distinct (map fst ?al)" using assms(1) by (simp add: rev_map [symmetric] comp_def distinct_map_filter)
  moreover have "(cb_id tc, tc) \<in> set ?al" using assms by auto
  ultimately show ?thesis unfolding tool_by_id_def by (rule map_of_is_SomeI)
qed

text \<open>The calls of a message stand for the calls among some blocks.\<close>

definition calls_for :: "(string \<Rightarrow> json option) \<Rightarrow> message \<Rightarrow> streamed_block list \<Rightarrow> bool" where
  "calls_for loads a bs \<longleftrightarrow> distinct (map cb_id (reply_calls a)) \<and>
     (\<forall>tid name ps. SUse tid name ps \<in> set bs \<longrightarrow>
       (\<exists>c \<in> set (reply_calls a). cb_id c = tid \<and> cb_name c = name \<and> loads (argument_text c) = loads (if concat ps = [] then ''{}'' else concat ps)))"

lemma calls_for_buffered:
  assumes "reply_calls a = buffered_calls bs" "distinct (call_ids bs)"
  shows "calls_for loads a bs"
proof -
  have "\<exists>c \<in> set (buffered_calls bs). cb_id c = tid \<and> cb_name c = name \<and> loads (argument_text c) = loads (if concat ps = [] then ''{}'' else concat ps)"
    if "SUse tid name ps \<in> set bs" for tid name ps
  proof -
    let ?c = "\<lparr>cb_id = tid, cb_name = name, cb_arguments = concat ps, cb_thought = None, cb_signature = None\<rparr>"
    have "?c \<in> set (buffered_calls bs)" using that by (force simp: buffered_calls_def)
    then show ?thesis by (rule bexI [rotated]) (simp add: argument_text_def)
  qed
  then show ?thesis unfolding calls_for_def assms(1) buffered_ids using assms(2) by blast
qed

lemma raw_block_replayed:
  assumes "calls_for loads a bs" "set (call_ids bs) \<subseteq> valid" "b \<in> set bs" "list_all (block_ok loads) bs"
  shows "raw_block loads pystr a valid (raw_of b) = Inr (replayed loads b)"
proof (cases b)
  case (SUse tid name ps)
  from assms(1,3) SUse obtain c where
    c: "c \<in> set (reply_calls a)" "cb_id c = tid" "cb_name c = name" "loads (argument_text c) = loads (if concat ps = [] then ''{}'' else concat ps)"
    unfolding calls_for_def by blast
  have "block_ok loads (SUse tid name ps)" using assms(3,4) unfolding SUse list_all_iff by blast
  then obtain j where j: "loads (if concat ps = [] then ''{}'' else concat ps) = Some j" and "tid \<noteq> []" by auto
  then have "tool_by_id a tid = Some c" using tool_by_id_unique [of a c] c assms(1) by (auto simp: calls_for_def)
  moreover have "tid \<in> valid" using assms(2,3) SUse by (force simp: call_ids_def)
  moreover have "loads (argument_text c) = Some j" using c(4) j by (simp only:)
  ultimately have "raw_block loads pystr a valid (raw_of b) = Inr [tool_use_block tid name j]"
    using SUse c(2,3) by (simp add: raw_block_def call_block_def call_input_def)
  then show ?thesis unfolding SUse replayed.simps j by simp
qed (auto simp: raw_block_def get_truthy_def thinking_block_def redacted_block_def text_block_def get_default_def simp del: concat_eq_Nil_conv)

lemma blocks_replayed:
  assumes "calls_for loads a bs" "set (call_ids bs) \<subseteq> valid" "list_all (block_ok loads) bs" "m_raw_blocks a = non_empty (map raw_of bs)" "bs \<noteq> []"
  shows "assistant_blocks loads pystr valid a = Inr (concat (map (replayed loads) bs))"
proof -
  have "map_err (raw_block loads pystr a valid) (map raw_of bs) = Inr (map (replayed loads) bs)"
    unfolding map_err_Inr using raw_block_replayed [OF assms(1,2) _ assms(3)] by (simp add: list_all2_conv_all_nth)
  then show ?thesis using assms(4,5) by (simp add: assistant_blocks_def blocks_from_raw_content_def non_empty_def)
qed

lemma reply_replayed:
  assumes "after_blocks bs s" "list_all (block_ok loads) bs" "distinct (call_ids bs)" "set (call_ids bs) \<subseteq> valid"
  shows "assistant_blocks loads pystr valid (reply_of loads s) = Inr (concat (map (replayed loads) bs))"
proof (cases "bs = []")
  case True
  then show ?thesis using reply_of_blocks [OF assms(1,2)]
    by (simp add: assistant_blocks_def text_turn_def kept_thinking_def text_blocks_def non_empty_def if_truthy_def or_empty_def)
next
  case False
  show ?thesis
    by (rule blocks_replayed [OF calls_for_buffered [OF reply_of_blocks(1) [OF assms(1,2)] assms(3)] assms(4,2) reply_of_blocks(2) [OF assms(1,2)] False])
qed

lemma reply_captured:
  assumes "after_blocks bs s" "list_all (block_ok loads) bs"
  shows "captured_ok (reply_of loads s)"
proof -
  have "list_all (\<lambda>b. has_type b ''redacted_thinking'') (concat (map redacted_of bs))"
  proof (induction bs)
    case (Cons b bs)
    then show ?case by (cases b) auto
  qed simp
  moreover have "\<not> has_type (raw_of b) ''tool_use''" "has_type (raw_of b) ''tool_use_ref'' \<Longrightarrow> is_str (get_default ''id'' JNull (raw_of b))" for b
    by (cases b; auto simp: get_default_def)+
  moreover have "\<exists>b \<in> set bs. raw_of b = tool_ref (cb_id c)" if "c \<in> set (buffered_calls bs)" for c
  proof -
    from that obtain b where b: "b \<in> set bs" "c \<in> set (buffered b)" by (auto simp: buffered_calls_def)
    then show ?thesis by (intro bexI [of _ b]) (cases b; auto)+
  qed
  ultimately show ?thesis
    using reply_of_blocks [OF assms]
    by (auto simp: captured_ok_def non_empty_def list_all_iff list_ex_iff) (metis ids_blocks(2) type_blocks(5))
qed

section \<open>Properties\<close>

lemma read_stream:
  assumes "line_events loads ls = Some es" "fold_err (consume pystr show_usage) (start_state, empty_assembly) es = Inr (st, a)"
  shows "\<exists>cs. anthropic_stream loads pystr show_usage (Opened ls None) = (cs, None) \<and>
    finish_message loads (fold absorb (map Chunk cs) empty_assembly) = reply_of loads (st, a)"
proof -
  from read_lines_consume [OF assms] obtain cs where
    cs: "read_lines loads pystr show_usage None ls start_state = (cs, None, st)" "fold absorb (map Chunk cs) empty_assembly = a" by blast
  let ?last = "if raw_block_order st = [] then [] else [delta_chunk (no_delta\<lparr>d_raw_blocks := Some (ordered_blocks st)\<rparr>)]"
  have "anthropic_stream loads pystr show_usage (Opened ls None) = (cs @ ?last, None)" by (simp add: cs)
  moreover have "finish_message loads (fold absorb (map Chunk (cs @ ?last)) empty_assembly) = reply_of loads (st, a)"
    unfolding map_append fold_append comp_def cs(2) reply_of_def by simp
  ultimately show ?thesis by blast
qed

text \<open>
  C10. A streamed reply is replayed verbatim. Let the data lines of a response carry the events of some
  content blocks, in any fragmentation, with pings and the envelope of the message between them, and
  let the calls have distinct ids and decodable input. Then the stream ends without a failure, the
  message assembled from its chunks satisfies the condition under which requests are paired, and once
  its calls are answered, the next request holds these blocks, in this order: every signed thinking
  block with its signature, every redacted block, every text, every call with its input. Only thinking
  without a signature and empty texts are left out.
\<close>

theorem streamed_reply_replayed:
  assumes "line_events loads ls = Some es" "filter (\<lambda>e. \<not> framing e) es = reply_events 0 bs"
    and "list_all (block_ok loads) bs" "distinct (call_ids bs)" "set (call_ids bs) \<subseteq> valid"
  shows "\<exists>chunks. anthropic_stream loads pystr show_usage (Opened ls None) = (chunks, None) \<and>
    (let m = finish_message loads (fold absorb (map Chunk chunks) empty_assembly) in
     captured_ok m \<and> assistant_blocks loads pystr valid m = Inr (concat (map (replayed loads) bs)))"
proof -
  have "advances pystr show_usage [] (reply_events 0 bs) bs" using all_blocks [OF assms(3), of pystr show_usage "[]"] by simp
  from framed_blocks [OF assms(2) this after_no_blocks] obtain st a where
    run: "fold_err (consume pystr show_usage) (start_state, empty_assembly) es = Inr (st, a)" "after_blocks bs (st, a)" by auto
  from read_stream [OF assms(1) run(1)] show ?thesis
    using reply_replayed [OF run(2) assms(3-5), of pystr] reply_captured [OF run(2) assms(3)] by (auto simp: Let_def)
qed

text \<open>A server that thinks twice, each time before a call; the lines are named by the events they hold.\<close>

definition interleaved :: "streamed_block list" where
  "interleaved = [SThinking [''fi'', ''rst''] [''s1''], SUse ''a'' ''ls'' [''{'', ''}''], SThinking [''then''] [''s2''], SUse ''b'' ''cat'' []]"

definition interleaved_events :: "json list" where
  "interleaved_events =
     typed ''message_start'' [(''message'', JObj [(''usage'', JObj [(''input_tokens'', JNum 7)])])] # typed ''ping'' [] # reply_events 0 interleaved @
     [typed ''content_block_stop'' [(''index'', JNum 3)], typed ''message_delta'' [(''delta'', JObj [(''stop_reason'', JStr ''tool_use'')])]]"

text \<open>A stand-in for the codec: the text of an event is its number, written with strokes.\<close>

definition numbered_loads :: "string \<Rightarrow> json option" where
  "numbered_loads s =
     (if s = ''{}'' then Some (JObj [])
      else if s = replicate (length s) CHR ''|'' \<and> length s < length interleaved_events then Some (interleaved_events ! length s) else None)"

definition interleaved_lines :: "string list" where
  "interleaved_lines = ''event: message'' # map (\<lambda>i. ''data: '' @ replicate i CHR ''|'') [0..<length interleaved_events] @ [''data: [DONE]'']"

theorem streamed_reply_replayed_witness:
  "\<exists>chunks. anthropic_stream numbered_loads (\<lambda>_. []) (\<lambda>_. ''u'') (Opened interleaved_lines None) = (chunks, None) \<and>
    (let m = finish_message numbered_loads (fold absorb (map Chunk chunks) empty_assembly) in
     captured_ok m \<and> assistant_blocks numbered_loads (\<lambda>_. []) {''a'', ''b''} m = Inr (concat (map (replayed numbered_loads) interleaved)))"
proof (rule streamed_reply_replayed)
  show "line_events numbered_loads interleaved_lines = Some interleaved_events" by code_simp
  show "filter (\<lambda>e. \<not> framing e) interleaved_events = reply_events 0 interleaved" by code_simp
  show "list_all (block_ok numbered_loads) interleaved" by code_simp
  show "distinct (call_ids interleaved)" "set (call_ids interleaved) \<subseteq> {''a'', ''b''}" by (simp_all add: interleaved_def call_ids_def)
qed

text \<open>The same blocks in a response that is read at once.\<close>

fun whole :: "(string \<Rightarrow> json option) \<Rightarrow> streamed_block \<Rightarrow> json" where
  "whole loads (SUse tid name ps) = tool_use_block tid name (the (loads (if concat ps = [] then ''{}'' else concat ps)))"
| "whole loads b = raw_of b"

fun parsed_call :: "(string \<Rightarrow> json option) \<Rightarrow> (json \<Rightarrow> string) \<Rightarrow> streamed_block \<Rightarrow> call_buffer list" where
  "parsed_call loads dumps (SUse tid name ps) =
     [\<lparr>cb_id = tid, cb_name = name, cb_arguments = dumps (the (loads (if concat ps = [] then ''{}'' else concat ps))), cb_thought = None, cb_signature = None\<rparr>]"
| "parsed_call loads dumps _ = []"

definition parsed_calls :: "(string \<Rightarrow> json option) \<Rightarrow> (json \<Rightarrow> string) \<Rightarrow> streamed_block list \<Rightarrow> call_buffer list" where
  "parsed_calls loads dumps bs = concat (map (parsed_call loads dumps) bs)"

text \<open>The input of a call is a dictionary that the codec writes and reads back.\<close>

fun input_dict :: "(string \<Rightarrow> json option) \<Rightarrow> (json \<Rightarrow> string) \<Rightarrow> streamed_block \<Rightarrow> bool" where
  "input_dict loads dumps (SUse tid name ps) \<longleftrightarrow>
     (let j = the (loads (if concat ps = [] then ''{}'' else concat ps)) in is_dict j \<and> dumps j \<noteq> [] \<and> loads (dumps j) = Some j)"
| "input_dict loads dumps _ \<longleftrightarrow> True"

lemma fields_whole [simp]:
  "get_default ''text'' v (text_block x) = JStr x" "get_default ''thinking'' v (thinking_block t u) = t" "get_default ''signature'' v (thinking_block t u) = u"
  "get_default ''id'' v (tool_use_block i n j) = JStr i" "get_default ''name'' v (tool_use_block i n j) = JStr n"
  by (simp_all add: get_default_def text_block_def thinking_block_def tool_use_block_def)

lemma input_whole: "is_dict j \<Longrightarrow> get_truthy ''input'' (JObj []) (tool_use_block i n j) = j"
  by (cases j) (auto simp: get_truthy_def tool_use_block_def)

lemma parse_fields:
  "join_field ''text'' (of_type ''text'' (map (whole loads) bs)) = Some (concat (map texts_of bs))"
  "join_field ''thinking'' (of_type ''thinking'' (map (whole loads) bs)) = Some (concat (map thoughts_of bs))"
  "join_field ''signature'' (of_type ''thinking'' (map (whole loads) bs)) = Some (concat (map signatures_of bs))"
  "concat (map (captured_block pystr) (map (whole loads) bs)) = map raw_of bs"
  "map (\<lambda>b. redacted_block (get_default ''data'' (JStr []) b)) (of_type ''redacted_thinking'' (map (whole loads) bs)) = concat (map redacted_of bs)"
proof (induction bs)
  case (Cons b bs)
  { case 1 with Cons show ?case by (cases b) auto }
  { case 2 with Cons show ?case by (cases b) auto }
  { case 3 with Cons show ?case by (cases b) auto }
  { case 4 with Cons show ?case by (cases b) (auto simp: captured_block_def text_block_def [symmetric]) }
  { case 5 with Cons show ?case by (cases b) auto }
qed simp_all

lemma parse_calls:
  "list_all (input_dict loads dumps) bs \<Longrightarrow> map (response_call dumps pystr) (of_type ''tool_use'' (map (whole loads) bs)) = parsed_calls loads dumps bs"
proof (induction bs)
  case (Cons b bs)
  then show ?case by (cases b) (auto simp: parsed_calls_def response_call_def input_whole Let_def simp del: concat_eq_Nil_conv)
qed (simp add: parsed_calls_def)

lemma parsed_ids: "map cb_id (parsed_calls loads dumps bs) = call_ids bs"
proof (induction bs)
  case (Cons b bs)
  then show ?case by (cases b) (auto simp: parsed_calls_def call_ids_def)
qed (simp add: parsed_calls_def call_ids_def)

lemma calls_for_parsed:
  assumes "reply_calls a = parsed_calls loads dumps bs" "distinct (call_ids bs)" "list_all (block_ok loads) bs"
    and inputs: "list_all (input_dict loads dumps) bs"
  shows "calls_for loads a bs"
proof -
  have "\<exists>c \<in> set (parsed_calls loads dumps bs). cb_id c = tid \<and> cb_name c = name \<and> loads (argument_text c) = loads (if concat ps = [] then ''{}'' else concat ps)"
    if mem: "SUse tid name ps \<in> set bs" for tid name ps
  proof -
    have "block_ok loads (SUse tid name ps)" "input_dict loads dumps (SUse tid name ps)" using assms(3,4) mem unfolding list_all_iff by blast+
    then obtain j where j: "loads (if concat ps = [] then ''{}'' else concat ps) = Some j" "dumps j \<noteq> []" "loads (dumps j) = Some j"
      unfolding block_ok.simps input_dict.simps Let_def by (metis option.exhaust_sel)
    let ?c = "\<lparr>cb_id = tid, cb_name = name, cb_arguments = dumps j, cb_thought = None, cb_signature = None\<rparr>"
    have "parsed_call loads dumps (SUse tid name ps) = [?c]" unfolding parsed_call.simps j(1) by simp
    then have "?c \<in> set (parsed_calls loads dumps bs)" using mem by (force simp: parsed_calls_def)
    then show ?thesis unfolding j(1) by (rule bexI [rotated]) (simp add: argument_text_def j)
  qed
  then show ?thesis unfolding calls_for_def assms(1) parsed_ids using assms(2) by blast
qed

lemma parsed_inputs:
  assumes "list_all (block_ok loads) bs" "list_all (input_dict loads dumps) bs"
  shows "map (\<lambda>c. (cb_id c, cb_name c, loads (argument_text c))) (buffered_calls bs) =
    map (\<lambda>c. (cb_id c, cb_name c, loads (argument_text c))) (parsed_calls loads dumps bs)"
  using assms
proof (induction bs)
  case (Cons b bs)
  show ?case
  proof (cases b)
    case (SUse tid name ps)
    then have "block_ok loads (SUse tid name ps)" "input_dict loads dumps (SUse tid name ps)" using Cons.prems by simp_all
    then obtain j where j: "loads (if concat ps = [] then ''{}'' else concat ps) = Some j" "dumps j \<noteq> []" "loads (dumps j) = Some j"
      unfolding block_ok.simps input_dict.simps Let_def by (metis option.exhaust_sel)
    have "map (\<lambda>c. (cb_id c, cb_name c, loads (argument_text c))) (buffered b) =
        map (\<lambda>c. (cb_id c, cb_name c, loads (argument_text c))) (parsed_call loads dumps b)"
      unfolding SUse parsed_call.simps j(1) using j by (auto simp: argument_text_def simp del: concat_eq_Nil_conv split: if_splits)
    then show ?thesis using Cons by (simp add: buffered_calls_def parsed_calls_def)
  qed (use Cons in \<open>auto simp: buffered_calls_def parsed_calls_def\<close>)
qed (simp add: buffered_calls_def parsed_calls_def)

lemma parse_response_blocks:
  assumes "map_of d ''content'' = Some (JArr (map (whole loads) bs))" "response_usage (JObj d) = Some u" "list_all (input_dict loads dumps) bs"
  obtains m where "parse_response dumps pystr show_usage (JObj d) = Some m" "reply_calls m = parsed_calls loads dumps bs"
    "m_raw_blocks m = non_empty (map raw_of bs)" "m_content m = non_empty (concat (map texts_of bs))"
    "m_reasoning m = non_empty (concat (map thoughts_of bs))" "m_signature m = non_empty (concat (map signatures_of bs))"
    "m_redacted m = concat (map redacted_of bs)"
proof -
  have "response_blocks (JObj d) = Some (map (whole loads) bs)" using assms(1) by (simp add: response_blocks_def get_default_def)
  then have "parse_response dumps pystr show_usage (JObj d) = Some
      \<lparr>m_content = non_empty (concat (map texts_of bs)), m_reasoning = non_empty (concat (map thoughts_of bs)),
       m_signature = non_empty (concat (map signatures_of bs)), m_items = None, m_tool_calls = non_empty (parsed_calls loads dumps bs),
       m_redacted = concat (map redacted_of bs), m_raw_blocks = non_empty (map raw_of bs), x_usage = map_option show_usage u,
       x_finish_reason = None, x_dropped = []\<rparr>"
    unfolding parse_response_def by (simp only: is_dict.simps if_True bind.simps parse_fields assms(2) parse_calls [OF assms(3)])
  then show ?thesis by (rule that) (simp_all add: reply_calls_def non_empty_def)
qed

text \<open>
  C13. Streamed or read at once, a reply is the same. If the blocks of a streamed response are those of
  a response that is read as one JSON document, then both give a message with the same text, thinking,
  signature, redacted blocks and recorded blocks, calls with the same ids, names and input, and the same
  blocks in the next request.
\<close>

theorem parsed_as_streamed:
  assumes "line_events loads ls = Some es" "filter (\<lambda>e. \<not> framing e) es = reply_events 0 bs"
    and "list_all (block_ok loads) bs" "distinct (call_ids bs)" "set (call_ids bs) \<subseteq> valid"
    and "map_of d ''content'' = Some (JArr (map (whole loads) bs))" "response_usage (JObj d) = Some u" "list_all (input_dict loads dumps) bs"
  shows "\<exists>chunks n. anthropic_stream loads pystr show_usage (Opened ls None) = (chunks, None) \<and> parse_response dumps pystr show_usage (JObj d) = Some n \<and>
    (let m = finish_message loads (fold absorb (map Chunk chunks) empty_assembly) in
     m_content m = m_content n \<and> m_reasoning m = m_reasoning n \<and> m_signature m = m_signature n \<and> m_redacted m = m_redacted n \<and>
     m_raw_blocks m = m_raw_blocks n \<and>
     map (\<lambda>c. (cb_id c, cb_name c, loads (argument_text c))) (reply_calls m) = map (\<lambda>c. (cb_id c, cb_name c, loads (argument_text c))) (reply_calls n) \<and>
     assistant_blocks loads pystr valid m = assistant_blocks loads pystr valid n)"
proof -
  have "advances pystr show_usage [] (reply_events 0 bs) bs" using all_blocks [OF assms(3), of pystr show_usage "[]"] by simp
  from framed_blocks [OF assms(2) this after_no_blocks] obtain st a where
    run: "fold_err (consume pystr show_usage) (start_state, empty_assembly) es = Inr (st, a)" "after_blocks bs (st, a)" by auto
  from read_stream [OF assms(1) run(1)] obtain cs where
    cs: "anthropic_stream loads pystr show_usage (Opened ls None) = (cs, None)"
      "finish_message loads (fold absorb (map Chunk cs) empty_assembly) = reply_of loads (st, a)" by blast
  obtain n where n: "parse_response dumps pystr show_usage (JObj d) = Some n" "reply_calls n = parsed_calls loads dumps bs"
    "m_raw_blocks n = non_empty (map raw_of bs)" "m_content n = non_empty (concat (map texts_of bs))"
    "m_reasoning n = non_empty (concat (map thoughts_of bs))" "m_signature n = non_empty (concat (map signatures_of bs))"
    "m_redacted n = concat (map redacted_of bs)"
    using parse_response_blocks [OF assms(6-8)] by blast
  note m = reply_of_blocks [OF run(2) assms(3)]
  have "assistant_blocks loads pystr valid n = Inr (concat (map (replayed loads) bs))"
  proof (cases "bs = []")
    case True
    then show ?thesis using n
      by (simp add: assistant_blocks_def text_turn_def kept_thinking_def text_blocks_def non_empty_def if_truthy_def or_empty_def parsed_calls_def)
  next
    case False
    show ?thesis by (rule blocks_replayed [OF calls_for_parsed [OF n(2) assms(4,3,8)] assms(5,3) n(3) False])
  qed
  then show ?thesis using cs n m parsed_inputs [OF assms(3,8)] reply_replayed [OF run(2) assms(3-5), of pystr] by (simp add: Let_def)
qed

theorem parsed_as_streamed_witness:
  "\<exists>chunks n. anthropic_stream numbered_loads (\<lambda>_. []) (\<lambda>_. ''u'') (Opened interleaved_lines None) = (chunks, None) \<and>
    parse_response (\<lambda>_. ''{}'') (\<lambda>_. []) (\<lambda>_. ''u'') (JObj [(''content'', JArr (map (whole numbered_loads) interleaved))]) = Some n \<and>
    (let m = finish_message numbered_loads (fold absorb (map Chunk chunks) empty_assembly) in
     m_content m = m_content n \<and> m_reasoning m = m_reasoning n \<and> m_signature m = m_signature n \<and> m_redacted m = m_redacted n \<and>
     m_raw_blocks m = m_raw_blocks n \<and>
     map (\<lambda>c. (cb_id c, cb_name c, numbered_loads (argument_text c))) (reply_calls m) =
       map (\<lambda>c. (cb_id c, cb_name c, numbered_loads (argument_text c))) (reply_calls n) \<and>
     assistant_blocks numbered_loads (\<lambda>_. []) {''a'', ''b''} m = assistant_blocks numbered_loads (\<lambda>_. []) {''a'', ''b''} n)"
proof (rule parsed_as_streamed)
  show "line_events numbered_loads interleaved_lines = Some interleaved_events" by code_simp
  show "filter (\<lambda>e. \<not> framing e) interleaved_events = reply_events 0 interleaved" by code_simp
  show "list_all (block_ok numbered_loads) interleaved" "list_all (input_dict numbered_loads (\<lambda>_. ''{}'')) interleaved" by code_simp+
  show "distinct (call_ids interleaved)" "set (call_ids interleaved) \<subseteq> {''a'', ''b''}" by (simp_all add: interleaved_def call_ids_def)
  show "map_of [(''content'', JArr (map (whole numbered_loads) interleaved))] ''content'' = Some (JArr (map (whole numbered_loads) interleaved))" by simp
  show "response_usage (JObj [(''content'', JArr (map (whole numbered_loads) interleaved))]) = Some None" by (simp add: response_usage_def)
qed

section \<open>Errors in the stream\<close>

lemma read_lines_error:
  assumes "line_events loads ls = Some es" "e \<in> set es" "has_type e ''error''"
  shows "\<exists>cs f st'. read_lines loads pystr show_usage ends ls st = (cs, Some f, st') \<and>
    (f = NetError UnrelatedErr \<or> (\<exists>raw e'. loads raw = Some e' \<and> e' \<in> set es \<and> has_type e' ''error'' \<and> f = stream_error_event raw e'))"
  using assms(1,2)
proof (induction ls arbitrary: es st)
  case (Cons l ls)
  let ?raw = "removeprefix l ''data: ''"
  show ?case
  proof (cases "startswith l ''data: '' \<and> ?raw \<noteq> ''[DONE]''")
    case True
    from True Cons.prems(1) obtain h hs where h: "loads ?raw = Some h" "es = h # hs" "line_events loads ls = Some hs"
      by (auto simp: Let_def split: option.splits)
    show ?thesis
    proof (cases "on_event pystr show_usage ?raw h st")
      case (Inl f)
      have "f = NetError UnrelatedErr \<or> has_type h ''error'' \<and> f = stream_error_event ?raw h"
        using Inl by (auto simp: on_event_def on_message_start_def on_message_delta_def bind_err_def Let_def
            split: if_splits option.splits json.splits sum.splits elim: stop_reason_of.elims)
      then show ?thesis using True h Inl by (auto simp: Let_def)
    next
      case (Inr r)
      then have "\<not> has_type h ''error''" by (auto simp: on_event_def)
      then have "e \<in> set hs" using Cons.prems(2) h(2) assms(3) by auto
      from Cons.IH [OF h(3) this, of "snd r"] show ?thesis using True h Inr by (auto simp: Let_def split: prod.split) blast+
    qed
  next
    case False
    then show ?thesis using Cons by (auto simp: Let_def split: if_splits)
  qed
qed simp

text \<open>The types of error frames that stand for a request that will fail again.\<close>

definition permanent_types :: "string list" where
  "permanent_types = [''invalid_request_error'', ''authentication_error'', ''permission_error'', ''not_found_error'', ''request_too_large'']"

lemma frame_retried:
  assumes "loads raw = Some e" "json_get ''error'' e = Some (JObj d)" "map_of d ''type'' = Some (JStr t)" "map_of d ''code'' = None"
    and "stream_error_event raw e = HttpError r"
  shows "is_retryable_http_error loads r = (t \<notin> set permanent_types)"
proof -
  let ?n = "case map_of STREAM_ERROR_STATUS t of Some n \<Rightarrow> n | None \<Rightarrow> 500"
  have r: "status_code r = ?n" "body_text r = Some raw" using assms by (auto simp: stream_error_event_def)
  have "is_retryable_http_error loads r = (?n \<in> {408, 429} \<or> 500 \<le> ?n \<and> ?n < 600 \<and> ?n \<notin> {501, 505})"
    using assms r by (auto simp: is_retryable_http_error_def Let_def simp del: insert_iff)
  also have "\<dots> = (t \<notin> set permanent_types)" by (simp add: STREAM_ERROR_STATUS_def permanent_types_def)
  finally show ?thesis .
qed

text \<open>
  C12. An error frame on a connection that already answered \<open>200 OK\<close> is never taken for the end of the
  reply: whatever else the stream holds and however it ends, the attempt fails, with the error of such a
  frame or because an event before it could not be processed. The error is retried by
  \<open>stream_with_retry\<close> exactly when its type is not one of the permanent ones (unknown types are
  retried), unless the frame carries a code of its own.
\<close>

theorem error_frame_surfaces:
  assumes "line_events loads ls = Some es" "e \<in> set es" "has_type e ''error''"
  shows "(\<exists>f. snd (anthropic_stream loads pystr show_usage (Opened ls ends)) = Some f \<and>
      (f = NetError UnrelatedErr \<or> (\<exists>raw e'. loads raw = Some e' \<and> e' \<in> set es \<and> has_type e' ''error'' \<and> f = stream_error_event raw e'))) \<and>
    (\<forall>raw d t r. loads raw = Some e \<and> json_get ''error'' e = Some (JObj d) \<and> map_of d ''type'' = Some (JStr t) \<and> map_of d ''code'' = None \<and>
       stream_error_event raw e = HttpError r \<longrightarrow> is_retryable_http_error loads r = (t \<notin> set permanent_types))"
proof (intro conjI allI impI)
  obtain cs f st' where r: "read_lines loads pystr show_usage ends ls start_state = (cs, Some f, st')"
      "f = NetError UnrelatedErr \<or> (\<exists>raw e'. loads raw = Some e' \<and> e' \<in> set es \<and> has_type e' ''error'' \<and> f = stream_error_event raw e')"
    using read_lines_error [OF assms] by blast
  then show "\<exists>f. snd (anthropic_stream loads pystr show_usage (Opened ls ends)) = Some f \<and>
      (f = NetError UnrelatedErr \<or> (\<exists>raw e'. loads raw = Some e' \<and> e' \<in> set es \<and> has_type e' ''error'' \<and> f = stream_error_event raw e'))" by auto
next
  fix raw d t r
  assume "loads raw = Some e \<and> json_get ''error'' e = Some (JObj d) \<and> map_of d ''type'' = Some (JStr t) \<and> map_of d ''code'' = None \<and>
    stream_error_event raw e = HttpError r"
  then show "is_retryable_http_error loads r = (t \<notin> set permanent_types)"
    using frame_retried by blast
qed

definition overloaded_frame :: json where
  "overloaded_frame = typed ''error'' [(''error'', typed ''overloaded_error'' [(''message'', JStr ''Overloaded'')])]"

theorem error_frame_surfaces_witness:
  "(\<exists>f. snd (anthropic_stream (\<lambda>_. Some overloaded_frame) (\<lambda>_. []) (\<lambda>_. ''u'') (Opened [''data: 1''] None)) = Some f \<and>
      (f = NetError UnrelatedErr \<or> (\<exists>raw. f = stream_error_event raw overloaded_frame))) \<and>
   is_retryable_http_error (\<lambda>_. Some overloaded_frame) \<lparr>status_code = 529, retry_after_header = [], body_text = Some ''1''\<rparr>"
proof -
  let ?loads = "\<lambda>_ :: string. Some overloaded_frame" and ?r = "\<lparr>status_code = 529, retry_after_header = [], body_text = Some ''1''\<rparr>"
  have "line_events ?loads [''data: 1''] = Some [overloaded_frame]" by (simp add: removeprefix_def)
  moreover have "has_type overloaded_frame ''error''" by (simp add: overloaded_frame_def)
  moreover have "json_get ''error'' overloaded_frame = Some (JObj [(''type'', JStr ''overloaded_error''), (''message'', JStr ''Overloaded'')])"
    by (simp add: overloaded_frame_def typed_def)
  moreover have "stream_error_event ''1'' overloaded_frame = HttpError ?r"
    by (simp add: stream_error_event_def overloaded_frame_def typed_def STREAM_ERROR_STATUS_def)
  ultimately show ?thesis
    using error_frame_surfaces [of ?loads "[''data: 1'']" "[overloaded_frame]" overloaded_frame "\<lambda>_. []" "\<lambda>_. ''u''" None]
    by (auto simp: permanent_types_def)
qed

section \<open>Interrupted replies\<close>

text \<open>
  The recorded blocks come with the last chunk. A reply that is cut off before it has none, and its
  thinking is replayed from the joined fields: after two thinking blocks the next request holds one block
  with the two signatures joined, a signature that the server never issued.
\<close>

lemma interrupted_thinking_joined:
  assumes "after_blocks bs s" "concat (map thoughts_of bs) \<noteq> []" "concat (map signatures_of bs) \<noteq> []"
  shows "m_raw_blocks (finish_message loads (snd s)) = None \<and>
    kept_thinking (finish_message loads (snd s)) =
      [thinking_block (JStr (concat (map thoughts_of bs))) (JStr (concat (map signatures_of bs)))]"
  using assms by (simp add: after_blocks_def finish_message_def Let_def kept_thinking_def non_empty_def if_truthy_def del: concat_eq_Nil_conv)

section \<open>The thinking budget\<close>

text \<open>
  A budget of thinking tokens is at least the 1024 the API asks for, and below \<open>max_tokens\<close> whenever that
  is possible. With a smaller limit the budget is not smaller: the request then asks for more thinking than output.
\<close>

lemma thinking_budget_bounds: "1024 \<le> thinking_budget level n \<and> (1024 < n \<longrightarrow> thinking_budget level n < n)"
proof -
  obtain b where "thinking_budget level n = max 1024 (min b (n - 1))" unfolding thinking_budget_def Let_def by blast
  then show ?thesis by auto
qed

lemma small_limit_exceeded: "n \<le> 1024 \<Longrightarrow> n \<le> thinking_budget level n"
  by (simp add: thinking_budget_def Let_def)

text \<open>The cached and the newly cached tokens are part of the prompt tokens, from which the cost is computed.\<close>

lemma prompt_usage_total:
  assumes "prompt_usage_from_raw u = Some (p, r, w)" "int_field ''input_tokens'' u = Some n" "0 \<le> n"
  shows "(case r of None \<Rightarrow> 0 | Some x \<Rightarrow> x) + (case w of None \<Rightarrow> 0 | Some x \<Rightarrow> x) \<le> p"
  using assms by (auto simp: prompt_usage_from_raw_def none_if_zero_def bind_eq_Some_conv split: if_splits)

end
