(* ===== verification/Spec2Isabelle.thy ===== *)
theory Spec2Isabelle
  imports PatchAtomic PatchLocks StreamReplay Permission Assemble Todo HistoryProps Turn SessionProps SchedulerProps AnthropicStream
begin

text \<open>
  OpenAgentd is a local agent server: a web client posts a message, the agent loop asks a language
  model for a response, runs the tools the model calls, streams everything that happens to the
  attached clients and stores the conversation in a database. This development models the parts of
  the server that decide what the agent may touch, what it writes, what the clients see and what the
  model is told next. All paths below are relative to \<^verbatim>\<open>src/app/\<close>.

  \<^bold>\<open>The parts and how they interact.\<close>
  \<^item> A turn of a session (\<^verbatim>\<open>agent/session.py\<close>) loads the history (\<^verbatim>\<open>services/chat_service_messages.py\<close>) and
    runs the agent loop (\<^verbatim>\<open>agent/agent_loop/core.py\<close>) on it, with hooks before and around every model
    call: queued messages are injected (\<^verbatim>\<open>agent/hooks/queued_injection.py\<close>), a conversation that has grown too
    long is compacted (\<^verbatim>\<open>agent/hooks/summarization.py\<close>). At fixed points the loop calls the checkpointer
    (\<^verbatim>\<open>agent/checkpointer.py\<close>), which stores the new messages.
  \<^item> A model response is obtained by \<open>stream_with_retry\<close> (\<^verbatim>\<open>agent/agent_loop/retry.py\<close>) and put
    together by \<open>stream_and_assemble\<close> (\<^verbatim>\<open>agent/agent_loop/streaming.py\<close>).
  \<^item> Its tool calls are run in parallel by \<^verbatim>\<open>agent/agent_loop/tool_dispatch.py\<close> and \<open>tool_executor.py\<close>.
  \<^item> Every tool call is first approved by the permission service (\<^verbatim>\<open>agent/permission.py\<close>), and every
    path a tool touches goes through the denylist (\<^verbatim>\<open>agent/denied_paths.py\<close>).
  \<^item> The \<open>patch\<close> tool (\<^verbatim>\<open>agent/tools/builtin/filesystem/patch.py\<close>) changes files transactionally, under
    path locks; the \<open>todo_manage\<close> tool (\<^verbatim>\<open>agent/tools/builtin/todo.py\<close>) keeps the task list.
  \<^item> Events go to the stream store (\<^verbatim>\<open>services/memory_stream_store.py\<close>), to which clients attach and
    reconnect.
  \<^item> Messages are rows of the conversation (\<^verbatim>\<open>services/chat_service.py\<close>,
    \<^verbatim>\<open>services/chat_service_revert.py\<close>, \<^verbatim>\<open>services/chat_service_queue.py\<close>,
    \<^verbatim>\<open>services/question_service.py\<close>); the next request to the model is the window derived from them.
  \<^item> The provider back end translates that request into the format of the vendor and the response back
    (\<^verbatim>\<open>agent/providers/anthropic/anthropic.py\<close>).
  \<^item> Requests of the user start, stop and continue turns (\<^verbatim>\<open>agent/session.py\<close>, \<^verbatim>\<open>api/routes/agent/\<close>), and the
    scheduler (\<^verbatim>\<open>scheduler/scheduler.py\<close>) posts messages at fixed times.

  \<^bold>\<open>The theories.\<close>
  \<^descr> Prelude: Python strings, insertion-ordered dictionaries (association lists with
    \<open>AList.update\<close>), decimal numbers, loops that may raise (\<open>fold_err\<close>), and three interfaces: the locale
    \<open>loop_refinement\<close> (a raising loop refines a specification of its body), \<open>step_invariant\<close> (an
    invariant of a step relation) and its extension \<open>reachable_invariant\<close>.
  \<^descr> PatchParse: \<open>_clean_patch_text\<close>, \<open>_parse_patch\<close>, \<open>_reject_no_op_update\<close>. A section is the
    record \<open>file_patch\<close>, a hunk the record \<open>chunk\<close>; the nested functions and \<open>nonlocal\<close> variables of
    the parser are the record \<open>parse_state\<close>. Shown: what is parsed is well-formed, and parsing is
    inverse to rendering an envelope.
  \<^descr> PatchMatch: \<open>_find_line_matches\<close> up to \<open>_apply_chunks_with_meta\<close>. Shown: the result differs from
    the file in disjoint, ordered windows only; an unambiguous hunk is applied where it occurs; CRLF
    files stay CRLF.
  \<^descr> Glob, DeniedPaths: \<open>fnmatch\<close> and the class \<open>DeniedPathsConfig\<close> with the helpers of
    \<^verbatim>\<open>core/paths.py\<close>. The file system enters as the record \<open>os\<close> (the resolution of links, the test
    for a link and the creation of a directory, each of which may fail). Shown: which paths are accepted, exactly; that another
    session's artifacts and the server's own data cannot be reached; what the scan of a shell command
    decides.
  \<^descr> PatchCommit, PatchAtomic: \<open>_snapshot\<close>, \<open>_stage_file\<close>, \<open>_ensure_parent\<close> and \<open>_apply_patch\<close> on an
    explicit disk. Every system call can fail, as a fault plan (an argument) says, and another process
    may change files between planning and commit. Shown: the planning loop refines the sequential
    meaning of the envelope; a failing commit restores every file; a returning one has installed
    what the sections say; a conflict is reported and nothing is overwritten; on an answering disk
    the tool does return.
  \<^descr> PatchLocks: \<open>_checkout_lock\<close>, \<open>_checkin_lock\<close>, \<open>_acquire_all\<close>, \<open>_patch_file\<close> as a step relation of
    interleaved tasks with cancellation. Shown: mutual exclusion, no deadlock, exact reference counts.
  \<^descr> ToolState, StreamStore, StreamTimers, StreamReplay: \<open>_TurnState\<close> and every operation of the store;
    turn states have addresses, since the code keeps references to a state after it left the
    dictionary. A client of \<open>attach\<close> is a small machine: replay section by section, then
    the queue. Shown: no client is left waiting for ever, queues and turn lifetimes are
    bounded, and the replay rebuilds the turn.
  \<^descr> Permission: \<open>evaluate\<close>, \<open>PermissionService\<close>, \<open>AutoAllowPermissionService\<close> and the patterns built by
    \<open>wrap_tool_call\<close> of \<^verbatim>\<open>agent/hooks/stream_publisher.py\<close>. Shown: the last match decides, a denied call
    stays denied whatever is replied, remembered approvals last, a reply reaches only its request.
  \<^descr> Retry, Assemble: error classification, \<open>Retry-After\<close> parsing, back-off, the retry loop, the
    accumulators of a response and the filter of half-formed tool calls. Shown: the response is that
    of the successful attempt alone, the waiting time is bounded, permanent errors are raised at
    once, fragments of tool calls are joined per index, merging user messages loses white space only.
  \<^descr> Todo: validation of the actions, the five actions, acknowledgement and file. Shown: the list
    stays well-formed with ids never used twice, and implements a finite map of tasks.
  \<^descr> History, HistoryProps: rows, sparse positions, the derived window, undo and redo by a boundary,
    compaction, queued messages, healing of unanswered tool calls, durable questions. Shown:
    a staged undo and its clean-up give the same window; redo reverses undo; healing pairs every
    call once and does not touch a call that waits for the user; released messages follow the
    window in order; a question is resolved once.
  \<^descr> Transcript: the messages of a running conversation and the view \<open>messages_for_llm\<close> of them.
  \<^descr> MessageLoad, MessageLoadProps: from rows to messages, with the removal of broken calls and the repair
    of pairs. Shown: a loaded history pairs calls and results whatever the rows are and loses no user
    message.
  \<^descr> Summarize, SummarizeProps, SummaryReload: the compaction hook. Shown: the loop that keeps exchanges
    together computes a closure; compaction hides no half of an exchange; the window derived from the
    stored conversation is the one in memory.
  \<^descr> ToolExec: one tool call, the parallel batch under interrupts, questions. AgentLoop, AgentLoopProps: the
    loop with its budgets, finish reasons, interrupts and hooks. A hook is a function on the shared
    state; what the loop needs from it is the locale \<open>conversation_hook\<close> (a property of the conversation
    is kept), interpreted for every modelled hook. Shown: the loop ends after a bounded number of model
    calls; pairs stay whole through batches, cancellations, questions and compaction; an empty response
    that broke off is never kept.
  \<^descr> Checkpoint, CheckpointProps: the database checkpointer. Shown: a flush makes the derived window equal
    to the visible messages and is idempotent; a stored message is read back as it was.
  \<^descr> Turn: one turn of a session, from the database to the requests. Shown: every request of a turn pairs
    calls and results, without a condition on how the history came about.

  \<^descr> Session, SessionProps: the life cycle of \<open>AgentSession\<close> as a step relation: the routes and commands,
    turns as tasks that stop at their waiting points (created, running, taking the next queued message,
    notifying), cancellation, questions. Contracts between the session, its turns and the stream store are
    locales, interpreted on these steps. Shown: a running turn is alone and undisturbed; when no turn is
    under way the session is idle or waits for an open question. Both hold for runs that keep to the rules
    stated with them; three lemmas show runs outside the rules in which a session stays busy or a message
    stays in the queue.
  \<^descr> Scheduler, SchedulerProps: rows of scheduled tasks, timer loops and firings as tasks with their waiting
    points, the administrative operations. Shown: firings of a task do not overlap and none outlives the
    version of the task it was started for; the deliveries of a task are bounded by its \<open>max_runs\<close>.
    Two lemmas show how a late pause loses a count and how a refused slug leaves the timers stopped.
  \<^descr> Anthropic, AnthropicProps, AnthropicStream: \<open>_split_messages\<close> with the helpers that build blocks, \<open>_payload\<close>,
    the events of \<open>stream\<close>, \<open>_parse_response\<close>. Blocks are dictionaries, as in the code. Shown: the request for a
    stored history pairs calls and results from message to message; a streamed reply is replayed block by
    block; a reply read at once is the same as a streamed one; an error frame always fails the attempt and
    is retried like the HTTP error it stands for.

  \<^bold>\<open>Bounds and termination.\<close> No definition needs fuel except the retry loop, which counts down the five
  attempts (\<open>MAX_RETRIES\<close>) of the code. The queue size 2048, the idle time of one hour and the
  lifetime of four hours of the stream store are the constants of the code. Loops over
  data are structural recursions, or terminate by the length of the remaining text (\<open>replace_all\<close>,
  \<open>hyphen_chunks\<close>, \<open>glob_tokens\<close>). The fixed-point loop of compaction (\<open>expand_loop\<close>) terminates by the
  number of messages that are not yet included, the agent loop (\<open>agent_loop\<close>) by the iterations that
  are left and then the three resume attempts.

  \<^bold>\<open>Parameters.\<close> The provider (chunks and failure per attempt), the JSON decoder, the random jitter, the
  moments of an interrupt, the digest of file contents, the answers of the operating system, the
  snapshots of the workspace taken for undo, the tools, the wording of their errors, and per pass of the
  agent loop the moments at which an interrupt is seen, croniter, the model registry, the text of a value that is
  no string, the attachments of a message: they are arguments of the definitions that use them, and
  a property that relies on a behaviour of one of them says so in a hypothesis. Fresh identifiers
  (uuid4, uuid7) are numbers or increasing keys that have not been used before.

  \<^bold>\<open>Idealisations.\<close> Strings are lists of 8-bit characters, so Unicode white space and case folding
  beyond Latin-1 are outside the model. Timers of the event loop fire when they are due. A section of
  a replay is one step. Rows of the database are read and written atomically per operation.
  Log lines and the wording of error messages are not modelled.

  \<^bold>\<open>Not modelled.\<close> The other provider back ends, most HTTP routes, the command line, language servers, MCP,
  telemetry and migrations translate between formats of other systems or call them; the HTTP client itself,
  headers and log lines of the Anthropic back end are left out. What has logic of its own and would come next:
  the paged history views and the deletion of sessions (\<^verbatim>\<open>services/chat_service.py\<close>), the offloading of large
  tool results, slash commands, the table of live sessions and the task plumbing of interrupted streams.
\<close>

end
